(* ===== verification/Tick_Prelude.thy ===== *)
theory Tick_Prelude
  imports Main "HOL-Library.Word"
begin

text \<open>
  Shared vocabulary of the tickpipe development: names for the machine integers of
  \<^verbatim>\<open><cstdint>\<close>, raw memory as byte lists (reads through a pointer, bounded writes),
  big-endian fields with their round-trip laws, and the two interfaces the components
  share, stated as locales: a fixed-width wire field (\<open>wire_field\<close>) and a component
  whose operations keep an invariant (\<open>kept_invariant\<close>).
\<close>

unbundle bit_operations_syntax

section \<open>Machine integers\<close>

type_synonym u8 = "8 word"
type_synonym u16 = "16 word"
type_synonym u32 = "32 word"
type_synonym u64 = "64 word"
type_synonym u128 = "128 word"

text \<open>
  Signed integers are modelled as \<^typ>\<open>int\<close>, with the conversion to \<^verbatim>\<open>int64_t\<close> written
  out where the code casts. Overflow of signed arithmetic has no defined result in C++, so the
  components that compute on signed values prove that it stays in range.
\<close>

definition to_i64 :: "int \<Rightarrow> int" where
  "to_i64 x = sint (word_of_int x :: u64)"

definition fits_i64 :: "int \<Rightarrow> bool" where
  "fits_i64 x \<longleftrightarrow> - (2 ^ 63) \<le> x \<and> x < 2 ^ 63"

definition fits_i128 :: "int \<Rightarrow> bool" where
  "fits_i128 x \<longleftrightarrow> - (2 ^ 127) \<le> x \<and> x < 2 ^ 127"

lemma to_i64_id: "fits_i64 x \<Longrightarrow> to_i64 x = x"
  by (simp add: fits_i64_def to_i64_def sint_sbintrunc' signed_take_bit_int_eq_self)

section \<open>Collections of facts\<close>

named_theorems tp_layout \<open>lengths and offsets of wire layouts\<close>
named_theorems tp_frame \<open>fields an operation leaves alone\<close>
named_theorems tp_wire \<open>decoding of encoded fields\<close>

section \<open>Memory\<close>

text \<open>
  A pointer \<^verbatim>\<open>p\<close> into a readable object is the list of the bytes from \<^verbatim>\<open>p\<close> on;
  \<^verbatim>\<open>p + k\<close> is \<^term>\<open>drop k p\<close> and \<^verbatim>\<open>p[i]\<close> is \<^term>\<open>p ! i\<close>. A null pointer is
  \<^const>\<open>None\<close> where the code tests for it. A write of the bytes \<open>src\<close> at offset
  \<open>off\<close> of an object is \<open>mem_write\<close>: \<^const>\<open>None\<close> when the write leaves the object,
  which C++ does not define.
\<close>

type_synonym bytes = "u8 list"

definition mem_write :: "bytes \<Rightarrow> nat \<Rightarrow> bytes \<Rightarrow> bytes option" where
  "mem_write buf off src =
     (if off + length src \<le> length buf
      then Some (take off buf @ src @ drop (off + length src) buf) else None)"

text \<open>A read of \<open>n\<close> bytes at offset \<open>off\<close> of an object; \<^const>\<open>None\<close> when it leaves the object.\<close>

definition mem_read :: "bytes \<Rightarrow> nat \<Rightarrow> nat \<Rightarrow> bytes option" where
  "mem_read buf off n = (if off + n \<le> length buf then Some (take n (drop off buf)) else None)"

abbreviation byte_of :: "char \<Rightarrow> u8" where
  "byte_of c \<equiv> of_char c"

section \<open>Widening conversions\<close>

lemma unat_ucast_up:
  assumes "LENGTH('a) \<le> LENGTH('b)"
  shows "unat (ucast (w :: 'a::len word) :: 'b::len word) = unat w"
proof -
  have "unat w < 2 ^ LENGTH('a)" by (rule unsigned_less)
  also have "(2 :: nat) ^ LENGTH('a) \<le> 2 ^ LENGTH('b)"
    using assms by (rule power_increasing) simp
  finally show ?thesis by (simp add: unsigned_ucast_eq take_bit_nat_eq_self)
qed

section \<open>Big-endian integers\<close>

text \<open>
  \<open>be_word\<close> reads a run of bytes most significant first, \<open>be_bytes n\<close> writes the
  \<open>n\<close> low bytes of a word most significant first. They are the reference the fixed-width
  readers and writers of the components are compared with.
\<close>

definition be_word :: "bytes \<Rightarrow> 'a::len word" where
  "be_word bs = foldl (\<lambda>v b. push_bit 8 v OR ucast b) 0 bs"

fun be_bytes :: "nat \<Rightarrow> 'a::len word \<Rightarrow> bytes" where
  "be_bytes 0 w = []"
| "be_bytes (Suc n) w = ucast (drop_bit (8 * n) w) # be_bytes n w"

lemma length_be_bytes [simp, tp_layout]: "length (be_bytes n w) = n"
  by (induction n) auto

lemma foldl_be_bytes:
  "foldl (\<lambda>v b. push_bit 8 v OR ucast b) v (be_bytes n w) =
     push_bit (8 * n) v OR take_bit (8 * n) (w :: 'a::len word)"
proof (induction n arbitrary: v)
  case 0
  then show ?case by simp
next
  case (Suc n)
  show ?case
    by (rule bit_word_eqI) (auto simp: Suc.IH bit_simps algebra_simps)
qed

lemma be_word_be_bytes [tp_wire]:
  "LENGTH('a) \<le> 8 * n \<Longrightarrow> be_word (be_bytes n (w :: 'a::len word)) = w"
  by (simp add: be_word_def foldl_be_bytes take_bit_word_eq_self)

lemma be_word_append:
  "be_word (xs @ [x]) = (push_bit 8 (be_word xs) OR ucast x :: 'a::len word)"
  by (simp add: be_word_def)

lemma be_bytes_unfold:
  "be_bytes 2 v = [ucast (drop_bit 8 v), ucast v]"
  "be_bytes 4 w = [ucast (drop_bit 24 w), ucast (drop_bit 16 w), ucast (drop_bit 8 w), ucast w]"
  "be_bytes 8 x = [ucast (drop_bit 56 x), ucast (drop_bit 48 x), ucast (drop_bit 40 x),
     ucast (drop_bit 32 x), ucast (drop_bit 24 x), ucast (drop_bit 16 x), ucast (drop_bit 8 x),
     ucast x]"
  by (simp_all add: numeral_eq_Suc)

section \<open>Lists read through pointers\<close>

lemma nth_append_left: "i < length xs \<Longrightarrow> (xs @ ys) ! i = xs ! i"
  by (simp add: nth_append)

lemma take_eq_nth: "take n xs = take n ys \<Longrightarrow> i < n \<Longrightarrow> i < length xs \<Longrightarrow> i < length ys \<Longrightarrow> xs ! i = ys ! i"
  by (metis nth_take)

lemma foldl_nth_take:
  "n \<le> length p \<Longrightarrow> foldl (\<lambda>v i. f v (p ! i)) a [0..<n] = foldl f a (take n p)"
proof (induction n)
  case (Suc n)
  then show ?case by (simp add: take_Suc_conv_app_nth)
qed simp

lemma dropWhile_upt:
  assumes "dropWhile P [0..<n] = j # js"
  shows "j < n" and "\<not> P j" and "\<And>i. i < j \<Longrightarrow> P i" and "takeWhile P [0..<n] = [0..<j]"
proof -
  have all: "j < n \<and> \<not> P j \<and> takeWhile P [m..<n] = [m..<j] \<and> m \<le> j"
    if "dropWhile P [m..<n] = j # js" for m
    using that
  proof (induction "n - m" arbitrary: m)
    case 0
    then show ?case by simp
  next
    case (Suc k)
    then have u: "[m..<n] = m # [Suc m..<n]" by (simp add: upt_rec)
    show ?case
    proof (cases "P m")
      case True
      then have "dropWhile P [Suc m..<n] = j # js" using Suc.prems by (simp add: u)
      then have "j < n \<and> \<not> P j \<and> takeWhile P [Suc m..<n] = [Suc m..<j] \<and> Suc m \<le> j"
        using Suc.hyps by (intro Suc.hyps(1)) auto
      then show ?thesis using True by (simp add: u upt_rec [of m j])
    next
      case False
      then have "m = j" using Suc.prems by (simp add: u)
      with False u show ?thesis using Suc.hyps(2) by simp
    qed
  qed
  from all [OF assms] show "j < n" and "\<not> P j" and tw: "takeWhile P [0..<n] = [0..<j]" by auto
  show "P i" if "i < j" for i
    using set_takeWhileD [of i P "[0..<n]"] that tw by simp
qed

lemma count_list_update:
  assumes "i < length xs"
  shows "count_list (xs[i := v]) x + of_bool (xs ! i = x) = count_list xs x + of_bool (v = x)"
proof -
  have "count_list xs x = count_list (take i xs @ xs ! i # drop (Suc i) xs) x"
    using assms by (simp flip: id_take_nth_drop)
  then show ?thesis
    using assms by (simp add: upd_conv_take_nth_drop)
qed

lemma mem_write_length [tp_layout]: "mem_write buf off src = Some buf' \<Longrightarrow> length buf' = length buf"
  by (auto simp: mem_write_def split: if_splits)

lemma mem_write_in_range:
  "off + length src \<le> length buf \<Longrightarrow>
     mem_write buf off src = Some (take off buf @ src @ drop (off + length src) buf)"
  by (simp add: mem_write_def)

section \<open>Interface: a fixed-width wire field\<close>

text \<open>
  A writer and a reader of one field of \<open>width\<close> bytes. The reader sees what the writer wrote
  whatever follows it, and looks at no byte past the field.
\<close>

locale wire_field =
  fixes enc :: "'v \<Rightarrow> bytes"
    and dec :: "bytes \<Rightarrow> 'v"
    and width :: nat
  assumes length_enc: "length (enc v) = width"
    and dec_enc: "dec (enc v) = v"
    and dec_prefix: "width \<le> length xs \<Longrightarrow> dec (xs @ ys) = dec xs"
begin

lemma dec_enc_append: "dec (enc v @ rest) = v"
  by (simp add: dec_prefix dec_enc length_enc)

lemma dec_at: "length pre = k \<Longrightarrow> dec (drop k (pre @ enc v @ rest)) = v"
  by (simp add: dec_enc_append)

lemma enc_inject: "enc v = enc w \<longleftrightarrow> v = w"
  by (metis dec_enc)

lemma dec_take: "width \<le> length xs \<Longrightarrow> dec (take width xs) = dec xs"
  using dec_prefix [of "take width xs" "drop width xs"] by simp

end

section \<open>Sequences of operations\<close>

text \<open>A sequence of operations that return a value, or have no defined result (\<^const>\<open>None\<close>).\<close>

fun run_steps :: "('c \<Rightarrow> 's \<Rightarrow> ('x \<times> 's) option) \<Rightarrow> 'c list \<Rightarrow> 's \<Rightarrow> ('x list \<times> 's) option" where
  "run_steps step [] s = Some ([], s)"
| "run_steps step (c # cs) s =
     (case step c s of None \<Rightarrow> None
      | Some (x, s) \<Rightarrow> map_option (\<lambda>(xs, s). (x # xs, s)) (run_steps step cs s))"

section \<open>Interface: operations that keep an invariant\<close>

text \<open>
  A component is a state and an operation per event. What one operation keeps, every sequence
  of operations keeps.
\<close>

locale kept_invariant =
  fixes inv :: "'s \<Rightarrow> bool"
    and step :: "'e \<Rightarrow> 's \<Rightarrow> 's"
  assumes step_inv: "inv s \<Longrightarrow> inv (step e s)"
begin

lemma run_inv: "inv s \<Longrightarrow> inv (fold step es s)"
  by (induction es arbitrary: s) (auto intro: step_inv)

lemma run_mono:
  assumes "\<And>e s. inv s \<Longrightarrow> (m s :: 'm::preorder) \<le> m (step e s)" and "inv s"
  shows "m s \<le> m (fold step es s)"
  using assms(2)
proof (induction es arbitrary: s)
  case Nil
  then show ?case by simp
next
  case (Cons e es)
  have "m s \<le> m (step e s)" by (rule assms(1) [OF Cons.prems])
  also have "m (step e s) \<le> m (fold step es (step e s))"
    by (rule Cons.IH) (rule step_inv [OF Cons.prems])
  finally show ?case by simp
qed

end

end
