(* ===== verification/Itch_Parser.thy ===== *)
theory Itch_Parser
  imports Tick_Prelude
begin

text \<open>
  The ITCH 5.0 decoder (\<^verbatim>\<open>include/itch_parser.hpp\<close>, \<^verbatim>\<open>src/itch_parser.cpp\<close>): the message
  types with their fixed lengths, the \<^verbatim>\<open>Order\<close> struct every consumer works on, and
  \<^verbatim>\<open>ItchParser::parse\<close> with its four counters. Proved: when a message is accepted and which
  counter each outcome moves; that no byte past the message is read; and that each of the eight
  book messages, laid out as the specification says, decodes to its fields.
\<close>

section \<open>Data\<close>

datatype Side = Side_None | Buy | Sell

datatype Action = Action_None | Add | Execute | Cancel | Delete | Replace | Trade

record Order =
  o_timestamp_ns :: u64
  o_order_ref :: u64
  o_new_order_ref :: u64
  o_match_number :: u64
  o_quantity :: u32
  o_price :: u32
  o_stock_locate :: u16
  o_side :: Side
  o_action :: Action
  o_valid :: u8
  o_stock :: bytes

text \<open>\<^verbatim>\<open>Order{}\<close>: value initialisation, all fields zero.\<close>

definition Order_zero :: Order where
  "Order_zero = \<lparr>o_timestamp_ns = 0, o_order_ref = 0, o_new_order_ref = 0, o_match_number = 0,
     o_quantity = 0, o_price = 0, o_stock_locate = 0, o_side = Side_None, o_action = Action_None,
     o_valid = 0, o_stock = replicate 8 0\<rparr>"

record Counts =
  c_parsed :: u64
  c_ignored :: u64
  c_malformed :: u64
  c_unknown :: u64

definition Counts_zero :: Counts where
  "Counts_zero = \<lparr>c_parsed = 0, c_ignored = 0, c_malformed = 0, c_unknown = 0\<rparr>"

section \<open>Field readers\<close>

definition be16 :: "bytes \<Rightarrow> u16" where
  "be16 p = push_bit 8 (ucast (p ! 0)) OR ucast (p ! 1)"

definition be32 :: "bytes \<Rightarrow> u32" where
  "be32 p = push_bit 24 (ucast (p ! 0)) OR push_bit 16 (ucast (p ! 1))
     OR push_bit 8 (ucast (p ! 2)) OR ucast (p ! 3)"

definition be48 :: "bytes \<Rightarrow> u64" where
  "be48 p = foldl (\<lambda>v i. push_bit 8 v OR ucast (p ! i)) 0 [0..<6]"

definition be64 :: "bytes \<Rightarrow> u64" where
  "be64 p = foldl (\<lambda>v i. push_bit 8 v OR ucast (p ! i)) 0 [0..<8]"

section \<open>Message types\<close>

definition expected_length :: "u8 \<Rightarrow> u16" where
  "expected_length type =
    (if type = byte_of CHR ''S'' then 12
     else if type = byte_of CHR ''R'' then 39
     else if type = byte_of CHR ''H'' then 25
     else if type = byte_of CHR ''Y'' then 20
     else if type = byte_of CHR ''L'' then 26
     else if type = byte_of CHR ''V'' then 35
     else if type = byte_of CHR ''W'' then 12
     else if type = byte_of CHR ''K'' then 28
     else if type = byte_of CHR ''J'' then 35
     else if type = byte_of CHR ''h'' then 21
     else if type = byte_of CHR ''A'' then 36
     else if type = byte_of CHR ''F'' then 40
     else if type = byte_of CHR ''E'' then 31
     else if type = byte_of CHR ''C'' then 36
     else if type = byte_of CHR ''X'' then 23
     else if type = byte_of CHR ''D'' then 19
     else if type = byte_of CHR ''U'' then 35
     else if type = byte_of CHR ''P'' then 44
     else if type = byte_of CHR ''Q'' then 40
     else if type = byte_of CHR ''B'' then 19
     else if type = byte_of CHR ''I'' then 50
     else if type = byte_of CHR ''N'' then 20
     else 0)"

definition is_book_message :: "u8 \<Rightarrow> bool" where
  "is_book_message type \<longleftrightarrow>
     type = byte_of CHR ''A'' \<or> type = byte_of CHR ''F'' \<or> type = byte_of CHR ''E'' \<or>
     type = byte_of CHR ''C'' \<or> type = byte_of CHR ''X'' \<or> type = byte_of CHR ''D'' \<or>
     type = byte_of CHR ''U'' \<or> type = byte_of CHR ''P''"

section \<open>The parser\<close>

text \<open>
  The field assignments of the \<^verbatim>\<open>switch\<close>: \<^const>\<open>None\<close> is its \<^verbatim>\<open>default\<close> label. The
  argument \<open>out\<close> is the order with the two header fields already set.
\<close>

definition parse_body :: "u8 \<Rightarrow> bytes \<Rightarrow> Order \<Rightarrow> Order option" where
  "parse_body type data out =
    (if type = byte_of CHR ''A'' \<or> type = byte_of CHR ''F'' then
       Some (out\<lparr>o_action := Add, o_order_ref := be64 (drop 11 data),
         o_side := (if data ! 19 = byte_of CHR ''B'' then Buy else Sell),
         o_quantity := be32 (drop 20 data), o_stock := take 8 (drop 24 data),
         o_price := be32 (drop 32 data)\<rparr>)
     else if type = byte_of CHR ''E'' then
       Some (out\<lparr>o_action := Execute, o_order_ref := be64 (drop 11 data),
         o_quantity := be32 (drop 19 data), o_match_number := be64 (drop 23 data)\<rparr>)
     else if type = byte_of CHR ''C'' then
       Some (out\<lparr>o_action := Execute, o_order_ref := be64 (drop 11 data),
         o_quantity := be32 (drop 19 data),
         o_match_number := (if data ! 31 \<noteq> byte_of CHR ''Y'' then 0 else be64 (drop 23 data)),
         o_price := be32 (drop 32 data)\<rparr>)
     else if type = byte_of CHR ''X'' then
       Some (out\<lparr>o_action := Cancel, o_order_ref := be64 (drop 11 data),
         o_quantity := be32 (drop 19 data)\<rparr>)
     else if type = byte_of CHR ''D'' then
       Some (out\<lparr>o_action := Delete, o_order_ref := be64 (drop 11 data)\<rparr>)
     else if type = byte_of CHR ''U'' then
       Some (out\<lparr>o_action := Replace, o_order_ref := be64 (drop 11 data),
         o_new_order_ref := be64 (drop 19 data), o_quantity := be32 (drop 27 data),
         o_price := be32 (drop 31 data)\<rparr>)
     else if type = byte_of CHR ''P'' then
       Some (out\<lparr>o_action := Trade, o_order_ref := be64 (drop 11 data),
         o_side := (if data ! 19 = byte_of CHR ''B'' then Buy else Sell),
         o_quantity := be32 (drop 20 data), o_stock := take 8 (drop 24 data),
         o_price := be32 (drop 32 data), o_match_number := be64 (drop 36 data)\<rparr>)
     else None)"

text \<open>
  \<^verbatim>\<open>parse(data, len, out)\<close>: the result, the counters and the out parameter after the call.
\<close>

definition parse :: "bytes option \<Rightarrow> u32 \<Rightarrow> Counts \<Rightarrow> Order \<Rightarrow> bool \<times> Counts \<times> Order" where
  "parse data_ptr len cs out =
    (case data_ptr of
       None \<Rightarrow> (False, cs\<lparr>c_malformed := c_malformed cs + 1\<rparr>, out)
     | Some data \<Rightarrow>
        (if len < 11 then (False, cs\<lparr>c_malformed := c_malformed cs + 1\<rparr>, out)
         else
           let type = data ! 0; expect = expected_length type in
           if expect = 0 then (False, cs\<lparr>c_unknown := c_unknown cs + 1\<rparr>, out)
           else if len \<noteq> ucast expect then (False, cs\<lparr>c_malformed := c_malformed cs + 1\<rparr>, out)
           else if \<not> is_book_message type then (False, cs\<lparr>c_ignored := c_ignored cs + 1\<rparr>, out)
           else
             let hdr = Order_zero\<lparr>o_stock_locate := be16 (drop 1 data),
                                   o_timestamp_ns := be48 (drop 5 data)\<rparr> in
             (case parse_body type data hdr of
                None \<Rightarrow> (False, cs\<lparr>c_ignored := c_ignored cs + 1\<rparr>, hdr)
              | Some o' \<Rightarrow> (True, cs\<lparr>c_parsed := c_parsed cs + 1\<rparr>, o'\<lparr>o_valid := 1\<rparr>))))"

definition reset_counts :: "Counts \<Rightarrow> Counts" where
  "reset_counts cs = Counts_zero"

definition count_total :: "Counts \<Rightarrow> u64" where
  "count_total cs = c_parsed cs + c_ignored cs + c_malformed cs + c_unknown cs"

section \<open>The wire layout, as a specification\<close>

text \<open>
  The eight book messages of ITCH 5.0 with their fields, the bytes the exchange sends for each,
  and the order a receiver is meant to see. The layouts are those of the comments in
  \<^verbatim>\<open>src/itch_parser.cpp\<close>; the header is type, locate, tracking number and a 6-byte time.
\<close>

datatype itch_msg =
    AddOrder u64 bool u32 bytes u32
  | AddAttributed u64 bool u32 bytes u32 bytes
  | Executed u64 u32 u64
  | ExecutedAtPrice u64 u32 u64 u8 u32
  | Cancelled u64 u32
  | Deleted u64
  | Replaced u64 u64 u32 u32
  | NonCross u64 bool u32 bytes u32 u64

definition side_byte :: "bool \<Rightarrow> u8" where
  "side_byte buy = (if buy then byte_of CHR ''B'' else byte_of CHR ''S'')"

fun msg_type :: "itch_msg \<Rightarrow> u8" where
  "msg_type (AddOrder _ _ _ _ _) = byte_of CHR ''A''"
| "msg_type (AddAttributed _ _ _ _ _ _) = byte_of CHR ''F''"
| "msg_type (Executed _ _ _) = byte_of CHR ''E''"
| "msg_type (ExecutedAtPrice _ _ _ _ _) = byte_of CHR ''C''"
| "msg_type (Cancelled _ _) = byte_of CHR ''X''"
| "msg_type (Deleted _) = byte_of CHR ''D''"
| "msg_type (Replaced _ _ _ _) = byte_of CHR ''U''"
| "msg_type (NonCross _ _ _ _ _ _) = byte_of CHR ''P''"

fun msg_body :: "itch_msg \<Rightarrow> bytes" where
  "msg_body (AddOrder r buy q s p) =
     be_bytes 8 r @ [side_byte buy] @ be_bytes 4 q @ s @ be_bytes 4 p"
| "msg_body (AddAttributed r buy q s p mpid) =
     be_bytes 8 r @ [side_byte buy] @ be_bytes 4 q @ s @ be_bytes 4 p @ mpid"
| "msg_body (Executed r q m) = be_bytes 8 r @ be_bytes 4 q @ be_bytes 8 m"
| "msg_body (ExecutedAtPrice r q m printable p) =
     be_bytes 8 r @ be_bytes 4 q @ be_bytes 8 m @ [printable] @ be_bytes 4 p"
| "msg_body (Cancelled r q) = be_bytes 8 r @ be_bytes 4 q"
| "msg_body (Deleted r) = be_bytes 8 r"
| "msg_body (Replaced r r' q p) = be_bytes 8 r @ be_bytes 8 r' @ be_bytes 4 q @ be_bytes 4 p"
| "msg_body (NonCross r buy q s p m) =
     be_bytes 8 r @ [side_byte buy] @ be_bytes 4 q @ s @ be_bytes 4 p @ be_bytes 8 m"

fun msg_ok :: "itch_msg \<Rightarrow> bool" where
  "msg_ok (AddOrder _ _ _ s _) = (length s = 8)"
| "msg_ok (AddAttributed _ _ _ s _ mpid) = (length s = 8 \<and> length mpid = 4)"
| "msg_ok (NonCross _ _ _ s _ _) = (length s = 8)"
| "msg_ok _ = True"

definition wire :: "u16 \<Rightarrow> u16 \<Rightarrow> u64 \<Rightarrow> itch_msg \<Rightarrow> bytes" where
  "wire locate tracking ts m =
     [msg_type m] @ be_bytes 2 locate @ be_bytes 2 tracking @ be_bytes 6 ts @ msg_body m"

fun order_of :: "itch_msg \<Rightarrow> Order \<Rightarrow> Order" where
  "order_of (AddOrder r buy q s p) h = h\<lparr>o_action := Add, o_order_ref := r,
     o_side := (if buy then Buy else Sell), o_quantity := q, o_stock := s, o_price := p\<rparr>"
| "order_of (AddAttributed r buy q s p mpid) h = h\<lparr>o_action := Add, o_order_ref := r,
     o_side := (if buy then Buy else Sell), o_quantity := q, o_stock := s, o_price := p\<rparr>"
| "order_of (Executed r q m) h = h\<lparr>o_action := Execute, o_order_ref := r, o_quantity := q,
     o_match_number := m\<rparr>"
| "order_of (ExecutedAtPrice r q m printable p) h = h\<lparr>o_action := Execute, o_order_ref := r,
     o_quantity := q, o_match_number := (if printable = byte_of CHR ''Y'' then m else 0),
     o_price := p\<rparr>"
| "order_of (Cancelled r q) h = h\<lparr>o_action := Cancel, o_order_ref := r, o_quantity := q\<rparr>"
| "order_of (Deleted r) h = h\<lparr>o_action := Delete, o_order_ref := r\<rparr>"
| "order_of (Replaced r r' q p) h = h\<lparr>o_action := Replace, o_order_ref := r,
     o_new_order_ref := r', o_quantity := q, o_price := p\<rparr>"
| "order_of (NonCross r buy q s p m) h = h\<lparr>o_action := Trade, o_order_ref := r,
     o_side := (if buy then Buy else Sell), o_quantity := q, o_stock := s, o_price := p,
     o_match_number := m\<rparr>"

section \<open>Field readers agree with the wire format\<close>

lemma be16_word: "2 \<le> length p \<Longrightarrow> be16 p = be_word (take 2 p)"
proof -
  assume "2 \<le> length p"
  then obtain a b r where "p = a # b # r"
    by (metis Suc_le_length_iff numeral_2_eq_2)
  then show ?thesis by (simp add: be16_def be_word_def)
qed

lemma be32_word: "4 \<le> length p \<Longrightarrow> be32 p = be_word (take 4 p)"
proof -
  assume "4 \<le> length p"
  then obtain a b c d r where "p = a # b # c # d # r"
    by (auto simp: numeral_eq_Suc Suc_le_length_iff)
  then show ?thesis
    by (simp add: be32_def be_word_def push_bit_or or.assoc)
qed

lemma be48_word: "6 \<le> length p \<Longrightarrow> be48 p = be_word (take 6 p)"
  unfolding be48_def be_word_def by (rule foldl_nth_take)

lemma be64_word: "8 \<le> length p \<Longrightarrow> be64 p = be_word (take 8 p)"
  unfolding be64_def be_word_def by (rule foldl_nth_take)

interpretation f16: wire_field "be_bytes 2" be16 2
  by unfold_locales (simp_all add: be16_word be_word_be_bytes)

interpretation f32: wire_field "be_bytes 4" be32 4
  by unfold_locales (simp_all add: be32_word be_word_be_bytes)

interpretation f64: wire_field "be_bytes 8" be64 8
  by unfold_locales (simp_all add: be64_word be_word_be_bytes)

lemma be48_be_bytes: "be48 (be_bytes 6 w @ rest) = take_bit 48 w"
  by (simp add: be48_word) (simp add: be_word_def foldl_be_bytes)

lemma be48_prefix: "6 \<le> length xs \<Longrightarrow> be48 (xs @ ys) = be48 xs"
  by (simp add: be48_word)

lemma be_bytes_be48:
  assumes "length time = 6"
  shows "be_bytes 6 (be48 time) = time"
proof -
  obtain a b c d e f where time: "time = [a, b, c, d, e, f]" using assms by (auto simp: numeral_eq_Suc length_Suc_conv)
  have six: "be_bytes 6 w = [ucast (drop_bit 40 w), ucast (drop_bit 32 w), ucast (drop_bit 24 w), ucast (drop_bit 16 w),
      ucast (drop_bit 8 w), ucast w]" for w :: u64 by (simp add: numeral_eq_Suc)
  show ?thesis unfolding time six be48_word [of "[a, b, c, d, e, f]", simplified] be_word_def foldl.simps list.inject
    by (intro conjI refl; rule bit_word_eqI; auto simp: bit_simps dest: bit_imp_le_length)
qed

lemma be48_range:
  assumes "6 \<le> length time"
  shows "be48 time < 2 ^ 48"
proof -
  have "be_bytes 6 (be48 (take 6 time)) = take 6 time" using assms by (intro be_bytes_be48) simp
  moreover have "be48 (take 6 time) = be48 time" using assms by (simp add: be48_word)
  ultimately have "be48 time = take_bit 48 (be48 time)" using be48_be_bytes [of "be48 time" "[]"] assms by (simp add: be48_word)
  then have "unat (be48 time) = take_bit 48 (unat (be48 time))" by (metis unsigned_take_bit_eq)
  then have "unat (be48 time) < 2 ^ 48" by (metis take_bit_nat_less_exp)
  then show ?thesis by (simp add: word_less_nat_alt)
qed


section \<open>Bounds of the reads\<close>

lemmas field_prefix = f16.dec_prefix f32.dec_prefix f64.dec_prefix be48_prefix

lemma book_message_length:
  "is_book_message type \<Longrightarrow> 19 \<le> expected_length type"
  by (auto simp: is_book_message_def expected_length_def)

lemma parse_body_None [simp]: "parse_body type data out = None \<longleftrightarrow> \<not> is_book_message type"
  by (auto simp: is_book_message_def parse_body_def)

lemma parse_body_prefix:
  assumes "is_book_message type" and "unat (expected_length type) \<le> length xs"
  shows "parse_body type (xs @ ys) out = parse_body type xs out"
proof -
  consider "type = byte_of CHR ''A'' \<or> type = byte_of CHR ''F''" | "type = byte_of CHR ''E''"
    | "type = byte_of CHR ''C''" | "type = byte_of CHR ''X''" | "type = byte_of CHR ''D''"
    | "type = byte_of CHR ''U''" | "type = byte_of CHR ''P''"
    using assms(1) unfolding is_book_message_def by blast
  then show ?thesis
    using assms(2)
    by cases (auto simp: parse_body_def expected_length_def nth_append_left field_prefix)
qed

lemma parse_prefix:
  assumes "length xs = unat len"
  shows "parse (Some (xs @ ys)) len cs out = parse (Some xs) len cs out"
proof (cases "len < 11")
  case True
  then show ?thesis by (simp add: parse_def)
next
  case False
  then have len: "11 \<le> length xs"
    using assms by (simp add: word_less_nat_alt not_less)
  then have hd: "(xs @ ys) ! 0 = xs ! 0" by (cases xs) auto
  show ?thesis
  proof (cases "is_book_message (xs ! 0) \<and> len = ucast (expected_length (xs ! 0))")
    case True
    then have "unat (expected_length (xs ! 0)) \<le> length xs"
      using assms by (simp add: unat_ucast_up)
    with True have "parse_body (xs ! 0) (xs @ ys) out' = parse_body (xs ! 0) xs out'" for out'
      by (simp add: parse_body_prefix)
    then show ?thesis
      using len by (simp add: parse_def hd Let_def field_prefix)
  next
    case False
    then show ?thesis
      using len by (auto simp: parse_def hd Let_def field_prefix)
  qed
qed


section \<open>Outcomes\<close>

lemma parse_accepts_iff:
  "fst (parse (Some data) len cs out) \<longleftrightarrow>
     is_book_message (data ! 0) \<and> len = ucast (expected_length (data ! 0))"
proof (cases "is_book_message (data ! 0) \<and> len = ucast (expected_length (data ! 0))")
  case True
  then have "19 \<le> expected_length (data ! 0)" by (simp add: book_message_length)
  then have "expected_length (data ! 0) \<noteq> 0" and "\<not> len < 11"
    using True by (auto simp: word_less_nat_alt word_le_nat_alt unat_ucast_up)
  moreover obtain o' where "parse_body (data ! 0) data
      (Order_zero\<lparr>o_stock_locate := be16 (drop 1 data), o_timestamp_ns := be48 (drop 5 data)\<rparr>) = Some o'"
    using True parse_body_None by blast
  ultimately show ?thesis using True by (simp add: parse_def Let_def)
next
  case False
  then show ?thesis
    by (auto simp: parse_def Let_def split: option.split)
qed

lemma parse_outcome:
  assumes "parse data len cs out = (ok, cs', out')"
  shows "count_total cs' = count_total cs + 1"
    and "c_parsed cs' = c_parsed cs + of_bool ok"
    and "\<not> ok \<Longrightarrow> out' = out"
    and "ok \<Longrightarrow> o_valid out' = 1"
  using assms parse_body_None
  by (auto simp: parse_def Let_def count_total_def split: option.splits if_splits)

section \<open>Decoding\<close>

lemma length_wire:
  "msg_ok m \<Longrightarrow> length (wire locate tracking ts m) = unat (expected_length (msg_type m))"
  by (cases m) (auto simp: wire_def expected_length_def)

lemma msg_type_book [simp]: "is_book_message (msg_type m)"
  by (cases m) (auto simp: is_book_message_def)

lemma parse_body_wire:
  "msg_ok m \<Longrightarrow>
     parse_body (msg_type m) (wire locate tracking ts m) h = Some (order_of m h)"
  by (cases m)
     (auto simp: parse_body_def wire_def side_byte_def nth_append
        f64.dec_enc_append f32.dec_enc_append f64.dec_enc f32.dec_enc)

lemma order_of_valid: "(order_of m h)\<lparr>o_valid := v\<rparr> = order_of m (h\<lparr>o_valid := v\<rparr>)"
  by (cases m) simp_all

lemma wire_header:
  assumes "ts < 2 ^ 48"
  shows "wire locate tracking ts m ! 0 = msg_type m"
    and "be16 (drop 1 (wire locate tracking ts m)) = locate"
    and "be48 (drop 5 (wire locate tracking ts m)) = ts"
proof -
  have "unat ts < 2 ^ 48"
    using assms by (simp add: word_less_nat_alt)
  then have "take_bit 48 ts = ts"
    by (simp add: word_unat_eq_iff unsigned_take_bit_eq take_bit_nat_eq_self)
  then show "be48 (drop 5 (wire locate tracking ts m)) = ts"
    by (simp add: wire_def be48_be_bytes)
qed (simp_all add: wire_def f16.dec_enc_append)

lemma expected_length_book:
  "is_book_message type \<Longrightarrow>
     expected_length type \<noteq> 0 \<and> \<not> (ucast (expected_length type) :: u32) < 11"
  by (auto simp: is_book_message_def expected_length_def)

lemma parse_wire:
  assumes "msg_ok m" and "ts < 2 ^ 48"
  shows "parse (Some (wire locate tracking ts m))
           (of_nat (length (wire locate tracking ts m))) cs out =
         (True, cs\<lparr>c_parsed := c_parsed cs + 1\<rparr>,
          order_of m (Order_zero\<lparr>o_stock_locate := locate, o_timestamp_ns := ts, o_valid := 1\<rparr>))"
proof -
  have len: "(of_nat (length (wire locate tracking ts m)) :: u32) = ucast (expected_length (msg_type m))"
    by (simp add: length_wire [OF assms(1)])
  show ?thesis
    unfolding len parse_def
    by (simp add: wire_header [OF assms(2)] expected_length_book parse_body_wire [OF assms(1)]
        order_of_valid Let_def del: One_nat_def)
qed
section \<open>Properties\<close>

text \<open>
  C10. Round trip: every book message laid out as the ITCH specification says is accepted and
  decodes to exactly its fields, with the fields the message does not carry zero, and counts as
  one parsed message.
\<close>

theorem parse_roundtrip:
  assumes "msg_ok m" and "ts < 2 ^ 48"
  shows "parse (Some (wire locate tracking ts m))
           (of_nat (length (wire locate tracking ts m))) cs out =
         (True, cs\<lparr>c_parsed := c_parsed cs + 1\<rparr>,
          order_of m (Order_zero\<lparr>o_stock_locate := locate, o_timestamp_ns := ts, o_valid := 1\<rparr>))"
  using assms by (rule parse_wire)

theorem parse_roundtrip_witness:
  "msg_ok (AddOrder 1 True 100 [65, 65, 80, 76, 32, 32, 32, 32] 1500000) \<and>
   parse (Some (wire 1 0 256000000 (AddOrder 1 True 100 [65, 65, 80, 76, 32, 32, 32, 32] 1500000)))
     36 Counts_zero Order_zero =
   (True, Counts_zero\<lparr>c_parsed := 1\<rparr>,
    Order_zero\<lparr>o_stock_locate := 1, o_timestamp_ns := 256000000, o_valid := 1,
      o_action := Add, o_order_ref := 1, o_side := Buy, o_quantity := 100,
      o_stock := [65, 65, 80, 76, 32, 32, 32, 32], o_price := 1500000\<rparr>)"
  using parse_roundtrip [of "AddOrder 1 True 100 [65, 65, 80, 76, 32, 32, 32, 32] 1500000"
      256000000 1 0 Counts_zero Order_zero]
  by (simp add: wire_def Counts_zero_def)

text \<open>
  Memory safety: \<^verbatim>\<open>parse(data, len, out)\<close> looks at no byte past the first \<open>len\<close>. Two
  buffers that agree on those bytes give the same result, the same counters and the same order.
\<close>

lemma parse_stays_in_message:
  assumes "length xs = unat len"
  shows "parse (Some (xs @ ys)) len cs out = parse (Some (xs @ zs)) len cs out"
  using assms by (simp add: parse_prefix)

text \<open>
  Acceptance and accounting: a message is accepted exactly when its type is one of the eight
  book types and its length is the one fixed for that type; each call moves exactly one of the
  four counters by one, the parsed one exactly on acceptance; a rejected message leaves the out
  parameter as it was.
\<close>

lemma parse_accepts_and_counts:
  "case parse (Some data) len cs out of (ok, cs', out') \<Rightarrow>
     (ok = (is_book_message (data ! 0) \<and> len = ucast (expected_length (data ! 0)))) \<and>
     count_total cs' = count_total cs + 1 \<and>
     c_parsed cs' = c_parsed cs + of_bool ok \<and>
     (ok \<or> out' = out)"
proof -
  obtain ok cs' out' where r: "parse (Some data) len cs out = (ok, cs', out')"
    by (cases "parse (Some data) len cs out")
  have "ok = (is_book_message (data ! 0) \<and> len = ucast (expected_length (data ! 0)))"
    using parse_accepts_iff [of data len cs out] by (simp add: r)
  then show ?thesis
    using parse_outcome [OF r] by (auto simp: r)
qed

end
