(* ===== verification/Order_Table.thy ===== *)
theory Order_Table
  imports Itch_Parser "HOL-Library.Multiset"
begin

text \<open>
  The order-reference table of \<^verbatim>\<open>BookState\<close> (\<^verbatim>\<open>include/book_state.hpp\<close>,
  \<^verbatim>\<open>src/book_state.cpp\<close>): a fixed array of resting orders with open addressing, linear
  probing and tombstones. Proved: the table implements a finite map from order references to
  resting orders (the interface \<open>ref_table\<close>, interpreted on the table), every operation keeps
  the probe-chain invariant and the live count, and an insert is refused exactly when the
  reference is new and no slot has ever been left unused.
\<close>

section \<open>Data\<close>

record RestingOrder =
  ro_order_ref :: u64
  ro_quantity :: u32
  ro_price :: u32
  ro_side :: Side
  ro_stock :: bytes

record Stats =
  st_adds :: u64
  st_executes :: u64
  st_cancels :: u64
  st_deletes :: u64
  st_replaces :: u64
  st_trades :: u64
  st_unresolved :: u64
  st_table_full :: u64
  st_live :: u64
  st_peak_live :: u64
  st_max_probe :: u64

definition Stats_zero :: Stats where
  "Stats_zero = \<lparr>st_adds = 0, st_executes = 0, st_cancels = 0, st_deletes = 0, st_replaces = 0,
     st_trades = 0, st_unresolved = 0, st_table_full = 0, st_live = 0, st_peak_live = 0,
     st_max_probe = 0\<rparr>"

datatype slot_state = EMPTY | OCCUPIED | TOMBSTONE

record BookState =
  bs_slots :: "RestingOrder list"
  bs_state :: "slot_state list"
  bs_capacity :: u64
  bs_mask :: u64
  bs_stats :: Stats
  bs_digest :: u64

definition FNV_OFFSET :: u64 where
  "FNV_OFFSET = 0xcbf29ce484222325"

text \<open>
  The constructor. \<open>mem\<close> is the indeterminate content of the freshly allocated slot array.
\<close>

definition BookState_new :: "(nat \<Rightarrow> RestingOrder) \<Rightarrow> nat \<Rightarrow> BookState" where
  "BookState_new mem capacity_pow2 =
     \<lparr>bs_slots = map mem [0..<2 ^ capacity_pow2],
      bs_state = replicate (2 ^ capacity_pow2) EMPTY,
      bs_capacity = push_bit capacity_pow2 1,
      bs_mask = push_bit capacity_pow2 1 - 1,
      bs_stats = Stats_zero,
      bs_digest = FNV_OFFSET\<rparr>"

definition bs_reset :: "BookState \<Rightarrow> BookState" where
  "bs_reset b = b\<lparr>bs_state := replicate (unat (bs_capacity b)) EMPTY, bs_stats := Stats_zero,
     bs_digest := FNV_OFFSET\<rparr>"

section \<open>Hash\<close>

definition hash_ref :: "u64 \<Rightarrow> u64" where
  "hash_ref ref0 =
    (let r1 = ref0 XOR drop_bit 33 ref0;
         r2 = r1 * 0xff51afd7ed558ccd;
         r3 = r2 XOR drop_bit 33 r2;
         r4 = r3 * 0xc4ceb9fe1a85ec53
     in r4 XOR drop_bit 33 r4)"

section \<open>The open-addressing table\<close>

text \<open>
  The three probe loops. Each is the body of its \<^verbatim>\<open>while\<close>, with \<open>idx\<close> and
  \<open>probes\<close> as the loop variables; \<open>probe_left\<close> is what shrinks.
\<close>

definition probe_left :: "u64 \<Rightarrow> u64 \<Rightarrow> nat" where
  "probe_left cap probes = (if probes < cap then unat (cap - probes) else 2 ^ 64)"

lemma probe_left_less:
  assumes "\<not> cap \<le> probes + 1"
  shows "probe_left cap (probes + 1) < probe_left cap probes"
proof (cases "probes < cap")
  case True
  with assms show ?thesis
    unfolding probe_left_def by (simp add: not_le) unat_arith
next
  case False
  moreover have "unat (cap - (probes + 1)) < 2 ^ 64"
    using unsigned_less [of "cap - (probes + 1)", where 'a = nat] by simp
  ultimately show ?thesis
    using assms by (simp add: probe_left_def not_le)
qed

definition slot_holds :: "BookState \<Rightarrow> u64 \<Rightarrow> u64 \<Rightarrow> bool" where
  "slot_holds b ref idx \<longleftrightarrow>
     bs_state b ! unat idx = OCCUPIED \<and> ro_order_ref (bs_slots b ! unat idx) = ref"

function find_loop :: "BookState \<Rightarrow> u64 \<Rightarrow> u64 \<Rightarrow> u64 \<Rightarrow> (u64 \<times> u64) option" where
  "find_loop b ref idx probes =
     (if bs_state b ! unat idx = EMPTY then None
      else if slot_holds b ref idx then Some (idx, probes)
      else if bs_capacity b \<le> probes + 1 then None
      else find_loop b ref ((idx + 1) AND bs_mask b) (probes + 1))"
  by pat_completeness auto
termination
  by (relation "measure (\<lambda>(b, ref, idx, probes). probe_left (bs_capacity b) probes)")
     (auto simp: probe_left_less)

text \<open>\<^verbatim>\<open>find\<close> returns a pointer into the slots: its index, or null.\<close>

definition bs_find :: "BookState \<Rightarrow> u64 \<Rightarrow> BookState \<times> u64 option" where
  "bs_find b ref =
     (case find_loop b ref (hash_ref ref AND bs_mask b) 0 of
        None \<Rightarrow> (b, None)
      | Some (idx, probes) \<Rightarrow>
          (if st_max_probe (bs_stats b) < probes
           then b\<lparr>bs_stats := (bs_stats b)\<lparr>st_max_probe := probes\<rparr>\<rparr> else b, Some idx))"

datatype insert_end = Same_ref u64 | Hole u64 u64 int | Table_full

function insert_loop :: "BookState \<Rightarrow> u64 \<Rightarrow> u64 \<Rightarrow> u64 \<Rightarrow> int \<Rightarrow> insert_end" where
  "insert_loop b ref idx probes reuse =
     (if bs_state b ! unat idx = EMPTY then Hole idx probes reuse
      else if slot_holds b ref idx then Same_ref idx
      else
        let reuse' = (if bs_state b ! unat idx = TOMBSTONE \<and> reuse < 0 then sint idx else reuse) in
        if bs_capacity b \<le> probes + 1 then Table_full
        else insert_loop b ref ((idx + 1) AND bs_mask b) (probes + 1) reuse')"
  by pat_completeness auto
termination
  by (relation "measure (\<lambda>(b, ref, idx, probes, reuse). probe_left (bs_capacity b) probes)")
     (auto simp: probe_left_less)

definition bs_insert :: "BookState \<Rightarrow> RestingOrder \<Rightarrow> bool \<times> BookState" where
  "bs_insert b ro =
     (case insert_loop b (ro_order_ref ro) (hash_ref (ro_order_ref ro) AND bs_mask b) 0 (- 1) of
        Same_ref idx \<Rightarrow> (True, b\<lparr>bs_slots := (bs_slots b)[unat idx := ro]\<rparr>)
      | Table_full \<Rightarrow>
          (False, b\<lparr>bs_stats := (bs_stats b)\<lparr>st_table_full := st_table_full (bs_stats b) + 1\<rparr>\<rparr>)
      | Hole idx probes reuse \<Rightarrow>
          let idx = (if 0 \<le> reuse then word_of_int reuse else idx);
              s = bs_stats b;
              s = (if st_max_probe s < probes then s\<lparr>st_max_probe := probes\<rparr> else s);
              s = s\<lparr>st_live := st_live s + 1\<rparr>;
              s = (if st_peak_live s < st_live s then s\<lparr>st_peak_live := st_live s\<rparr> else s)
          in (True, b\<lparr>bs_slots := (bs_slots b)[unat idx := ro],
                bs_state := (bs_state b)[unat idx := OCCUPIED], bs_stats := s\<rparr>))"

text \<open>\<^verbatim>\<open>erase\<close> runs the same probe loop as \<^verbatim>\<open>find\<close> without recording its length.\<close>

definition bs_erase :: "BookState \<Rightarrow> u64 \<Rightarrow> bool \<times> BookState" where
  "bs_erase b ref =
     (case find_loop b ref (hash_ref ref AND bs_mask b) 0 of
        None \<Rightarrow> (False, b)
      | Some (idx, probes) \<Rightarrow>
          (True, b\<lparr>bs_state := (bs_state b)[unat idx := TOMBSTONE],
             bs_stats := (bs_stats b)\<lparr>st_live := st_live (bs_stats b) - 1\<rparr>\<rparr>))"

text \<open>A write through the pointer \<^verbatim>\<open>find\<close> returned: \<^verbatim>\<open>ro->quantity = q\<close>.\<close>

definition set_quantity :: "BookState \<Rightarrow> u64 \<Rightarrow> u32 \<Rightarrow> BookState" where
  "set_quantity b idx q =
     b\<lparr>bs_slots := (bs_slots b)[unat idx := (bs_slots b ! unat idx)\<lparr>ro_quantity := q\<rparr>]\<rparr>"

section \<open>What the table means\<close>

text \<open>
  \<open>table_inv\<close> is the state the operations keep: a power-of-two capacity; every occupied slot
  reachable from the home of its reference over slots that are not empty; no reference twice; the
  live counter equal to the number of occupied slots. \<open>table_map\<close> is the map the table
  stands for.
\<close>

definition table_shape :: "BookState \<Rightarrow> bool" where
  "table_shape b \<longleftrightarrow> (\<exists>k\<le>63. length (bs_slots b) = 2 ^ k \<and> length (bs_state b) = 2 ^ k \<and>
     bs_capacity b = push_bit k 1 \<and> bs_mask b = push_bit k 1 - 1)"

definition path :: "BookState \<Rightarrow> u64 \<Rightarrow> nat \<Rightarrow> nat" where
  "path b ref i = (unat (hash_ref ref AND bs_mask b) + i) mod length (bs_state b)"

definition holds_ref :: "BookState \<Rightarrow> u64 \<Rightarrow> nat \<Rightarrow> bool" where
  "holds_ref b ref j \<longleftrightarrow> bs_state b ! j = OCCUPIED \<and> ro_order_ref (bs_slots b ! j) = ref"

definition chain_ok :: "BookState \<Rightarrow> bool" where
  "chain_ok b \<longleftrightarrow> (\<forall>j<length (bs_state b). bs_state b ! j = OCCUPIED \<longrightarrow>
     (\<exists>d<length (bs_state b). path b (ro_order_ref (bs_slots b ! j)) d = j \<and>
        (\<forall>i<d. bs_state b ! path b (ro_order_ref (bs_slots b ! j)) i \<noteq> EMPTY)))"

definition refs_distinct :: "BookState \<Rightarrow> bool" where
  "refs_distinct b \<longleftrightarrow> (\<forall>i<length (bs_state b). \<forall>j<length (bs_state b).
     bs_state b ! i = OCCUPIED \<and> holds_ref b (ro_order_ref (bs_slots b ! i)) j \<longrightarrow> i = j)"

definition live_ok :: "BookState \<Rightarrow> bool" where
  "live_ok b \<longleftrightarrow> st_live (bs_stats b) = of_nat (count_list (bs_state b) OCCUPIED)"

definition table_inv :: "BookState \<Rightarrow> bool" where
  "table_inv b \<longleftrightarrow> table_shape b \<and> chain_ok b \<and> refs_distinct b \<and> live_ok b"

definition live_orders :: "BookState \<Rightarrow> RestingOrder list" where
  "live_orders b = map snd (filter (\<lambda>(s, ro). s = OCCUPIED) (zip (bs_state b) (bs_slots b)))"

definition table_map :: "BookState \<Rightarrow> u64 \<Rightarrow> RestingOrder option" where
  "table_map b ref = List.find (\<lambda>ro. ro_order_ref ro = ref) (live_orders b)"

definition has_empty :: "BookState \<Rightarrow> bool" where
  "has_empty b \<longleftrightarrow> EMPTY \<in> set (bs_state b)"

definition passed :: "BookState \<Rightarrow> u64 \<Rightarrow> nat \<Rightarrow> bool" where
  "passed b ref j \<longleftrightarrow> bs_state b ! path b ref j \<noteq> EMPTY \<and> \<not> holds_ref b ref (path b ref j)"

definition first_tombstone :: "BookState \<Rightarrow> u64 \<Rightarrow> int \<Rightarrow> nat list \<Rightarrow> int" where
  "first_tombstone b ref = foldl (\<lambda>u j.
     if bs_state b ! path b ref j = TOMBSTONE \<and> u < 0 then int (path b ref j) else u)"

text \<open>What filling slot \<open>t\<close> with \<open>ro\<close> does to the table.\<close>

definition occupied :: "BookState \<Rightarrow> nat \<Rightarrow> RestingOrder \<Rightarrow> BookState" where
  "occupied b t ro = b\<lparr>bs_slots := (bs_slots b)[t := ro], bs_state := (bs_state b)[t := OCCUPIED]\<rparr>"

definition vacated :: "BookState \<Rightarrow> nat \<Rightarrow> BookState" where
  "vacated b t = b\<lparr>bs_state := (bs_state b)[t := TOMBSTONE]\<rparr>"

datatype table_cmd = Insert_order RestingOrder | Erase_ref u64 | Find_ref u64 | Reset_table

fun table_step :: "table_cmd \<Rightarrow> BookState \<Rightarrow> BookState" where
  "table_step (Insert_order ro) b = snd (bs_insert b ro)"
| "table_step (Erase_ref ref) b = snd (bs_erase b ref)"
| "table_step (Find_ref ref) b = fst (bs_find b ref)"
| "table_step Reset_table b = bs_reset b"

section \<open>Lemmas\<close>

declare find_loop.simps [simp del] insert_loop.simps [simp del]

section \<open>Index arithmetic\<close>

lemma shape_mask:
  assumes "table_shape b"
  shows "unat (w AND bs_mask b) = unat w mod length (bs_state b)"
proof -
  from assms obtain k where k: "k \<le> 63" "length (bs_state b) = 2 ^ k" "bs_mask b = push_bit k 1 - 1"
    by (auto simp: table_shape_def)
  then have "w AND bs_mask b = take_bit k w"
    by (simp add: take_bit_eq_mask mask_eq_exp_minus_1 push_bit_eq_mult)
  then have "unat (w AND bs_mask b) = take_bit k (unat w)"
    by (simp only: unsigned_take_bit_eq)
  then show ?thesis
    by (simp only: take_bit_eq_mod k(2))
qed

lemma shape_cap:
  assumes "table_shape b"
  shows "unat (bs_capacity b) = length (bs_state b)" and "0 < length (bs_state b)"
    and "length (bs_state b) \<le> 2 ^ 63" and "length (bs_slots b) = length (bs_state b)"
proof -
  from assms obtain k where k: "k \<le> 63" "length (bs_state b) = 2 ^ k" "length (bs_slots b) = 2 ^ k"
    "bs_capacity b = push_bit k 1"
    by (auto simp: table_shape_def)
  have "(2 :: nat) ^ k < 2 ^ 64"
    using k(1) by (intro power_strict_increasing) auto
  then have "unat (push_bit k 1 :: u64) = 2 ^ k"
    using unat_of_nat [of "2 ^ k", where 'a = 64] by simp
  with k show "unat (bs_capacity b) = length (bs_state b)" by simp
  show "0 < length (bs_state b)" by (simp add: k)
  show "length (bs_state b) \<le> 2 ^ 63"
    unfolding k(2) using k(1) by (intro power_increasing) auto
  show "length (bs_slots b) = length (bs_state b)" by (simp add: k)
qed


lemma path_less: "table_shape b \<Longrightarrow> path b ref i < length (bs_state b)"
  unfolding path_def by (rule mod_less_divisor) (rule shape_cap(2))

lemma unat_next_index:
  assumes "table_shape b" and "unat idx = path b ref i"
  shows "unat ((idx + 1) AND bs_mask b) = path b ref (Suc i)"
proof -
  let ?n = "length (bs_state b)"
  have "unat idx < ?n" by (simp add: assms path_less)
  then have "unat idx + 1 < 2 ^ 64"
    using shape_cap(3) [OF assms(1)] by simp
  then have "unat (idx + 1) = unat idx + 1"
    by (simp add: unat_word_ariths)
  then show ?thesis
    by (simp add: shape_mask [OF assms(1)] assms(2)) (simp add: path_def mod_Suc_eq)
qed

lemma first_index:
  assumes "table_shape b"
  shows "unat (hash_ref ref AND bs_mask b) = path b ref 0"
  by (simp add: path_def shape_mask [OF assms])

lemma probe_end:
  assumes "table_shape b" and "unat probes < length (bs_state b)"
  shows "bs_capacity b \<le> probes + 1 \<longleftrightarrow> length (bs_state b) \<le> Suc (unat probes)"
    and "unat (probes + 1) = Suc (unat probes)"
proof -
  have "unat probes + 1 < 2 ^ 64"
    using assms shape_cap(3) [OF assms(1)] by simp
  then show eq: "unat (probes + 1) = Suc (unat probes)"
    by (simp add: unat_word_ariths)
  show "bs_capacity b \<le> probes + 1 \<longleftrightarrow> length (bs_state b) \<le> Suc (unat probes)"
    by (simp add: word_le_nat_alt eq shape_cap(1) [OF assms(1)])
qed

lemma path_onto:
  assumes "table_shape b" and "j < length (bs_state b)"
  obtains d where "d < length (bs_state b)" and "path b ref d = j"
proof
  let ?n = "length (bs_state b)" and ?h = "path b ref 0"
  have h: "?h < ?n" by (rule path_less [OF assms(1)])
  show "(j + ?n - ?h) mod ?n < ?n"
    by (rule mod_less_divisor) (rule shape_cap(2) [OF assms(1)])
  have "path b ref ((j + ?n - ?h) mod ?n) = (?h + (j + ?n - ?h)) mod ?n"
    by (simp add: path_def mod_simps)
  also have "?h + (j + ?n - ?h) = j + ?n" using h by simp
  finally show "path b ref ((j + ?n - ?h) mod ?n) = j" using assms(2) by simp
qed

section \<open>The probe loops as scans of the probe path\<close>

lemma unat_of_nat_small: "table_shape b \<Longrightarrow> m \<le> length (bs_state b) \<Longrightarrow> unat (of_nat m :: u64) = m"
  using shape_cap(3) [of b] by (simp add: unat_of_nat)

lemma slot_holds_iff: "slot_holds b ref idx \<longleftrightarrow> holds_ref b ref (unat idx)"
  by (simp add: slot_holds_def holds_ref_def)

lemma next_index:
  assumes "table_shape b"
  shows "(of_nat (path b ref i) + 1) AND bs_mask b = of_nat (path b ref (Suc i))"
proof -
  have *: "unat (of_nat (path b ref j) :: u64) = path b ref j" for j
    by (rule unat_of_nat_small [OF assms]) (simp add: path_less [OF assms] less_imp_le)
  show ?thesis
    by (rule unsigned_word_eqI, subst unat_next_index [OF assms *]) (simp add: *)
qed

lemma sint_index:
  assumes "table_shape b"
  shows "sint (of_nat (path b ref i) :: u64) = int (path b ref i)"
proof -
  have "path b ref i < 2 ^ 63"
    using path_less [OF assms, of ref i] shape_cap(3) [OF assms] by linarith
  then show ?thesis
    by (simp add: signed_of_nat signed_take_bit_int_eq_self)
qed

lemma probe_step:
  assumes "table_shape b" and "i < length (bs_state b)"
  shows "unat (of_nat (path b ref i) :: u64) = path b ref i"
    and "(of_nat i + 1 :: u64) = of_nat (Suc i)"
    and "bs_capacity b \<le> of_nat (Suc i) \<longleftrightarrow> \<not> Suc i < length (bs_state b)"
proof -
  have u: "unat (of_nat i :: u64) = i"
    using assms by (intro unat_of_nat_small) auto
  show s: "(of_nat i + 1 :: u64) = of_nat (Suc i)" by simp
  show "unat (of_nat (path b ref i) :: u64) = path b ref i"
    by (rule unat_of_nat_small [OF assms(1)]) (simp add: path_less [OF assms(1)] less_imp_le)
  show "bs_capacity b \<le> of_nat (Suc i) \<longleftrightarrow> \<not> Suc i < length (bs_state b)"
    using probe_end(1) [OF assms(1), of "of_nat i"] assms(2) by (simp add: u s not_less)
qed

lemma find_loop_scan:
  assumes "table_shape b" and "i < length (bs_state b)"
  shows "find_loop b ref (of_nat (path b ref i)) (of_nat i) =
    (case dropWhile (passed b ref) [i..<length (bs_state b)] of
       [] \<Rightarrow> None
     | j # _ \<Rightarrow> if bs_state b ! path b ref j = EMPTY then None
                else Some (of_nat (path b ref j), of_nat j))"
  using assms(2)
proof (induction "length (bs_state b) - i" arbitrary: i)
  case 0
  then show ?case by simp
next
  case (Suc n)
  note step = probe_step [OF assms(1) Suc.prems] next_index [OF assms(1)]
  have "[i..<length (bs_state b)] = i # [Suc i..<length (bs_state b)]"
    using Suc.prems by (simp add: upt_rec)
  then show ?case
    using Suc.hyps(1) [of "Suc i"] Suc.hyps(2)
    by (subst find_loop.simps) (auto simp: slot_holds_iff step passed_def simp del: of_nat_Suc)
qed

lemma insert_loop_scan:
  assumes "table_shape b" and "i < length (bs_state b)"
  shows "insert_loop b ref (of_nat (path b ref i)) (of_nat i) reuse =
    (case dropWhile (passed b ref) [i..<length (bs_state b)] of
       [] \<Rightarrow> Table_full
     | j # _ \<Rightarrow> if bs_state b ! path b ref j = EMPTY
                then Hole (of_nat (path b ref j)) (of_nat j)
                  (first_tombstone b ref reuse (takeWhile (passed b ref) [i..<length (bs_state b)]))
                else Same_ref (of_nat (path b ref j)))"
  using assms(2)
proof (induction "length (bs_state b) - i" arbitrary: i reuse)
  case 0
  then show ?case by simp
next
  case (Suc n)
  note step = probe_step [OF assms(1) Suc.prems] next_index [OF assms(1)] sint_index [OF assms(1)] passed_def [of b ref i]
  have "[i..<length (bs_state b)] = i # [Suc i..<length (bs_state b)]"
    using Suc.prems by (simp add: upt_rec)
  then show ?case
    using Suc.hyps(1) [of "Suc i"] Suc.hyps(2)
    by (subst insert_loop.simps)
       (auto simp: slot_holds_iff step first_tombstone_def Let_def simp del: of_nat_Suc dropWhile_eq_Nil_conv
         split: list.split)
qed

lemma first_tombstone_cases:
  "first_tombstone b ref u js = u \<or>
     (u < 0 \<and> (\<exists>j\<in>set js. bs_state b ! path b ref j = TOMBSTONE \<and>
        first_tombstone b ref u js = int (path b ref j)))"
proof (induction js arbitrary: u)
  case Nil
  then show ?case by (simp add: first_tombstone_def)
next
  case (Cons j js)
  let ?u = "if bs_state b ! path b ref j = TOMBSTONE \<and> u < 0 then int (path b ref j) else u"
  have "first_tombstone b ref u (j # js) = first_tombstone b ref ?u js"
    by (simp add: first_tombstone_def)
  then show ?case using Cons.IH [of ?u] by (auto split: if_splits)
qed

section \<open>The map of the occupied slots\<close>

lemma live_orders_iff:
  "length (bs_slots b) = length (bs_state b) \<Longrightarrow>
   ro \<in> set (live_orders b) \<longleftrightarrow> (\<exists>j<length (bs_state b). bs_state b ! j = OCCUPIED \<and> bs_slots b ! j = ro)"
  unfolding live_orders_def by (auto simp: set_zip image_iff) metis

lemma table_map_SomeI:
  assumes "length (bs_slots b) = length (bs_state b)" and "refs_distinct b"
    and "j < length (bs_state b)" and "holds_ref b ref j"
  shows "table_map b ref = Some (bs_slots b ! j)"
proof -
  have in_live: "bs_slots b ! j \<in> set (live_orders b)"
    using assms by (auto simp: live_orders_iff holds_ref_def)
  then obtain ro where ro: "table_map b ref = Some ro"
    using assms(4) unfolding table_map_def holds_ref_def
    by (cases "List.find (\<lambda>ro. ro_order_ref ro = ref) (live_orders b)") (auto simp: find_None_iff)
  then have "ro_order_ref ro = ref" and "ro \<in> set (live_orders b)"
    unfolding table_map_def by (auto simp: find_Some_iff)
  then obtain i where "i < length (bs_state b)" "bs_state b ! i = OCCUPIED" "bs_slots b ! i = ro"
    using assms(1) by (auto simp: live_orders_iff)
  with assms(2-4) \<open>ro_order_ref ro = ref\<close> have "i = j"
    by (auto simp: refs_distinct_def)
  with ro \<open>bs_slots b ! i = ro\<close> show ?thesis by simp
qed

lemma table_map_SomeD:
  assumes "length (bs_slots b) = length (bs_state b)" and "table_map b ref = Some ro"
  obtains j where "j < length (bs_state b)" "holds_ref b ref j" "bs_slots b ! j = ro"
proof -
  have "ro_order_ref ro = ref" and "ro \<in> set (live_orders b)"
    using assms(2) unfolding table_map_def by (auto simp: find_Some_iff)
  then show ?thesis
    using that assms(1) by (auto simp: live_orders_iff holds_ref_def)
qed

lemma table_map_None:
  assumes "length (bs_slots b) = length (bs_state b)"
  shows "table_map b ref = None \<longleftrightarrow> (\<forall>j<length (bs_state b). \<not> holds_ref b ref j)"
  unfolding table_map_def find_None_iff holds_ref_def
  using live_orders_iff [OF assms] by metis

lemma table_map_eqI:
  assumes "length (bs_slots b) = length (bs_state b)" and "refs_distinct b"
    and "\<And>ref ro. m ref = Some ro \<longleftrightarrow>
      (\<exists>j<length (bs_state b). holds_ref b ref j \<and> bs_slots b ! j = ro)"
  shows "table_map b = m"
proof
  fix ref
  show "table_map b ref = m ref"
  proof (cases "m ref")
    case None
    then have "\<forall>j<length (bs_state b). \<not> holds_ref b ref j" using assms(3) [of ref] by auto
    then show ?thesis using None by (simp add: table_map_None [OF assms(1)])
  next
    case (Some ro)
    then show ?thesis using assms(3) [of ref ro] table_map_SomeI [OF assms(1,2)] by auto
  qed
qed

lemma table_map_iff:
  assumes "length (bs_slots b) = length (bs_state b)" and "refs_distinct b"
  shows "table_map b ref = Some ro \<longleftrightarrow>
    (\<exists>j<length (bs_state b). holds_ref b ref j \<and> bs_slots b ! j = ro)"
  using table_map_SomeI [OF assms] table_map_SomeD [OF assms(1)] by metis

lemma scan_absent:
  assumes "chain_ok b"
    and "\<And>j js. dropWhile (passed b ref) [0..<length (bs_state b)] = j # js \<Longrightarrow>
           bs_state b ! path b ref j = EMPTY"
    and "k < length (bs_state b)"
  shows "\<not> holds_ref b ref k"
proof
  assume k: "holds_ref b ref k"
  with assms(1,3) obtain d where d: "d < length (bs_state b)" "path b ref d = k"
    "\<And>i. i < d \<Longrightarrow> bs_state b ! path b ref i \<noteq> EMPTY"
    unfolding chain_ok_def holds_ref_def by blast
  have not_passed: "\<not> passed b ref d" using d k by (simp add: passed_def)
  then obtain j js where j: "dropWhile (passed b ref) [0..<length (bs_state b)] = j # js"
    using d(1) by (cases "dropWhile (passed b ref) [0..<length (bs_state b)]") auto
  have "d \<le> j"
    using d(3) assms(2) [OF j] by (meson linorder_not_less)
  moreover have "\<not> d < j" using dropWhile_upt(3) [OF j] not_passed by blast
  ultimately have "d = j" by simp
  then show False using assms(2) [OF j] d(2) k by (simp add: holds_ref_def)
qed

section \<open>Filling and vacating a slot\<close>

lemma path_frame [tp_frame]:
  "bs_mask b' = bs_mask b \<Longrightarrow> length (bs_state b') = length (bs_state b) \<Longrightarrow> path b' = path b"
  by (simp add: path_def fun_eq_iff)

lemma inv_lengths: "table_inv b \<Longrightarrow> length (bs_slots b) = length (bs_state b)"
  by (simp add: table_inv_def shape_cap)

lemma holds_occupied:
  assumes "t < length (bs_state b)" "length (bs_slots b) = length (bs_state b)"
  shows "holds_ref (occupied b t ro) ref j \<longleftrightarrow>
           (if j = t then ro_order_ref ro = ref else holds_ref b ref j)"
  using assms by (auto simp: holds_ref_def occupied_def nth_list_update)

lemma holds_vacated:
  assumes "t < length (bs_state b)"
  shows "holds_ref (vacated b t) ref j \<longleftrightarrow> j \<noteq> t \<and> holds_ref b ref j"
  using assms by (auto simp: holds_ref_def vacated_def nth_list_update)

lemma refs_distinct_alt:
  "refs_distinct b \<longleftrightarrow> (\<forall>ref. \<forall>i<length (bs_state b). \<forall>j<length (bs_state b).
     holds_ref b ref i \<longrightarrow> holds_ref b ref j \<longrightarrow> i = j)"
  by (auto simp: refs_distinct_def holds_ref_def)

lemma occupied_laws:
  assumes "table_shape b" "refs_distinct b" "t < length (bs_state b)"
    and others: "\<And>j. j < length (bs_state b) \<Longrightarrow> j \<noteq> t \<Longrightarrow> \<not> holds_ref b (ro_order_ref ro) j"
    and slot: "bs_state b ! t = OCCUPIED \<Longrightarrow> holds_ref b (ro_order_ref ro) t"
  shows "refs_distinct (occupied b t ro)"
    and "table_map (occupied b t ro) = (table_map b)(ro_order_ref ro \<mapsto> ro)"
proof -
  note len = shape_cap(4) [OF assms(1)]
  note holds = holds_occupied [OF assms(3) len]
  have len': "length (bs_state (occupied b t ro)) = length (bs_state b)"
    "length (bs_slots (occupied b t ro)) = length (bs_state b)"
    by (simp_all add: occupied_def len)
  show dist: "refs_distinct (occupied b t ro)"
    using assms(2) others unfolding refs_distinct_alt len' by (auto simp: holds)
  show "table_map (occupied b t ro) = (table_map b)(ro_order_ref ro \<mapsto> ro)"
  proof (rule table_map_eqI)
    fix ref ro'
    have at: "bs_slots (occupied b t ro) ! j = (if j = t then ro else bs_slots b ! j)" for j
      using assms(3) len by (simp add: occupied_def)
    have "holds_ref b ref t \<Longrightarrow> ref = ro_order_ref ro" for ref
      using slot by (auto simp: holds_ref_def)
    then show "((table_map b)(ro_order_ref ro \<mapsto> ro)) ref = Some ro' \<longleftrightarrow>
        (\<exists>j<length (bs_state (occupied b t ro)).
           holds_ref (occupied b t ro) ref j \<and> bs_slots (occupied b t ro) ! j = ro')"
      using others assms(3) unfolding len' holds at
      by (auto simp: table_map_iff [OF len assms(2)]) metis
  qed (simp_all add: len' dist)
qed

lemma occupied_chain:
  assumes "table_shape b" "chain_ok b" "d < length (bs_state b)"
    and "\<And>i. i < d \<Longrightarrow> bs_state b ! path b (ro_order_ref ro) i \<noteq> EMPTY"
  shows "chain_ok (occupied b (path b (ro_order_ref ro) d) ro)"
proof -
  let ?b = "occupied b (path b (ro_order_ref ro) d) ro"
  have t: "path b (ro_order_ref ro) d < length (bs_state b)" by (rule path_less [OF assms(1)])
  have p: "path ?b = path b" by (rule path_frame) (simp_all add: occupied_def)
  have st: "bs_state ?b ! j = (if j = path b (ro_order_ref ro) d then OCCUPIED else bs_state b ! j)" for j
    using t by (simp add: occupied_def nth_list_update)
  have sl: "bs_slots ?b ! j = (if j = path b (ro_order_ref ro) d then ro else bs_slots b ! j)" for j
    using t shape_cap(4) [OF assms(1)] by (simp add: occupied_def nth_list_update)
  have len: "length (bs_state ?b) = length (bs_state b)" by (simp add: occupied_def)
  show ?thesis
    unfolding chain_ok_def p len
  proof (intro allI impI)
    fix j assume j: "j < length (bs_state b)" "bs_state ?b ! j = OCCUPIED"
    show "\<exists>e<length (bs_state b). path b (ro_order_ref (bs_slots ?b ! j)) e = j \<and>
        (\<forall>i<e. bs_state ?b ! path b (ro_order_ref (bs_slots ?b ! j)) i \<noteq> EMPTY)"
    proof (cases "j = path b (ro_order_ref ro) d")
      case True
      then show ?thesis using assms(3,4) by (intro exI [of _ d]) (auto simp: st sl)
    next
      case False
      then obtain e where "e < length (bs_state b)" "path b (ro_order_ref (bs_slots b ! j)) e = j"
        "\<forall>i<e. bs_state b ! path b (ro_order_ref (bs_slots b ! j)) i \<noteq> EMPTY"
        using assms(2) j unfolding chain_ok_def by (auto simp: st)
      then show ?thesis using False by (intro exI [of _ e]) (auto simp: st sl)
    qed
  qed
qed

lemma vacated_laws:
  assumes "table_shape b" "refs_distinct b" "t < length (bs_state b)" "holds_ref b ref t"
  shows "refs_distinct (vacated b t)"
    and "table_map (vacated b t) = (table_map b)(ref := None)"
proof -
  note len = shape_cap(4) [OF assms(1)]
  have len': "length (bs_state (vacated b t)) = length (bs_state b)"
    "bs_slots (vacated b t) = bs_slots b"
    by (simp_all add: vacated_def)
  have only: "holds_ref b ref j \<Longrightarrow> j < length (bs_state b) \<Longrightarrow> j = t" for j
    using assms(2-4) unfolding refs_distinct_alt by blast
  have at_t: "holds_ref b r t \<Longrightarrow> r = ref" for r using assms(4) by (simp add: holds_ref_def)
  show dist: "refs_distinct (vacated b t)"
    using assms(2) unfolding refs_distinct_alt len' holds_vacated [OF assms(3)] by blast
  show "table_map (vacated b t) = (table_map b)(ref := None)"
  proof (rule table_map_eqI)
    fix r ro
    show "((table_map b)(ref := None)) r = Some ro \<longleftrightarrow>
        (\<exists>j<length (bs_state (vacated b t)). holds_ref (vacated b t) r j \<and> bs_slots (vacated b t) ! j = ro)"
      unfolding len' holds_vacated [OF assms(3)] fun_upd_apply table_map_iff [OF len assms(2), of r ro]
      using only at_t
      by (metis (mono_tags, lifting) option.distinct(1) table_map_iff [OF len assms(2), of r ro])
  qed (simp_all add: len' dist len)
qed

lemma vacated_chain:
  assumes "table_shape b" "chain_ok b" "t < length (bs_state b)"
  shows "chain_ok (vacated b t)"
proof -
  have p: "path (vacated b t) = path b" by (rule path_frame) (simp_all add: vacated_def)
  have st: "bs_state (vacated b t) ! j = (if j = t then TOMBSTONE else bs_state b ! j)" for j
    using assms(3) by (simp add: vacated_def nth_list_update)
  have sl: "bs_slots (vacated b t) = bs_slots b" "length (bs_state (vacated b t)) = length (bs_state b)"
    by (simp_all add: vacated_def)
  show ?thesis
    unfolding chain_ok_def p sl
  proof (intro allI impI)
    fix j assume "j < length (bs_state b)" "bs_state (vacated b t) ! j = OCCUPIED"
    then obtain e where "e < length (bs_state b)" "path b (ro_order_ref (bs_slots b ! j)) e = j"
      "\<forall>i<e. bs_state b ! path b (ro_order_ref (bs_slots b ! j)) i \<noteq> EMPTY"
      using assms(2) unfolding chain_ok_def by (auto simp: st split: if_splits)
    then show "\<exists>d<length (bs_state b). path b (ro_order_ref (bs_slots b ! j)) d = j \<and>
        (\<forall>i<d. bs_state (vacated b t) ! path b (ro_order_ref (bs_slots b ! j)) i \<noteq> EMPTY)"
      by (intro exI [of _ e]) (simp add: st)
  qed
qed

section \<open>Laws of the operations\<close>

lemma table_inv_frame [tp_frame]:
  "st_live s = st_live (bs_stats b) \<Longrightarrow> table_inv (b\<lparr>bs_stats := s\<rparr>) = table_inv b"
  "table_inv (b\<lparr>bs_digest := d\<rparr>) = table_inv b"
  by (simp_all add: table_inv_def table_shape_def chain_ok_def refs_distinct_def live_ok_def
      holds_ref_def path_def)

lemma table_map_frame [simp, tp_frame]:
  "table_map (b\<lparr>bs_stats := s\<rparr>) = table_map b"
  "table_map (b\<lparr>bs_digest := d\<rparr>) = table_map b"
  "has_empty (b\<lparr>bs_stats := s\<rparr>) = has_empty b"
  "has_empty (b\<lparr>bs_digest := d\<rparr>) = has_empty b"
  by (simp_all add: table_map_def live_orders_def has_empty_def fun_eq_iff)

lemma hash_start: "table_shape b \<Longrightarrow> hash_ref ref AND bs_mask b = of_nat (path b ref 0)"
  by (metis first_index of_nat_unat ucast_id)

lemma find_loop_None:
  assumes "table_inv b" and "find_loop b ref (hash_ref ref AND bs_mask b) 0 = None"
  shows "table_map b ref = None"
proof -
  have sh: "table_shape b" and ch: "chain_ok b" using assms(1) by (auto simp: table_inv_def)
  have scan: "find_loop b ref (hash_ref ref AND bs_mask b) 0 =
      (case dropWhile (passed b ref) [0..<length (bs_state b)] of
         [] \<Rightarrow> None
       | j # _ \<Rightarrow> if bs_state b ! path b ref j = EMPTY then None
                  else Some (of_nat (path b ref j), of_nat j))"
    using find_loop_scan [OF sh shape_cap(2) [OF sh], of ref] by (simp add: hash_start [OF sh])
  have "\<not> holds_ref b ref k" if "k < length (bs_state b)" for k
    using ch _ that
  proof (rule scan_absent)
    fix j js assume "dropWhile (passed b ref) [0..<length (bs_state b)] = j # js"
    then show "bs_state b ! path b ref j = EMPTY"
      using assms(2) scan by (simp split: if_splits)
  qed
  then show ?thesis by (simp add: table_map_None inv_lengths [OF assms(1)])
qed

lemma find_loop_Some:
  assumes "table_inv b" and "find_loop b ref (hash_ref ref AND bs_mask b) 0 = Some (idx, p)"
  shows "unat idx < length (bs_state b)" and "holds_ref b ref (unat idx)"
    and "table_map b ref = Some (bs_slots b ! unat idx)"
proof -
  have sh: "table_shape b" using assms(1) by (auto simp: table_inv_def)
  obtain j js where j: "dropWhile (passed b ref) [0..<length (bs_state b)] = j # js"
    "bs_state b ! path b ref j \<noteq> EMPTY" "idx = of_nat (path b ref j)"
    using find_loop_scan [OF sh shape_cap(2) [OF sh], of ref] assms(2)
    by (auto simp: hash_start [OF sh] split: list.splits if_splits)
  then have idx: "unat idx = path b ref j"
    using probe_step(1) [OF sh dropWhile_upt(1) [OF j(1)]] by simp
  show "unat idx < length (bs_state b)" by (simp add: idx path_less [OF sh])
  show "holds_ref b ref (unat idx)"
    using dropWhile_upt(2) [OF j(1)] j(2) by (simp add: passed_def idx)
  then show "table_map b ref = Some (bs_slots b ! unat idx)"
    using \<open>unat idx < length (bs_state b)\<close> assms(1)
    by (intro table_map_SomeI) (auto simp: inv_lengths table_inv_def)
qed

lemma find_loop_distance:
  assumes "table_inv b" and "find_loop b ref (hash_ref ref AND bs_mask b) 0 = Some (idx, p)"
  shows "\<exists>d < length (bs_state b). unat idx = path b ref d \<and> p = of_nat d"
proof -
  have sh: "table_shape b" using assms(1) by (auto simp: table_inv_def)
  obtain j js where j: "dropWhile (passed b ref) [0..<length (bs_state b)] = j # js"
    "idx = of_nat (path b ref j)" "p = of_nat j"
    using find_loop_scan [OF sh shape_cap(2) [OF sh], of ref] assms(2)
    by (auto simp: hash_start [OF sh] split: list.splits if_splits)
  then show ?thesis using probe_step(1) [OF sh dropWhile_upt(1) [OF j(1)]] dropWhile_upt(1) [OF j(1)] by auto
qed

lemma bs_find_frame:
  assumes "bs_find b ref = (b', r)"
  shows "b' = b\<lparr>bs_stats := bs_stats b'\<rparr>" and "st_live (bs_stats b') = st_live (bs_stats b)"
    and "r = map_option fst (find_loop b ref (hash_ref ref AND bs_mask b) 0)"
  using assms by (auto simp: bs_find_def split: option.splits if_splits)

lemma bs_find_law:
  assumes "table_inv b" and "bs_find b ref = (b', r)"
  shows "table_inv b'" and "table_map b' = table_map b" and "has_empty b' = has_empty b"
    and "table_map b ref = map_option (\<lambda>idx. bs_slots b' ! unat idx) r"
    and "r = Some idx \<Longrightarrow> unat idx < length (bs_state b') \<and> holds_ref b' ref (unat idx)"
proof -
  obtain s where s: "b' = b\<lparr>bs_stats := s\<rparr>" "st_live s = st_live (bs_stats b)"
    using bs_find_frame(1,2) [OF assms(2)] by blast
  show "table_inv b'" unfolding s(1) using assms(1) by (simp only: table_inv_frame(1) [OF s(2)])
  show "table_map b' = table_map b" "has_empty b' = has_empty b" by (simp_all add: s(1))
  note r = bs_find_frame(3) [OF assms(2)]
  show "table_map b ref = map_option (\<lambda>idx. bs_slots b' ! unat idx) r"
  proof (cases "find_loop b ref (hash_ref ref AND bs_mask b) 0")
    case None
    then show ?thesis using find_loop_None [OF assms(1)] r by simp
  next
    case (Some x)
    then show ?thesis using find_loop_Some(3) [OF assms(1)] r by (cases x) (simp add: s(1))
  qed
  have "holds_ref b' = holds_ref b" by (simp add: holds_ref_def fun_eq_iff s(1))
  then show "unat idx < length (bs_state b') \<and> holds_ref b' ref (unat idx)" if "r = Some idx"
    using that r find_loop_Some(1,2) [OF assms(1)] by (auto simp: s(1))
qed

lemma bs_erase_law:
  assumes "table_inv b" and "bs_erase b ref = (ok, b')"
  shows "table_inv b'" and "table_map b' = (table_map b)(ref := None)"
    and "ok \<longleftrightarrow> table_map b ref \<noteq> None" and "has_empty b' = has_empty b"
    and "bs_mask b' = bs_mask b"
proof -
  have inv: "table_shape b" "chain_ok b" "refs_distinct b" "live_ok b"
    using assms(1) by (auto simp: table_inv_def)
  have "table_inv b' \<and> table_map b' = (table_map b)(ref := None) \<and>
      (ok \<longleftrightarrow> table_map b ref \<noteq> None) \<and> has_empty b' = has_empty b \<and> bs_mask b' = bs_mask b"
  proof (cases "find_loop b ref (hash_ref ref AND bs_mask b) 0")
    case None
    then show ?thesis
      using assms find_loop_None [OF assms(1) None] by (auto simp: bs_erase_def)
  next
    case (Some x)
    then obtain idx p where Some: "find_loop b ref (hash_ref ref AND bs_mask b) 0 = Some (idx, p)"
      by (cases x) auto
    note hit = find_loop_Some [OF assms(1) Some]
    let ?v = "vacated b (unat idx)" and ?s = "(bs_stats b)\<lparr>st_live := st_live (bs_stats b) - 1\<rparr>"
    have b': "b' = ?v\<lparr>bs_stats := ?s\<rparr>" "ok"
      using assms(2) Some by (auto simp: bs_erase_def vacated_def)
    have occ: "bs_state b ! unat idx = OCCUPIED" using hit(2) by (simp add: holds_ref_def)
    have "count_list ((bs_state b)[unat idx := TOMBSTONE]) OCCUPIED + 1 = count_list (bs_state b) OCCUPIED"
      using count_list_update [OF hit(1), of TOMBSTONE OCCUPIED] occ by simp
    then have "live_ok b'"
      using inv(4) unfolding b' live_ok_def
      by (simp add: vacated_def) (metis add_diff_cancel_left' of_nat_Suc)
    moreover have "table_shape b'" using inv(1) by (simp add: b' vacated_def table_shape_def)
    moreover have "refs_distinct b'" "chain_ok b'"
      using vacated_laws(1) [OF inv(1,3) hit(1,2)] vacated_chain [OF inv(1,2) hit(1)]
      by (simp_all add: b' refs_distinct_def chain_ok_def holds_ref_def path_def)
    moreover have "has_empty b' = has_empty b"
      unfolding has_empty_def b' using occ hit(1)
      by (auto simp: vacated_def in_set_conv_nth nth_list_update) (metis slot_state.distinct(1))
    ultimately show ?thesis
      using vacated_laws(2) [OF inv(1,3) hit(1,2)] hit(3)
      by (simp add: b' table_inv_def vacated_def)
  qed
  then show "table_inv b'" and "table_map b' = (table_map b)(ref := None)"
    and "ok \<longleftrightarrow> table_map b ref \<noteq> None" and "has_empty b' = has_empty b"
    and "bs_mask b' = bs_mask b" by auto
qed

lemma insert_loop_result:
  assumes "table_inv b"
  shows "case insert_loop b ref (hash_ref ref AND bs_mask b) 0 (- 1) of
      Table_full \<Rightarrow> \<not> has_empty b \<and> table_map b ref = None
    | Same_ref idx \<Rightarrow> unat idx < length (bs_state b) \<and> holds_ref b ref (unat idx)
    | Hole idx p u \<Rightarrow> has_empty b \<and> table_map b ref = None \<and>
        (\<exists>d<length (bs_state b).
           unat (if 0 \<le> u then word_of_int u else idx) = path b ref d \<and>
           bs_state b ! path b ref d \<noteq> OCCUPIED \<and>
           (\<forall>i<d. bs_state b ! path b ref i \<noteq> EMPTY))"
proof -
  let ?n = "length (bs_state b)" and ?dw = "dropWhile (passed b ref) [0..<length (bs_state b)]"
  have sh: "table_shape b" and ch: "chain_ok b" using assms by (auto simp: table_inv_def)
  have small: "unat (of_nat (path b ref i) :: u64) = path b ref i" for i
    by (rule unat_of_nat_small [OF sh]) (simp add: path_less [OF sh] less_imp_le)
  note scan = insert_loop_scan [OF sh shape_cap(2) [OF sh], of ref "- 1", folded hash_start [OF sh], simplified]
  have absent: "table_map b ref = None"
    if "\<And>j js. ?dw = j # js \<Longrightarrow> bs_state b ! path b ref j = EMPTY"
    using scan_absent [OF ch that] by (simp add: table_map_None inv_lengths [OF assms])
  consider (full) "?dw = []"
    | (hole) j js where "?dw = j # js" "bs_state b ! path b ref j = EMPTY"
    | (same) j js where "?dw = j # js" "bs_state b ! path b ref j \<noteq> EMPTY"
    by (cases ?dw) auto
  then show ?thesis
  proof cases
    case full
    then have "passed b ref d" if "d < ?n" for d using that by simp
    then have "bs_state b ! j \<noteq> EMPTY" if "j < ?n" for j
      using path_onto [OF sh that, of ref] by (metis passed_def)
    then have "\<not> has_empty b" by (auto simp: has_empty_def in_set_conv_nth)
    moreover have "table_map b ref = None" by (rule absent) (simp only: full list.distinct)
    ultimately show ?thesis
      unfolding scan full list.case insert_end.case by blast
  next
    case hole
    note j = dropWhile_upt [OF hole(1)]
    let ?u = "first_tombstone b ref (- 1) [0..<j]"
    have "has_empty b"
      unfolding has_empty_def using hole(2) path_less [OF sh] by (metis nth_mem)
    moreover have "\<exists>d<?n. unat (if 0 \<le> ?u then word_of_int ?u else of_nat (path b ref j) :: u64) = path b ref d \<and>
        bs_state b ! path b ref d \<noteq> OCCUPIED \<and> (\<forall>i<d. bs_state b ! path b ref i \<noteq> EMPTY)"
    proof (cases "0 \<le> ?u")
      case True
      then obtain d where "d < j" "bs_state b ! path b ref d = TOMBSTONE" "?u = int (path b ref d)"
        using first_tombstone_cases [of b ref "- 1" "[0..<j]"] by auto
      then show ?thesis
        using j(1,3) True by (intro exI [of _ d]) (auto simp: small passed_def)
    next
      case False
      then show ?thesis
        using j(1,3) hole(2) by (intro exI [of _ j]) (auto simp: small passed_def)
    qed
    ultimately show ?thesis
      using absent hole by (simp add: scan j(4))
  next
    case same
    then have "holds_ref b ref (path b ref j)"
      using dropWhile_upt(2) [OF same(1)] by (simp add: passed_def)
    then show ?thesis using same by (simp add: scan small path_less [OF sh])
  qed
qed

lemma table_inv_occupied:
  assumes "table_inv b" "t < length (bs_state b)" "t = path b (ro_order_ref ro) d"
    "d < length (bs_state b)" "\<forall>i<d. bs_state b ! path b (ro_order_ref ro) i \<noteq> EMPTY"
    "bs_state b ! t \<noteq> OCCUPIED" "table_map b (ro_order_ref ro) = None"
    "st_live s = st_live (bs_stats b) + 1"
  shows "table_inv ((occupied b t ro)\<lparr>bs_stats := s\<rparr>)"
    and "table_map (occupied b t ro) = (table_map b)(ro_order_ref ro \<mapsto> ro)"
proof -
  let ?b = "(occupied b t ro)\<lparr>bs_stats := s\<rparr>"
  have inv: "table_shape b" "chain_ok b" "refs_distinct b" "live_ok b"
    using assms(1) by (auto simp: table_inv_def)
  have "\<not> holds_ref b (ro_order_ref ro) j" if "j < length (bs_state b)" for j
    using assms(7) that by (simp add: table_map_None inv_lengths [OF assms(1)])
  note laws = occupied_laws [OF inv(1,3) assms(2) this]
  show "table_map (occupied b t ro) = (table_map b)(ro_order_ref ro \<mapsto> ro)"
    using laws(2) assms(6) by blast
  have "count_list ((bs_state b)[t := OCCUPIED]) OCCUPIED = count_list (bs_state b) OCCUPIED + 1"
    using count_list_update [OF assms(2), of OCCUPIED OCCUPIED] assms(6) by simp
  then have "live_ok ?b"
    using inv(4) assms(8) by (simp add: live_ok_def occupied_def)
  moreover have "table_shape ?b" using inv(1) by (simp add: occupied_def table_shape_def)
  moreover have "chain_ok ?b" "refs_distinct ?b"
    using occupied_chain [OF inv(1,2) assms(4), of ro] assms(3,5,6) laws(1)
    by (auto simp: refs_distinct_def chain_ok_def holds_ref_def path_def)
  ultimately show "table_inv ?b" by (simp add: table_inv_def)
qed

lemma overwrite_law:
  assumes "table_inv b" "t < length (bs_state b)" "holds_ref b (ro_order_ref ro) t"
  shows "table_inv (b\<lparr>bs_slots := (bs_slots b)[t := ro]\<rparr>)"
    and "table_map (b\<lparr>bs_slots := (bs_slots b)[t := ro]\<rparr>) = (table_map b)(ro_order_ref ro \<mapsto> ro)"
proof -
  let ?b = "b\<lparr>bs_slots := (bs_slots b)[t := ro]\<rparr>"
  have inv: "table_shape b" "chain_ok b" "refs_distinct b" "live_ok b"
    using assms(1) by (auto simp: table_inv_def)
  have occ: "bs_state b ! t = OCCUPIED" using assms(3) by (simp add: holds_ref_def)
  then have "(bs_state b)[t := OCCUPIED] = bs_state b" by (metis list_update_id)
  then have eq: "?b = occupied b t ro" by (cases b) (simp add: occupied_def)
  have others: "\<not> holds_ref b (ro_order_ref ro) j" if "j < length (bs_state b)" "j \<noteq> t" for j
    using inv(3) that assms(2,3) unfolding refs_distinct_alt by blast
  have laws: "refs_distinct (occupied b t ro)"
    "table_map (occupied b t ro) = (table_map b)(ro_order_ref ro \<mapsto> ro)"
    using occupied_laws [OF inv(1,3) assms(2) others] assms(3) by blast+
  show "table_map ?b = (table_map b)(ro_order_ref ro \<mapsto> ro)"
    unfolding eq by (rule laws(2))
  obtain d where "d < length (bs_state b)" "path b (ro_order_ref ro) d = t"
    "\<And>i. i < d \<Longrightarrow> bs_state b ! path b (ro_order_ref ro) i \<noteq> EMPTY"
    using inv(2) assms(2,3) by (fastforce simp: chain_ok_def holds_ref_def)
  then have "chain_ok ?b" unfolding eq using occupied_chain [OF inv(1,2), of d ro] by simp
  moreover have "refs_distinct ?b" unfolding eq by (rule laws(1))
  moreover have "table_shape ?b" "live_ok ?b"
    using inv by (simp_all add: table_shape_def live_ok_def)
  ultimately show "table_inv ?b" by (simp add: table_inv_def)
qed


lemma bs_insert_law:
  assumes "table_inv b" and "bs_insert b ro = (ok, b')"
  shows "table_inv b'" and "ok \<longleftrightarrow> table_map b (ro_order_ref ro) \<noteq> None \<or> has_empty b"
    and "table_map b' = (if ok then (table_map b)(ro_order_ref ro \<mapsto> ro) else table_map b)"
proof -
  let ?r = "insert_loop b (ro_order_ref ro) (hash_ref (ro_order_ref ro) AND bs_mask b) 0 (- 1)"
  have "table_inv b' \<and> (ok \<longleftrightarrow> table_map b (ro_order_ref ro) \<noteq> None \<or> has_empty b) \<and>
      table_map b' = (if ok then (table_map b)(ro_order_ref ro \<mapsto> ro) else table_map b)"
  proof (cases ?r)
    case (Same_ref idx)
    then have hit: "unat idx < length (bs_state b)" "holds_ref b (ro_order_ref ro) (unat idx)"
      using insert_loop_result [OF assms(1), of "ro_order_ref ro"] by simp_all
    have "b' = b\<lparr>bs_slots := (bs_slots b)[unat idx := ro]\<rparr>" "ok"
      using assms(2) Same_ref by (auto simp: bs_insert_def)
    moreover have "table_map b (ro_order_ref ro) \<noteq> None"
      using hit by (auto simp: table_map_None inv_lengths [OF assms(1)])
    ultimately show ?thesis using overwrite_law [OF assms(1) hit] by simp
  next
    case Table_full
    then have "\<not> has_empty b \<and> table_map b (ro_order_ref ro) = None"
      using insert_loop_result [OF assms(1), of "ro_order_ref ro"] by simp
    then show ?thesis
      using assms Table_full by (auto simp: bs_insert_def table_inv_frame)
  next
    case (Hole idx p u)
    define t where "t = unat (if 0 \<le> u then word_of_int u else idx)"
    obtain d where d: "t = path b (ro_order_ref ro) d" "d < length (bs_state b)"
      "bs_state b ! t \<noteq> OCCUPIED" "\<forall>i<d. bs_state b ! path b (ro_order_ref ro) i \<noteq> EMPTY"
      and free: "has_empty b" "table_map b (ro_order_ref ro) = None"
      using insert_loop_result [OF assms(1), of "ro_order_ref ro"] Hole
      unfolding t_def by (auto split: if_splits)
    have t: "t < length (bs_state b)"
      unfolding d(1) using assms(1) by (intro path_less) (simp add: table_inv_def)
    obtain s where s: "b' = (occupied b t ro)\<lparr>bs_stats := s\<rparr>" "st_live s = st_live (bs_stats b) + 1" and ok
      using assms(2) Hole unfolding bs_insert_def occupied_def t_def
      by (auto simp: Let_def split: if_splits)
    then show ?thesis
      using table_inv_occupied [OF assms(1) t d(1,2,4,3) free(2) s(2)] free by simp
  qed
  then show "table_inv b'" and "ok \<longleftrightarrow> table_map b (ro_order_ref ro) \<noteq> None \<or> has_empty b"
    and "table_map b' = (if ok then (table_map b)(ro_order_ref ro \<mapsto> ro) else table_map b)"
    by auto
qed

lemma set_quantity_law:
  assumes "table_inv b" and "unat idx < length (bs_state b)" and "holds_ref b ref (unat idx)"
  shows "table_inv (set_quantity b idx q)"
    and "table_map (set_quantity b idx q) =
           (table_map b)(ref \<mapsto> (bs_slots b ! unat idx)\<lparr>ro_quantity := q\<rparr>)"
    and "has_empty (set_quantity b idx q) = has_empty b"
proof -
  let ?ro = "(bs_slots b ! unat idx)\<lparr>ro_quantity := q\<rparr>"
  have ref: "ro_order_ref ?ro = ref" using assms(3) by (simp add: holds_ref_def)
  show "table_inv (set_quantity b idx q)"
    "table_map (set_quantity b idx q) = (table_map b)(ref \<mapsto> ?ro)"
    using overwrite_law [OF assms(1,2), of ?ro] assms(3) unfolding ref set_quantity_def by auto
  show "has_empty (set_quantity b idx q) = has_empty b"
    by (simp add: has_empty_def set_quantity_def)
qed

lemma table_inv_new:
  assumes "k \<le> 63"
  shows "table_inv (BookState_new mem k)" and "table_map (BookState_new mem k) = Map.empty"
proof -
  have "count_list (replicate n EMPTY) OCCUPIED = 0" for n by (induction n) auto
  then show "table_inv (BookState_new mem k)"
    using assms unfolding table_inv_def table_shape_def chain_ok_def refs_distinct_def live_ok_def
    by (auto simp: BookState_new_def Stats_zero_def)
  show "table_map (BookState_new mem k) = Map.empty"
    by (rule ext) (subst table_map_None, simp_all add: BookState_new_def holds_ref_def)
qed

lemma table_inv_reset:
  assumes "table_inv b"
  shows "table_inv (bs_reset b)" and "table_map (bs_reset b) = Map.empty"
proof -
  have sh: "table_shape b" using assms by (simp add: table_inv_def)
  have cap: "unat (bs_capacity b) = length (bs_state b)" by (rule shape_cap(1) [OF sh])
  have "count_list (replicate n EMPTY) OCCUPIED = 0" for n by (induction n) auto
  moreover have "table_shape (bs_reset b)"
    using sh by (simp add: table_shape_def bs_reset_def cap)
  ultimately show "table_inv (bs_reset b)"
    unfolding table_inv_def chain_ok_def refs_distinct_def live_ok_def
    by (auto simp: bs_reset_def cap Stats_zero_def)
  show "table_map (bs_reset b) = Map.empty"
    using shape_cap(4) [OF sh] by (simp add: table_map_None fun_eq_iff bs_reset_def cap holds_ref_def)
qed


lemma bs_insert_room:
  assumes "bs_insert b ro = (ok, b')" and "has_empty b'"
  shows "has_empty b"
proof -
  have "EMPTY \<in> set (xs[i := OCCUPIED]) \<Longrightarrow> EMPTY \<in> set xs" for xs i
    using set_update_subset_insert [of xs i OCCUPIED] by blast
  with assms show ?thesis
    by (auto simp: bs_insert_def has_empty_def Let_def split: insert_end.splits)
qed

text \<open>A refused insert only counts; a full table that is not reset stays full.\<close>

lemma bs_insert_refused:
  "bs_insert b ro = (False, b') \<Longrightarrow> b' = b\<lparr>bs_stats := (bs_stats b)\<lparr>st_table_full := st_table_full (bs_stats b) + 1\<rparr>\<rparr>"
  by (auto simp: bs_insert_def Let_def split: insert_end.splits)

lemma bs_reset_room: "table_inv b \<Longrightarrow> has_empty (bs_reset b)"
  using shape_cap(1) by (force simp: table_inv_def table_shape_def has_empty_def bs_reset_def)

section \<open>Interface: a table of resting orders by reference\<close>

text \<open>
  What \<open>resolve\<close> relies on: lookups through pointers, a write through a pointer, insert and
  erase, all described by the map they act on.
\<close>

locale ref_table =
  fixes invar :: "'t \<Rightarrow> bool"
    and lookup :: "'t \<Rightarrow> u64 \<Rightarrow> RestingOrder option"
    and room :: "'t \<Rightarrow> bool"
    and find :: "'t \<Rightarrow> u64 \<Rightarrow> 't \<times> 'p option"
    and deref :: "'t \<Rightarrow> 'p \<Rightarrow> RestingOrder"
    and store :: "'t \<Rightarrow> 'p \<Rightarrow> u32 \<Rightarrow> 't"
    and insert :: "'t \<Rightarrow> RestingOrder \<Rightarrow> bool \<times> 't"
    and erase :: "'t \<Rightarrow> u64 \<Rightarrow> bool \<times> 't"
  assumes find_law: "invar t \<Longrightarrow> find t r = (t', res) \<Longrightarrow>
      invar t' \<and> lookup t' = lookup t \<and> room t' = room t \<and> lookup t r = map_option (deref t') res"
    and store_law: "invar t \<Longrightarrow> find t r = (t', Some p) \<Longrightarrow>
      invar (store t' p q) \<and> room (store t' p q) = room t \<and>
      lookup (store t' p q) = (lookup t)(r \<mapsto> (deref t' p)\<lparr>ro_quantity := q\<rparr>)"
    and insert_law: "invar t \<Longrightarrow> insert t ro = (ok, t') \<Longrightarrow>
      invar t' \<and> (ok \<longleftrightarrow> lookup t (ro_order_ref ro) \<noteq> None \<or> room t) \<and>
      lookup t' = (if ok then (lookup t)(ro_order_ref ro \<mapsto> ro) else lookup t)"
    and erase_law: "invar t \<Longrightarrow> erase t r = (ok, t') \<Longrightarrow>
      invar t' \<and> (ok \<longleftrightarrow> lookup t r \<noteq> None) \<and> room t' = room t \<and>
      lookup t' = (lookup t)(r := None)"
begin

lemma find_absent: "invar t \<Longrightarrow> find t r = (t', None) \<Longrightarrow> lookup t r = None"
  using find_law by fastforce

lemma find_present: "invar t \<Longrightarrow> find t r = (t', Some p) \<Longrightarrow> lookup t r = Some (deref t' p)"
  using find_law by fastforce

lemma erase_snd:
  assumes "invar t"
  shows "invar (snd (erase t r))" and "lookup (snd (erase t r)) = (lookup t)(r := None)"
    and "room (snd (erase t r)) = room t"
  using erase_law [OF assms, of r "fst (erase t r)" "snd (erase t r)"] by simp_all

lemma reduce_law:
  assumes "invar t" and "find t r = (t', Some p)"
    and "u = (if q = 0 then snd (erase (store t' p q) r) else store t' p q)"
  shows "invar u" and "room u = room t"
    and "lookup u = (lookup t)(r := if q = 0 then None else Some ((deref t' p)\<lparr>ro_quantity := q\<rparr>))"
  using store_law [OF assms(1,2), of q] erase_snd [of "store t' p q" r] by (auto simp: assms(3))

lemma insert_fresh_then_erase:
  assumes "invar t" and "insert t ro = (True, t')" and "lookup t (ro_order_ref ro) = None"
  shows "lookup (snd (erase t' (ro_order_ref ro))) = lookup t"
  using insert_law [OF assms(1,2)] erase_snd(2) [of t' "ro_order_ref ro"] assms(3)
  by (auto simp: fun_upd_idem)

end

interpretation tab: ref_table table_inv table_map has_empty bs_find
  "\<lambda>b idx. bs_slots b ! unat idx" set_quantity bs_insert bs_erase
proof unfold_locales
  fix b b' r and p :: "u64 option"
  assume "table_inv b" "bs_find b r = (b', p)"
  then show "table_inv b' \<and> table_map b' = table_map b \<and> has_empty b' = has_empty b \<and>
      table_map b r = map_option (\<lambda>idx. bs_slots b' ! unat idx) p"
    by (simp add: bs_find_law)
next
  fix b b' r p q
  assume *: "table_inv b" "bs_find b r = (b', Some p)"
  note f = bs_find_law [OF *]
  have "unat p < length (bs_state b')" "holds_ref b' r (unat p)" using f(5) by auto
  from set_quantity_law [OF f(1) this]
  show "table_inv (set_quantity b' p q) \<and> has_empty (set_quantity b' p q) = has_empty b \<and>
      table_map (set_quantity b' p q) = (table_map b)(r \<mapsto> (bs_slots b' ! unat p)\<lparr>ro_quantity := q\<rparr>)"
    by (simp add: f(2,3))
next
  fix b ro ok b'
  assume "table_inv b" "bs_insert b ro = (ok, b')"
  then show "table_inv b' \<and> (ok \<longleftrightarrow> table_map b (ro_order_ref ro) \<noteq> None \<or> has_empty b) \<and>
      table_map b' = (if ok then (table_map b)(ro_order_ref ro \<mapsto> ro) else table_map b)"
    using bs_insert_law by blast
next
  fix b r ok b'
  assume "table_inv b" "bs_erase b r = (ok, b')"
  then show "table_inv b' \<and> (ok \<longleftrightarrow> table_map b r \<noteq> None) \<and> has_empty b' = has_empty b \<and>
      table_map b' = (table_map b)(r := None)"
    using bs_erase_law by blast
qed

section \<open>Runs of operations\<close>

lemma table_step_inv:
  assumes "table_inv b"
  shows "table_inv (table_step c b)"
proof (cases c)
  case (Insert_order ro)
  then show ?thesis using bs_insert_law(1) [OF assms prod.collapse [symmetric]] by simp
next
  case (Erase_ref ref)
  then show ?thesis using bs_erase_law(1) [OF assms prod.collapse [symmetric]] by simp
next
  case (Find_ref ref)
  then show ?thesis using bs_find_law(1) [OF assms prod.collapse [symmetric]] by simp
next
  case Reset_table
  then show ?thesis using table_inv_reset(1) [OF assms] by simp
qed

interpretation tabrun: kept_invariant table_inv table_step
  by unfold_locales (rule table_step_inv)

lemma full_step:
  assumes inv: "table_inv b" and full: "\<not> has_empty b" and "c \<noteq> Reset_table"
  shows "\<not> has_empty (table_step c b) \<and> dom (table_map (table_step c b)) \<subseteq> dom (table_map b)"
proof (cases c)
  case (Insert_order ro)
  have "bs_insert b ro = (fst (bs_insert b ro), snd (bs_insert b ro))" by simp
  from tab.insert_law [OF inv this] bs_insert_room [OF this] show ?thesis
    using full Insert_order by (auto split: if_splits)
next
  case (Erase_ref ref)
  then show ?thesis using tab.erase_snd [OF inv, of ref] full by auto
next
  case (Find_ref ref)
  then show ?thesis using bs_find_law(2,3) [OF inv prod.collapse [symmetric], of ref] full by simp
qed (use assms(3) in simp)

lemma full_run:
  "table_inv b \<Longrightarrow> \<not> has_empty b \<Longrightarrow> Reset_table \<notin> set cmds \<Longrightarrow>
     \<not> has_empty (fold table_step cmds b) \<and> dom (table_map (fold table_step cmds b)) \<subseteq> dom (table_map b)"
proof (induction cmds arbitrary: b)
  case (Cons c cmds)
  have "c \<noteq> Reset_table" using Cons.prems(3) by auto
  note step = full_step [OF Cons.prems(1,2) this]
  show ?case
    using Cons.IH [OF table_step_inv [OF Cons.prems(1)], of c] Cons.prems(3) step
    by (simp add: subset_trans [OF _ conjunct2 [OF step]])
qed simp

lemma live_orders_alt:
  assumes "length (bs_slots b) = length (bs_state b)"
  shows "live_orders b =
    map (\<lambda>j. bs_slots b ! j) (filter (\<lambda>j. bs_state b ! j = OCCUPIED) [0..<length (bs_state b)])"
proof -
  have "zip (bs_state b) (bs_slots b) =
      map (\<lambda>j. (bs_state b ! j, bs_slots b ! j)) [0..<length (bs_state b)]"
    using assms by (intro nth_equalityI) auto
  then show ?thesis by (simp add: live_orders_def filter_map o_def)
qed

lemma live_counts_map:
  assumes "table_inv b"
  shows "st_live (bs_stats b) = of_nat (card (dom (table_map b)))"
proof -
  note len = inv_lengths [OF assms]
  have count: "length (filter (\<lambda>s. s = OCCUPIED) xs) = count_list xs OCCUPIED" for xs
    by (induction xs) auto
  let ?js = "filter (\<lambda>j. bs_state b ! j = OCCUPIED) [0..<length (bs_state b)]"
  have "distinct (map ro_order_ref (live_orders b))"
    using assms unfolding table_inv_def refs_distinct_def live_orders_alt [OF len]
    by (auto simp: distinct_map inj_on_def holds_ref_def)
  moreover have "dom (table_map b) = set (map ro_order_ref (live_orders b))"
    unfolding dom_def table_map_def find_None_iff by auto
  ultimately have "card (dom (table_map b)) = length (live_orders b)"
    using distinct_card [of "map ro_order_ref (live_orders b)"] by simp
  also have "\<dots> = length ?js" by (simp add: live_orders_alt [OF len])
  also have "\<dots> = length (filter (\<lambda>s. s = OCCUPIED) (map ((!) (bs_state b)) [0..<length (bs_state b)]))"
    by (simp add: filter_map o_def)
  also have "\<dots> = count_list (bs_state b) OCCUPIED"
    unfolding map_nth by (simp add: count)
  finally show ?thesis using assms by (simp add: table_inv_def live_ok_def)
qed

section \<open>Properties\<close>

text \<open>An order and a one-slot table for the concrete instances below.\<close>

definition sample_order :: "u64 \<Rightarrow> u32 \<Rightarrow> RestingOrder" where
  "sample_order ref qty = \<lparr>ro_order_ref = ref, ro_quantity = qty, ro_price = 1500000,
     ro_side = Buy, ro_stock = [65, 65, 80, 76, 32, 32, 32, 32]\<rparr>"

definition sample_table :: "nat \<Rightarrow> BookState" where
  "sample_table k = BookState_new (\<lambda>_. sample_order 0 0) k"

lemma sample_table_inv: "k \<le> 63 \<Longrightarrow> table_inv (sample_table k)"
  by (simp add: sample_table_def table_inv_new)

text \<open>
  C12. \<^verbatim>\<open>find\<close> is lookup: on every table the operations can produce, the pointer it returns is
  to the order the map holds for the reference, and null exactly when there is none, whatever
  tombstones and collisions lie on the probe path. A miss changes nothing, and a hit at the \<open>d\<close>-th
  slot of the probe path nothing but the longest probe on record, which is then at least \<open>d\<close>.
\<close>

theorem find_is_lookup:
  assumes "table_inv b" and "bs_find b ref = (b', res)"
  shows "map_option (\<lambda>idx. bs_slots b' ! unat idx) res = table_map b ref \<and>
         table_map b' = table_map b \<and> table_inv b' \<and>
         (case res of None \<Rightarrow> b' = b
          | Some idx \<Rightarrow> \<exists>d < length (bs_state b). unat idx = path b ref d \<and>
              b' = b\<lparr>bs_stats := (bs_stats b)\<lparr>st_max_probe := max (st_max_probe (bs_stats b)) (of_nat d)\<rparr>\<rparr>)"
proof -
  have "case res of None \<Rightarrow> b' = b
    | Some idx \<Rightarrow> \<exists>d < length (bs_state b). unat idx = path b ref d \<and>
        b' = b\<lparr>bs_stats := (bs_stats b)\<lparr>st_max_probe := max (st_max_probe (bs_stats b)) (of_nat d)\<rparr>\<rparr>"
  proof (cases "find_loop b ref (hash_ref ref AND bs_mask b) 0")
    case None
    then show ?thesis using assms(2) by (auto simp: bs_find_def)
  next
    case (Some x)
    then obtain idx p where hit: "find_loop b ref (hash_ref ref AND bs_mask b) 0 = Some (idx, p)" by (cases x) auto
    obtain d where d: "d < length (bs_state b)" "unat idx = path b ref d" "p = of_nat d"
      using find_loop_distance [OF assms(1) hit] by blast
    have "res = Some idx" "b' = b\<lparr>bs_stats := (bs_stats b)\<lparr>st_max_probe := max (st_max_probe (bs_stats b)) (of_nat d)\<rparr>\<rparr>"
      using assms(2) by (auto simp: bs_find_def hit d(3) max_def not_less split: if_splits)
    then show ?thesis using d by auto
  qed
  then show ?thesis using bs_find_law [OF assms] by simp
qed

text \<open>A hit on a table that holds one order.\<close>

theorem find_is_lookup_witness:
  "let b = snd (bs_insert (sample_table 2) (sample_order 5 100)); (b', res) = bs_find b 5
   in table_inv b \<and> table_map b' = table_map b \<and> (\<exists>idx. res = Some idx \<and> bs_slots b' ! unat idx = sample_order 5 100)"
proof -
  define b where "b = snd (bs_insert (sample_table 2) (sample_order 5 100))"
  have "b = table_step (Insert_order (sample_order 5 100)) (sample_table 2)" by (simp add: b_def)
  then have inv: "table_inv b" by (simp only: table_step_inv sample_table_inv)
  obtain b' res where run: "bs_find b 5 = (b', res)" by (cases "bs_find b 5")
  have "table_map b 5 = Some (sample_order 5 100)" unfolding b_def by code_simp
  then show ?thesis using find_is_lookup [OF inv run] inv run by (auto simp: b_def [symmetric] Let_def)
qed

text \<open>
  C13. \<^verbatim>\<open>insert\<close> is map update when it succeeds and changes nothing when it fails; it fails
  exactly when the reference is not in the table and no slot is empty. Reusing a tombstone in the
  middle of a probe chain never hides another order.
\<close>

theorem insert_is_update:
  assumes "table_inv b" and "bs_insert b ro = (ok, b')"
  shows "table_inv b' \<and> (ok \<longleftrightarrow> table_map b (ro_order_ref ro) \<noteq> None \<or> has_empty b) \<and>
         table_map b' = (if ok then (table_map b)(ro_order_ref ro \<mapsto> ro) else table_map b)"
  using tab.insert_law [OF assms] by blast

theorem insert_is_update_witness:
  "\<exists>b'. table_inv (sample_table 1) \<and> bs_insert (sample_table 1) (sample_order 5 100) = (True, b') \<and>
     table_map b' = (table_map (sample_table 1))(5 \<mapsto> sample_order 5 100)"
proof -
  have inv: "table_inv (sample_table 1)" by (simp add: sample_table_inv)
  have "fst (bs_insert (sample_table 1) (sample_order 5 100))" by code_simp
  then obtain b' where run: "bs_insert (sample_table 1) (sample_order 5 100) = (True, b')"
    by (cases "bs_insert (sample_table 1) (sample_order 5 100)") auto
  have "ro_order_ref (sample_order 5 100) = 5" by (simp add: sample_order_def)
  then show ?thesis using inv run insert_is_update [OF inv run] by auto
qed

text \<open>
  C11. \<^verbatim>\<open>erase\<close> removes exactly the given reference and reports whether it was there: leaving
  a tombstone keeps every order behind it on a probe chain reachable.
\<close>

theorem erase_is_removal:
  assumes "table_inv b" and "bs_erase b ref = (ok, b')"
  shows "table_inv b' \<and> (ok \<longleftrightarrow> table_map b ref \<noteq> None) \<and>
         table_map b' = (table_map b)(ref := None)"
  using tab.erase_law [OF assms] by blast

theorem erase_is_removal_witness:
  "\<exists>b'. table_inv (sample_table 0) \<and> bs_erase (sample_table 0) 3 = (False, b') \<and>
     table_map b' = (table_map (sample_table 0))(3 := None)"
proof -
  have inv: "table_inv (sample_table 0)" by (simp add: sample_table_inv)
  have "\<not> fst (bs_erase (sample_table 0) 3)" by code_simp
  then obtain b' where run: "bs_erase (sample_table 0) 3 = (False, b')"
    by (cases "bs_erase (sample_table 0) 3") auto
  show ?thesis using inv run erase_is_removal [OF inv run] by blast
qed

text \<open>
  C25. Every sequence of inserts, erases, finds and resets on a new table of any size up to
  \<open>2 ^ 63\<close> slots keeps the invariant, and the \<^verbatim>\<open>live\<close> counter is the number of references
  the table resolves.
\<close>

theorem table_runs_keep_invariant:
  assumes "k \<le> 63"
  shows "table_inv (fold table_step cmds (BookState_new mem k)) \<and>
         st_live (bs_stats (fold table_step cmds (BookState_new mem k))) =
           of_nat (card (dom (table_map (fold table_step cmds (BookState_new mem k)))))"
  using tabrun.run_inv [OF table_inv_new(1) [OF assms]] live_counts_map by blast

theorem table_runs_keep_invariant_witness:
  "(22 :: nat) \<le> 63 \<and>
   table_inv (fold table_step [Insert_order (sample_order 1 100), Erase_ref 1, Reset_table]
     (BookState_new (\<lambda>_. sample_order 0 0) 22))"
  using table_runs_keep_invariant [of 22 "[Insert_order (sample_order 1 100), Erase_ref 1, Reset_table]"
      "\<lambda>_. sample_order 0 0"]
  by simp

text \<open>
  C38. Slots are consumed for good. Once no slot is empty, no sequence of inserts, erases and finds frees
  one: the references the table holds are always among those it held then, every order with another
  reference is refused, with the refusal counted and nothing else changed, and a table can so refuse every
  order while it holds none. Only a reset ends this: it empties the table, which then takes any order.
\<close>

theorem exhausted_table_stays_full:
  assumes "table_inv b" and "\<not> has_empty b" and "Reset_table \<notin> set cmds" and "b' = fold table_step cmds b"
  shows "\<not> has_empty b' \<and> dom (table_map b') \<subseteq> dom (table_map b)
     \<and> (\<forall>ro. table_map b' (ro_order_ref ro) = None \<longrightarrow>
           bs_insert b' ro = (False, b'\<lparr>bs_stats := (bs_stats b')\<lparr>st_table_full := st_table_full (bs_stats b') + 1\<rparr>\<rparr>))
     \<and> table_map (bs_reset b') = Map.empty \<and> (\<forall>ro. fst (bs_insert (bs_reset b') ro))"
proof -
  have inv: "table_inv b'" unfolding assms(4) by (rule tabrun.run_inv [OF assms(1)])
  have full: "\<not> has_empty b'" "dom (table_map b') \<subseteq> dom (table_map b)"
    unfolding assms(4) using full_run [OF assms(1-3)] by simp_all
  have "bs_insert b' ro = (False, b'\<lparr>bs_stats := (bs_stats b')\<lparr>st_table_full := st_table_full (bs_stats b') + 1\<rparr>\<rparr>)"
    if "table_map b' (ro_order_ref ro) = None" for ro
  proof -
    obtain ok b2 where run: "bs_insert b' ro = (ok, b2)" by (cases "bs_insert b' ro")
    then have "\<not> ok" using tab.insert_law [OF inv run] full(1) that by blast
    then show ?thesis using run bs_insert_refused by simp
  qed
  moreover have "fst (bs_insert (bs_reset b') ro)" for ro
    using tab.insert_law [OF table_inv_reset(1) [OF inv] prod.collapse [symmetric]] bs_reset_room [OF inv] by blast
  ultimately show ?thesis using full table_inv_reset(2) [OF inv] by blast
qed

text \<open>A table of one slot: the order it holds is erased, and a second order is refused all the same.\<close>

theorem exhausted_table_stays_full_witness:
  "let b = snd (bs_insert (sample_table 0) (sample_order 5 100)); b' = fold table_step [Erase_ref 5, Find_ref 6] b in
     table_inv b \<and> \<not> has_empty b \<and> st_live (bs_stats b') = 0 \<and> \<not> has_empty b' \<and>
     \<not> fst (bs_insert b' (sample_order 6 100)) \<and> fst (bs_insert (bs_reset b') (sample_order 6 100))"
proof -
  define b where "b = snd (bs_insert (sample_table 0) (sample_order 5 100))"
  define b' where "b' = fold table_step [Erase_ref 5, Find_ref 6] b"
  have "b = table_step (Insert_order (sample_order 5 100)) (sample_table 0)" by (simp add: b_def)
  then have inv: "table_inv b" by (simp only: table_step_inv sample_table_inv)
  have full: "\<not> has_empty b" unfolding b_def by code_simp
  have "table_map b' (ro_order_ref (sample_order 6 100)) = None" "st_live (bs_stats b') = 0"
    unfolding b'_def b_def by code_simp+
  then show ?thesis
    using exhausted_table_stays_full [OF inv full _ b'_def] inv full unfolding Let_def b_def [symmetric] b'_def [symmetric]
    by simp
qed

end
