(* ===== verification/Book_State.thy ===== *)
theory Book_State
  imports Order_Table
begin

text \<open>
  \<^verbatim>\<open>BookState::resolve\<close> (\<^verbatim>\<open>include/book_state.hpp\<close>, \<^verbatim>\<open>src/book_state.cpp\<close>): messages that
  name only an order reference become fully populated operations. Proved: \<open>resolve\<close> refines
  an abstract resolver over a map of resting orders, for every message and every table state.
\<close>

section \<open>Data\<close>

record ResolvedOp =
  op_action :: Action
  op_order_ref :: u64
  op_quantity :: u32
  op_price :: u32
  op_match_number :: u64
  op_timestamp_ns :: u64
  op_side :: Side
  op_stock :: bytes

text \<open>\<^verbatim>\<open>ResolveResult\<close> holds two slots and a count; the model keeps the first \<open>count\<close> ops.\<close>

type_synonym ResolveResult = "ResolvedOp list"

section \<open>Digest\<close>

definition fold_digest :: "u64 \<Rightarrow> u64 \<Rightarrow> u64" where
  "fold_digest v digest =
     foldl (\<lambda>d i. (d XOR (drop_bit (i * 8) v AND 0xFF)) * 0x100000001b3) digest [0..<8]"

fun action_code :: "Action \<Rightarrow> u64" where
  "action_code Action_None = 0"
| "action_code Add = 1"
| "action_code Execute = 2"
| "action_code Cancel = 3"
| "action_code Delete = 4"
| "action_code Replace = 5"
| "action_code Trade = 6"

fun side_code :: "Side \<Rightarrow> u8" where
  "side_code Side_None = 0"
| "side_code Buy = byte_of CHR ''B''"
| "side_code Sell = byte_of CHR ''S''"

definition fold_op :: "ResolvedOp \<Rightarrow> BookState \<Rightarrow> BookState" where
  "fold_op p b = b\<lparr>bs_digest :=
     fold_digest (ucast (side_code (op_side p)))
      (fold_digest (ucast (op_price p))
       (fold_digest (ucast (op_quantity p))
        (fold_digest (op_order_ref p)
         (fold_digest (action_code (op_action p)) (bs_digest b)))))\<rparr>"

section \<open>Resolving a message\<close>

text \<open>The operation built from a resting order, as every case but Add and Trade builds it.\<close>

definition resting_op ::
    "Action \<Rightarrow> u64 \<Rightarrow> u32 \<Rightarrow> u32 \<Rightarrow> u64 \<Rightarrow> u64 \<Rightarrow> RestingOrder \<Rightarrow> ResolvedOp" where
  "resting_op act ref qty px mtch ts ro =
     \<lparr>op_action = act, op_order_ref = ref, op_quantity = qty, op_price = px,
      op_match_number = mtch, op_timestamp_ns = ts, op_side = ro_side ro, op_stock = ro_stock ro\<rparr>"

definition unresolved :: "BookState \<Rightarrow> bool \<times> BookState \<times> ResolveResult" where
  "unresolved b = (False,
     b\<lparr>bs_stats := (bs_stats b)\<lparr>st_unresolved := st_unresolved (bs_stats b) + 1\<rparr>\<rparr>, [])"

definition order_to_resting :: "Order \<Rightarrow> RestingOrder" where
  "order_to_resting msg = \<lparr>ro_order_ref = o_order_ref msg, ro_quantity = o_quantity msg,
     ro_price = o_price msg, ro_side = o_side msg, ro_stock = o_stock msg\<rparr>"

definition resolve_add :: "Order \<Rightarrow> BookState \<Rightarrow> bool \<times> BookState \<times> ResolveResult" where
  "resolve_add msg b =
     (let ro = order_to_resting msg in
      case bs_insert b ro of (inserted, b) \<Rightarrow>
        if \<not> inserted then (False, b, [])
        else (True, b\<lparr>bs_stats := (bs_stats b)\<lparr>st_adds := st_adds (bs_stats b) + 1\<rparr>\<rparr>,
          [\<lparr>op_action = Add, op_order_ref = o_order_ref msg, op_quantity = o_quantity msg,
            op_price = o_price msg, op_match_number = 0, op_timestamp_ns = o_timestamp_ns msg,
            op_side = o_side msg, op_stock = o_stock msg\<rparr>]))"

text \<open>
  Execute and Cancel share the reduction of the resting order: subtract, and erase at zero.
\<close>

definition reduce_resting :: "BookState \<Rightarrow> u64 \<Rightarrow> u64 \<Rightarrow> u32 \<Rightarrow> BookState" where
  "reduce_resting b idx ref amount =
     (let left = ro_quantity (bs_slots b ! unat idx) - amount;
          b = set_quantity b idx left
      in if left = 0 then snd (bs_erase b ref) else b)"

definition resolve_execute :: "Order \<Rightarrow> BookState \<Rightarrow> bool \<times> BookState \<times> ResolveResult" where
  "resolve_execute msg b =
     (case bs_find b (o_order_ref msg) of
        (b, None) \<Rightarrow> unresolved b
      | (b, Some idx) \<Rightarrow>
          let ro = bs_slots b ! unat idx;
              filled = (if o_quantity msg < ro_quantity ro then o_quantity msg else ro_quantity ro);
              p = resting_op Execute (o_order_ref msg) filled
                     (if o_price msg \<noteq> 0 then o_price msg else ro_price ro)
                     (o_match_number msg) (o_timestamp_ns msg) ro;
              b = reduce_resting b idx (o_order_ref msg) filled
          in (True, b\<lparr>bs_stats := (bs_stats b)\<lparr>st_executes := st_executes (bs_stats b) + 1\<rparr>\<rparr>, [p]))"

definition resolve_cancel :: "Order \<Rightarrow> BookState \<Rightarrow> bool \<times> BookState \<times> ResolveResult" where
  "resolve_cancel msg b =
     (case bs_find b (o_order_ref msg) of
        (b, None) \<Rightarrow> unresolved b
      | (b, Some idx) \<Rightarrow>
          let ro = bs_slots b ! unat idx;
              pulled = (if o_quantity msg < ro_quantity ro then o_quantity msg else ro_quantity ro);
              p = resting_op Cancel (o_order_ref msg) pulled (ro_price ro) 0 (o_timestamp_ns msg) ro;
              b = reduce_resting b idx (o_order_ref msg) pulled
          in (True, b\<lparr>bs_stats := (bs_stats b)\<lparr>st_cancels := st_cancels (bs_stats b) + 1\<rparr>\<rparr>, [p]))"

definition resolve_delete :: "Order \<Rightarrow> BookState \<Rightarrow> bool \<times> BookState \<times> ResolveResult" where
  "resolve_delete msg b =
     (case bs_find b (o_order_ref msg) of
        (b, None) \<Rightarrow> unresolved b
      | (b, Some idx) \<Rightarrow>
          let ro = bs_slots b ! unat idx;
              p = resting_op Delete (o_order_ref msg) (ro_quantity ro) (ro_price ro) 0
                    (o_timestamp_ns msg) ro;
              b = snd (bs_erase b (o_order_ref msg))
          in (True, b\<lparr>bs_stats := (bs_stats b)\<lparr>st_deletes := st_deletes (bs_stats b) + 1\<rparr>\<rparr>, [p]))"

definition resolve_replace :: "Order \<Rightarrow> BookState \<Rightarrow> bool \<times> BookState \<times> ResolveResult" where
  "resolve_replace msg b =
     (case bs_find b (o_order_ref msg) of
        (b, None) \<Rightarrow> unresolved b
      | (b, Some idx) \<Rightarrow>
          let ro = bs_slots b ! unat idx;
              del = resting_op Delete (o_order_ref msg) (ro_quantity ro) (ro_price ro) 0
                      (o_timestamp_ns msg) ro;
              b = snd (bs_erase b (o_order_ref msg));
              nro = \<lparr>ro_order_ref = o_new_order_ref msg, ro_quantity = o_quantity msg,
                     ro_price = o_price msg, ro_side = ro_side ro, ro_stock = ro_stock ro\<rparr>
          in case bs_insert b nro of (inserted, b) \<Rightarrow>
               if \<not> inserted then (True, b, [del])
               else
                 let add = resting_op Add (o_new_order_ref msg) (o_quantity msg) (o_price msg) 0
                             (o_timestamp_ns msg) ro
                 in (True, b\<lparr>bs_stats := (bs_stats b)\<lparr>st_replaces := st_replaces (bs_stats b) + 1\<rparr>\<rparr>,
                     [del, add]))"

definition resolve_trade :: "Order \<Rightarrow> BookState \<Rightarrow> bool \<times> BookState \<times> ResolveResult" where
  "resolve_trade msg b =
     (True, b\<lparr>bs_stats := (bs_stats b)\<lparr>st_trades := st_trades (bs_stats b) + 1\<rparr>\<rparr>,
      [\<lparr>op_action = Trade, op_order_ref = o_order_ref msg, op_quantity = o_quantity msg,
        op_price = o_price msg, op_match_number = o_match_number msg,
        op_timestamp_ns = o_timestamp_ns msg, op_side = o_side msg, op_stock = o_stock msg\<rparr>])"

definition resolve_impl :: "Order \<Rightarrow> BookState \<Rightarrow> bool \<times> BookState \<times> ResolveResult" where
  "resolve_impl msg b =
     (case o_action msg of
        Add \<Rightarrow> resolve_add msg b
      | Execute \<Rightarrow> resolve_execute msg b
      | Cancel \<Rightarrow> resolve_cancel msg b
      | Delete \<Rightarrow> resolve_delete msg b
      | Replace \<Rightarrow> resolve_replace msg b
      | Trade \<Rightarrow> resolve_trade msg b
      | Action_None \<Rightarrow> (False, b, []))"

definition resolve :: "Order \<Rightarrow> BookState \<Rightarrow> bool \<times> BookState \<times> ResolveResult" where
  "resolve msg b =
     (case resolve_impl msg b of (ok, b, ops) \<Rightarrow>
        if ok then (ok, fold fold_op ops b, ops) else (ok, b, ops))"

section \<open>The resolver, as a specification\<close>

definition add_op :: "Order \<Rightarrow> ResolvedOp" where
  "add_op msg = \<lparr>op_action = Add, op_order_ref = o_order_ref msg, op_quantity = o_quantity msg,
     op_price = o_price msg, op_match_number = 0, op_timestamp_ns = o_timestamp_ns msg,
     op_side = o_side msg, op_stock = o_stock msg\<rparr>"

definition after_fill :: "RestingOrder \<Rightarrow> u32 \<Rightarrow> RestingOrder option" where
  "after_fill ro n =
     (if ro_quantity ro = n then None else Some (ro\<lparr>ro_quantity := ro_quantity ro - n\<rparr>))"

definition replacement :: "Order \<Rightarrow> RestingOrder \<Rightarrow> RestingOrder" where
  "replacement msg ro = ro\<lparr>ro_order_ref := o_new_order_ref msg, ro_quantity := o_quantity msg,
     ro_price := o_price msg\<rparr>"

text \<open>
  The abstract resolver: the same messages against a map of resting orders. \<open>room\<close> says
  whether the store would take one more reference.
\<close>

type_synonym resting_map = "u64 \<Rightarrow> RestingOrder option"

definition abs_resolve :: "bool \<Rightarrow> Order \<Rightarrow> resting_map \<Rightarrow> bool \<times> resting_map \<times> ResolveResult" where
  "abs_resolve room msg m =
    (let r = o_order_ref msg; ts = o_timestamp_ns msg in
     case o_action msg of
       Action_None \<Rightarrow> (False, m, [])
     | Add \<Rightarrow>
         if m r = None \<and> \<not> room then (False, m, [])
         else (True, m(r \<mapsto> order_to_resting msg), [add_op msg])
     | Trade \<Rightarrow> (True, m, [(add_op msg)\<lparr>op_action := Trade, op_match_number := o_match_number msg\<rparr>])
     | act \<Rightarrow>
         (case m r of
            None \<Rightarrow> (False, m, [])
          | Some ro \<Rightarrow>
              let n = min (o_quantity msg) (ro_quantity ro);
                  del = resting_op Delete r (ro_quantity ro) (ro_price ro) 0 ts ro;
                  m' = m(r := None);
                  new = o_new_order_ref msg
              in if act = Execute then
                   (True, m(r := after_fill ro n),
                    [resting_op Execute r n (if o_price msg = 0 then ro_price ro else o_price msg)
                       (o_match_number msg) ts ro])
                 else if act = Cancel then
                   (True, m(r := after_fill ro n), [resting_op Cancel r n (ro_price ro) 0 ts ro])
                 else if act = Delete then (True, m', [del])
                 else if m' new = None \<and> \<not> room then (True, m', [del])
                 else (True, m'(new \<mapsto> replacement msg ro),
                       [del, resting_op Add new (o_quantity msg) (o_price msg) 0 ts ro])))"

definition resolves_as :: "BookState \<Rightarrow> Order \<Rightarrow> bool \<times> BookState \<times> ResolveResult \<Rightarrow> bool" where
  "resolves_as b msg r \<longleftrightarrow> (case r of (ok, b', ops) \<Rightarrow>
     table_inv b' \<and> (ok, table_map b', ops) = abs_resolve (has_empty b) msg (table_map b))"

definition op_digest :: "ResolvedOp \<Rightarrow> u64 \<Rightarrow> u64" where
  "op_digest p d =
     fold_digest (ucast (side_code (op_side p))) (fold_digest (ucast (op_price p))
      (fold_digest (ucast (op_quantity p)) (fold_digest (op_order_ref p)
       (fold_digest (action_code (op_action p)) d))))"

fun resolve_run :: "Order list \<Rightarrow> BookState \<Rightarrow> BookState \<times> ResolvedOp list" where
  "resolve_run [] b = (b, [])"
| "resolve_run (msg # msgs) b =
     (case resolve msg b of (ok, b1, ops) \<Rightarrow>
        case resolve_run msgs b1 of (b2, rest) \<Rightarrow> (b2, (if ok then ops else []) @ rest))"

fun room_throughout :: "Order list \<Rightarrow> BookState \<Rightarrow> bool" where
  "room_throughout [] b = True"
| "room_throughout (msg # msgs) b =
     (has_empty b \<and> room_throughout msgs (fst (snd (resolve msg b))))"

definition stat_total :: "Stats \<Rightarrow> u64" where
  "stat_total s = st_adds s + st_executes s + st_cancels s + st_deletes s + st_replaces s +
     st_trades s + st_unresolved s + st_table_full s"

section \<open>Each case refines the specification\<close>

lemma min_word_code: "(if a < b then a else b) = min a (b :: u32)"
  by (auto simp: min_def)

lemma fold_op_frame [simp, tp_frame]:
  "table_inv (fold fold_op ops b) = table_inv b"
  "table_map (fold fold_op ops b) = table_map b"
  "has_empty (fold fold_op ops b) = has_empty b"
  "bs_stats (fold fold_op ops b) = bs_stats b"
  by (induction ops arbitrary: b) (simp_all add: fold_op_def table_inv_frame)

lemma reduce_resting_law:
  assumes "table_inv b" and "bs_find b ref = (b', Some idx)"
    and "n \<le> ro_quantity (bs_slots b' ! unat idx)"
  shows "table_inv (reduce_resting b' idx ref n)"
    and "table_map (reduce_resting b' idx ref n) =
           (table_map b)(ref := after_fill (bs_slots b' ! unat idx) n)"
proof -
  let ?q = "ro_quantity (bs_slots b' ! unat idx) - n"
  have eq: "reduce_resting b' idx ref n =
      (if ?q = 0 then snd (bs_erase (set_quantity b' idx ?q) ref) else set_quantity b' idx ?q)"
    by (simp add: reduce_resting_def Let_def)
  show "table_inv (reduce_resting b' idx ref n)"
    by (rule tab.reduce_law(1) [OF assms(1,2) eq])
  show "table_map (reduce_resting b' idx ref n) =
           (table_map b)(ref := after_fill (bs_slots b' ! unat idx) n)"
    using tab.reduce_law(3) [OF assms(1,2) eq] by (simp add: after_fill_def)
qed

lemma resolve_add_law:
  assumes "table_inv b" and "o_action msg = Add"
  shows "resolves_as b msg (resolve_add msg b)"
proof -
  obtain ok b' where ins: "bs_insert b (order_to_resting msg) = (ok, b')"
    by (cases "bs_insert b (order_to_resting msg)")
  have "ro_order_ref (order_to_resting msg) = o_order_ref msg" by (simp add: order_to_resting_def)
  then show ?thesis
    using tab.insert_law [OF assms(1) ins] assms(2)
    by (auto simp: resolves_as_def resolve_add_def abs_resolve_def ins add_op_def table_inv_frame Let_def)
qed

lemma unresolved_law:
  assumes "table_inv b" and "bs_find b (o_order_ref msg) = (b', None)"
    and "o_action msg \<in> {Execute, Cancel, Delete, Replace}"
  shows "resolves_as b msg (unresolved b')"
  using tab.find_law [OF assms(1,2)] assms(3)
  by (auto simp: resolves_as_def unresolved_def abs_resolve_def table_inv_frame Let_def)

lemma resolve_execute_law:
  assumes "table_inv b" and "o_action msg = Execute"
  shows "resolves_as b msg (resolve_execute msg b)"
proof (cases "bs_find b (o_order_ref msg)")
  case (Pair b' res)
  show ?thesis
  proof (cases res)
    case None
    then show ?thesis using unresolved_law [OF assms(1), of msg b'] Pair assms(2) by (simp add: resolve_execute_def)
  next
    case (Some idx)
    with Pair have f: "bs_find b (o_order_ref msg) = (b', Some idx)" by simp
    show ?thesis
      using reduce_resting_law [OF assms(1) f, of "min (o_quantity msg) (ro_quantity (bs_slots b' ! unat idx))"]
        tab.find_present [OF assms(1) f] assms(2)
      by (auto simp: resolves_as_def resolve_execute_def abs_resolve_def f table_inv_frame Let_def min_word_code)
  qed
qed

lemma resolve_cancel_law:
  assumes "table_inv b" and "o_action msg = Cancel"
  shows "resolves_as b msg (resolve_cancel msg b)"
proof (cases "bs_find b (o_order_ref msg)")
  case (Pair b' res)
  show ?thesis
  proof (cases res)
    case None
    then show ?thesis
      using unresolved_law [OF assms(1), of msg b'] Pair assms(2) by (simp add: resolve_cancel_def)
  next
    case (Some idx)
    with Pair have f: "bs_find b (o_order_ref msg) = (b', Some idx)" by simp
    show ?thesis
      using reduce_resting_law [OF assms(1) f, of "min (o_quantity msg) (ro_quantity (bs_slots b' ! unat idx))"]
        tab.find_present [OF assms(1) f] assms(2)
      by (auto simp: resolves_as_def resolve_cancel_def abs_resolve_def f table_inv_frame Let_def min_word_code)
  qed
qed

lemma resolve_delete_law:
  assumes "table_inv b" and "o_action msg = Delete"
  shows "resolves_as b msg (resolve_delete msg b)"
proof (cases "bs_find b (o_order_ref msg)")
  case (Pair b' res)
  show ?thesis
  proof (cases res)
    case None
    then show ?thesis
      using unresolved_law [OF assms(1), of msg b'] Pair assms(2) by (simp add: resolve_delete_def)
  next
    case (Some idx)
    with Pair have f: "bs_find b (o_order_ref msg) = (b', Some idx)" by simp
    show ?thesis
      using tab.erase_snd [of b' "o_order_ref msg"] tab.find_law [OF assms(1) f]
        tab.find_present [OF assms(1) f] assms(2)
      by (simp add: resolves_as_def resolve_delete_def abs_resolve_def f table_inv_frame Let_def)
  qed
qed

lemma resolve_replace_law:
  assumes "table_inv b" and "o_action msg = Replace"
  shows "resolves_as b msg (resolve_replace msg b)"
proof (cases "bs_find b (o_order_ref msg)")
  case (Pair b' res)
  show ?thesis
  proof (cases res)
    case None
    then show ?thesis
      using unresolved_law [OF assms(1), of msg b'] Pair assms(2) by (simp add: resolve_replace_def)
  next
    case (Some idx)
    with Pair have f: "bs_find b (o_order_ref msg) = (b', Some idx)" by simp
    define e where "e = snd (bs_erase b' (o_order_ref msg))"
    define nro where "nro = replacement msg (bs_slots b' ! unat idx)"
    have nro: "nro = \<lparr>ro_order_ref = o_new_order_ref msg, ro_quantity = o_quantity msg,
        ro_price = o_price msg, ro_side = ro_side (bs_slots b' ! unat idx),
        ro_stock = ro_stock (bs_slots b' ! unat idx)\<rparr>"
      by (simp add: nro_def replacement_def)
    have e: "table_inv e" "table_map e = (table_map b)(o_order_ref msg := None)" "has_empty e = has_empty b"
      using tab.erase_snd [of b' "o_order_ref msg"] tab.find_law [OF assms(1) f] by (simp_all add: e_def)
    obtain ok c where ins: "bs_insert e nro = (ok, c)" by (cases "bs_insert e nro")
    have new: "ro_order_ref nro = o_new_order_ref msg" by (simp add: nro)
    show ?thesis
      using tab.insert_law [OF e(1) ins] tab.find_present [OF assms(1) f] assms(2)
      by (auto simp: resolves_as_def resolve_replace_def abs_resolve_def f table_inv_frame Let_def
          new e ins resting_op_def simp flip: e_def nro nro_def)
  qed
qed

lemma resolve_trade_law:
  assumes "table_inv b" and "o_action msg = Trade"
  shows "resolves_as b msg (resolve_trade msg b)"
  using assms
  by (simp add: resolves_as_def resolve_trade_def abs_resolve_def add_op_def table_inv_frame Let_def)

lemma resolve_impl_law:
  assumes "table_inv b"
  shows "resolves_as b msg (resolve_impl msg b)"
proof (cases "o_action msg")
  case Action_None
  then show ?thesis
    using assms by (simp add: resolve_impl_def resolves_as_def abs_resolve_def Let_def)
qed (use assms in \<open>simp_all add: resolve_impl_def resolve_add_law resolve_execute_law
       resolve_cancel_law resolve_delete_law resolve_replace_law resolve_trade_law\<close>)

lemma resolve_law:
  assumes "table_inv b" and "resolve msg b = (ok, b', ops)"
  shows "table_inv b'" and "abs_resolve (has_empty b) msg (table_map b) = (ok, table_map b', ops)"
proof -
  obtain c where c: "resolve_impl msg b = (ok, c, ops)" and b': "b' = (if ok then fold fold_op ops c else c)"
    using assms(2) by (auto simp: resolve_def split: prod.splits if_splits)
  have "resolves_as b msg (ok, c, ops)" using resolve_impl_law [OF assms(1), of msg] c by simp
  then show "table_inv b'" and "abs_resolve (has_empty b) msg (table_map b) = (ok, table_map b', ops)"
    by (auto simp: resolves_as_def b')
qed

section \<open>Counters and digest\<close>

lemma table_ops_digest:
  "bs_find b ref = (b', res) \<Longrightarrow> bs_digest b' = bs_digest b"
  "bs_erase b ref = (ok, b') \<Longrightarrow> bs_digest b' = bs_digest b"
  "bs_insert b ro = (ok, b') \<Longrightarrow> bs_digest b' = bs_digest b"
  "bs_digest (set_quantity b idx q) = bs_digest b"
  by (auto simp: bs_find_def bs_erase_def bs_insert_def set_quantity_def Let_def
      split: option.splits insert_end.splits if_splits)

lemma table_ops_total:
  "bs_find b ref = (b', res) \<Longrightarrow> stat_total (bs_stats b') = stat_total (bs_stats b)"
  "bs_erase b ref = (ok, b') \<Longrightarrow> stat_total (bs_stats b') = stat_total (bs_stats b)"
  "bs_insert b ro = (ok, b') \<Longrightarrow> stat_total (bs_stats b') = stat_total (bs_stats b) + of_bool (\<not> ok)"
  "stat_total (bs_stats (set_quantity b idx q)) = stat_total (bs_stats b)"
  by (auto simp: bs_find_def bs_erase_def bs_insert_def set_quantity_def stat_total_def Let_def
      split: option.splits insert_end.splits)

lemma table_ops_snd [simp, tp_frame]:
  "bs_digest (snd (bs_erase b ref)) = bs_digest b"
  "stat_total (bs_stats (snd (bs_erase b ref))) = stat_total (bs_stats b)"
  "bs_digest (reduce_resting b idx ref n) = bs_digest b"
  "stat_total (bs_stats (reduce_resting b idx ref n)) = stat_total (bs_stats b)"
proof -
  show e: "bs_digest (snd (bs_erase b ref)) = bs_digest b"
    "stat_total (bs_stats (snd (bs_erase b ref))) = stat_total (bs_stats b)" for b
    using table_ops_digest(2) table_ops_total(2) by (metis prod.collapse)+
  show "bs_digest (reduce_resting b idx ref n) = bs_digest b"
    "stat_total (bs_stats (reduce_resting b idx ref n)) = stat_total (bs_stats b)"
    by (simp_all add: reduce_resting_def Let_def e table_ops_digest(4) table_ops_total(4))
qed

lemma stat_total_bump:
  "stat_total (s\<lparr>st_adds := st_adds s + 1\<rparr>) = stat_total s + 1"
  "stat_total (s\<lparr>st_executes := st_executes s + 1\<rparr>) = stat_total s + 1"
  "stat_total (s\<lparr>st_cancels := st_cancels s + 1\<rparr>) = stat_total s + 1"
  "stat_total (s\<lparr>st_deletes := st_deletes s + 1\<rparr>) = stat_total s + 1"
  "stat_total (s\<lparr>st_replaces := st_replaces s + 1\<rparr>) = stat_total s + 1"
  "stat_total (s\<lparr>st_trades := st_trades s + 1\<rparr>) = stat_total s + 1"
  "stat_total (s\<lparr>st_unresolved := st_unresolved s + 1\<rparr>) = stat_total s + 1"
  by (simp_all add: stat_total_def)

lemmas resolve_defs = resolve_impl_def resolve_add_def resolve_execute_def resolve_cancel_def
  resolve_delete_def resolve_replace_def resolve_trade_def unresolved_def

lemma resolve_impl_frame:
  assumes "resolve_impl msg b = (ok, b', ops)"
  shows "bs_digest b' = bs_digest b"
    and "stat_total (bs_stats b') = stat_total (bs_stats b) + of_bool (o_action msg \<noteq> Action_None)"
    and "\<not> ok \<Longrightarrow> ops = []"
  using assms
  by (auto simp: resolve_defs Let_def stat_total_bump table_ops_digest table_ops_total
      split: Action.splits prod.splits option.splits if_splits)

lemma fold_op_digest: "bs_digest (fold fold_op ops b) = fold op_digest ops (bs_digest b)"
  by (induction ops arbitrary: b) (simp_all add: fold_op_def op_digest_def)

lemma resolve_frame:
  assumes "resolve msg b = (ok, b', ops)"
  shows "bs_digest b' = fold op_digest ops (bs_digest b)"
    and "stat_total (bs_stats b') = stat_total (bs_stats b) + of_bool (o_action msg \<noteq> Action_None)"
    and "\<not> ok \<Longrightarrow> ops = []"
proof -
  obtain c where c: "resolve_impl msg b = (ok, c, ops)" and b': "b' = (if ok then fold fold_op ops c else c)"
    using assms by (auto simp: resolve_def split: prod.splits if_splits)
  note f = resolve_impl_frame [OF c]
  show "bs_digest b' = fold op_digest ops (bs_digest b)"
    "stat_total (bs_stats b') = stat_total (bs_stats b) + of_bool (o_action msg \<noteq> Action_None)"
    using f by (simp_all add: b' fold_op_digest)
  show "\<not> ok \<Longrightarrow> ops = []" by (rule f(3))
qed

lemma resolve_same:
  assumes "table_inv b" "table_inv c" "table_map b = table_map c" "bs_digest b = bs_digest c"
    and "has_empty b" "has_empty c"
    and "resolve msg b = (ok, b', ops)" and "resolve msg c = (ok', c', ops')"
  shows "ok' = ok" "ops' = ops" "table_map b' = table_map c'" "bs_digest b' = bs_digest c'"
    and "table_inv b'" "table_inv c'"
  using resolve_law [OF assms(1,7)] resolve_law [OF assms(2,8)]
    resolve_frame(1) [OF assms(7)] resolve_frame(1) [OF assms(8)] assms(3-6)
  by auto

lemma resolve_run_same:
  assumes "table_inv b" "table_inv c" "table_map b = table_map c" "bs_digest b = bs_digest c"
    and "room_throughout msgs b" "room_throughout msgs c"
  shows "snd (resolve_run msgs b) = snd (resolve_run msgs c) \<and>
         bs_digest (fst (resolve_run msgs b)) = bs_digest (fst (resolve_run msgs c)) \<and>
         table_map (fst (resolve_run msgs b)) = table_map (fst (resolve_run msgs c))"
  using assms
proof (induction msgs arbitrary: b c)
  case Nil
  then show ?case by simp
next
  case (Cons msg msgs)
  obtain ok b' ops ok' c' ops' where r: "resolve msg b = (ok, b', ops)" "resolve msg c = (ok', c', ops')"
    by (metis prod_cases3)
  have room: "has_empty b" "has_empty c" "room_throughout msgs b'" "room_throughout msgs c'"
    using Cons.prems(5,6) r by simp_all
  note same = resolve_same [OF Cons.prems(1-4) room(1,2) r]
  show ?case
    using Cons.IH [OF same(5,6,3,4) room(3,4)] same(1,2)
    by (auto simp: r split: prod.splits)
qed

section \<open>Properties\<close>

definition sample_msg :: "Action \<Rightarrow> u64 \<Rightarrow> u32 \<Rightarrow> Order" where
  "sample_msg act ref qty = Order_zero\<lparr>o_action := act, o_order_ref := ref, o_quantity := qty,
     o_side := Buy, o_price := (if act = Add then 1500000 else 0), o_valid := 1\<rparr>"

text \<open>
  C2. Refinement: on every table the operations can produce, \<^verbatim>\<open>resolve\<close> does to the map of
  resting orders, and emits, exactly what the abstract resolver does: an Execute or Cancel touches
  the smaller of the two quantities and removes the order when nothing is left, a Delete removes
  it, a Replace removes the old reference and inserts the new one with the old side and stock, and
  an unknown reference changes nothing. The table invariant is kept.
\<close>

theorem resolve_refines:
  assumes "table_inv b" and "resolve msg b = (ok, b', ops)"
  shows "table_inv b' \<and> abs_resolve (has_empty b) msg (table_map b) = (ok, table_map b', ops)"
  using resolve_law [OF assms] by blast

theorem resolve_refines_witness:
  "let b = snd (bs_insert (sample_table 1) (sample_order 5 100)); r = resolve (sample_msg Execute 5 30) b in
     table_inv b \<and> fst r \<and> map op_quantity (snd (snd r)) = [30] \<and>
     abs_resolve (has_empty b) (sample_msg Execute 5 30) (table_map b) =
       (fst r, table_map (fst (snd r)), snd (snd r)) \<and>
     map_option ro_quantity (table_map (fst (snd r)) 5) = Some 70"
proof -
  define b where "b = snd (bs_insert (sample_table 1) (sample_order 5 100))"
  have inv: "table_inv b"
    using table_step_inv [OF sample_table_inv, of 1 "Insert_order (sample_order 5 100)"] by (simp add: b_def)
  obtain ok b' ops where run: "resolve (sample_msg Execute 5 30) b = (ok, b', ops)"
    by (metis prod_cases3)
  have "fst (resolve (sample_msg Execute 5 30) b)"
    "map op_quantity (snd (snd (resolve (sample_msg Execute 5 30) b))) = [30]"
    "map_option ro_quantity (table_map (fst (snd (resolve (sample_msg Execute 5 30) b))) 5) = Some 70"
    unfolding b_def by code_simp+
  with resolve_refines [OF inv run] show ?thesis
    using inv unfolding Let_def b_def [symmetric] by (simp add: run)
qed

text \<open>
  Accounting: every message with an action moves the sum of the eight outcome counters (adds,
  executes, cancels, deletes, replaces, trades, unresolved, table full) by exactly one, and the
  digest moves by exactly the emitted operations; a refused message emits none.
\<close>

lemma resolve_accounts_every_message:
  "case resolve msg b of (ok, b', ops) \<Rightarrow>
     stat_total (bs_stats b') = stat_total (bs_stats b) + of_bool (o_action msg \<noteq> Action_None) \<and>
     bs_digest b' = fold op_digest ops (bs_digest b) \<and> (ok \<or> ops = [])"
proof (cases "resolve msg b")
  case (fields ok b' ops)
  then show ?thesis using resolve_frame [OF fields] by auto
qed

text \<open>
  Determinism: the operations, the digest and the resting orders are a function of the
  messages alone. Two tables of any capacities, whatever memory they were built on, give the same
  operations and the same digest on the same messages as long as neither runs out of empty slots.
\<close>

lemma resolve_deterministic:
  assumes "k \<le> 63" and "l \<le> 63"
    and "room_throughout msgs (BookState_new mem k)" and "room_throughout msgs (BookState_new mem' l)"
  shows "snd (resolve_run msgs (BookState_new mem k)) = snd (resolve_run msgs (BookState_new mem' l)) \<and>
         bs_digest (fst (resolve_run msgs (BookState_new mem k))) =
           bs_digest (fst (resolve_run msgs (BookState_new mem' l)))"
  using resolve_run_same [OF table_inv_new(1) [OF assms(1)] table_inv_new(1) [OF assms(2)] _ _ assms(3,4)]
  by (simp add: table_inv_new(2) assms(1,2)) (simp add: BookState_new_def)

end
