(* ===== verification/Software_Engine.thy ===== *)
theory Software_Engine
  imports Book_State
begin

text \<open>
  \<^verbatim>\<open>SoftwareEngine\<close> (\<^verbatim>\<open>include/software_engine.hpp\<close>, \<^verbatim>\<open>src/software_engine.cpp\<close>): the STL
  matching engine, with its two entry points \<^verbatim>\<open>submit\<close> (the engine decides whether the order
  crosses) and \<^verbatim>\<open>apply\<close> (replay of resolved operations), its snapshots and its digest.
  A \<^verbatim>\<open>std::map\<close> is the list of its entries in key order; the contract of the map under its
  comparator is the locale \<open>price_ladder\<close>, interpreted for the ask side (\<^verbatim>\<open>std::less\<close>) and the
  bid side (\<^verbatim>\<open>std::greater\<close>).
\<close>

section \<open>Data\<close>

record MatchResult =
  mr_buy_order_ref :: u64
  mr_sell_order_ref :: u64
  mr_price :: u32
  mr_quantity :: u32
  mr_matched :: bool

definition MatchResult_zero :: MatchResult where
  "MatchResult_zero = \<lparr>mr_buy_order_ref = 0, mr_sell_order_ref = 0, mr_price = 0,
     mr_quantity = 0, mr_matched = False\<rparr>"

type_synonym Level = "(u64 \<times> u32) list"
type_synonym ladder = "(u32 \<times> Level) list"

record SoftwareEngine =
  se_bids :: ladder
  se_asks :: ladder
  se_orders_processed :: u64
  se_matches_made :: u64
  se_shares_traded :: u64
  se_orphan_ops :: u64
  se_last_price :: u32

record DepthLevel =
  dl_price :: u32
  dl_quantity :: u32
  dl_orders :: u32

definition SoftwareEngine_new :: SoftwareEngine where
  "SoftwareEngine_new = \<lparr>se_bids = [], se_asks = [], se_orders_processed = 0, se_matches_made = 0,
     se_shares_traded = 0, se_orphan_ops = 0, se_last_price = 0\<rparr>"

section \<open>Operations on one side of the book\<close>

text \<open>\<^verbatim>\<open>book[price].push_back(e)\<close> under the comparator \<open>lt\<close> of the map.\<close>

fun book_push :: "(u32 \<Rightarrow> u32 \<Rightarrow> bool) \<Rightarrow> u32 \<Rightarrow> u64 \<times> u32 \<Rightarrow> ladder \<Rightarrow> ladder" where
  "book_push lt px e [] = [(px, [e])]"
| "book_push lt px e ((p, q) # rest) =
     (if lt p px then (p, q) # book_push lt px e rest
      else if lt px p then (px, [e]) # (p, q) # rest
      else (p, q @ [e]) # rest)"

text \<open>
  The loop over a queue that stops at the first entry with the reference: the entry's size becomes
  \<open>left n\<close>, and the entry is erased when that is zero. \<^const>\<open>None\<close> when no entry has it.
\<close>

fun edit_queue :: "u64 \<Rightarrow> (u32 \<Rightarrow> u32) \<Rightarrow> Level \<Rightarrow> Level option" where
  "edit_queue ref left [] = None"
| "edit_queue ref left ((r, n) # q) =
     (if r \<noteq> ref then map_option (Cons (r, n)) (edit_queue ref left q)
      else Some (if left n = 0 then q else (r, left n) # q))"

text \<open>\<^verbatim>\<open>book.find(price)\<close>, the loop over that level, and \<^verbatim>\<open>book.erase\<close> of a level left empty.\<close>

fun edit_level :: "u64 \<Rightarrow> (u32 \<Rightarrow> u32) \<Rightarrow> u32 \<Rightarrow> ladder \<Rightarrow> ladder option" where
  "edit_level ref left px [] = None"
| "edit_level ref left px ((p, q) # rest) =
     (if p \<noteq> px then map_option (Cons (p, q)) (edit_level ref left px rest)
      else map_option (\<lambda>q'. if q' = [] then rest else (p, q') # rest) (edit_queue ref left q))"

definition strip :: "u32 \<Rightarrow> u64 \<Rightarrow> ladder \<Rightarrow> ladder option" where
  "strip px ref book = edit_level ref (\<lambda>n. 0) px book"

definition shrink :: "u32 \<Rightarrow> u64 \<Rightarrow> u32 \<Rightarrow> ladder \<Rightarrow> ladder option" where
  "shrink px ref qty book = edit_level ref (\<lambda>n. n - min qty n) px book"

text \<open>The lambda \<^verbatim>\<open>scan\<close> of \<^verbatim>\<open>apply\<close>: every level of the side in turn.\<close>

fun scan :: "u64 \<Rightarrow> u32 \<Rightarrow> ladder \<Rightarrow> ladder option" where
  "scan ref qty [] = None"
| "scan ref qty ((p, q) # rest) =
     (case edit_queue ref (\<lambda>n. n - min qty n) q of
        None \<Rightarrow> map_option (Cons (p, q)) (scan ref qty rest)
      | Some q' \<Rightarrow> Some (if q' = [] then rest else (p, q') # rest))"

section \<open>Submitting an order\<close>

text \<open>
  The fill of the front order of the best level. \<^const>\<open>None\<close> is \<^verbatim>\<open>front()\<close> of an empty queue,
  which C++ does not define.
\<close>

fun fill_front :: "u32 \<Rightarrow> ladder \<Rightarrow> (u64 \<times> u32 \<times> ladder) option" where
  "fill_front want ((p, (ref, qty) # q) # rest) =
     (let n = min want qty; left = qty - n;
          q' = (if left = 0 then q else (ref, left) # q)
      in Some (ref, n, if q' = [] then rest else (p, q') # rest))"
| "fill_front want _ = None"

definition book_match :: "MatchResult \<Rightarrow> SoftwareEngine \<Rightarrow> SoftwareEngine" where
  "book_match result e = e\<lparr>se_matches_made := se_matches_made e + 1,
     se_shares_traded := se_shares_traded e + ucast (mr_quantity result),
     se_last_price := mr_price result\<rparr>"

definition try_match_buy :: "Order \<Rightarrow> SoftwareEngine \<Rightarrow> (MatchResult \<times> SoftwareEngine) option" where
  "try_match_buy order e =
     (if se_asks e \<noteq> [] \<and> fst (hd (se_asks e)) \<le> o_price order then
        (case fill_front (o_quantity order) (se_asks e) of
           None \<Rightarrow> None
         | Some (ref, n, asks) \<Rightarrow>
             let result = \<lparr>mr_buy_order_ref = o_order_ref order, mr_sell_order_ref = ref,
                   mr_price = fst (hd (se_asks e)), mr_quantity = n, mr_matched = True\<rparr>
             in Some (result, book_match result (e\<lparr>se_asks := asks\<rparr>)))
      else Some (MatchResult_zero,
        e\<lparr>se_bids := book_push (\<lambda>a b. b < a) (o_price order) (o_order_ref order, o_quantity order)
                      (se_bids e)\<rparr>))"

definition try_match_sell :: "Order \<Rightarrow> SoftwareEngine \<Rightarrow> (MatchResult \<times> SoftwareEngine) option" where
  "try_match_sell order e =
     (if se_bids e \<noteq> [] \<and> o_price order \<le> fst (hd (se_bids e)) then
        (case fill_front (o_quantity order) (se_bids e) of
           None \<Rightarrow> None
         | Some (ref, n, bids) \<Rightarrow>
             let result = \<lparr>mr_buy_order_ref = ref, mr_sell_order_ref = o_order_ref order,
                   mr_price = fst (hd (se_bids e)), mr_quantity = n, mr_matched = True\<rparr>
             in Some (result, book_match result (e\<lparr>se_bids := bids\<rparr>)))
      else Some (MatchResult_zero,
        e\<lparr>se_asks := book_push (<) (o_price order) (o_order_ref order, o_quantity order)
                      (se_asks e)\<rparr>))"

definition submit :: "Order \<Rightarrow> SoftwareEngine \<Rightarrow> (MatchResult \<times> SoftwareEngine) option" where
  "submit order e =
     (let e = e\<lparr>se_orders_processed := se_orders_processed e + 1\<rparr>
      in if o_side order = Buy then try_match_buy order e else try_match_sell order e)"

section \<open>Replaying resolved operations\<close>

definition rest_order :: "Side \<Rightarrow> u32 \<Rightarrow> u64 \<Rightarrow> u32 \<Rightarrow> SoftwareEngine \<Rightarrow> SoftwareEngine" where
  "rest_order side price ref qty e =
     (if qty = 0 then e
      else if side = Buy then e\<lparr>se_bids := book_push (\<lambda>a b. b < a) price (ref, qty) (se_bids e)\<rparr>
      else e\<lparr>se_asks := book_push (<) price (ref, qty) (se_asks e)\<rparr>)"

definition on_side ::
    "Side \<Rightarrow> (ladder \<Rightarrow> ladder option) \<Rightarrow> SoftwareEngine \<Rightarrow> bool \<times> SoftwareEngine" where
  "on_side side f e =
     (if side = Buy then (case f (se_bids e) of None \<Rightarrow> (False, e) | Some l \<Rightarrow> (True, e\<lparr>se_bids := l\<rparr>))
      else (case f (se_asks e) of None \<Rightarrow> (False, e) | Some l \<Rightarrow> (True, e\<lparr>se_asks := l\<rparr>)))"

definition remove_ref :: "Side \<Rightarrow> u32 \<Rightarrow> u64 \<Rightarrow> SoftwareEngine \<Rightarrow> bool \<times> SoftwareEngine" where
  "remove_ref side price ref = on_side side (strip price ref)"

definition reduce_ref :: "Side \<Rightarrow> u32 \<Rightarrow> u64 \<Rightarrow> u32 \<Rightarrow> SoftwareEngine \<Rightarrow> bool \<times> SoftwareEngine" where
  "reduce_ref side price ref qty = on_side side (shrink price ref qty)"

definition orphan :: "SoftwareEngine \<Rightarrow> SoftwareEngine" where
  "orphan e = e\<lparr>se_orphan_ops := se_orphan_ops e + 1\<rparr>"

definition print_trade :: "ResolvedOp \<Rightarrow> SoftwareEngine \<Rightarrow> SoftwareEngine" where
  "print_trade p e = e\<lparr>se_matches_made := se_matches_made e + 1,
     se_shares_traded := se_shares_traded e + ucast (op_quantity p), se_last_price := op_price p\<rparr>"

definition apply_execute :: "ResolvedOp \<Rightarrow> SoftwareEngine \<Rightarrow> SoftwareEngine" where
  "apply_execute p e =
     (let e1 = (case reduce_ref (op_side p) (op_price p) (op_order_ref p) (op_quantity p) e of
                 (True, e') \<Rightarrow> e'
               | (False, e') \<Rightarrow>
                   (case on_side (op_side p) (scan (op_order_ref p) (op_quantity p)) e' of
                      (True, e'') \<Rightarrow> e''
                    | (False, e'') \<Rightarrow> orphan e''))
      in if op_match_number p \<noteq> 0 then print_trade p e1 else e1)"

definition or_orphan :: "bool \<times> SoftwareEngine \<Rightarrow> SoftwareEngine" where
  "or_orphan r = (if fst r then snd r else orphan (snd r))"

definition apply_op :: "ResolvedOp \<Rightarrow> SoftwareEngine \<Rightarrow> SoftwareEngine" where
  "apply_op p e =
     (case op_action p of
        Add \<Rightarrow> (let e = rest_order (op_side p) (op_price p) (op_order_ref p) (op_quantity p) e
                in e\<lparr>se_orders_processed := se_orders_processed e + 1\<rparr>)
      | Execute \<Rightarrow> apply_execute p e
      | Cancel \<Rightarrow> or_orphan (reduce_ref (op_side p) (op_price p) (op_order_ref p) (op_quantity p) e)
      | Delete \<Rightarrow> or_orphan (remove_ref (op_side p) (op_price p) (op_order_ref p) e)
      | Trade \<Rightarrow> print_trade p e
      | _ \<Rightarrow> e)"

section \<open>Snapshots\<close>

definition level_qty :: "Level \<Rightarrow> u32" where
  "level_qty q = foldl (\<lambda>n x. n + snd x) 0 q"

text \<open>\<open>depth_walk n max book\<close>: the loop body with \<open>n\<close> levels already written.\<close>

fun depth_walk :: "int \<Rightarrow> int \<Rightarrow> ladder \<Rightarrow> DepthLevel list" where
  "depth_walk n mx [] = []"
| "depth_walk n mx ((px, q) # book) =
     (if n \<ge> mx then []
      else if level_qty q = 0 then depth_walk n mx book
      else \<lparr>dl_price = px, dl_quantity = level_qty q, dl_orders = of_nat (length q)\<rparr>
             # depth_walk (n + 1) mx book)"

definition depth :: "Side \<Rightarrow> int \<Rightarrow> SoftwareEngine \<Rightarrow> DepthLevel list" where
  "depth side mx e = depth_walk 0 mx (if side = Buy then se_bids e else se_asks e)"

definition best_of :: "ladder \<Rightarrow> (u32 \<times> u32) option" where
  "best_of book = (case book of [] \<Rightarrow> None | (px, q) # _ \<Rightarrow> Some (px, level_qty q))"

definition best_bid :: "SoftwareEngine \<Rightarrow> (u32 \<times> u32) option" where
  "best_bid e = best_of (se_bids e)"

definition best_ask :: "SoftwareEngine \<Rightarrow> (u32 \<times> u32) option" where
  "best_ask e = best_of (se_asks e)"

definition digest_walk :: "ladder \<Rightarrow> u64 \<Rightarrow> u64" where
  "digest_walk book h =
     foldl (\<lambda>h (px, q). foldl (\<lambda>h (ref, n). fold_digest (ucast n) (fold_digest ref h))
                          (fold_digest (ucast px) h) q) h book"

definition book_digest :: "SoftwareEngine \<Rightarrow> u64" where
  "book_digest e = digest_walk (se_asks e) (digest_walk (se_bids e) FNV_OFFSET)"

definition clear :: "SoftwareEngine \<Rightarrow> SoftwareEngine" where
  "clear e = e\<lparr>se_bids := [], se_asks := [], se_orders_processed := 0, se_matches_made := 0,
     se_shares_traded := 0, se_orphan_ops := 0, se_last_price := 0\<rparr>"

section \<open>The book, as a specification\<close>

text \<open>
  A side of the book, flattened: every resting order with its reference, price and size, best
  price first and oldest first within a price; and the two views the specifications use, the
  queue at a price and the order of a reference.
\<close>

definition flat :: "ladder \<Rightarrow> (u64 \<times> u32 \<times> u32) list" where
  "flat book = concat (map (\<lambda>(p, q). map (\<lambda>(r, n). (r, p, n)) q) book)"

definition level_at :: "ladder \<Rightarrow> u32 \<Rightarrow> Level" where
  "level_at book px = (case map_of book px of None \<Rightarrow> [] | Some q \<Rightarrow> q)"

definition book_map :: "ladder \<Rightarrow> u64 \<Rightarrow> (u32 \<times> u32) option" where
  "book_map book = map_of (flat book)"

definition ladder_ok :: "(u32 \<Rightarrow> u32 \<Rightarrow> bool) \<Rightarrow> ladder \<Rightarrow> bool" where
  "ladder_ok lt book \<longleftrightarrow> sorted_wrt lt (map fst book) \<and> [] \<notin> snd ` set book"

abbreviation bid_lt :: "u32 \<Rightarrow> u32 \<Rightarrow> bool" where
  "bid_lt a b \<equiv> b < a"

definition engine_ok :: "SoftwareEngine \<Rightarrow> bool" where
  "engine_ok e \<longleftrightarrow> ladder_ok bid_lt (se_bids e) \<and> ladder_ok (<) (se_asks e)"

definition uncrossed :: "SoftwareEngine \<Rightarrow> bool" where
  "uncrossed e \<longleftrightarrow> (\<forall>b \<in> fst ` set (se_bids e). \<forall>a \<in> fst ` set (se_asks e). b < a)"

definition book_shares :: "ladder \<Rightarrow> nat" where
  "book_shares book = sum_list (map (\<lambda>(r, p, n). unat n) (flat book))"

text \<open>\<open>p\<close> is the best price with a resting order, and its oldest order is filled by at most \<open>want\<close>.\<close>

definition takes_best ::
    "(u32 \<Rightarrow> u32 \<Rightarrow> bool) \<Rightarrow> u32 \<Rightarrow> (u32 \<Rightarrow> Level) \<Rightarrow> (u32 \<Rightarrow> Level) \<Rightarrow> u32 \<Rightarrow> u64 \<Rightarrow> u32 \<Rightarrow> bool" where
  "takes_best le want opp opp' p ref n \<longleftrightarrow>
     (\<forall>p'. opp p' \<noteq> [] \<longrightarrow> le p p') \<and>
     (\<exists>qty q. opp p = (ref, qty) # q \<and> n = min want qty \<and>
        opp' = opp(p := if qty \<le> want then q else (ref, qty - want) # q))"

fun submit_run :: "Order list \<Rightarrow> SoftwareEngine \<Rightarrow> (MatchResult list \<times> SoftwareEngine) option" where
  "submit_run [] e = Some ([], e)"
| "submit_run (x # xs) e =
     (case submit x e of None \<Rightarrow> None
      | Some (r, e1) \<Rightarrow> map_option (\<lambda>(rs, e2). (r # rs, e2)) (submit_run xs e1))"

section \<open>One side of the book\<close>

lemma flat_simps [simp]:
  "flat [] = []"
  "flat ((p, q) # book) = map (\<lambda>(r, n). (r, p, n)) q @ flat book"
  by (simp_all add: flat_def)

lemma level_at_simps [simp]:
  "level_at [] px = []"
  "level_at ((p, q) # book) px = (if p = px then q else level_at book px)"
  by (simp_all add: level_at_def)

lemma ladder_ok_simps [simp]:
  "ladder_ok lt []"
  "ladder_ok lt ((p, q) # book) \<longleftrightarrow> (\<forall>x \<in> fst ` set book. lt p x) \<and> q \<noteq> [] \<and> ladder_ok lt book"
  by (auto simp: ladder_ok_def)

lemma entry_refs: "fst ` (\<lambda>(r, n). (r, p, n)) ` set q = fst ` set q"
  by force

lemma entry_in: "(r, p', n) \<in> (\<lambda>(r, n). (r, p, n)) ` set q \<longleftrightarrow> p' = p \<and> (r, n) \<in> set q"
  by force

lemma flat_distinct:
  "distinct (map fst (flat ((p, q) # book))) \<longleftrightarrow>
     distinct (map fst q) \<and> distinct (map fst (flat book)) \<and> fst ` set q \<inter> fst ` set (flat book) = {}"
proof -
  have "map fst (map (\<lambda>(r, n). (r, p, n)) q) = map fst q" by auto
  then show ?thesis by (simp only: flat_simps map_append distinct_append set_map)
qed

lemma level_at_keys: "level_at book px \<noteq> [] \<Longrightarrow> px \<in> fst ` set book"
  by (induction book) (auto split: if_splits)

lemma flat_keys: "(r, px, n) \<in> set (flat book) \<Longrightarrow> px \<in> fst ` set book"
  by (induction book) auto

lemma book_shares_simps [simp]:
  "book_shares [] = 0"
  "book_shares ((p, q) # book) = sum_list (map (unat \<circ> snd) q) + book_shares book"
  by (simp_all add: book_shares_def split_def comp_def)

definition kept_entry :: "u64 \<Rightarrow> u32 \<Rightarrow> u32 \<Rightarrow> (u64 \<times> u32 \<times> u32) list" where
  "kept_entry ref px n = (if n = 0 then [] else [(ref, px, n)])"

lemma edit_queue_Some:
  assumes "edit_queue ref left q = Some q'"
  shows "\<exists>xs n ys. q = xs @ (ref, n) # ys \<and> ref \<notin> fst ` set xs \<and>
           q' = xs @ (if left n = 0 then [] else [(ref, left n)]) @ ys"
  using assms
proof (induction q arbitrary: q')
  case (Cons x q)
  show ?case
  proof (cases "fst x = ref")
    case True
    then show ?thesis using Cons.prems
      by (cases x) (auto intro!: exI [of _ "[]"])
  next
    case False
    then obtain q1 where q1: "edit_queue ref left q = Some q1" "q' = x # q1"
      using Cons.prems by (cases x) auto
    from Cons.IH [OF q1(1)] obtain xs n ys where
      "q = xs @ (ref, n) # ys" "ref \<notin> fst ` set xs"
      "q1 = xs @ (if left n = 0 then [] else [(ref, left n)]) @ ys" by blast
    then show ?thesis using q1(2) False
      by (intro exI [of _ "x # xs"] exI [of _ n] exI [of _ ys]) auto
  qed
qed simp

lemma edit_queue_None: "edit_queue ref left q = None \<longleftrightarrow> ref \<notin> fst ` set q"
proof (induction q)
  case (Cons x q)
  then show ?case by (cases x; cases "fst x = ref") auto
qed simp

text \<open>An edit of a side replaces one flattened entry by what is left of it.\<close>

definition edits :: "u64 \<Rightarrow> (u32 \<Rightarrow> u32) \<Rightarrow> u32 \<Rightarrow> ladder \<Rightarrow> ladder \<Rightarrow> bool" where
  "edits ref left px book book' \<longleftrightarrow>
     (\<exists>xs n ys. flat book = xs @ (ref, px, n) # ys \<and> ref \<notin> fst ` set xs \<and>
        flat book' = xs @ kept_entry ref px (left n) @ ys)"

lemma edits_here:
  assumes "edit_queue ref left q = Some q'"
  shows "edits ref left p ((p, q) # rest) (if q' = [] then rest else (p, q') # rest)"
proof -
  obtain xs n ys where q: "q = xs @ (ref, n) # ys" "ref \<notin> fst ` set xs"
    and q': "q' = xs @ (if left n = 0 then [] else [(ref, left n)]) @ ys"
    using edit_queue_Some [OF assms] by blast
  let ?f = "map (\<lambda>(r, n). (r, p, n))"
  have "flat ((p, q) # rest) = ?f xs @ (ref, p, n) # (?f ys @ flat rest)" by (simp add: q)
  moreover have "flat (if q' = [] then rest else (p, q') # rest) = ?f q' @ flat rest" by simp
  moreover have "ref \<notin> fst ` set (?f xs)" using q(2) by force
  ultimately show ?thesis
    unfolding edits_def using q'
    by (intro exI [of _ "?f xs"] exI [of _ n] exI [of _ "?f ys @ flat rest"])
      (simp add: kept_entry_def)
qed

lemma edits_later:
  assumes "edits ref left px book book'" and "ref \<notin> fst ` set q"
  shows "edits ref left px ((p, q) # book) ((p, q) # book')"
proof -
  from assms(1) obtain xs n ys where *: "flat book = xs @ (ref, px, n) # ys" "ref \<notin> fst ` set xs"
    "flat book' = xs @ kept_entry ref px (left n) @ ys"
    unfolding edits_def by blast
  have "ref \<notin> fst ` set (map (\<lambda>(r, n). (r, p, n)) q)" using assms(2) by force
  with * show ?thesis
    unfolding edits_def
    by (intro exI [of _ "map (\<lambda>(r, n). (r, p, n)) q @ xs"] exI [of _ n] exI [of _ ys]) auto
qed

lemma edit_level_None:
  assumes "ladder_ok lt book" and "\<And>x. \<not> lt x x"
  shows "edit_level ref left px book = None \<longleftrightarrow> (\<forall>n. (ref, px, n) \<notin> set (flat book))"
  using assms(1)
proof (induction book)
  case (Cons x book)
  obtain p q where x: "x = (p, q)" by (cases x)
  show ?case
  proof (cases "p = px")
    case True
    then have "px \<notin> fst ` set book" using Cons.prems assms(2) x by auto
    then have "(ref, px, n) \<notin> set (flat book)" for n using flat_keys by blast
    then show ?thesis using True x by (force simp: edit_queue_None entry_in)
  next
    case False
    then show ?thesis using Cons x by auto
  qed
qed simp

lemma edit_level_Some:
  assumes "edit_level ref left px book = Some book'" and "distinct (map fst (flat book))"
  shows "edits ref left px book book'"
  using assms
proof (induction book arbitrary: book')
  case (Cons x book)
  obtain p q where x: "x = (p, q)" by (cases x)
  show ?case
  proof (cases "p = px")
    case True
    then show ?thesis using Cons.prems x edits_here by auto
  next
    case False
    then obtain b1 where b1: "edit_level ref left px book = Some b1" "book' = (p, q) # b1"
      using Cons.prems x by auto
    have d: "distinct (map fst (flat book))" "fst ` set q \<inter> fst ` set (flat book) = {}"
      using Cons.prems(2) unfolding x flat_distinct by blast+
    note IH = Cons.IH [OF b1(1) d(1)]
    have "ref \<in> fst ` set (flat book)" using IH unfolding edits_def by force
    then have "ref \<notin> fst ` set q" using d(2) by blast
    then show ?thesis using edits_later [OF IH] b1 x by simp
  qed
qed simp

lemma scan_None: "scan ref qty book = None \<longleftrightarrow> ref \<notin> fst ` set (flat book)"
proof (induction book)
  case (Cons x book)
  obtain p q where x: "x = (p, q)" by (cases x)
  have "ref \<in> fst ` set (flat (x # book)) \<longleftrightarrow> ref \<in> fst ` set q \<or> ref \<in> fst ` set (flat book)"
    by (simp add: x image_Un entry_refs)
  then show ?case
    using Cons by (cases "edit_queue ref (\<lambda>n. n - min qty n) q")
      (simp_all add: x flip: edit_queue_None [of ref "\<lambda>n. n - min qty n"])
qed simp

lemma scan_Some:
  assumes "scan ref qty book = Some book'"
  shows "\<exists>px. edits ref (\<lambda>n. n - min qty n) px book book'"
  using assms
proof (induction book arbitrary: book')
  case (Cons x book)
  obtain p q where x: "x = (p, q)" by (cases x)
  show ?case
  proof (cases "edit_queue ref (\<lambda>n. n - min qty n) q")
    case None
    then obtain b1 where b1: "scan ref qty book = Some b1" "book' = (p, q) # b1"
      using Cons.prems x by auto
    from Cons.IH [OF b1(1)] obtain px where "edits ref (\<lambda>n. n - min qty n) px book b1" by blast
    then have "edits ref (\<lambda>n. n - min qty n) px ((p, q) # book) ((p, q) # b1)"
      using None edit_queue_None by (intro edits_later) auto
    then show ?thesis using b1(2) x by blast
  next
    case (Some q')
    then show ?thesis using Cons.prems x edits_here [OF Some] by auto
  qed
qed simp

text \<open>Edits keep the shape of a side: sorted prices, no empty level.\<close>

lemma edit_keys:
  "edit_level ref left px book = Some book' \<Longrightarrow> fst ` set book' \<subseteq> fst ` set book"
  "scan ref qty book = Some book' \<Longrightarrow> fst ` set book' \<subseteq> fst ` set book"
proof -
  show "edit_level ref left px book = Some book' \<Longrightarrow> fst ` set book' \<subseteq> fst ` set book"
  proof (induction book arbitrary: book')
    case (Cons x book)
    obtain p q where x: "x = (p, q)" by (cases x)
    show ?case
      using Cons.prems Cons.IH unfolding x by (cases "p = px") (force simp: image_subset_iff split: if_splits)+
  qed simp
  show "scan ref qty book = Some book' \<Longrightarrow> fst ` set book' \<subseteq> fst ` set book"
  proof (induction book arbitrary: book')
    case (Cons x book)
    obtain p q where x: "x = (p, q)" by (cases x)
    show ?case
      using Cons.prems Cons.IH unfolding x
      by (cases "edit_queue ref (\<lambda>n. n - min qty n) q") (force simp: image_subset_iff split: if_splits)+
  qed simp
qed

lemma edit_ok:
  "ladder_ok lt book \<Longrightarrow> edit_level ref left px book = Some book' \<Longrightarrow> ladder_ok lt book'"
  "ladder_ok lt book \<Longrightarrow> scan ref qty book = Some book' \<Longrightarrow> ladder_ok lt book'"
proof -
  show "ladder_ok lt book'" if "ladder_ok lt book" "edit_level ref left px book = Some book'"
    using that
  proof (induction book arbitrary: book')
    case (Cons x book)
    obtain p q where x: "x = (p, q)" by (cases x)
    show ?case
      using Cons.prems Cons.IH edit_keys(1) [of ref left px book] unfolding x
      by (cases "p = px") (force simp: image_subset_iff split: if_splits)+
  qed simp
  show "ladder_ok lt book'" if "ladder_ok lt book" "scan ref qty book = Some book'"
    using that
  proof (induction book arbitrary: book')
    case (Cons x book)
    obtain p q where x: "x = (p, q)" by (cases x)
    show ?case
      using Cons.prems Cons.IH edit_keys(2) [of ref qty book] unfolding x
      by (cases "edit_queue ref (\<lambda>n. n - min qty n) q") (force simp: image_subset_iff split: if_splits)+
  qed simp
qed

lemma edits_map:
  assumes "edits ref left px book book'" and "distinct (map fst (flat book))"
  shows "\<exists>n. book_map book ref = Some (px, n) \<and>
           book_map book' = (book_map book)(ref := if left n = 0 then None else Some (px, left n)) \<and>
           distinct (map fst (flat book'))"
proof -
  from assms(1) obtain xs n ys where *: "flat book = xs @ (ref, px, n) # ys" "ref \<notin> fst ` set xs"
    "flat book' = xs @ kept_entry ref px (left n) @ ys"
    unfolding edits_def by blast
  have no: "ref \<notin> fst ` set ys" using assms(2) * by auto
  then have "map_of ys ref = None" "map_of xs ref = None" using *(2) by (simp_all add: map_of_eq_None_iff)
  then show ?thesis
    using * assms(2)
    by (intro exI [of _ n]) (auto simp: book_map_def kept_entry_def map_add_def fun_eq_iff split: option.splits)
qed

lemma left_none: "(qty :: u32) - min want qty = 0 \<longleftrightarrow> qty \<le> want"
  by (auto simp: min_def)

lemma left_some: "\<not> (qty :: u32) \<le> want \<Longrightarrow> min want qty = want"
  by (auto simp: min_def)

section \<open>Interface: a price-sorted side\<close>

text \<open>
  What the engine uses of \<^verbatim>\<open>std::map\<close> under a comparator that is a strict total order: pushing
  keeps the order of the keys and adds one entry at the tail of its level, and the first level
  is the best one.
\<close>

locale price_ladder =
  fixes lt :: "u32 \<Rightarrow> u32 \<Rightarrow> bool"
  assumes lt_irrefl: "\<not> lt x x"
    and lt_trans: "lt x y \<Longrightarrow> lt y z \<Longrightarrow> lt x z"
    and lt_total: "x \<noteq> y \<Longrightarrow> lt x y \<or> lt y x"
begin

lemma push_keys: "fst ` set (book_push lt px e book) = insert px (fst ` set book)"
proof (induction book)
  case (Cons x book)
  then show ?case using lt_total [of "fst x" px] by (cases x) auto
qed simp

lemma push_ok: "ladder_ok lt book \<Longrightarrow> ladder_ok lt (book_push lt px e book)"
proof (induction book)
  case (Cons x book)
  obtain p q where x: "x = (p, q)" by (cases x)
  show ?case using Cons by (auto simp: x push_keys intro: lt_trans)
qed simp

lemma level_push:
  "ladder_ok lt book \<Longrightarrow>
     level_at (book_push lt px e book) = (level_at book)(px := level_at book px @ [e])"
proof (induction book)
  case Nil
  then show ?case by (simp add: fun_eq_iff)
next
  case (Cons x book)
  obtain p q where x: "x = (p, q)" by (cases x)
  have absent: "level_at book px = []" if "lt px p"
    using that level_at_keys [of book px] Cons.prems x lt_trans lt_irrefl by fastforce
  show ?case
    using Cons absent lt_total [of p px] lt_irrefl by (auto simp: x fun_eq_iff)
qed

lemma push_flat:
  "\<exists>xs ys. flat book = xs @ ys \<and> flat (book_push lt px e book) = xs @ (fst e, px, snd e) # ys"
proof (induction book)
  case Nil
  then show ?case by (cases e) simp
next
  case (Cons x book)
  obtain p q where x: "x = (p, q)" by (cases x)
  let ?q = "map (\<lambda>(r, n). (r, p, n)) q"
  from Cons obtain xs ys where IH: "flat book = xs @ ys"
    "flat (book_push lt px e book) = xs @ (fst e, px, snd e) # ys" by blast
  consider "lt p px" | "\<not> lt p px" "lt px p" | "p = px" using lt_total by blast
  then show ?case
  proof cases
    case 1
    then show ?thesis using IH x by (intro exI [of _ "?q @ xs"] exI [of _ ys]) simp
  next
    case 2
    then show ?thesis using x
      by (intro exI [of _ "[]"] exI [of _ "?q @ flat book"]) (cases e, simp)
  next
    case 3
    then show ?thesis using x lt_irrefl
      by (intro exI [of _ ?q] exI [of _ "flat book"]) (cases e, simp)
  qed
qed

lemma push_map:
  assumes "distinct (map fst (flat book))" and "book_map book (fst e) = None"
  shows "book_map (book_push lt px e book) = (book_map book)(fst e \<mapsto> (px, snd e)) \<and>
         distinct (map fst (flat (book_push lt px e book)))"
proof -
  obtain xs ys where *: "flat book = xs @ ys"
    "flat (book_push lt px e book) = xs @ (fst e, px, snd e) # ys" using push_flat by blast
  have new: "fst e \<notin> fst ` set xs" "fst e \<notin> fst ` set ys"
    using assms(2) * by (auto simp: book_map_def map_of_eq_None_iff)
  then have "map_of xs (fst e) = None" by (simp add: map_of_eq_None_iff)
  then show ?thesis using * new assms(1)
    by (auto simp: book_map_def map_add_def fun_eq_iff split: option.splits)
qed

lemma push_shares: "book_shares (book_push lt px e book) = book_shares book + unat (snd e)"
proof -
  obtain xs ys where "flat book = xs @ ys"
    "flat (book_push lt px e book) = xs @ (fst e, px, snd e) # ys" using push_flat by blast
  then show ?thesis by (simp add: book_shares_def)
qed

lemma head_best: "ladder_ok lt ((p, q) # rest) \<Longrightarrow> level_at ((p, q) # rest) p' \<noteq> [] \<Longrightarrow> p' = p \<or> lt p p'"
  using level_at_keys [of rest p'] by (auto split: if_splits)

lemma level_none: "ladder_ok lt ((p, q) # rest) \<Longrightarrow> level_at rest p = []"
  using level_at_keys [of rest p] lt_irrefl by auto

lemma fill_front_law:
  assumes "ladder_ok lt book" and "book \<noteq> []"
  shows "\<exists>ref n book'. fill_front want book = Some (ref, n, book') \<and> ladder_ok lt book' \<and>
     fst ` set book' \<subseteq> fst ` set book \<and> book_shares book' + unat n = book_shares book \<and>
     takes_best (\<lambda>a b. a = b \<or> lt a b) want (level_at book) (level_at book') (fst (hd book)) ref n"
proof -
  obtain p ref qty q rest where b: "book = (p, (ref, qty) # q) # rest"
    using assms by (cases book; cases "snd (hd book)") auto
  have best: "level_at book p' \<noteq> [] \<Longrightarrow> p = p' \<or> lt p p'" for p'
    using head_best assms(1) unfolding b by blast
  have none: "level_at rest p = []" using level_none assms(1) unfolding b by blast
  have "min want qty \<le> qty" by simp
  then have "unat (qty - min want qty) + unat (min want qty) = unat qty"
    by (simp add: unat_sub word_le_nat_alt)
  then show ?thesis
    using assms(1) best none
    by (auto simp: b takes_best_def Let_def fun_eq_iff left_none left_some)
qed

text \<open>An edit that finds the one order of its reference, wherever the comparator puts its level.\<close>

lemma edit_found:
  assumes "ladder_ok lt book" and "distinct (map fst (flat book))" and "book_map book ref = Some (px, n)"
  shows "\<exists>book'. edit_level ref left px book = Some book' \<and> ladder_ok lt book' \<and>
    distinct (map fst (flat book')) \<and>
    book_map book' = (book_map book)(ref := if left n = 0 then None else Some (px, left n))"
proof -
  have "(ref, px, n) \<in> set (flat book)"
    using assms(2,3) by (simp add: book_map_def map_of_eq_Some_iff)
  then obtain book' where b: "edit_level ref left px book = Some book'"
    using edit_level_None [OF assms(1) lt_irrefl] by blast
  show ?thesis
    using edits_map [OF edit_level_Some [OF b assms(2)] assms(2)] edit_ok(1) [OF assms(1) b] b assms(3)
    by auto
qed

lemma edit_elsewhere:
  assumes "ladder_ok lt book" and "distinct (map fst (flat book))"
    and "book_map book ref = Some (px', n)" and "px \<noteq> px'"
  shows "edit_level ref left px book = None"
proof -
  have "book_map book ref = Some (px, k)" if "(ref, px, k) \<in> set (flat book)" for k
    using that assms(2) by (simp add: book_map_def map_of_eq_Some_iff)
  then show ?thesis using assms(3,4) by (auto simp: edit_level_None [OF assms(1) lt_irrefl])
qed

lemma scan_found:
  assumes "ladder_ok lt book" and "distinct (map fst (flat book))" and "book_map book ref = Some (px, n)"
  shows "\<exists>book'. scan ref qty book = Some book' \<and> ladder_ok lt book' \<and>
    distinct (map fst (flat book')) \<and>
    book_map book' = (book_map book)(ref := if n - min qty n = 0 then None else Some (px, n - min qty n))"
proof -
  have "ref \<in> fst ` set (flat book)"
    using assms(3) by (auto simp: book_map_def dest!: map_of_SomeD intro: rev_image_eqI)
  then obtain book' where b: "scan ref qty book = Some book'" using scan_None by blast
  obtain px' where "edits ref (\<lambda>n. n - min qty n) px' book book'" using scan_Some [OF b] by blast
  from edits_map [OF this assms(2)] show ?thesis
    using edit_ok(2) [OF assms(1) b] b assms(3) by auto
qed

text \<open>The execute path: the level of the print price first, then every level of the side.\<close>

lemma shrink_or_scan:
  assumes "ladder_ok lt book" and "distinct (map fst (flat book))" and "book_map book ref = Some (px, n)"
  shows "\<exists>book'. (case shrink px' ref qty book of None \<Rightarrow> scan ref qty book | Some b \<Rightarrow> Some b) = Some book' \<and>
    ladder_ok lt book' \<and> distinct (map fst (flat book')) \<and>
    book_map book' = (book_map book)(ref := if n - min qty n = 0 then None else Some (px, n - min qty n))"
proof (cases "px' = px")
  case True
  then show ?thesis using edit_found [OF assms, of "\<lambda>n. n - min qty n"] by (auto simp: shrink_def)
next
  case False
  then show ?thesis using edit_elsewhere [OF assms False] scan_found [OF assms, of qty]
    by (auto simp: shrink_def)
qed

lemma level_at_mem: "ladder_ok lt book \<Longrightarrow> (p, q) \<in> set book \<Longrightarrow> level_at book p = q \<and> q \<noteq> []"
proof (induction book)
  case (Cons x book)
  obtain a b where x: "x = (a, b)" by (cases x)
  show ?case
  proof (cases "(p, q) \<in> set book")
    case True
    then have "lt a p" using Cons.prems(1) x by force
    then show ?thesis using Cons True x lt_irrefl by auto
  next
    case False
    then show ?thesis using Cons.prems x by auto
  qed
qed simp

lemma level_at_in: "level_at book p \<noteq> [] \<Longrightarrow> (p, level_at book p) \<in> set book"
  by (induction book) (auto split: if_splits)

text \<open>The first \<open>n\<close> levels that pass a test: nothing that passes is skipped, and none is better.\<close>

lemma take_best:
  assumes "ladder_ok lt book" and "xs = take n (filter P book)"
  shows "sorted_wrt lt (map fst xs)"
    and "l \<in> set xs \<Longrightarrow> level_at book (fst l) = snd l \<and> snd l \<noteq> []"
    and "level_at book p \<noteq> [] \<Longrightarrow> P (p, level_at book p) \<Longrightarrow>
      p \<in> fst ` set xs \<or> length xs = n \<and> (\<forall>x \<in> fst ` set xs. lt x p)"
proof -
  let ?f = "filter P book"
  have srt: "sorted_wrt lt (map fst ?f)"
    using assms(1) by (auto simp: ladder_ok_def sorted_wrt_map sorted_wrt_filter)
  then show "sorted_wrt lt (map fst xs)" using assms(2) by (simp add: take_map [symmetric] sorted_wrt_take)
  show "level_at book (fst l) = snd l \<and> snd l \<noteq> []" if "l \<in> set xs"
    using that assms level_at_mem [of book "fst l" "snd l"] by (auto dest: in_set_takeD)
  show "p \<in> fst ` set xs \<or> length xs = n \<and> (\<forall>x \<in> fst ` set xs. lt x p)"
    if "level_at book p \<noteq> []" "P (p, level_at book p)"
  proof -
    have "(p, level_at book p) \<in> set ?f" using that level_at_in by auto
    then obtain i where i: "i < length ?f" "?f ! i = (p, level_at book p)"
      unfolding in_set_conv_nth by blast
    show ?thesis
    proof (cases "i < n")
      case True
      then have "(p, level_at book p) \<in> set xs"
        using i assms(2) by (auto simp: in_set_conv_nth intro!: exI [of _ i])
      then show ?thesis by force
    next
      case False
      have "lt (fst (?f ! j)) p" if "j < n" for j
      proof -
        have "lt (fst (?f ! j)) (fst (?f ! i))"
          using srt i(1) False that by (auto simp: sorted_wrt_iff_nth_less)
        then show ?thesis by (simp add: i(2))
      qed
      then have "lt (fst x) p" if "x \<in> set xs" for x
        using that False i(1) assms(2) by (auto simp: in_set_conv_nth simp del: split_paired_All)
      then show ?thesis using False i(1) assms(2) by auto
    qed
  qed
qed

end

interpretation ask_side: price_ladder "(<)"
  by unfold_locales auto

interpretation bid_side: price_ladder bid_lt
  by unfold_locales auto

section \<open>Submitting\<close>

lemma le_cases: "(\<lambda>a b. a = b \<or> a < b) = ((\<le>) :: u32 \<Rightarrow> u32 \<Rightarrow> bool)"
  "(\<lambda>a b. a = b \<or> bid_lt a b) = ((\<ge>) :: u32 \<Rightarrow> u32 \<Rightarrow> bool)"
  by (intro ext, auto)+

lemmas ask_fill = ask_side.fill_front_law [unfolded le_cases]
  and bid_fill = bid_side.fill_front_law [unfolded le_cases]

lemma level_at_head: "ladder_ok lt book \<Longrightarrow> book \<noteq> [] \<Longrightarrow> level_at book (fst (hd book)) \<noteq> []"
  by (cases book) auto

lemma ask_crosses:
  assumes "ladder_ok (<) book"
  shows "(\<exists>p. level_at book p \<noteq> [] \<and> p \<le> limit) \<longleftrightarrow> book \<noteq> [] \<and> fst (hd book) \<le> limit"
  using ask_side.head_best level_at_head [OF assms] assms
  by (cases book) (auto simp del: level_at_simps(2), fastforce)

lemma bid_crosses:
  assumes "ladder_ok bid_lt book"
  shows "(\<exists>p. level_at book p \<noteq> [] \<and> p \<ge> limit) \<longleftrightarrow> book \<noteq> [] \<and> limit \<le> fst (hd book)"
  using bid_side.head_best level_at_head [OF assms] assms
  by (cases book) (auto simp del: level_at_simps(2), fastforce)

text \<open>What \<^verbatim>\<open>submit\<close> promises of the buy side; the sell side mirrors it.\<close>

definition buy_spec :: "Order \<Rightarrow> SoftwareEngine \<Rightarrow> MatchResult \<Rightarrow> SoftwareEngine \<Rightarrow> bool" where
  "buy_spec x e r e' \<longleftrightarrow>
     (if \<exists>p. level_at (se_asks e) p \<noteq> [] \<and> p \<le> o_price x
      then mr_matched r \<and> mr_buy_order_ref r = o_order_ref x \<and> se_bids e' = se_bids e \<and>
        takes_best (\<le>) (o_quantity x) (level_at (se_asks e)) (level_at (se_asks e'))
          (mr_price r) (mr_sell_order_ref r) (mr_quantity r)
      else r = MatchResult_zero \<and> se_asks e' = se_asks e \<and>
        level_at (se_bids e') = (level_at (se_bids e))
          (o_price x := level_at (se_bids e) (o_price x) @ [(o_order_ref x, o_quantity x)]))"

definition sell_spec :: "Order \<Rightarrow> SoftwareEngine \<Rightarrow> MatchResult \<Rightarrow> SoftwareEngine \<Rightarrow> bool" where
  "sell_spec x e r e' \<longleftrightarrow>
     (if \<exists>p. level_at (se_bids e) p \<noteq> [] \<and> p \<ge> o_price x
      then mr_matched r \<and> mr_sell_order_ref r = o_order_ref x \<and> se_asks e' = se_asks e \<and>
        takes_best (\<ge>) (o_quantity x) (level_at (se_bids e)) (level_at (se_bids e'))
          (mr_price r) (mr_buy_order_ref r) (mr_quantity r)
      else r = MatchResult_zero \<and> se_bids e' = se_bids e \<and>
        level_at (se_asks e') = (level_at (se_asks e))
          (o_price x := level_at (se_asks e) (o_price x) @ [(o_order_ref x, o_quantity x)]))"

definition engine_shares :: "SoftwareEngine \<Rightarrow> nat" where
  "engine_shares e = book_shares (se_bids e) + book_shares (se_asks e)"

text \<open>The bookkeeping of one submission: shares are neither made nor lost in the book.\<close>

definition submit_accounts :: "Order \<Rightarrow> SoftwareEngine \<Rightarrow> MatchResult \<Rightarrow> SoftwareEngine \<Rightarrow> bool" where
  "submit_accounts x e r e' \<longleftrightarrow>
     engine_shares e' + unat (mr_quantity r) =
       engine_shares e + (if mr_matched r then 0 else unat (o_quantity x)) \<and>
     mr_quantity r \<le> o_quantity x \<and>
     se_shares_traded e' = se_shares_traded e + ucast (mr_quantity r) \<and>
     se_matches_made e' = se_matches_made e + of_bool (mr_matched r) \<and>
     se_orders_processed e' = se_orders_processed e + 1 \<and> se_orphan_ops e' = se_orphan_ops e"

lemma uncrossed_mono:
  "uncrossed e \<Longrightarrow> fst ` set (se_bids e') \<subseteq> fst ` set (se_bids e) \<Longrightarrow>
     fst ` set (se_asks e') \<subseteq> fst ` set (se_asks e) \<Longrightarrow> uncrossed e'"
  unfolding uncrossed_def by blast

lemma try_match_buy_law:
  assumes ok: "engine_ok e" and e1: "e1 = e\<lparr>se_orders_processed := se_orders_processed e + 1\<rparr>"
  shows "\<exists>r e'. try_match_buy x e1 = Some (r, e') \<and> engine_ok e' \<and> (uncrossed e \<longrightarrow> uncrossed e') \<and>
     buy_spec x e r e' \<and> submit_accounts x e r e'"
proof (cases "se_asks e \<noteq> [] \<and> fst (hd (se_asks e)) \<le> o_price x")
  case True
  with ok ask_fill [of "se_asks e" "o_quantity x"] obtain ref n asks where
    f: "fill_front (o_quantity x) (se_asks e) = Some (ref, n, asks)" "ladder_ok (<) asks"
      "fst ` set asks \<subseteq> fst ` set (se_asks e)" "book_shares asks + unat n = book_shares (se_asks e)"
      "takes_best (\<le>) (o_quantity x) (level_at (se_asks e)) (level_at asks) (fst (hd (se_asks e))) ref n"
    unfolding engine_ok_def by blast
  have n: "n \<le> o_quantity x" using f(5) by (auto simp: takes_best_def)
  have cross: "\<exists>p. level_at (se_asks e) p \<noteq> [] \<and> p \<le> o_price x"
    using True ok ask_crosses unfolding engine_ok_def by blast
  let ?r = "\<lparr>mr_buy_order_ref = o_order_ref x, mr_sell_order_ref = ref,
    mr_price = fst (hd (se_asks e)), mr_quantity = n, mr_matched = True\<rparr>"
  let ?e = "book_match ?r (e1\<lparr>se_asks := asks\<rparr>)"
  have run: "try_match_buy x e1 = Some (?r, ?e)"
    using True f(1) by (simp add: try_match_buy_def e1 Let_def)
  have "engine_ok ?e" using ok f(2) by (simp add: e1 book_match_def engine_ok_def)
  moreover have "uncrossed e \<longrightarrow> uncrossed ?e"
    using f(3) uncrossed_mono [of e ?e] by (simp add: e1 book_match_def)
  moreover have "buy_spec x e ?r ?e" unfolding buy_spec_def if_P [OF cross]
    using f(5) by (simp add: e1 book_match_def)
  moreover have "submit_accounts x e ?r ?e"
    using f(4) n by (simp add: e1 book_match_def submit_accounts_def engine_shares_def)
  ultimately show ?thesis using run by blast
next
  case False
  then have no: "\<not> (\<exists>p. level_at (se_asks e) p \<noteq> [] \<and> p \<le> o_price x)"
    using ok ask_crosses unfolding engine_ok_def by blast
  have above: "o_price x < a" if "a \<in> fst ` set (se_asks e)" for a
    using that False ok by (cases "se_asks e") (fastforce simp: engine_ok_def not_le intro: less_trans)+
  let ?bids = "book_push bid_lt (o_price x) (o_order_ref x, o_quantity x) (se_bids e)"
  have "uncrossed e \<Longrightarrow> uncrossed (e1\<lparr>se_bids := ?bids\<rparr>)"
    using above unfolding uncrossed_def e1 by (simp add: bid_side.push_keys del: ball_simps) blast
  then show ?thesis using False no ok
    by (auto simp: try_match_buy_def e1 engine_ok_def buy_spec_def submit_accounts_def
        engine_shares_def MatchResult_zero_def bid_side.push_ok bid_side.level_push
        bid_side.push_shares)
qed

lemma try_match_sell_law:
  assumes ok: "engine_ok e" and e1: "e1 = e\<lparr>se_orders_processed := se_orders_processed e + 1\<rparr>"
  shows "\<exists>r e'. try_match_sell x e1 = Some (r, e') \<and> engine_ok e' \<and> (uncrossed e \<longrightarrow> uncrossed e') \<and>
     sell_spec x e r e' \<and> submit_accounts x e r e'"
proof (cases "se_bids e \<noteq> [] \<and> o_price x \<le> fst (hd (se_bids e))")
  case True
  with ok bid_fill [of "se_bids e" "o_quantity x"] obtain ref n bids where
    f: "fill_front (o_quantity x) (se_bids e) = Some (ref, n, bids)" "ladder_ok bid_lt bids"
      "fst ` set bids \<subseteq> fst ` set (se_bids e)" "book_shares bids + unat n = book_shares (se_bids e)"
      "takes_best (\<ge>) (o_quantity x) (level_at (se_bids e)) (level_at bids) (fst (hd (se_bids e))) ref n"
    unfolding engine_ok_def by blast
  have n: "n \<le> o_quantity x" using f(5) by (auto simp: takes_best_def)
  have cross: "\<exists>p. level_at (se_bids e) p \<noteq> [] \<and> p \<ge> o_price x"
    using True ok bid_crosses unfolding engine_ok_def by blast
  let ?r = "\<lparr>mr_buy_order_ref = ref, mr_sell_order_ref = o_order_ref x,
    mr_price = fst (hd (se_bids e)), mr_quantity = n, mr_matched = True\<rparr>"
  let ?e = "book_match ?r (e1\<lparr>se_bids := bids\<rparr>)"
  have run: "try_match_sell x e1 = Some (?r, ?e)"
    using True f(1) by (simp add: try_match_sell_def e1 Let_def)
  have "engine_ok ?e" using ok f(2) by (simp add: e1 book_match_def engine_ok_def)
  moreover have "uncrossed e \<longrightarrow> uncrossed ?e"
    using f(3) uncrossed_mono [of e ?e] by (simp add: e1 book_match_def)
  moreover have "sell_spec x e ?r ?e" unfolding sell_spec_def if_P [OF cross]
    using f(5) by (simp add: e1 book_match_def)
  moreover have "submit_accounts x e ?r ?e"
    using f(4) n by (simp add: e1 book_match_def submit_accounts_def engine_shares_def)
  ultimately show ?thesis using run by blast
next
  case False
  then have no: "\<not> (\<exists>p. level_at (se_bids e) p \<noteq> [] \<and> p \<ge> o_price x)"
    using ok bid_crosses unfolding engine_ok_def by blast
  have below: "b < o_price x" if "b \<in> fst ` set (se_bids e)" for b
    using that False ok by (cases "se_bids e") (fastforce simp: engine_ok_def not_le intro: less_trans)+
  let ?asks = "book_push (<) (o_price x) (o_order_ref x, o_quantity x) (se_asks e)"
  have "uncrossed e \<Longrightarrow> uncrossed (e1\<lparr>se_asks := ?asks\<rparr>)"
    using below unfolding uncrossed_def e1 by (simp add: ask_side.push_keys del: ball_simps) blast
  then show ?thesis using False no ok
    by (auto simp: try_match_sell_def e1 engine_ok_def sell_spec_def submit_accounts_def
        engine_shares_def MatchResult_zero_def ask_side.push_ok ask_side.level_push
        ask_side.push_shares)
qed

lemma submit_law:
  assumes "engine_ok e"
  shows "\<exists>r e'. submit x e = Some (r, e') \<and> engine_ok e' \<and> (uncrossed e \<longrightarrow> uncrossed e') \<and>
     (if o_side x = Buy then buy_spec x e r e' else sell_spec x e r e') \<and> submit_accounts x e r e'"
  using try_match_buy_law [OF assms refl] try_match_sell_law [OF assms refl]
  by (auto simp: submit_def Let_def)

section \<open>Replay keeps the engine and the order table in agreement\<close>

text \<open>The orders of one side of the book, as the table of resting orders knows them.\<close>

definition side_view :: "bool \<Rightarrow> resting_map \<Rightarrow> u64 \<Rightarrow> (u32 \<times> u32) option" where
  "side_view buy m ref = (case m ref of None \<Rightarrow> None
     | Some ro \<Rightarrow> if (ro_side ro = Buy) = buy then Some (ro_price ro, ro_quantity ro) else None)"

definition refs_unique :: "ladder \<Rightarrow> bool" where
  "refs_unique book \<longleftrightarrow> distinct (map fst (flat book))"

definition agrees :: "resting_map \<Rightarrow> SoftwareEngine \<Rightarrow> bool" where
  "agrees m e \<longleftrightarrow> engine_ok e \<and> refs_unique (se_bids e) \<and> refs_unique (se_asks e) \<and>
     book_map (se_bids e) = side_view True m \<and> book_map (se_asks e) = side_view False m"

text \<open>
  The feed rule the engine relies on: a new order carries shares and a reference that no live
  order has (a replacement may keep its own).
\<close>

definition clean_msg :: "Order \<Rightarrow> resting_map \<Rightarrow> bool" where
  "clean_msg msg m =
     (case o_action msg of
        Add \<Rightarrow> o_quantity msg \<noteq> 0 \<and> m (o_order_ref msg) = None
      | Replace \<Rightarrow> o_quantity msg \<noteq> 0 \<and>
          (o_new_order_ref msg = o_order_ref msg \<or> m (o_new_order_ref msg) = None)
      | _ \<Rightarrow> True)"

definition feed_step :: "Order \<Rightarrow> BookState \<times> SoftwareEngine \<Rightarrow> BookState \<times> SoftwareEngine" where
  "feed_step msg s = (case s of (b, e) \<Rightarrow>
     case resolve msg b of (ok, b, ops) \<Rightarrow> if ok then (b, fold apply_op ops e) else (b, e))"

fun clean_feed :: "Order list \<Rightarrow> BookState \<Rightarrow> bool" where
  "clean_feed [] b = True"
| "clean_feed (msg # msgs) b =
     (clean_msg msg (table_map b) \<and> clean_feed msgs (fst (snd (resolve msg b))))"

lemma side_view_upd:
  "side_view buy (m(ref := x)) = (side_view buy m)(ref := (case x of None \<Rightarrow> None
     | Some ro \<Rightarrow> if (ro_side ro = Buy) = buy then Some (ro_price ro, ro_quantity ro) else None))"
  by (auto simp: side_view_def fun_eq_iff)

text \<open>\<open>edits_to\<close>: what the edits above do to a side that holds the order, for any comparator.\<close>

definition edits_to :: "(ladder \<Rightarrow> ladder option) \<Rightarrow> u64 \<Rightarrow> u32 \<Rightarrow> u32 \<Rightarrow> u32 \<Rightarrow> bool" where
  "edits_to f ref px n left \<longleftrightarrow> (\<forall>lt book. price_ladder lt \<longrightarrow> ladder_ok lt book \<longrightarrow>
     refs_unique book \<longrightarrow> book_map book ref = Some (px, n) \<longrightarrow>
     (\<exists>book'. f book = Some book' \<and> ladder_ok lt book' \<and> refs_unique book' \<and>
        book_map book' = (book_map book)(ref := if left = 0 then None else Some (px, left))))"

definition shrink_then_scan :: "u32 \<Rightarrow> u64 \<Rightarrow> u32 \<Rightarrow> ladder \<Rightarrow> ladder option" where
  "shrink_then_scan px ref qty book =
     (case shrink px ref qty book of None \<Rightarrow> scan ref qty book | Some b \<Rightarrow> Some b)"

lemma edits_to_rules:
  "edits_to (strip px ref) ref px n 0"
  "edits_to (shrink px ref qty) ref px n (n - min qty n)"
  "edits_to (shrink_then_scan px' ref qty) ref px n (n - min qty n)"
  unfolding edits_to_def refs_unique_def
  using price_ladder.edit_found [of _ _ ref px n "\<lambda>n. 0"]
    price_ladder.edit_found [of _ _ ref px n "\<lambda>n. n - min qty n"]
    price_ladder.shrink_or_scan [of _ _ ref px n qty px']
  by (simp_all add: strip_def shrink_def shrink_then_scan_def)

lemma on_side_law:
  assumes "agrees m e" and "m ref = Some ro" and "edits_to f ref (ro_price ro) (ro_quantity ro) left"
  shows "\<exists>e'. on_side (ro_side ro) f e = (True, e') \<and> se_orphan_ops e' = se_orphan_ops e \<and>
     agrees (m(ref := if left = 0 then None else Some (ro\<lparr>ro_quantity := left\<rparr>))) e'"
proof (cases "ro_side ro = Buy")
  case True
  have "book_map (se_bids e) ref = Some (ro_price ro, ro_quantity ro)"
    using assms(1,2) True by (simp add: agrees_def side_view_def)
  with assms(1,3) bid_side.price_ladder_axioms obtain bids' where
    "f (se_bids e) = Some bids'" "ladder_ok bid_lt bids'" "refs_unique bids'"
    "book_map bids' = (book_map (se_bids e))(ref := if left = 0 then None else Some (ro_price ro, left))"
    unfolding edits_to_def agrees_def engine_ok_def by blast
  moreover have "side_view False m ref = None" using assms(2) True by (simp add: side_view_def)
  ultimately show ?thesis using assms(1) True
    by (auto simp: on_side_def agrees_def engine_ok_def side_view_upd fun_eq_iff)
next
  case False
  have "book_map (se_asks e) ref = Some (ro_price ro, ro_quantity ro)"
    using assms(1,2) False by (simp add: agrees_def side_view_def)
  with assms(1,3) ask_side.price_ladder_axioms obtain asks' where
    "f (se_asks e) = Some asks'" "ladder_ok (<) asks'" "refs_unique asks'"
    "book_map asks' = (book_map (se_asks e))(ref := if left = 0 then None else Some (ro_price ro, left))"
    unfolding edits_to_def agrees_def engine_ok_def by blast
  moreover have "side_view True m ref = None" using assms(2) False by (simp add: side_view_def)
  ultimately show ?thesis using assms(1) False
    by (auto simp: on_side_def agrees_def engine_ok_def side_view_upd fun_eq_iff)
qed

lemma rest_order_law:
  assumes "agrees m e" and "m ref = None" and "qty \<noteq> 0"
    and "ro_side ro = side" "ro_price ro = px" "ro_quantity ro = qty"
  shows "agrees (m(ref \<mapsto> ro)) (rest_order side px ref qty e)"
proof -
  have new: "book_map (se_bids e) ref = None" "book_map (se_asks e) ref = None"
    using assms(1,2) by (simp_all add: agrees_def side_view_def)
  show ?thesis
    using bid_side.push_map [of "se_bids e" "(ref, qty)" px] ask_side.push_map [of "se_asks e" "(ref, qty)" px]
      new assms
    by (auto simp: rest_order_def agrees_def engine_ok_def refs_unique_def side_view_upd fun_eq_iff
        bid_side.push_ok ask_side.push_ok side_view_def)
qed

lemma agrees_frame [tp_frame, simp]:
  "agrees m (e\<lparr>se_orders_processed := a\<rparr>) = agrees m e"
  "agrees m (print_trade p e) = agrees m e"
  "se_orphan_ops (print_trade p e) = se_orphan_ops e"
  "se_orphan_ops (rest_order side px ref qty e) = se_orphan_ops e"
  by (simp_all add: agrees_def engine_ok_def print_trade_def rest_order_def)

lemma apply_execute_step:
  "apply_execute p e =
     (let e1 = or_orphan (on_side (op_side p)
                 (shrink_then_scan (op_price p) (op_order_ref p) (op_quantity p)) e)
      in if op_match_number p \<noteq> 0 then print_trade p e1 else e1)"
  by (auto simp: apply_execute_def reduce_ref_def on_side_def or_orphan_def shrink_then_scan_def Let_def
      split: option.splits)

lemma apply_reduce_law:
  assumes "agrees m e" and "m ref = Some ro" and "n \<le> ro_quantity ro"
    and "p = resting_op act ref n px mtch ts ro" and "act = Execute \<or> act = Cancel \<and> px = ro_price ro"
  shows "agrees (m(ref := after_fill ro n)) (apply_op p e)"
    and "se_orphan_ops (apply_op p e) = se_orphan_ops e"
proof -
  have n: "min n (ro_quantity ro) = n" using assms(3) by (simp add: min_def)
  have fill: "(if ro_quantity ro - n = 0 then None else Some (ro\<lparr>ro_quantity := ro_quantity ro - n\<rparr>)) =
      after_fill ro n" by (simp add: after_fill_def)
  have "agrees (m(ref := after_fill ro n)) (apply_op p e) \<and> se_orphan_ops (apply_op p e) = se_orphan_ops e"
  proof (cases "act = Execute")
    case True
    from on_side_law [OF assms(1,2) edits_to_rules(3) [where qty = n and px' = px]] show ?thesis
      unfolding n fill using True assms(4)
      by (auto simp: apply_op_def apply_execute_step resting_op_def or_orphan_def Let_def)
  next
    case False
    from on_side_law [OF assms(1,2) edits_to_rules(2) [where qty = n]] show ?thesis
      unfolding n fill using False assms(4,5)
      by (auto simp: apply_op_def reduce_ref_def resting_op_def or_orphan_def)
  qed
  then show "agrees (m(ref := after_fill ro n)) (apply_op p e)"
    and "se_orphan_ops (apply_op p e) = se_orphan_ops e" by blast+
qed

lemma apply_delete_law:
  assumes "agrees m e" and "m ref = Some ro"
    and "p = resting_op Delete ref n (ro_price ro) mtch ts ro"
  shows "agrees (m(ref := None)) (apply_op p e)" and "se_orphan_ops (apply_op p e) = se_orphan_ops e"
  using on_side_law [OF assms(1,2) edits_to_rules(1)] assms(3)
  by (auto simp: apply_op_def remove_ref_def resting_op_def or_orphan_def)

lemma apply_add_law:
  assumes "agrees m e" and "m (op_order_ref p) = None" and "op_quantity p \<noteq> 0" and "op_action p = Add"
    and "ro_side ro = op_side p" "ro_price ro = op_price p" "ro_quantity ro = op_quantity p"
  shows "agrees (m(op_order_ref p \<mapsto> ro)) (apply_op p e)"
    and "se_orphan_ops (apply_op p e) = se_orphan_ops e"
  using rest_order_law [OF assms(1-3,5-7)] assms(4) by (simp_all add: apply_op_def Let_def)

lemma replace_agrees:
  assumes "agrees m e" and "m ref = Some ro" and "o_quantity msg \<noteq> 0"
    and "o_new_order_ref msg = ref \<or> m (o_new_order_ref msg) = None"
    and "d = resting_op Delete ref n (ro_price ro) 0 ts ro"
    and "a = resting_op Add (o_new_order_ref msg) (o_quantity msg) (o_price msg) 0 ts ro"
  shows "agrees (m(ref := None, o_new_order_ref msg \<mapsto> replacement msg ro)) (apply_op a (apply_op d e)) \<and>
    se_orphan_ops (apply_op a (apply_op d e)) = se_orphan_ops e"
proof -
  note del = apply_delete_law [OF assms(1,2,5)]
  have "(m(ref := None)) (op_order_ref a) = None" using assms(4,6) by (auto simp: resting_op_def)
  from apply_add_law [OF del(1) this, of "replacement msg ro"] show ?thesis
    using del(2) assms(3,6) by (simp add: resting_op_def replacement_def fun_upd_def)
qed

lemma resolved_ops_agree:
  assumes agr: "agrees m e" and clean: "clean_msg msg m"
    and res: "abs_resolve room msg m = (ok, m', ops)"
  shows "agrees m' (fold apply_op ops e) \<and> se_orphan_ops (fold apply_op ops e) = se_orphan_ops e"
proof (cases "o_action msg")
  case Add
  then show ?thesis using res clean apply_add_law [OF agr, of "add_op msg" "order_to_resting msg"] agr
    by (auto simp: abs_resolve_def clean_msg_def add_op_def order_to_resting_def split: if_splits)
next
  case Trade
  then show ?thesis using res agr by (auto simp: abs_resolve_def apply_op_def)
next
  case Action_None
  then show ?thesis using res agr by (auto simp: abs_resolve_def)
next
  case Execute
  then show ?thesis using res agr apply_reduce_law [OF agr, of "o_order_ref msg"]
    by (auto simp: abs_resolve_def Let_def split: option.splits)
next
  case Cancel
  then show ?thesis using res agr apply_reduce_law [OF agr, of "o_order_ref msg"]
    by (auto simp: abs_resolve_def Let_def split: option.splits)
next
  case Delete
  then show ?thesis using res agr apply_delete_law [OF agr, of "o_order_ref msg"]
    by (auto simp: abs_resolve_def Let_def split: option.splits)
next
  case Replace
  show ?thesis
  proof (cases "m (o_order_ref msg)")
    case None
    then show ?thesis using res agr Replace by (auto simp: abs_resolve_def Let_def)
  next
    case (Some ro)
    then show ?thesis
      using res Replace clean replace_agrees [OF agr Some, of msg] apply_delete_law [OF agr Some]
      by (auto simp: abs_resolve_def Let_def clean_msg_def split: if_splits)
  qed
qed

lemma feed_step_agrees:
  assumes "table_inv b" and "agrees (table_map b) e" and "clean_msg msg (table_map b)"
    and "feed_step msg (b, e) = (b', e')"
  shows "b' = fst (snd (resolve msg b)) \<and> table_inv b' \<and> agrees (table_map b') e' \<and>
    se_orphan_ops e' = se_orphan_ops e"
proof -
  obtain ok b1 ops where r: "resolve msg b = (ok, b1, ops)" by (metis prod_cases3)
  note law = resolve_law [OF assms(1) r]
  have "ok \<or> ops = []" using resolve_frame(3) [OF r] by blast
  then show ?thesis
    using law resolved_ops_agree [OF assms(2,3), of "has_empty b" ok "table_map b1" ops] assms(4)
    by (auto simp: feed_step_def r split: if_splits)
qed

lemma feed_run_agrees:
  assumes "table_inv b" and "agrees (table_map b) e" and "clean_feed msgs b"
    and "fold feed_step msgs (b, e) = (b', e')"
  shows "table_inv b' \<and> agrees (table_map b') e' \<and> se_orphan_ops e' = se_orphan_ops e"
  using assms
proof (induction msgs arbitrary: b e)
  case (Cons msg msgs)
  obtain b1 e1 where s: "feed_step msg (b, e) = (b1, e1)" by (cases "feed_step msg (b, e)")
  have "clean_msg msg (table_map b)" using Cons.prems(3) by simp
  note step = feed_step_agrees [OF Cons.prems(1,2) this s]
  show ?case using Cons.IH [of b1 e1] step Cons.prems(3,4) s by auto
qed simp

lemma agrees_start: "agrees Map.empty SoftwareEngine_new"
  by (simp add: agrees_def engine_ok_def SoftwareEngine_new_def refs_unique_def book_map_def
      side_view_def fun_eq_iff)

section \<open>Every operation keeps the shape of the book\<close>

datatype engine_cmd = Submit Order | Apply ResolvedOp | Clear

fun engine_step :: "engine_cmd \<Rightarrow> SoftwareEngine \<Rightarrow> SoftwareEngine" where
  "engine_step (Submit x) e = (case submit x e of None \<Rightarrow> e | Some (r, e') \<Rightarrow> e')"
| "engine_step (Apply p) e = apply_op p e"
| "engine_step Clear e = clear e"

lemma on_side_ok:
  assumes "engine_ok e"
  shows "engine_ok (snd (on_side side (strip px ref) e))"
    and "engine_ok (snd (on_side side (shrink px ref qty) e))"
    and "engine_ok (snd (on_side side (scan ref qty) e))"
  using assms
  by (auto simp: on_side_def engine_ok_def strip_def shrink_def split: option.splits
      dest: edit_ok)

lemma engine_ok_frame [tp_frame, simp]:
  "engine_ok (e\<lparr>se_orders_processed := a\<rparr>) = engine_ok e"
  "engine_ok (print_trade p e) = engine_ok e"
  "engine_ok (orphan e) = engine_ok e"
  by (simp_all add: engine_ok_def print_trade_def orphan_def)

lemma or_orphan_ok [simp]: "engine_ok (or_orphan r) = engine_ok (snd r)"
  by (simp add: or_orphan_def)

lemma rest_order_ok: "engine_ok e \<Longrightarrow> engine_ok (rest_order side px ref qty e)"
  by (simp add: rest_order_def engine_ok_def bid_side.push_ok ask_side.push_ok)

lemma apply_execute_ok: "engine_ok e \<Longrightarrow> engine_ok (apply_execute p e)"
  using on_side_ok(2) [of e "op_side p" "op_price p" "op_order_ref p" "op_quantity p"]
    on_side_ok(3) [of _ "op_side p" "op_order_ref p" "op_quantity p"]
  by (fastforce simp: apply_execute_def reduce_ref_def Let_def split: prod.splits bool.splits)

lemma apply_op_ok: "engine_ok e \<Longrightarrow> engine_ok (apply_op p e)"
  by (cases "op_action p")
    (simp_all add: apply_op_def rest_order_ok apply_execute_ok on_side_ok reduce_ref_def remove_ref_def Let_def)

lemma engine_step_ok: "engine_ok e \<Longrightarrow> engine_ok (engine_step c e)"
proof (cases c)
  case (Submit x)
  assume "engine_ok e"
  from submit_law [OF this, of x] show ?thesis using Submit by auto
next
  case (Apply p)
  assume "engine_ok e"
  then show ?thesis using Apply by (simp add: apply_op_ok)
qed (simp add: clear_def engine_ok_def)

interpretation engine_run: kept_invariant engine_ok engine_step
  by unfold_locales (rule engine_step_ok)

lemma new_engine_ok [simp]: "engine_ok SoftwareEngine_new" "uncrossed SoftwareEngine_new"
  by (simp_all add: engine_ok_def uncrossed_def SoftwareEngine_new_def)

lemma best_of_max:
  "ladder_ok bid_lt book \<Longrightarrow> best_of book = Some (p, n) \<Longrightarrow>
     level_at book p \<noteq> [] \<and> (\<forall>p'. level_at book p' \<noteq> [] \<longrightarrow> p' \<le> p) \<and> n = level_qty (level_at book p)"
  using bid_side.head_best [of p] unfolding best_of_def
  by (cases book) (auto simp del: level_at_simps(2) simp: level_at_simps(2) [where px = p], fastforce)

lemma best_of_min:
  "ladder_ok (<) book \<Longrightarrow> best_of book = Some (p, n) \<Longrightarrow>
     level_at book p \<noteq> [] \<and> (\<forall>p'. level_at book p' \<noteq> [] \<longrightarrow> p \<le> p') \<and> n = level_qty (level_at book p)"
  using ask_side.head_best [of p] unfolding best_of_def
  by (cases book) (auto simp del: level_at_simps(2) simp: level_at_simps(2) [where px = p], fastforce)

section \<open>Sequences of submissions\<close>

lemma submit_run_law:
  assumes "engine_ok e" and "uncrossed e"
  shows "\<exists>rs e'. submit_run xs e = Some (rs, e') \<and> length rs = length xs \<and> engine_ok e' \<and> uncrossed e' \<and>
     engine_shares e' + (\<Sum>r\<leftarrow>rs. unat (mr_quantity r)) =
       engine_shares e + (\<Sum>(x, r)\<leftarrow>zip xs rs. if mr_matched r then 0 else unat (o_quantity x)) \<and>
     se_shares_traded e' = se_shares_traded e + (\<Sum>r\<leftarrow>rs. ucast (mr_quantity r)) \<and>
     se_matches_made e' = se_matches_made e + of_nat (length (filter mr_matched rs))"
  using assms
proof (induction xs arbitrary: e)
  case (Cons x xs)
  from submit_law [OF Cons.prems(1), of x] Cons.prems(2) obtain r e1 where
    s: "submit x e = Some (r, e1)" "engine_ok e1" "uncrossed e1" "submit_accounts x e r e1" by blast
  from Cons.IH [OF s(2,3)] obtain rs e' where
    r: "submit_run xs e1 = Some (rs, e')" "length rs = length xs" "engine_ok e'" "uncrossed e'"
      "engine_shares e' + (\<Sum>r\<leftarrow>rs. unat (mr_quantity r)) =
       engine_shares e1 + (\<Sum>(x, r)\<leftarrow>zip xs rs. if mr_matched r then 0 else unat (o_quantity x))"
      "se_shares_traded e' = se_shares_traded e1 + (\<Sum>r\<leftarrow>rs. ucast (mr_quantity r))"
      "se_matches_made e' = se_matches_made e1 + of_nat (length (filter mr_matched rs))" by blast
  have "submit_run (x # xs) e = Some (r # rs, e')" using s(1) r(1) by simp
  then show ?case using s(4) r
    by (intro exI [of _ "r # rs"] exI [of _ e']) (simp add: submit_accounts_def)
qed simp

section \<open>Depth snapshots\<close>

definition level_summary :: "u32 \<times> Level \<Rightarrow> DepthLevel" where
  "level_summary l = \<lparr>dl_price = fst l, dl_quantity = level_qty (snd l), dl_orders = of_nat (length (snd l))\<rparr>"

lemma depth_walk_take:
  "depth_walk n mx book =
     take (nat (mx - n)) (map level_summary (filter (\<lambda>l. level_qty (snd l) \<noteq> 0) book))"
proof (induction n mx book rule: depth_walk.induct)
  case (2 n mx px q book)
  have "n < mx \<Longrightarrow> nat (mx - n) = Suc (nat (mx - (n + 1)))" by simp
  then show ?case using 2 by (auto simp: level_summary_def)
qed simp

lemma level_qty_sum: "level_qty q = (\<Sum>x\<leftarrow>q. snd x)"
proof -
  have "foldl (\<lambda>n x. n + snd x) a q = a + (\<Sum>x\<leftarrow>q. snd x)" for a :: u32
    by (induction q arbitrary: a) (auto simp: add.assoc)
  then show ?thesis by (simp add: level_qty_def)
qed

lemma unat_level_qty:
  "(\<Sum>x\<leftarrow>q. unat (snd x)) < 2 ^ 32 \<Longrightarrow> unat (level_qty q) = (\<Sum>x\<leftarrow>q. unat (snd x))"
  unfolding level_qty_sum
proof (induction q)
  case (Cons x q)
  then show ?case by (simp add: unat_word_ariths)
qed simp

definition depth_of :: "(u32 \<Rightarrow> u32 \<Rightarrow> bool) \<Rightarrow> int \<Rightarrow> ladder \<Rightarrow> DepthLevel list \<Rightarrow> bool" where
  "depth_of lt mx book d \<longleftrightarrow> length d \<le> nat mx \<and> sorted_wrt lt (map dl_price d) \<and>
     (\<forall>l \<in> set d. level_at book (dl_price l) \<noteq> [] \<and> dl_quantity l = level_qty (level_at book (dl_price l)) \<and>
        dl_orders l = of_nat (length (level_at book (dl_price l)))) \<and>
     (\<forall>p. level_at book p \<noteq> [] \<and> level_qty (level_at book p) \<noteq> 0 \<longrightarrow>
        p \<in> dl_price ` set d \<or> length d = nat mx \<and> (\<forall>l \<in> set d. lt (dl_price l) p))"

lemma depth_walk_law:
  assumes "price_ladder lt" and "ladder_ok lt book"
  shows "depth_of lt mx book (depth_walk 0 mx book)"
proof -
  define xs where "xs = take (nat mx) (filter (\<lambda>l. level_qty (snd l) \<noteq> 0) book)"
  have d: "depth_walk 0 mx book = map level_summary xs"
    by (simp add: depth_walk_take xs_def take_map)
  note best = price_ladder.take_best [OF assms xs_def]
  have px: "map dl_price (map level_summary xs) = map fst xs" by (simp add: level_summary_def)
  then have set_px: "dl_price ` set (map level_summary xs) = fst ` set xs"
    by (metis list.set_map)
  have len: "length xs \<le> nat mx" by (simp add: xs_def)
  have "length (map level_summary xs) = nat mx \<longleftrightarrow> length xs = nat mx" by simp
  then show ?thesis
    unfolding depth_of_def d px set_px using best(1) len best(2) best(3)
    by (fastforce simp: level_summary_def)
qed

section \<open>Properties\<close>

definition limit_order :: "Side \<Rightarrow> u64 \<Rightarrow> u32 \<Rightarrow> u32 \<Rightarrow> Order" where
  "limit_order side ref px qty = Order_zero\<lparr>o_action := Add, o_side := side, o_order_ref := ref,
     o_price := px, o_quantity := qty, o_valid := 1\<rparr>"

definition sample_engine :: SoftwareEngine where
  "sample_engine = snd (the (submit_run
     [limit_order Sell 1 10200 50, limit_order Sell 2 10100 30, limit_order Sell 3 10100 40,
      limit_order Buy 4 10000 20] SoftwareEngine_new))"

lemma sample_engine_ok: "engine_ok sample_engine"
  by code_simp

text \<open>
  C1. Price-time priority: on every well-formed book \<^verbatim>\<open>submit\<close> returns (the front of a queue
  is never read when there is none). A buy order crosses exactly when some ask rests at or below
  its limit; then it trades with the oldest order at the lowest ask, at that order's price, for
  the smaller size, that order loses exactly that size (and leaves the book at zero) and nothing
  else moves. Otherwise it joins the tail of the queue at its own price. Sells mirror this.
\<close>

theorem submit_price_time_priority:
  assumes "engine_ok e"
  shows "\<exists>r e'. submit x e = Some (r, e') \<and> engine_ok e' \<and>
     (if o_side x = Buy then buy_spec x e r e' else sell_spec x e r e')"
  using submit_law [OF assms, of x] by blast

theorem submit_price_time_priority_witness:
  "engine_ok sample_engine \<and>
   (\<exists>r e'. submit (limit_order Buy 9 10150 100) sample_engine = Some (r, e') \<and> engine_ok e' \<and>
      buy_spec (limit_order Buy 9 10150 100) sample_engine r e' \<and>
      mr_matched r \<and> mr_sell_order_ref r = 2 \<and> mr_price r = 10100 \<and> mr_quantity r = 30)"
proof -
  have "map_option (\<lambda>(r, e). (mr_matched r, mr_sell_order_ref r, mr_price r, mr_quantity r))
          (submit (limit_order Buy 9 10150 100) sample_engine) = Some (True, 2, 10100, 30)"
    by code_simp
  moreover have "o_side (limit_order Buy 9 10150 100) = Buy" by (simp add: limit_order_def)
  ultimately show ?thesis
    using submit_price_time_priority [OF sample_engine_ok, of "limit_order Buy 9 10150 100"] sample_engine_ok
    by auto
qed

text \<open>
  C26. A session of submissions from an empty engine always completes; the book is never crossed
  or locked (every bid is below every ask), and shares are conserved: what rests plus what traded
  is exactly what unmatched orders brought in. The counters agree with the results.
\<close>

theorem submissions_conserve_shares:
  "\<exists>rs e. submit_run xs SoftwareEngine_new = Some (rs, e) \<and> length rs = length xs \<and>
     engine_ok e \<and> uncrossed e \<and>
     engine_shares e + (\<Sum>r\<leftarrow>rs. unat (mr_quantity r)) =
       (\<Sum>(x, r)\<leftarrow>zip xs rs. if mr_matched r then 0 else unat (o_quantity x)) \<and>
     se_shares_traded e = (\<Sum>r\<leftarrow>rs. ucast (mr_quantity r)) \<and>
     se_matches_made e = of_nat (length (filter mr_matched rs))"
proof -
  have "engine_shares SoftwareEngine_new = 0" "se_shares_traded SoftwareEngine_new = 0"
    "se_matches_made SoftwareEngine_new = 0"
    by (simp_all add: engine_shares_def SoftwareEngine_new_def)
  with submit_run_law [OF new_engine_ok, of xs] show ?thesis by (simp add: prod.case_distrib)
qed

text \<open>
  C5. Replay: messages resolved by \<^verbatim>\<open>BookState\<close> and applied to the engine keep the two in
  agreement. On a feed whose new orders carry shares and no live reference, the engine's book
  holds exactly the orders of the table, each on its side, at its price, with its remaining
  size, each once, and no operation is ever an orphan.
\<close>

theorem replay_agrees:
  assumes "k \<le> 63" and "clean_feed msgs (BookState_new mem k)"
    and "fold feed_step msgs (BookState_new mem k, SoftwareEngine_new) = (b, e)"
  shows "se_orphan_ops e = 0 \<and> refs_unique (se_bids e) \<and> refs_unique (se_asks e) \<and>
     (\<forall>ref. book_map (se_bids e) ref = side_view True (table_map b) ref \<and>
            book_map (se_asks e) ref = side_view False (table_map b) ref)"
  using feed_run_agrees [OF table_inv_new(1) [OF assms(1)] _ assms(2,3)] agrees_start
  by (simp add: table_inv_new(2) [OF assms(1)] agrees_def) (simp add: SoftwareEngine_new_def)

theorem replay_agrees_witness:
  "clean_feed [sample_msg Add 1 100, sample_msg Add 2 50, sample_msg Execute 1 30] (sample_table 2) \<and>
   (let (b, e) = fold feed_step [sample_msg Add 1 100, sample_msg Add 2 50, sample_msg Execute 1 30]
                   (sample_table 2, SoftwareEngine_new)
    in se_orphan_ops e = 0 \<and> book_map (se_bids e) 1 = side_view True (table_map b) 1 \<and>
       book_map (se_bids e) 1 = Some (1500000, 70))"
proof -
  let ?ms = "[sample_msg Add 1 100, sample_msg Add 2 50, sample_msg Execute 1 30]"
  obtain b e where run: "fold feed_step ?ms (sample_table 2, SoftwareEngine_new) = (b, e)"
    by (metis surj_pair)
  have clean: "clean_feed ?ms (sample_table 2)" by code_simp
  have "book_map (se_bids (snd (fold feed_step ?ms (sample_table 2, SoftwareEngine_new)))) 1 =
      Some (1500000, 70)" by code_simp
  then have "book_map (se_bids e) 1 = Some (1500000, 70)" unfolding run by simp
  then show ?thesis
    using replay_agrees [OF _ clean [unfolded sample_table_def] run [unfolded sample_table_def]] clean
    unfolding run by simp
qed

text \<open>
  Whatever sequence of submissions, replayed operations and clears the engine receives, both
  sides stay sorted with no empty level, so \<^verbatim>\<open>best_bid\<close> is the highest bid and \<^verbatim>\<open>best_ask\<close> the
  lowest ask, each with the size of its whole level.
\<close>

lemma best_prices_are_best:
  assumes "e = fold engine_step cmds SoftwareEngine_new"
  shows "(\<forall>p n. best_bid e = Some (p, n) \<longrightarrow> level_at (se_bids e) p \<noteq> [] \<and>
            (\<forall>p'. level_at (se_bids e) p' \<noteq> [] \<longrightarrow> p' \<le> p) \<and> n = level_qty (level_at (se_bids e) p)) \<and>
         (\<forall>p n. best_ask e = Some (p, n) \<longrightarrow> level_at (se_asks e) p \<noteq> [] \<and>
            (\<forall>p'. level_at (se_asks e) p' \<noteq> [] \<longrightarrow> p \<le> p') \<and> n = level_qty (level_at (se_asks e) p))"
  using engine_run.run_inv [OF new_engine_ok(1), of cmds] assms best_of_max best_of_min
  unfolding best_bid_def best_ask_def engine_ok_def by blast

text \<open>
  \<^verbatim>\<open>depth\<close> writes at most \<^verbatim>\<open>max\<close> levels, best price first, each with the total size and
  the number of orders of its queue, and leaves a level with shares out only when \<^verbatim>\<open>max\<close> better
  levels were written.
\<close>

lemma depth_is_top_of_book:
  assumes "engine_ok e"
  shows "depth_of bid_lt mx (se_bids e) (depth Buy mx e) \<and>
         (side \<noteq> Buy \<longrightarrow> depth_of (<) mx (se_asks e) (depth side mx e))"
  using depth_walk_law [OF bid_side.price_ladder_axioms, of "se_bids e" mx]
    depth_walk_law [OF ask_side.price_ladder_axioms, of "se_asks e" mx] assms
  by (simp add: depth_def engine_ok_def)

end
