(* ===== verification/Fpga_Pipeline.thy ===== *)
theory Fpga_Pipeline
  imports Software_Engine
begin

text \<open>
  \<^verbatim>\<open>FpgaPipeline\<close> (\<^verbatim>\<open>include/pipeline.hpp\<close>, \<^verbatim>\<open>src/pipeline.cpp\<close>): the five-stage pipeline over a
  price-indexed ladder with occupancy bitmaps. Proved: the stages in flight never interfere (the
  pipeline computes what processing the orders one at a time computes, four cycles later), the
  bitmaps are exact, and on tick-aligned prices inside the window, with room on the levels, the
  results are those of \<^verbatim>\<open>SoftwareEngine::submit\<close>.
\<close>

section \<open>Data\<close>

record PriceLevel =
  pl_order_refs :: "u64 list"
  pl_quantities :: "u32 list"
  pl_price :: u32
  pl_count :: nat
  pl_side :: Side

definition MAX_ORDERS :: nat where
  "MAX_ORDERS = 16"

definition level_clear :: "PriceLevel \<Rightarrow> PriceLevel" where
  "level_clear l = l\<lparr>pl_count := 0, pl_price := 0\<rparr>"

definition is_full :: "PriceLevel \<Rightarrow> bool" where
  "is_full l \<longleftrightarrow> MAX_ORDERS \<le> pl_count l"

definition is_empty :: "PriceLevel \<Rightarrow> bool" where
  "is_empty l \<longleftrightarrow> pl_count l = 0"

record PipelineRegister =
  pr_order :: Order
  pr_level_index :: u32
  pr_result :: MatchResult
  pr_valid :: bool
  pr_stage :: u8

definition PipelineRegister_zero :: PipelineRegister where
  "PipelineRegister_zero = \<lparr>pr_order = Order_zero, pr_level_index = 0, pr_result = MatchResult_zero,
     pr_valid = False, pr_stage = 0\<rparr>"

definition NUM_STAGES :: nat where
  "NUM_STAGES = 5"

definition TICK :: u32 where
  "TICK = 100"

definition LADDER_SLOTS :: nat where
  "LADDER_SLOTS = 2048"

definition BITMAP_WORDS :: nat where
  "BITMAP_WORDS = LADDER_SLOTS div 64"

record FpgaPipeline =
  fp_stages :: "PipelineRegister list"
  fp_buy_levels :: "PriceLevel list"
  fp_sell_levels :: "PriceLevel list"
  fp_buy_bits :: "u64 list"
  fp_sell_bits :: "u64 list"
  fp_base_price :: u32
  fp_base_set :: bool
  fp_cycles :: u64
  fp_orders_processed :: u64
  fp_matches_made :: u64
  fp_window_misses :: u64

text \<open>
  The constructor clears only the count and the price of a level; the arrays and the side keep
  whatever the memory held, which is \<open>bmem\<close> and \<open>smem\<close> here.
\<close>

definition FpgaPipeline_new :: "(nat \<Rightarrow> PriceLevel) \<Rightarrow> (nat \<Rightarrow> PriceLevel) \<Rightarrow> FpgaPipeline" where
  "FpgaPipeline_new bmem smem =
     \<lparr>fp_stages = replicate NUM_STAGES PipelineRegister_zero,
      fp_buy_levels = map (level_clear \<circ> bmem) [0..<LADDER_SLOTS],
      fp_sell_levels = map (level_clear \<circ> smem) [0..<LADDER_SLOTS],
      fp_buy_bits = replicate BITMAP_WORDS 0, fp_sell_bits = replicate BITMAP_WORDS 0,
      fp_base_price = 0, fp_base_set = False, fp_cycles = 0, fp_orders_processed = 0,
      fp_matches_made = 0, fp_window_misses = 0\<rparr>"

section \<open>Addresses and bitmaps\<close>

text \<open>\<^verbatim>\<open>slot_of\<close>; the result -1 is \<^const>\<open>None\<close>.\<close>

definition slot_of :: "u32 \<Rightarrow> FpgaPipeline \<Rightarrow> FpgaPipeline \<times> nat option" where
  "slot_of price p =
     (let half = of_nat (LADDER_SLOTS div 2) * TICK;
          p = (if \<not> fp_base_set p
               then p\<lparr>fp_base_price := (if half < price then price - half else 0), fp_base_set := True\<rparr>
               else p)
      in if price < fp_base_price p then (p, None)
         else let off = (price - fp_base_price p) div TICK
              in (p, if off < of_nat LADDER_SLOTS then Some (unat off) else None))"

definition set_bit_slot :: "u64 list \<Rightarrow> nat \<Rightarrow> u64 list" where
  "set_bit_slot bits slot = bits[slot div 64 := bits ! (slot div 64) OR push_bit (slot mod 64) 1]"

definition clear_bit_slot :: "u64 list \<Rightarrow> nat \<Rightarrow> u64 list" where
  "clear_bit_slot bits slot = bits[slot div 64 := bits ! (slot div 64) AND NOT (push_bit (slot mod 64) 1)]"

text \<open>The compiler's \<^verbatim>\<open>clzll\<close> and \<^verbatim>\<open>ctzll\<close> builtins: zero bits above the highest, below the lowest set bit.\<close>

definition clzll :: "u64 \<Rightarrow> nat" where
  "clzll x = length (takeWhile (\<lambda>i. \<not> bit x i) (rev [0..<64]))"

definition ctzll :: "u64 \<Rightarrow> nat" where
  "ctzll x = length (takeWhile (\<lambda>i. \<not> bit x i) [0..<64])"

primrec top_slot_from :: "u64 list \<Rightarrow> nat \<Rightarrow> nat option" where
  "top_slot_from bits 0 = None"
| "top_slot_from bits (Suc w) =
     (if bits ! w \<noteq> 0 then Some (64 * w + (63 - clzll (bits ! w))) else top_slot_from bits w)"

definition top_slot :: "u64 list \<Rightarrow> nat option" where
  "top_slot bits = top_slot_from bits BITMAP_WORDS"

fun bottom_slot_from :: "nat \<Rightarrow> u64 list \<Rightarrow> nat option" where
  "bottom_slot_from w [] = None"
| "bottom_slot_from w (x # xs) =
     (if x \<noteq> 0 then Some (64 * w + ctzll x) else bottom_slot_from (w + 1) xs)"

definition bottom_slot :: "u64 list \<Rightarrow> nat option" where
  "bottom_slot bits = bottom_slot_from 0 bits"

definition ladder_best_bid :: "FpgaPipeline \<Rightarrow> PriceLevel option" where
  "ladder_best_bid p = map_option (\<lambda>s. fp_buy_levels p ! s) (top_slot (fp_buy_bits p))"

definition ladder_best_ask :: "FpgaPipeline \<Rightarrow> PriceLevel option" where
  "ladder_best_ask p = map_option (\<lambda>s. fp_sell_levels p ! s) (bottom_slot (fp_sell_bits p))"

section \<open>Stages\<close>

definition stage1_decode :: "Order \<Rightarrow> PipelineRegister" where
  "stage1_decode x = PipelineRegister_zero\<lparr>pr_order := x, pr_valid := (o_valid x \<noteq> 0), pr_stage := 1,
     pr_result := MatchResult_zero\<rparr>"

definition stage2_route :: "PipelineRegister \<Rightarrow> FpgaPipeline \<Rightarrow> PipelineRegister \<times> FpgaPipeline" where
  "stage2_route r p =
     (let reg = r\<lparr>pr_stage := 2\<rparr> in
      if \<not> pr_valid r then (reg, p)
      else case slot_of (o_price (pr_order r)) p of
        (p, None) \<Rightarrow> (reg\<lparr>pr_valid := False\<rparr>, p\<lparr>fp_window_misses := fp_window_misses p + 1\<rparr>)
      | (p, Some slot) \<Rightarrow> (reg\<lparr>pr_level_index := of_nat slot\<rparr>, p))"

definition stage3_match :: "PipelineRegister \<Rightarrow> FpgaPipeline \<Rightarrow> PipelineRegister" where
  "stage3_match r p =
     (let reg = r\<lparr>pr_stage := 3\<rparr>; x = pr_order r in
      if \<not> pr_valid r then reg
      else if o_side x = Buy then
        (case ladder_best_ask p of None \<Rightarrow> reg
         | Some ask \<Rightarrow>
             if \<not> is_empty ask \<and> pl_price ask \<le> o_price x then
               reg\<lparr>pr_result := \<lparr>mr_buy_order_ref = o_order_ref x,
                     mr_sell_order_ref = pl_order_refs ask ! 0, mr_price = pl_price ask,
                     mr_quantity = min (o_quantity x) (pl_quantities ask ! 0), mr_matched = True\<rparr>\<rparr>
             else reg)
      else
        (case ladder_best_bid p of None \<Rightarrow> reg
         | Some bid \<Rightarrow>
             if \<not> is_empty bid \<and> o_price x \<le> pl_price bid then
               reg\<lparr>pr_result := \<lparr>mr_buy_order_ref = pl_order_refs bid ! 0,
                     mr_sell_order_ref = o_order_ref x, mr_price = pl_price bid,
                     mr_quantity = min (o_quantity x) (pl_quantities bid ! 0), mr_matched = True\<rparr>\<rparr>
             else reg))"

text \<open>The fill of the front order of a level, and the shift of the ones behind it when it is done.\<close>

definition shift_forward :: "PriceLevel \<Rightarrow> PriceLevel" where
  "shift_forward l = l\<lparr>
     pl_order_refs := fold (\<lambda>i a. a[i := a ! (i + 1)]) [0..<pl_count l - 1] (pl_order_refs l),
     pl_quantities := fold (\<lambda>i a. a[i := a ! (i + 1)]) [0..<pl_count l - 1] (pl_quantities l)\<rparr>"

definition take_from_level ::
    "u32 \<Rightarrow> nat \<Rightarrow> PriceLevel list \<times> u64 list \<Rightarrow> PriceLevel list \<times> u64 list" where
  "take_from_level qty slot side = (case side of (levels, bits) \<Rightarrow>
     let resting = levels ! slot in
     if is_empty resting then (levels, bits)
     else
       let q0 = pl_quantities resting ! 0 - qty;
           resting = resting\<lparr>pl_quantities := (pl_quantities resting)[0 := q0]\<rparr>
       in if q0 \<noteq> 0 then (levels[slot := resting], bits)
          else
            let resting = shift_forward resting;
                resting = resting\<lparr>pl_count := pl_count resting - 1\<rparr>
            in (levels[slot := resting], if pl_count resting = 0 then clear_bit_slot bits slot else bits))"

definition rest_at_level ::
    "Order \<Rightarrow> nat \<Rightarrow> PriceLevel list \<times> u64 list \<Rightarrow> PriceLevel list \<times> u64 list" where
  "rest_at_level x slot side = (case side of (levels, bits) \<Rightarrow>
     let level = levels ! slot in
     if is_full level then (levels, bits)
     else (levels[slot := level\<lparr>
             pl_order_refs := (pl_order_refs level)[pl_count level := o_order_ref x],
             pl_quantities := (pl_quantities level)[pl_count level := o_quantity x],
             pl_price := o_price x, pl_side := (if o_side x = Buy then Buy else Sell),
             pl_count := pl_count level + 1\<rparr>],
           set_bit_slot bits slot))"

definition on_ladder ::
    "bool \<Rightarrow> (PriceLevel list \<times> u64 list \<Rightarrow> PriceLevel list \<times> u64 list) \<Rightarrow> FpgaPipeline \<Rightarrow> FpgaPipeline" where
  "on_ladder buy f p =
     (if buy then (case f (fp_buy_levels p, fp_buy_bits p) of (l, b) \<Rightarrow> p\<lparr>fp_buy_levels := l, fp_buy_bits := b\<rparr>)
      else (case f (fp_sell_levels p, fp_sell_bits p) of (l, b) \<Rightarrow> p\<lparr>fp_sell_levels := l, fp_sell_bits := b\<rparr>))"

definition stage4_execute :: "PipelineRegister \<Rightarrow> FpgaPipeline \<Rightarrow> PipelineRegister \<times> FpgaPipeline" where
  "stage4_execute r p =
     (let reg = r\<lparr>pr_stage := 4\<rparr>; buy = (o_side (pr_order r) = Buy) in
      if \<not> pr_valid r then (reg, p)
      else if mr_matched (pr_result r) then
        let slot = (if buy then bottom_slot (fp_sell_bits p) else top_slot (fp_buy_bits p));
            p = (case slot of None \<Rightarrow> p
                 | Some s \<Rightarrow> on_ladder (\<not> buy) (take_from_level (mr_quantity (pr_result r)) s) p)
        in (reg, p\<lparr>fp_matches_made := fp_matches_made p + 1\<rparr>)
      else (reg, on_ladder buy (rest_at_level (pr_order r) (unat (pr_level_index r))) p))"

definition stage5_respond :: "PipelineRegister \<Rightarrow> PipelineRegister" where
  "stage5_respond r = r\<lparr>pr_stage := 5\<rparr>"

section \<open>The clock\<close>

definition set_stage :: "nat \<Rightarrow> PipelineRegister \<Rightarrow> FpgaPipeline \<Rightarrow> FpgaPipeline" where
  "set_stage i r p = p\<lparr>fp_stages := (fp_stages p)[i := r]\<rparr>"

definition clock :: "Order \<Rightarrow> FpgaPipeline \<Rightarrow> MatchResult \<times> FpgaPipeline" where
  "clock incoming p =
     (let p = p\<lparr>fp_cycles := fp_cycles p + 1\<rparr>;
          out = pr_result (stage5_respond (fp_stages p ! 4));
          (r4, p) = stage4_execute (fp_stages p ! 3) p; p = set_stage 4 r4 p;
          p = set_stage 3 (stage3_match (fp_stages p ! 2) p) p;
          (r2, p) = stage2_route (fp_stages p ! 1) p; p = set_stage 2 r2 p;
          p = set_stage 1 (stage1_decode incoming) p;
          p = (if o_valid incoming \<noteq> 0 then p\<lparr>fp_orders_processed := fp_orders_processed p + 1\<rparr> else p)
      in (out, p))"

fun clock_run :: "Order list \<Rightarrow> FpgaPipeline \<Rightarrow> MatchResult list \<times> FpgaPipeline" where
  "clock_run [] p = ([], p)"
| "clock_run (x # xs) p =
     (case clock x p of (r, p1) \<Rightarrow> case clock_run xs p1 of (rs, p2) \<Rightarrow> (r # rs, p2))"

text \<open>\<^verbatim>\<open>flush\<close>: five clocks with an invalid order, returning the result of the last one.\<close>

definition flush :: "FpgaPipeline \<Rightarrow> MatchResult \<times> FpgaPipeline" where
  "flush p = fold (\<lambda>i s. clock (Order_zero\<lparr>o_valid := 0\<rparr>) (snd s)) [0..<NUM_STAGES] (MatchResult_zero, p)"

section \<open>One order at a time\<close>

text \<open>The reference: decode, route, match and execute one order before the next one is looked at.\<close>

definition process :: "Order \<Rightarrow> FpgaPipeline \<Rightarrow> MatchResult \<times> FpgaPipeline" where
  "process x p =
     (case stage2_route (stage1_decode x) p of (r, p1) \<Rightarrow>
        case stage4_execute (stage3_match r p1) p1 of (r, p2) \<Rightarrow> (pr_result r, p2))"

fun process_run :: "Order list \<Rightarrow> FpgaPipeline \<Rightarrow> MatchResult list \<times> FpgaPipeline" where
  "process_run [] p = ([], p)"
| "process_run (x # xs) p =
     (case process x p of (r, p1) \<Rightarrow> case process_run xs p1 of (rs, p2) \<Rightarrow> (r # rs, p2))"

text \<open>
  The parts of the state: control (registers and clock counters), routing (the window) and the
  rest, the book. \<open>core\<close> forgets the control part.
\<close>

definition set_ctl :: "PipelineRegister list \<times> u64 \<times> u64 \<Rightarrow> FpgaPipeline \<Rightarrow> FpgaPipeline" where
  "set_ctl c p = (case c of (s, n, m) \<Rightarrow> p\<lparr>fp_stages := s, fp_cycles := n, fp_orders_processed := m\<rparr>)"

definition get_rt :: "FpgaPipeline \<Rightarrow> u32 \<times> bool \<times> u64" where
  "get_rt p = (fp_base_price p, fp_base_set p, fp_window_misses p)"

definition set_rt :: "u32 \<times> bool \<times> u64 \<Rightarrow> FpgaPipeline \<Rightarrow> FpgaPipeline" where
  "set_rt t p = (case t of (b, s, m) \<Rightarrow> p\<lparr>fp_base_price := b, fp_base_set := s, fp_window_misses := m\<rparr>)"

definition core :: "FpgaPipeline \<Rightarrow> FpgaPipeline" where
  "core p = set_ctl ([], 0, 0) p"

text \<open>What is in flight, finished in order: the four results still to come out, and the book then.\<close>

definition drain :: "FpgaPipeline \<Rightarrow> MatchResult list \<times> FpgaPipeline" where
  "drain p =
     (let s = fp_stages p; q = core p;
          (r3, q) = stage4_execute (s ! 3) q;
          (r2, q) = stage4_execute (stage3_match (s ! 2) q) q;
          (r1, q) = stage2_route (s ! 1) q;
          (r1, q) = stage4_execute (stage3_match r1 q) q
      in ([pr_result (s ! 4), pr_result r3, pr_result r2, pr_result r1], q))"

section \<open>The stages do not interfere\<close>

lemma ladder_best_frame [tp_frame]:
  "ladder_best_ask (set_ctl c p) = ladder_best_ask p" "ladder_best_bid (set_ctl c p) = ladder_best_bid p"
  "ladder_best_ask (set_rt t p) = ladder_best_ask p" "ladder_best_bid (set_rt t p) = ladder_best_bid p"
  by (cases c; cases t; simp add: ladder_best_ask_def ladder_best_bid_def set_ctl_def set_rt_def)+

lemma match_frame [tp_frame]:
  "stage3_match r (set_ctl c p) = stage3_match r p"
  "stage3_match r (set_rt t p) = stage3_match r p"
  by (simp_all add: stage3_match_def Let_def tp_frame)

lemma on_ladder_frame [tp_frame]:
  "on_ladder b f (set_ctl c p) = set_ctl c (on_ladder b f p)"
  "on_ladder b f (set_rt t p) = set_rt t (on_ladder b f p)"
  "get_rt (on_ladder b f p) = get_rt p"
  by (cases c; simp add: on_ladder_def set_ctl_def split: prod.splits)
    (cases t; simp add: on_ladder_def set_rt_def get_rt_def split: prod.splits)+

lemma parts_frame [tp_frame]:
  "fp_sell_bits (set_ctl c p) = fp_sell_bits p" "fp_buy_bits (set_ctl c p) = fp_buy_bits p"
  "fp_sell_bits (set_rt t p) = fp_sell_bits p" "fp_buy_bits (set_rt t p) = fp_buy_bits p"
  "(set_ctl c p)\<lparr>fp_matches_made := fp_matches_made (set_ctl c p) + 1\<rparr> =
     set_ctl c (p\<lparr>fp_matches_made := fp_matches_made p + 1\<rparr>)"
  "(set_rt t p)\<lparr>fp_matches_made := fp_matches_made (set_rt t p) + 1\<rparr> =
     set_rt t (p\<lparr>fp_matches_made := fp_matches_made p + 1\<rparr>)"
  "get_rt (p\<lparr>fp_matches_made := k\<rparr>) = get_rt p"
  "get_rt (set_ctl c p) = get_rt p" "get_rt (set_rt t p) = t"
  "set_ctl c (set_ctl d p) = set_ctl c p" "set_rt t (set_rt u p) = set_rt t p"
  "set_rt t (set_ctl c p) = set_ctl c (set_rt t p)"
  by (cases c; cases d; cases t; cases u; simp add: set_ctl_def set_rt_def get_rt_def)+

lemma execute_frame [tp_frame]:
  "stage4_execute r (set_ctl c p) = apsnd (set_ctl c) (stage4_execute r p)"
  "stage4_execute r (set_rt t p) = apsnd (set_rt t) (stage4_execute r p)"
  "get_rt (snd (stage4_execute r p)) = get_rt p"
  by (auto simp: stage4_execute_def Let_def tp_frame split: option.splits)

text \<open>Routing reads and writes the window only.\<close>

lemma route_frame:
  assumes "get_rt p = get_rt q"
  shows "fst (stage2_route r p) = fst (stage2_route r q)"
    and "get_rt (snd (stage2_route r p)) = get_rt (snd (stage2_route r q))"
    and "snd (stage2_route r p) = set_rt (get_rt (snd (stage2_route r p))) p"
  using assms
  by (auto simp: stage2_route_def slot_of_def set_rt_def get_rt_def Let_def split: prod.splits if_splits)

lemma five_stages:
  assumes "length s = 5"
  obtains s0 s1 s2 s3 s4 where "s = [s0, s1, s2, s3, s4]"
  using assms by (auto simp: numeral_eq_Suc length_Suc_conv)

lemma route_set_ctl:
  "stage2_route r (set_ctl c p) = apsnd (set_ctl c) (stage2_route r p)"
  using route_frame [of "set_ctl c p" p r] route_frame(3) [of p p r]
  by (auto simp: tp_frame intro!: prod_eqI)

lemma core_frame [tp_frame]:
  "stage4_execute r (core p) = apsnd core (stage4_execute r p)"
  "stage3_match r (core p) = stage3_match r p"
  "stage2_route r (core p) = apsnd core (stage2_route r p)"
  "core (set_ctl c p) = core p"
  by (simp_all add: core_def execute_frame match_frame route_set_ctl parts_frame)

lemma clock_form:
  assumes "fp_stages p = [s0, s1, s2, s3, s4]"
    and "stage4_execute s3 p = (r4, p1)"
  shows "clock x p = (pr_result s4,
     set_ctl ([s0, stage1_decode x, fst (stage2_route s1 p1), stage3_match s2 p1, r4], fp_cycles p + 1,
              fp_orders_processed p + of_bool (o_valid x \<noteq> 0)) (snd (stage2_route s1 p1)))"
proof -
  let ?c = "set_ctl ([s0, s1, s2, s3, s4], fp_cycles p + 1, fp_orders_processed p)"
  have p': "p\<lparr>fp_cycles := fp_cycles p + 1\<rparr> = ?c p"
    using assms(1) by (simp add: set_ctl_def)
  have st: "fp_stages (set_ctl (s, n, m) u) = s" "fp_cycles (set_ctl (s, n, m) u) = n"
    "fp_orders_processed (set_ctl (s, n, m) u) = m" for s n m u
    by (simp_all add: set_ctl_def)
  have stage: "set_stage i r (set_ctl (s, n, m) u) = set_ctl (s[i := r], n, m) u" for i r s n m u
    by (simp add: set_stage_def set_ctl_def)
  have ord: "(set_ctl (s, n, m) u)\<lparr>fp_orders_processed := k\<rparr> = set_ctl (s, n, k) u" for s n m k u
    by (simp add: set_ctl_def)
  obtain r2 p2 where r2: "stage2_route s1 p1 = (r2, p2)" by (cases "stage2_route s1 p1")
  show ?thesis
    unfolding clock_def Let_def p'
    by (simp add: st stage ord assms(2) r2 stage5_respond_def execute_frame match_frame route_set_ctl
        split_def)
qed

lemma clock_drain:
  assumes "length (fp_stages p) = 5" and "drain p = (r0 # rs, q)"
  shows "fst (clock x p) = r0" and "length (fp_stages (snd (clock x p))) = 5"
    and "drain (snd (clock x p)) = (rs @ [fst (process x q)], snd (process x q))"
proof -
  obtain s0 s1 s2 s3 s4 where s: "fp_stages p = [s0, s1, s2, s3, s4]"
    using five_stages [OF assms(1)] by blast
  obtain r4 p1 where e3: "stage4_execute s3 p = (r4, p1)" by (cases "stage4_execute s3 p")
  obtain e2 p2 where e2: "stage4_execute (stage3_match s2 p1) p1 = (e2, p2)"
    by (cases "stage4_execute (stage3_match s2 p1) p1")
  obtain m1 p3 where r1: "stage2_route s1 p1 = (m1, p3)" by (cases "stage2_route s1 p1")
  have rt: "get_rt p2 = get_rt p1" using execute_frame(3) [of "stage3_match s2 p1" p1] e2 by simp
  obtain t where t: "p3 = set_rt t p1" "stage2_route s1 p2 = (m1, set_rt t p2)"
    using route_frame [OF rt, of s1] route_frame(3) [of p1 p1 s1] r1
    by (metis fst_conv prod.collapse snd_conv)
  obtain e1 p4 where e1: "stage4_execute (stage3_match m1 p2) p2 = (e1, p4)"
    by (cases "stage4_execute (stage3_match m1 p2) p2")
  have "drain p = ([pr_result s4, pr_result r4, pr_result e2, pr_result e1], core (set_rt t p4))"
    by (simp add: drain_def s core_frame match_frame execute_frame e3 e2 t(2) e1)
  then have r0: "r0 = pr_result s4" and rs: "rs = [pr_result r4, pr_result e2, pr_result e1]"
    and q: "q = core (set_rt t p4)" using assms(2) by simp_all
  note form = clock_form [OF s e3, of x]
  show "fst (clock x p) = r0"
    by (simp add: form r0)
  show "length (fp_stages (snd (clock x p))) = 5" by (simp add: form set_ctl_def)
  show "drain (snd (clock x p)) = (rs @ [fst (process x q)], snd (process x q))"
  proof -
    have "fp_stages (snd (clock x p)) = [s0, stage1_decode x, m1, stage3_match s2 p1, r4]"
      by (simp add: form r1 set_ctl_def)
    moreover have "core (snd (clock x p)) = core (set_rt t p1)"
      by (simp add: form r1 t(1) core_frame)
    ultimately show ?thesis
      by (simp add: drain_def core_frame match_frame execute_frame e2 e1 rs q process_def split_def)
  qed
qed

section \<open>Runs of the clock\<close>

abbreviation bubble :: Order where
  "bubble \<equiv> Order_zero\<lparr>o_valid := 0\<rparr>"

lemma drain_length: "length (fst (drain p)) = 4"
  by (simp add: drain_def Let_def split_def)

lemma clock_run_drain:
  assumes "length (fp_stages p) = 5" and "drain p = (d, q)"
    and "clock_run xs p = (outs, p')" and "process_run xs q = (rs, q')"
  shows "outs @ fst (drain p') = d @ rs \<and> snd (drain p') = q' \<and> length (fp_stages p') = 5 \<and>
     length outs = length xs"
  using assms
proof (induction xs arbitrary: p d q outs rs)
  case (Cons x xs)
  obtain r0 ds where d: "d = r0 # ds" using drain_length [of p] Cons.prems(2) by (cases d) auto
  note step = clock_drain [OF Cons.prems(1) Cons.prems(2) [unfolded d], of x]
  obtain o1 p1 where c: "clock x p = (o1, p1)" by (cases "clock x p")
  obtain os p2 where cs: "clock_run xs p1 = (os, p2)" by (cases "clock_run xs p1")
  obtain r1 q1 where pr: "process x q = (r1, q1)" by (cases "process x q")
  obtain rs1 q2 where prs: "process_run xs q1 = (rs1, q2)" by (cases "process_run xs q1")
  show ?case
    using Cons.IH [of p1 "ds @ [r1]" q1 os rs1] step c cs pr prs Cons.prems(3,4) d by auto
qed simp

lemma process_bubble [simp]: "process bubble q = (MatchResult_zero, q)"
  by (simp add: process_def stage1_decode_def stage2_route_def stage3_match_def stage4_execute_def
      PipelineRegister_zero_def Order_zero_def)

lemma process_run_append:
  "process_run (xs @ ys) p =
     (let (rs, p1) = process_run xs p; (rs', p2) = process_run ys p1 in (rs @ rs', p2))"
  by (induction xs arbitrary: p) (auto simp: Let_def split: prod.splits)

lemma process_bubbles: "process_run (replicate n bubble) q = (replicate n MatchResult_zero, q)"
  by (induction n) auto

text \<open>Bubbles travel through the registers; once the first four registers hold them, nothing is left to do.\<close>

definition idle_to :: "nat \<Rightarrow> FpgaPipeline \<Rightarrow> bool" where
  "idle_to n p \<longleftrightarrow> length (fp_stages p) = 5 \<and> (\<forall>i \<in> {1..n}. \<not> pr_valid (fp_stages p ! i))"

lemma invalid_stages:
  assumes "\<not> pr_valid r"
  shows "stage2_route r p = (r\<lparr>pr_stage := 2\<rparr>, p)" and "stage3_match r p = r\<lparr>pr_stage := 3\<rparr>"
    and "stage4_execute r p = (r\<lparr>pr_stage := 4\<rparr>, p)"
  using assms by (simp_all add: stage2_route_def stage3_match_def stage4_execute_def)

lemma clock_idle:
  assumes "idle_to n p" and "n < 3"
  shows "idle_to (Suc n) (snd (clock bubble p))"
proof -
  obtain s0 s1 s2 s3 s4 where s: "fp_stages p = [s0, s1, s2, s3, s4]"
    using assms(1) five_stages unfolding idle_to_def by blast
  obtain r4 p1 where e3: "stage4_execute s3 p = (r4, p1)" by (cases "stage4_execute s3 p")
  have "\<not> pr_valid s1" if "0 < n" using assms(1) that s by (force simp: idle_to_def)
  moreover have "\<not> pr_valid s2" if "1 < n"
    using assms(1) that s by (auto simp: idle_to_def dest!: bspec [of _ _ 2])
  ultimately show ?thesis
    using assms(2)
    by (auto simp: idle_to_def clock_form [OF s e3] set_ctl_def stage1_decode_def invalid_stages
        numeral_eq_Suc less_Suc_eq le_Suc_eq)
qed

lemma drain_idle:
  assumes "idle_to 3 p" shows "snd (drain p) = core p"
proof -
  have "\<not> pr_valid (fp_stages p ! 1)" "\<not> pr_valid (fp_stages p ! 2)" "\<not> pr_valid (fp_stages p ! 3)"
    using assms by (auto simp: idle_to_def)
  then show ?thesis by (simp add: drain_def invalid_stages Let_def)
qed

lemma three_bubbles:
  assumes "length (fp_stages p) = 5"
  shows "idle_to 3 (snd (clock bubble (snd (clock bubble (snd (clock bubble p))))))"
proof -
  have "idle_to 0 p" using assms by (simp add: idle_to_def)
  then have "idle_to (Suc (Suc (Suc 0))) (snd (clock bubble (snd (clock bubble (snd (clock bubble p))))))"
    by (intro clock_idle) simp_all
  then show ?thesis by (simp add: numeral_3_eq_3)
qed

lemma clock_run_append:
  "clock_run (xs @ ys) p =
     (let (rs, p1) = clock_run xs p; (rs', p2) = clock_run ys p1 in (rs @ rs', p2))"
  by (induction xs arbitrary: p) (auto simp: Let_def split: prod.splits)

lemma clock_run_snoc: "snd (clock_run (xs @ [x]) p) = snd (clock x (snd (clock_run xs p)))"
  by (simp add: clock_run_append split_def Let_def)

lemma clock_run_bubbles_idle:
  assumes "length (fp_stages p) = 5"
  shows "idle_to 3 (snd (clock_run (replicate (n + 3) bubble) p))"
proof -
  let ?q = "snd (clock_run (replicate n bubble) p)"
  obtain d q where d: "drain p = (d, q)" by (cases "drain p")
  have "length (fp_stages ?q) = 5"
    using clock_run_drain [OF assms d prod.collapse [symmetric] prod.collapse [symmetric]] by blast
  note idle = three_bubbles [OF this]
  have "replicate (n + 3) bubble = replicate n bubble @ [bubble, bubble, bubble]"
    by (simp only: replicate_add) (simp add: numeral_3_eq_3)
  then show ?thesis using idle by (simp add: clock_run_append Let_def split_def)
qed

lemma clock_run_finishes:
  assumes "length (fp_stages p) = 5" and "drain p = (d, q)"
  shows "case process_run xs q of (rs, q') \<Rightarrow> case clock_run (xs @ replicate 4 bubble) p of (outs, p') \<Rightarrow>
     outs = d @ rs \<and> core p' = q'"
proof -
  obtain rs q' where pr: "process_run xs q = (rs, q')" by (cases "process_run xs q")
  obtain os p1 where c1: "clock_run xs p = (os, p1)" by (cases "clock_run xs p")
  obtain outs p' where cr: "clock_run (xs @ replicate 4 bubble) p = (outs, p')"
    by (cases "clock_run (xs @ replicate 4 bubble) p")
  have prb: "process_run (xs @ replicate 4 bubble) q = (rs @ replicate 4 MatchResult_zero, q')"
    by (simp add: process_run_append pr process_bubbles)
  note run = clock_run_drain [OF assms cr prb]
  have len: "length d = 4" using drain_length [of p] assms(2) by simp
  have len': "length os = length xs" "length rs = length xs"
    using clock_run_drain [OF assms c1 pr] len drain_length [of p1]
    by (auto dest: arg_cong [of _ _ length])
  have "outs = d @ rs"
    using run drain_length [of p'] len len' by (simp add: append_eq_append_conv flip: append_assoc)
  moreover have "idle_to 3 p'"
  proof -
    have "length (fp_stages p1) = 5" using clock_run_drain [OF assms c1 pr] by blast
    from clock_run_bubbles_idle [OF this, of 1] show ?thesis
      using cr by (simp add: clock_run_append c1 Let_def split_def)
  qed
  ultimately show ?thesis using drain_idle [of p'] run by (simp add: pr cr)
qed

section \<open>Bitmaps\<close>

definition bit_at :: "u64 list \<Rightarrow> nat \<Rightarrow> bool" where
  "bit_at bits s \<longleftrightarrow> bit (bits ! (s div 64)) (s mod 64)"

lemmas sizes = LADDER_SLOTS_def BITMAP_WORDS_def

lemma set_bit_length [simp]: "length (set_bit_slot bits s) = length bits" "length (clear_bit_slot bits s) = length bits"
  by (simp_all add: set_bit_slot_def clear_bit_slot_def)

lemma bit_at_set:
  assumes "length bits = BITMAP_WORDS" and "s < LADDER_SLOTS"
  shows "bit_at (set_bit_slot bits s) t \<longleftrightarrow> t = s \<or> bit_at bits t"
    and "bit_at (clear_bit_slot bits s) t \<longleftrightarrow> t \<noteq> s \<and> bit_at bits t"
proof -
  have in_range: "s div 64 < length bits" using assms by (simp add: sizes)
  have same: "s = t \<longleftrightarrow> s div 64 = t div 64 \<and> s mod 64 = t mod 64"
    by (metis div_mult_mod_eq)
  have one: "bit (push_bit (s mod 64) 1 :: u64) (t mod 64) \<longleftrightarrow> s mod 64 = t mod 64"
    by (auto simp: bit_exp_iff)
  have lim: "t mod 64 < 64" by simp
  show "bit_at (set_bit_slot bits s) t \<longleftrightarrow> t = s \<or> bit_at bits t"
    using in_range same one by (auto simp: bit_at_def set_bit_slot_def bit_or_iff nth_list_update)
  show "bit_at (clear_bit_slot bits s) t \<longleftrightarrow> t \<noteq> s \<and> bit_at bits t"
    using in_range same one lim
    by (auto simp: bit_at_def clear_bit_slot_def bit_and_iff bit_not_iff nth_list_update)
qed

lemma some_bit: "(x :: u64) \<noteq> 0 \<Longrightarrow> \<exists>i < 64. bit x i"
proof (rule ccontr)
  assume "x \<noteq> 0" and none: "\<not> (\<exists>i < 64. bit x i)"
  have "x = 0" by (rule bit_word_eqI) (use none in auto)
  with \<open>x \<noteq> 0\<close> show False by blast
qed

lemma clzll_top:
  assumes "x \<noteq> 0"
  shows "bit x (63 - clzll x)" and "63 - clzll x < i \<Longrightarrow> i < 64 \<Longrightarrow> \<not> bit x i"
proof -
  let ?P = "\<lambda>i. \<not> bit x i" let ?xs = "rev [0..<64]"
  have n: "clzll x < 64"
  proof (rule ccontr)
    assume "\<not> clzll x < 64"
    then have "takeWhile ?P ?xs = ?xs"
      using length_takeWhile_le [of ?P ?xs] by (metis clzll_def le_antisym length_rev length_upt diff_zero
          not_less takeWhile_eq_take take_all_iff)
    then have "\<forall>i < 64. ?P i" by (simp add: takeWhile_eq_all_conv)
    with some_bit [OF assms] show False by blast
  qed
  have nth: "?xs ! j = 63 - j" if "j < 64" for j using that by (simp add: rev_nth)
  show "bit x (63 - clzll x)"
    using nth_length_takeWhile [of ?P ?xs] n nth by (simp add: clzll_def)
  show "\<not> bit x i" if "63 - clzll x < i" "i < 64"
  proof -
    have j: "63 - i < clzll x" using that n by simp
    have "?P (?xs ! (63 - i))"
      using j set_takeWhileD [of "takeWhile ?P ?xs ! (63 - i)" ?P ?xs]
      by (metis clzll_def nth_mem takeWhile_nth)
    then show ?thesis using that by (simp add: nth)
  qed
qed

lemma ctzll_bottom:
  assumes "x \<noteq> 0"
  shows "bit x (ctzll x)" and "ctzll x < 64" and "i < ctzll x \<Longrightarrow> \<not> bit x i"
proof -
  let ?P = "\<lambda>i. \<not> bit x i" let ?xs = "[0..<64]"
  show n: "ctzll x < 64"
  proof (rule ccontr)
    assume "\<not> ctzll x < 64"
    then have "takeWhile ?P ?xs = ?xs"
      using length_takeWhile_le [of ?P ?xs] by (metis ctzll_def le_antisym length_upt diff_zero
          not_less takeWhile_eq_take take_all_iff)
    then have "\<forall>i < 64. ?P i" by (simp add: takeWhile_eq_all_conv)
    with some_bit [OF assms] show False by blast
  qed
  show "bit x (ctzll x)"
    using nth_length_takeWhile [of ?P ?xs] n by (simp add: ctzll_def)
  show "\<not> bit x i" if "i < ctzll x"
  proof -
    have "?P (?xs ! i)"
      using that set_takeWhileD [of "takeWhile ?P ?xs ! i" ?P ?xs]
      by (metis ctzll_def nth_mem takeWhile_nth)
    then show ?thesis using that n by simp
  qed
qed

lemma top_slot_from_law:
  assumes "w \<le> length bits"
  shows "case top_slot_from bits w of
      None \<Rightarrow> \<forall>t < 64 * w. \<not> bit_at bits t
    | Some s \<Rightarrow> s < 64 * w \<and> bit_at bits s \<and> (\<forall>t < 64 * w. bit_at bits t \<longrightarrow> t \<le> s)"
  using assms
proof (induction w)
  case (Suc w)
  have upper: "t div 64 = w" if "\<not> t < 64 * w" "t < 64 * Suc w" for t using that by auto
  show ?case
  proof (cases "bits ! w = 0")
    case True
    then have "\<not> bit_at bits t" if "\<not> t < 64 * w" "t < 64 * Suc w" for t
      using upper [OF that] by (simp add: bit_at_def)
    then show ?thesis using Suc True
      by (auto split: option.splits simp: less_Suc_eq_le)
  next
    case False
    let ?k = "63 - clzll (bits ! w)"
    have "t \<le> 64 * w + ?k" if "t < 64 * Suc w" "bit_at bits t" for t
    proof (rule ccontr)
      assume "\<not> t \<le> 64 * w + ?k"
      then have big: "64 * w + ?k < t" by simp
      then have w: "t div 64 = w" using that(1) by (intro upper) simp_all
      then have "t = 64 * w + t mod 64" using div_mult_mod_eq [of t 64] by simp
      then have "?k < t mod 64" using big by linarith
      with that(2) w clzll_top(2) [OF False, of "t mod 64"] show False by (simp add: bit_at_def)
    qed
    moreover have "64 * w + ?k < 64 * Suc w" by simp
    moreover have "bit_at bits (64 * w + ?k)" using clzll_top(1) [OF False] by (simp add: bit_at_def)
    moreover have "top_slot_from bits (Suc w) = Some (64 * w + ?k)" using False by simp
    ultimately show ?thesis by (simp only: option.case) blast
  qed
qed simp

lemma bottom_slot_from_law:
  "case bottom_slot_from w xs of
      None \<Rightarrow> \<forall>t < 64 * length xs. \<not> bit_at xs t
    | Some s \<Rightarrow> \<exists>u < 64 * length xs. s = 64 * w + u \<and> bit_at xs u \<and> (\<forall>t. bit_at xs t \<longrightarrow> t < 64 * length xs \<longrightarrow> u \<le> t)"
proof (induction w xs rule: bottom_slot_from.induct)
  case (2 w x xs)
  have lower: "bit_at (x # xs) t \<longleftrightarrow> bit x t" if "t < 64" for t using that by (simp add: bit_at_def)
  have higher: "bit_at (x # xs) t \<longleftrightarrow> bit_at xs (t - 64)" if "\<not> t < 64" for t
  proof -
    obtain u where "t = u + 64" using \<open>\<not> t < 64\<close> by (metis le_add_diff_inverse2 not_less)
    moreover have "(u + 64) div 64 = Suc (u div 64)" by (simp add: div_add_self2)
    ultimately show ?thesis by (simp only: bit_at_def nth_Cons_Suc) simp
  qed
  show ?case
  proof (cases "x = 0")
    case False
    note c = ctzll_bottom [OF False]
    have "ctzll x \<le> t" if "bit_at (x # xs) t" for t
      using that c lower [of t] by (cases "t < ctzll x") auto
    moreover have "bit_at (x # xs) (ctzll x)" "ctzll x < 64 * length (x # xs)" using c lower by auto
    moreover have "bottom_slot_from w (x # xs) = Some (64 * w + ctzll x)" using False by simp
    ultimately show ?thesis by (simp only: option.case) blast
  next
    case True
    then have none: "\<not> bit_at (x # xs) t" if "t < 64" for t using lower [OF that] by simp
    show ?thesis
    proof (cases "bottom_slot_from (w + 1) xs")
      case None
      then have no: "\<forall>t < 64 * length xs. \<not> bit_at xs t" using 2 True by simp
      have "\<not> bit_at (x # xs) t" if "t < 64 * length (x # xs)" for t
      proof (cases "t < 64")
        case False
        then have "t - 64 < 64 * length xs" using that by simp
        then show ?thesis using higher [OF False] no by blast
      qed (rule none)
      then show ?thesis using True None by simp
    next
      case (Some s)
      then obtain u where u: "u < 64 * length xs" "s = 64 * (w + 1) + u" "bit_at xs u"
        "\<forall>t. bit_at xs t \<longrightarrow> t < 64 * length xs \<longrightarrow> u \<le> t" using 2 True by auto
      have "64 + u \<le> t" if "bit_at (x # xs) t" "t < 64 * length (x # xs)" for t
      proof -
        have t: "\<not> t < 64" using that(1) none by blast
        then have "t - 64 < 64 * length xs" using that(2) by simp
        then have "u \<le> t - 64" using u(4) that(1) higher [OF t] by blast
        then show ?thesis using t by simp
      qed
      moreover have "bit_at (x # xs) (64 + u)" using u(3) higher [of "64 + u"] by simp
      moreover have "bottom_slot_from w (x # xs) = Some (64 * w + (64 + u))" "64 + u < 64 * length (x # xs)"
        using u(1,2) True Some by simp_all
      ultimately show ?thesis by (simp only: option.case) blast
    qed
  qed
qed simp

section \<open>Levels and sides\<close>

definition queue_of :: "PriceLevel \<Rightarrow> Level" where
  "queue_of l = zip (take (pl_count l) (pl_order_refs l)) (take (pl_count l) (pl_quantities l))"

definition level_ok :: "PriceLevel \<Rightarrow> bool" where
  "level_ok l \<longleftrightarrow> length (pl_order_refs l) = MAX_ORDERS \<and> length (pl_quantities l) = MAX_ORDERS \<and>
     pl_count l \<le> MAX_ORDERS"

text \<open>A side of the ladder is well formed when the bitmap marks exactly the levels that hold an order.\<close>

definition side_ok :: "PriceLevel list \<times> u64 list \<Rightarrow> bool" where
  "side_ok side \<longleftrightarrow> (case side of (levels, bits) \<Rightarrow>
     length levels = LADDER_SLOTS \<and> length bits = BITMAP_WORDS \<and>
     (\<forall>s < LADDER_SLOTS. level_ok (levels ! s) \<and> (bit_at bits s \<longleftrightarrow> pl_count (levels ! s) \<noteq> 0)))"

lemma length_queue_of [simp]: "level_ok l \<Longrightarrow> length (queue_of l) = pl_count l"
  by (simp add: queue_of_def level_ok_def)

lemma queue_of_empty: "level_ok l \<Longrightarrow> queue_of l = [] \<longleftrightarrow> is_empty l"
  by (metis is_empty_def length_0_conv length_queue_of)

lemma queue_of_head:
  assumes "level_ok l" and "\<not> is_empty l"
  shows "queue_of l = (pl_order_refs l ! 0, pl_quantities l ! 0) # tl (queue_of l)"
proof -
  have "0 < length (queue_of l)" using assms by (simp add: is_empty_def)
  then have "queue_of l \<noteq> []" "hd (queue_of l) = queue_of l ! 0" by (auto simp: hd_conv_nth)
  moreover have "queue_of l ! 0 = (pl_order_refs l ! 0, pl_quantities l ! 0)"
    using assms by (simp add: queue_of_def level_ok_def is_empty_def)
  ultimately show ?thesis by (metis list.collapse)
qed

lemma shift_fold:
  assumes "m < length xs"
  shows "fold (\<lambda>i a. a[i := a ! Suc i]) [0..<m] xs = take m (tl xs) @ drop m xs"
  using assms
proof (induction m)
  case 0
  then show ?case by simp
next
  case (Suc m)
  let ?a = "take m (tl xs) @ drop m xs"
  have len: "length (take m (tl xs)) = m" using Suc.prems by simp
  have nth: "?a ! Suc m = xs ! Suc m" using Suc.prems len by (simp add: nth_append)
  have d: "drop m xs = xs ! m # drop (Suc m) xs" using Suc.prems by (simp add: Cons_nth_drop_Suc)
  have "take (Suc m) (tl xs) = take m (tl xs) @ [xs ! Suc m]"
    using Suc.prems by (simp add: take_Suc_conv_app_nth nth_tl)
  moreover have "?a[m := xs ! Suc m] = take m (tl xs) @ xs ! Suc m # drop (Suc m) xs"
    using len d by (simp add: list_update_append)
  ultimately show ?case using Suc nth by simp
qed

lemma shift_forward_queue:
  assumes "level_ok l" and "\<not> is_empty l"
    and "l' = (shift_forward l)\<lparr>pl_count := pl_count l - 1\<rparr>"
  shows "queue_of l' = tl (queue_of l)" and "level_ok l'"
proof -
  have c: "pl_count l - 1 < length (pl_order_refs l)" "pl_count l - 1 < length (pl_quantities l)"
    using assms(1,2) by (auto simp: level_ok_def is_empty_def)
  have len: "length (take (pl_count l - 1) (tl xs)) = pl_count l - 1" if "length xs = MAX_ORDERS" for xs :: "'a list"
    using that assms(1) by (auto simp: level_ok_def)
  obtain k where k: "pl_count l = Suc k" using assms(2) by (cases "pl_count l") (auto simp: is_empty_def)
  have tl_take: "tl (take (Suc k) xs) = take k (tl xs)" for xs :: "'a list" by (cases xs) auto
  have tl_zip: "tl (zip xs ys) = zip (tl xs) (tl ys)" for xs :: "u64 list" and ys :: "u32 list"
    by (cases xs; cases ys) auto
  show "queue_of l' = tl (queue_of l)"
    using assms(1) c len by (auto simp: assms(3) queue_of_def shift_forward_def shift_fold k tl_zip tl_take
        level_ok_def)
  show "level_ok l'"
    using assms(1) c by (auto simp: assms(3) shift_forward_def shift_fold level_ok_def)
qed

text \<open>What a fill and a resting order do to one level.\<close>

definition fill_level :: "u32 \<Rightarrow> PriceLevel \<Rightarrow> PriceLevel" where
  "fill_level qty l =
     (let q0 = pl_quantities l ! 0 - qty; l = l\<lparr>pl_quantities := (pl_quantities l)[0 := q0]\<rparr>
      in if q0 \<noteq> 0 then l else (shift_forward l)\<lparr>pl_count := pl_count l - 1\<rparr>)"

lemma take_from_level_form:
  "take_from_level qty s (levels, bits) =
     (if is_empty (levels ! s) then (levels, bits)
      else (levels[s := fill_level qty (levels ! s)],
            if is_empty (fill_level qty (levels ! s)) then clear_bit_slot bits s else bits))"
  by (auto simp: take_from_level_def fill_level_def shift_forward_def is_empty_def Let_def)

lemma fill_level_queue:
  assumes "level_ok l" and "queue_of l = (ref, q0) # q"
  shows "queue_of (fill_level n l) = (if q0 - n = 0 then q else (ref, q0 - n) # q)"
    and "level_ok (fill_level n l)" and "pl_price (fill_level n l) = pl_price l"
proof -
  have ne: "\<not> is_empty l" using assms queue_of_empty by fastforce
  have q0: "pl_quantities l ! 0 = q0" "pl_order_refs l ! 0 = ref" "q = tl (queue_of l)"
    using queue_of_head [OF assms(1) ne] assms(2) by auto
  let ?l = "l\<lparr>pl_quantities := (pl_quantities l)[0 := q0 - n]\<rparr>"
  have ok: "level_ok ?l" using assms(1) by (simp add: level_ok_def)
  have ne': "\<not> is_empty ?l" using ne by (simp add: is_empty_def)
  have "(take (pl_count l) (pl_order_refs l))[0 := ref] = take (pl_count l) (pl_order_refs l)"
    using ne q0(2) by (metis is_empty_def list_update_id neq0_conv nth_take)
  then have "queue_of ?l = (queue_of l)[0 := (ref, q0 - n)]"
    by (simp add: queue_of_def update_zip take_update_swap)
  then have ql: "queue_of ?l = (ref, q0 - n) # q" using assms(2) by simp
  show "queue_of (fill_level n l) = (if q0 - n = 0 then q else (ref, q0 - n) # q)"
    using shift_forward_queue(1) [OF ok ne' refl] ql by (auto simp: fill_level_def q0(1) Let_def)
  show "level_ok (fill_level n l)"
    using shift_forward_queue(2) [OF ok ne' refl] ok by (auto simp: fill_level_def q0(1) Let_def)
  show "pl_price (fill_level n l) = pl_price l"
    by (simp add: fill_level_def shift_forward_def Let_def)
qed

definition rest_level :: "Order \<Rightarrow> PriceLevel \<Rightarrow> PriceLevel" where
  "rest_level x l = l\<lparr>pl_order_refs := (pl_order_refs l)[pl_count l := o_order_ref x],
     pl_quantities := (pl_quantities l)[pl_count l := o_quantity x],
     pl_price := o_price x, pl_side := (if o_side x = Buy then Buy else Sell),
     pl_count := pl_count l + 1\<rparr>"

lemma rest_at_level_form:
  "rest_at_level x s (levels, bits) =
     (if is_full (levels ! s) then (levels, bits)
      else (levels[s := rest_level x (levels ! s)], set_bit_slot bits s))"
  by (simp add: rest_at_level_def rest_level_def Let_def)

lemma rest_level_queue:
  assumes "level_ok l" and "\<not> is_full l"
  shows "queue_of (rest_level x l) = queue_of l @ [(o_order_ref x, o_quantity x)]"
    and "level_ok (rest_level x l)" and "pl_price (rest_level x l) = o_price x"
    and "\<not> is_empty (rest_level x l)"
proof -
  have c: "pl_count l < length (pl_order_refs l)" "pl_count l < length (pl_quantities l)"
    using assms by (auto simp: level_ok_def is_full_def)
  have t: "take (Suc n) (xs[n := v]) = take n xs @ [v]" if "n < length xs" for n v and xs :: "'a list"
    using that by (simp add: take_Suc_conv_app_nth)
  show "queue_of (rest_level x l) = queue_of l @ [(o_order_ref x, o_quantity x)]"
    using c by (simp add: queue_of_def rest_level_def t)
  show "level_ok (rest_level x l)"
    using assms by (auto simp: level_ok_def is_full_def rest_level_def)
qed (simp_all add: rest_level_def is_empty_def)

lemma side_ok_update:
  assumes "side_ok (levels, bits)" and "s < LADDER_SLOTS" and "level_ok l"
    and "length bits' = BITMAP_WORDS"
    and "\<And>t. bit_at bits' t \<longleftrightarrow> (if t = s then \<not> is_empty l else bit_at bits t)"
  shows "side_ok (levels[s := l], bits')"
  using assms by (auto simp: side_ok_def nth_list_update is_empty_def)

lemma take_from_level_ok:
  assumes "side_ok (levels, bits)" and "s < LADDER_SLOTS"
  shows "side_ok (take_from_level n s (levels, bits))"
proof (cases "is_empty (levels ! s)")
  case False
  have ok: "level_ok (levels ! s)" "length bits = BITMAP_WORDS"
    and b: "bit_at bits s" using assms False by (auto simp: side_ok_def is_empty_def)
  note f = fill_level_queue [OF ok(1) queue_of_head [OF ok(1) False], of n]
  have "side_ok (levels[s := fill_level n (levels ! s)],
      if is_empty (fill_level n (levels ! s)) then clear_bit_slot bits s else bits)"
    using b ok(2) by (intro side_ok_update [OF assms f(2)]) (auto simp: bit_at_set [OF ok(2) assms(2)])
  then show ?thesis using False by (simp add: take_from_level_form)
qed (use assms in \<open>simp add: take_from_level_form\<close>)

lemma rest_at_level_ok:
  assumes "side_ok (levels, bits)" and "s < LADDER_SLOTS"
  shows "side_ok (rest_at_level x s (levels, bits))"
proof (cases "is_full (levels ! s)")
  case False
  have ok: "level_ok (levels ! s)" "length bits = BITMAP_WORDS"
    using assms by (auto simp: side_ok_def)
  note r = rest_level_queue [OF ok(1) False, of x]
  have "side_ok (levels[s := rest_level x (levels ! s)], set_bit_slot bits s)"
    using r(4) ok(2) by (intro side_ok_update [OF assms r(2)]) (auto simp: bit_at_set [OF ok(2) assms(2)])
  then show ?thesis using False by (simp add: rest_at_level_form)
qed (use assms in \<open>simp add: rest_at_level_form\<close>)

section \<open>Prices and slots\<close>

text \<open>The slot of a price that lies on the tick grid of the window, and the queue at a price.\<close>

definition tick_slot :: "u32 \<Rightarrow> u32 \<Rightarrow> nat option" where
  "tick_slot base px =
     (let d = unat px - unat base
      in if base \<le> px \<and> d mod 100 = 0 \<and> d div 100 < LADDER_SLOTS then Some (d div 100) else None)"

definition price_view :: "u32 \<Rightarrow> PriceLevel list \<Rightarrow> u32 \<Rightarrow> Level" where
  "price_view base levels px = (case tick_slot base px of None \<Rightarrow> [] | Some s \<Rightarrow> queue_of (levels ! s))"

definition prices_ok :: "u32 \<Rightarrow> PriceLevel list \<Rightarrow> bool" where
  "prices_ok base levels \<longleftrightarrow> (\<forall>s < LADDER_SLOTS. \<not> is_empty (levels ! s) \<longrightarrow>
     unat (pl_price (levels ! s)) = unat base + 100 * s)"

lemma tick_slot_iff: "tick_slot base px = Some s \<longleftrightarrow> s < LADDER_SLOTS \<and> unat px = unat base + 100 * s"
proof
  assume "tick_slot base px = Some s"
  then show "s < LADDER_SLOTS \<and> unat px = unat base + 100 * s"
    by (auto simp: tick_slot_def Let_def word_le_nat_alt split: if_splits)
qed (simp add: tick_slot_def word_le_nat_alt)

lemma slot_of_window:
  assumes "fp_base_set p" and "tick_slot (fp_base_price p) px = Some s"
  shows "slot_of px p = (p, Some s)"
proof -
  have px: "unat px = unat (fp_base_price p) + 100 * s" "s < 2048"
    using assms(2) by (simp_all add: tick_slot_iff LADDER_SLOTS_def)
  then have le: "fp_base_price p \<le> px" by (simp add: word_le_nat_alt)
  have off: "unat ((px - fp_base_price p) div 100) = s"
    using px le by (simp add: unat_div unat_sub)
  have "(px - fp_base_price p) div 100 < 2048" using px(2) off by (simp add: word_less_nat_alt)
  then show ?thesis using assms(1) le off
    by (simp add: slot_of_def Let_def TICK_def LADDER_SLOTS_def not_less)
qed

lemma slot_of_range: "slot_of px p = (p', Some s) \<Longrightarrow> s < LADDER_SLOTS"
  by (auto simp: slot_of_def Let_def LADDER_SLOTS_def word_less_nat_alt split: if_splits)

lemma view_at:
  "prices_ok base levels \<Longrightarrow> s < LADDER_SLOTS \<Longrightarrow> \<not> is_empty (levels ! s) \<Longrightarrow>
     price_view base levels (pl_price (levels ! s)) = queue_of (levels ! s)"
proof -
  assume "prices_ok base levels" "s < LADDER_SLOTS" "\<not> is_empty (levels ! s)"
  then have "tick_slot base (pl_price (levels ! s)) = Some s" by (simp add: prices_ok_def tick_slot_iff)
  then show ?thesis by (simp add: price_view_def)
qed

lemma view_nonempty:
  assumes "side_ok (levels, bits)" and "price_view base levels px \<noteq> []"
  obtains s where "s < LADDER_SLOTS" "unat px = unat base + 100 * s" "\<not> is_empty (levels ! s)"
proof -
  obtain s where s: "tick_slot base px = Some s" "queue_of (levels ! s) \<noteq> []"
    using assms(2) by (auto simp: price_view_def split: option.splits)
  then have r: "s < LADDER_SLOTS" "unat px = unat base + 100 * s" by (simp_all add: tick_slot_iff)
  have "level_ok (levels ! s)" using assms(1) r(1) by (simp add: side_ok_def)
  then show ?thesis using that [OF r] s(2) queue_of_empty by blast
qed

lemma view_update:
  assumes "length levels = LADDER_SLOTS" and "s < LADDER_SLOTS" and "unat px = unat base + 100 * s"
  shows "price_view base (levels[s := l]) = (price_view base levels)(px := queue_of l)"
proof (rule ext)
  fix px'
  show "price_view base (levels[s := l]) px' = ((price_view base levels)(px := queue_of l)) px'"
  proof (cases "px' = px")
    case True
    have "tick_slot base px = Some s" using assms by (simp add: tick_slot_iff)
    then show ?thesis using True assms by (simp add: price_view_def)
  next
    case False
    then have "unat px' \<noteq> unat px" by (simp add: word_unat_eq_iff)
    then have "tick_slot base px' \<noteq> Some s" using assms(3) by (auto simp: tick_slot_iff)
    then show ?thesis using False by (auto simp: price_view_def split: option.splits)
  qed
qed

lemma prices_ok_update:
  assumes "prices_ok base levels" and "length levels = LADDER_SLOTS" and "s < LADDER_SLOTS"
    and "unat (pl_price l) = unat base + 100 * s"
  shows "prices_ok base (levels[s := l])"
  using assms by (auto simp: prices_ok_def nth_list_update)

section \<open>Interface: finding the best level of a side\<close>

text \<open>
  A priority encoder over the bitmap, and the order of prices it serves: on a well-formed side
  it finds the level of the best price.
\<close>

locale ladder_scan =
  fixes best :: "u64 list \<Rightarrow> nat option"
    and before :: "nat \<Rightarrow> nat \<Rightarrow> bool"
    and le :: "u32 \<Rightarrow> u32 \<Rightarrow> bool"
  assumes best_Some: "length bits = BITMAP_WORDS \<Longrightarrow> best bits = Some s \<Longrightarrow>
      s < LADDER_SLOTS \<and> bit_at bits s \<and> (\<forall>t < LADDER_SLOTS. bit_at bits t \<longrightarrow> before s t)"
    and best_None: "length bits = BITMAP_WORDS \<Longrightarrow> best bits = None \<Longrightarrow> t < LADDER_SLOTS \<Longrightarrow> \<not> bit_at bits t"
    and before_le: "before s t \<Longrightarrow> unat a = b + 100 * s \<Longrightarrow> unat c = b + 100 * t \<Longrightarrow> le a c"
begin

lemma best_range: "side_ok (levels, bits) \<Longrightarrow> best bits = Some s \<Longrightarrow> s < LADDER_SLOTS"
  using best_Some by (auto simp: side_ok_def)

lemma best_is_nonempty:
  "side_ok (levels, bits) \<Longrightarrow> best bits = Some s \<Longrightarrow> \<not> is_empty (levels ! s)"
  using best_Some by (auto simp: side_ok_def is_empty_def)

lemma best_level:
  assumes ok: "side_ok (levels, bits)" and px: "prices_ok base levels" and best: "best bits = Some s"
  shows "price_view base levels (pl_price (levels ! s)) = queue_of (levels ! s)"
    and "queue_of (levels ! s) \<noteq> []"
    and "price_view base levels p' \<noteq> [] \<Longrightarrow> le (pl_price (levels ! s)) p'"
proof -
  note r = best_range [OF ok best] and ne = best_is_nonempty [OF ok best]
  have len: "length bits = BITMAP_WORDS" using ok by (simp add: side_ok_def)
  show "price_view base levels (pl_price (levels ! s)) = queue_of (levels ! s)"
    by (rule view_at [OF px r ne])
  show "queue_of (levels ! s) \<noteq> []" using ok r ne queue_of_empty by (auto simp: side_ok_def)
  show "le (pl_price (levels ! s)) p'" if view: "price_view base levels p' \<noteq> []"
  proof -
    obtain t where t: "t < LADDER_SLOTS" "unat p' = unat base + 100 * t" "\<not> is_empty (levels ! t)"
      using view_nonempty [OF ok view] by blast
    then have "before s t" using best_Some [OF len best] ok by (auto simp: side_ok_def is_empty_def)
    then show ?thesis using px r ne t(2) by (intro before_le [of s t _ "unat base"]) (auto simp: prices_ok_def)
  qed
qed

lemma no_level:
  assumes ok: "side_ok (levels, bits)" and "best bits = None"
  shows "price_view base levels px = []"
proof (rule ccontr)
  assume "price_view base levels px \<noteq> []"
  then obtain t where "t < LADDER_SLOTS" "\<not> is_empty (levels ! t)" using view_nonempty [OF ok] by blast
  then show False using best_None [of bits t] assms by (auto simp: side_ok_def is_empty_def)
qed

end

interpretation asks: ladder_scan bottom_slot "(\<le>)" "(\<le>)"
proof
  fix bits s
  assume l: "length bits = BITMAP_WORDS" and "bottom_slot bits = Some s"
  then show "s < LADDER_SLOTS \<and> bit_at bits s \<and> (\<forall>t < LADDER_SLOTS. bit_at bits t \<longrightarrow> s \<le> t)"
    using bottom_slot_from_law [where w = 0 and xs = bits] by (auto simp: bottom_slot_def sizes)
next
  fix bits t
  assume "length bits = BITMAP_WORDS" and "bottom_slot bits = None" and "t < LADDER_SLOTS"
  then show "\<not> bit_at bits t" using bottom_slot_from_law [where w = 0 and xs = bits] by (auto simp: bottom_slot_def sizes)
qed (simp add: word_le_nat_alt)

interpretation bids: ladder_scan top_slot "(\<ge>)" "(\<ge>)"
proof
  fix bits s
  assume l: "length bits = BITMAP_WORDS" and "top_slot bits = Some s"
  then show "s < LADDER_SLOTS \<and> bit_at bits s \<and> (\<forall>t < LADDER_SLOTS. bit_at bits t \<longrightarrow> t \<le> s)"
    using top_slot_from_law [of BITMAP_WORDS bits] by (auto simp: top_slot_def sizes)
next
  fix bits t
  assume "length bits = BITMAP_WORDS" and "top_slot bits = None" and "t < LADDER_SLOTS"
  then show "\<not> bit_at bits t" using top_slot_from_law [of BITMAP_WORDS bits] by (auto simp: top_slot_def sizes)
qed (simp add: word_le_nat_alt)

section \<open>The pipeline and the engine\<close>

definition pipe_ok :: "FpgaPipeline \<Rightarrow> bool" where
  "pipe_ok p \<longleftrightarrow> side_ok (fp_buy_levels p, fp_buy_bits p) \<and> side_ok (fp_sell_levels p, fp_sell_bits p)"

definition all_empty :: "PriceLevel list \<Rightarrow> bool" where
  "all_empty levels \<longleftrightarrow> (\<forall>s < LADDER_SLOTS. is_empty (levels ! s))"

text \<open>Same queue at every price, on both sides.\<close>

definition pipe_sim :: "FpgaPipeline \<Rightarrow> SoftwareEngine \<Rightarrow> bool" where
  "pipe_sim p e \<longleftrightarrow> pipe_ok p \<and> engine_ok e \<and>
     prices_ok (fp_base_price p) (fp_buy_levels p) \<and> prices_ok (fp_base_price p) (fp_sell_levels p) \<and>
     (\<not> fp_base_set p \<longrightarrow> all_empty (fp_buy_levels p) \<and> all_empty (fp_sell_levels p)) \<and>
     level_at (se_bids e) = price_view (fp_base_price p) (fp_buy_levels p) \<and>
     level_at (se_asks e) = price_view (fp_base_price p) (fp_sell_levels p)"

text \<open>
  The orders the ladder can represent: valid, on the tick grid of the window, and either crossing
  or finding room on the level they would rest at.
\<close>

definition fits_ladder :: "Order \<Rightarrow> FpgaPipeline \<Rightarrow> bool" where
  "fits_ladder x p \<longleftrightarrow> o_valid x \<noteq> 0 \<and>
     (let p1 = fst (slot_of (o_price x) p);
          own = (if o_side x = Buy then fp_buy_levels p1 else fp_sell_levels p1)
      in case tick_slot (fp_base_price p1) (o_price x) of None \<Rightarrow> False
         | Some s \<Rightarrow> mr_matched (fst (process x p)) \<or> \<not> is_full (own ! s))"

fun fits_run :: "Order list \<Rightarrow> FpgaPipeline \<Rightarrow> bool" where
  "fits_run [] p = True"
| "fits_run (x # xs) p = (fits_ladder x p \<and> fits_run xs (snd (process x p)))"

lemma empty_view:
  assumes "side_ok (levels, bits)" and "all_empty levels"
  shows "price_view base levels = (\<lambda>px. [])"
proof (rule ext, rule ccontr)
  fix px assume "price_view base levels px \<noteq> []"
  then show False using view_nonempty [OF assms(1)] assms(2) by (auto simp: all_empty_def)
qed

lemma slot_of_sim:
  assumes "pipe_sim p e"
  shows "pipe_sim (fst (slot_of px p)) e" and "fp_base_set (fst (slot_of px p))"
proof -
  let ?p = "fst (slot_of px p)"
  show set: "fp_base_set ?p" by (simp add: slot_of_def Let_def)
  have same: "fp_buy_levels ?p = fp_buy_levels p" "fp_sell_levels ?p = fp_sell_levels p"
    "fp_buy_bits ?p = fp_buy_bits p" "fp_sell_bits ?p = fp_sell_bits p"
    by (simp_all add: slot_of_def Let_def)
  show "pipe_sim ?p e"
  proof (cases "fp_base_set p")
    case True
    then have "?p = p" by (simp add: slot_of_def Let_def)
    then show ?thesis using assms by simp
  next
    case False
    then have "all_empty (fp_buy_levels p)" "all_empty (fp_sell_levels p)"
      using assms by (simp_all add: pipe_sim_def)
    moreover from this have "prices_ok b (fp_buy_levels p)" "prices_ok b (fp_sell_levels p)" for b
      by (simp_all add: prices_ok_def all_empty_def)
    moreover have "price_view b (fp_buy_levels p) = (\<lambda>px. [])" "price_view b (fp_sell_levels p) = (\<lambda>px. [])"
      for b using assms calculation by (auto simp: pipe_sim_def pipe_ok_def intro: empty_view)
    ultimately show ?thesis
      using assms set by (simp add: pipe_sim_def pipe_ok_def same)
  qed
qed

lemma process_invalid_window:
  "slot_of (o_price x) p = (p1, None) \<Longrightarrow> o_valid x \<noteq> 0 \<Longrightarrow>
     process x p = (MatchResult_zero, p1\<lparr>fp_window_misses := fp_window_misses p1 + 1\<rparr>)"
  by (simp add: process_def stage1_decode_def stage2_route_def stage3_match_def stage4_execute_def
      PipelineRegister_zero_def Let_def)

lemma process_buy:
  assumes "o_valid x \<noteq> 0" and "slot_of (o_price x) p = (p1, Some s)" and "o_side x = Buy"
  shows "process x p =
    (case bottom_slot (fp_sell_bits p1) of
       Some t \<Rightarrow>
         let ask = fp_sell_levels p1 ! t; n = min (o_quantity x) (pl_quantities ask ! 0) in
         if \<not> is_empty ask \<and> pl_price ask \<le> o_price x
         then (\<lparr>mr_buy_order_ref = o_order_ref x, mr_sell_order_ref = pl_order_refs ask ! 0,
                mr_price = pl_price ask, mr_quantity = n, mr_matched = True\<rparr>,
               (let q = on_ladder False (take_from_level n t) p1 in q\<lparr>fp_matches_made := fp_matches_made q + 1\<rparr>))
         else (MatchResult_zero, on_ladder True (rest_at_level x s) p1)
     | None \<Rightarrow> (MatchResult_zero, on_ladder True (rest_at_level x s) p1))"
proof -
  have "unat (of_nat s :: u32) = s"
    using slot_of_range [OF assms(2)] by (simp add: LADDER_SLOTS_def unat_of_nat)
  then show ?thesis using assms
    by (auto simp: process_def stage1_decode_def stage2_route_def stage3_match_def stage4_execute_def
        PipelineRegister_zero_def ladder_best_ask_def MatchResult_zero_def Let_def split: option.splits)
qed

lemma process_sell:
  assumes "o_valid x \<noteq> 0" and "slot_of (o_price x) p = (p1, Some s)" and "o_side x \<noteq> Buy"
  shows "process x p =
    (case top_slot (fp_buy_bits p1) of
       Some t \<Rightarrow>
         let bid = fp_buy_levels p1 ! t; n = min (o_quantity x) (pl_quantities bid ! 0) in
         if \<not> is_empty bid \<and> o_price x \<le> pl_price bid
         then (\<lparr>mr_buy_order_ref = pl_order_refs bid ! 0, mr_sell_order_ref = o_order_ref x,
                mr_price = pl_price bid, mr_quantity = n, mr_matched = True\<rparr>,
               (let q = on_ladder True (take_from_level n t) p1 in q\<lparr>fp_matches_made := fp_matches_made q + 1\<rparr>))
         else (MatchResult_zero, on_ladder False (rest_at_level x s) p1)
     | None \<Rightarrow> (MatchResult_zero, on_ladder False (rest_at_level x s) p1))"
proof -
  have "unat (of_nat s :: u32) = s"
    using slot_of_range [OF assms(2)] by (simp add: LADDER_SLOTS_def unat_of_nat)
  then show ?thesis using assms
    by (auto simp: process_def stage1_decode_def stage2_route_def stage3_match_def stage4_execute_def
        PipelineRegister_zero_def ladder_best_bid_def MatchResult_zero_def Let_def split: option.splits)
qed

lemma takes_best_at:
  assumes "takes_best le want opp opp' p ref n"
    and "opp p0 = (ref0, q0) # q" and "\<And>p'. opp p' \<noteq> [] \<Longrightarrow> le p0 p'"
    and "\<And>a b. le a b \<Longrightarrow> le b a \<Longrightarrow> a = b"
  shows "p = p0" and "ref = ref0" and "n = min want q0"
    and "opp' = opp(p0 := if q0 - n = 0 then q else (ref0, q0 - n) # q)"
proof -
  from assms(1) obtain qty q' where t: "\<And>p'. opp p' \<noteq> [] \<Longrightarrow> le p p'" "opp p = (ref, qty) # q'"
    "n = min want qty" "opp' = opp(p := if qty \<le> want then q' else (ref, qty - want) # q')"
    unfolding takes_best_def by blast
  show p: "p = p0" using assms(4) [OF t(1) assms(3)] t(2) assms(2) by simp
  then show "ref = ref0" and n: "n = min want q0" using t(2,3) assms(2) by simp_all
  have "qty = q0" "q' = q" "ref = ref0" using p t(2) assms(2) by simp_all
  then show "opp' = opp(p0 := if q0 - n = 0 then q else (ref0, q0 - n) # q)"
    using t(4) p by (auto simp: n left_none left_some min_def)
qed

text \<open>One level changes: the view, the prices and the shape follow.\<close>

lemma fill_side:
  assumes "side_ok (levels, bits)" and "prices_ok base levels" and "t < LADDER_SLOTS"
    and "\<not> is_empty (levels ! t)" and "take_from_level n t (levels, bits) = (levels', bits')"
    and "queue_of (levels ! t) = (ref, q0) # q"
  shows "side_ok (levels', bits')" and "prices_ok base levels'"
    and "price_view base levels' =
      (price_view base levels)(pl_price (levels ! t) := if q0 - n = 0 then q else (ref, q0 - n) # q)"
proof -
  have ok: "level_ok (levels ! t)" "length levels = LADDER_SLOTS" using assms(1,3) by (auto simp: side_ok_def)
  have px: "unat (pl_price (levels ! t)) = unat base + 100 * t" using assms(2-4) by (simp add: prices_ok_def)
  note f = fill_level_queue [OF ok(1) assms(6), of n]
  have l': "levels' = levels[t := fill_level n (levels ! t)]" using assms(4,5) by (simp add: take_from_level_form)
  show "side_ok (levels', bits')" using take_from_level_ok [OF assms(1,3), of n] assms(5) by simp
  show "prices_ok base levels'" unfolding l' using px f(3) assms(2,3) ok(2) by (intro prices_ok_update) auto
  show "price_view base levels' =
      (price_view base levels)(pl_price (levels ! t) := if q0 - n = 0 then q else (ref, q0 - n) # q)"
    unfolding l' view_update [OF ok(2) assms(3) px] f(1) ..
qed

lemma rest_side:
  assumes "side_ok (levels, bits)" and "prices_ok base levels" and "tick_slot base (o_price x) = Some s"
    and "\<not> is_full (levels ! s)" and "rest_at_level x s (levels, bits) = (levels', bits')"
  shows "side_ok (levels', bits')" and "prices_ok base levels'"
    and "price_view base levels' = (price_view base levels)
      (o_price x := price_view base levels (o_price x) @ [(o_order_ref x, o_quantity x)])"
proof -
  have s: "s < LADDER_SLOTS" "unat (o_price x) = unat base + 100 * s" using assms(3) by (simp_all add: tick_slot_iff)
  have ok: "level_ok (levels ! s)" "length levels = LADDER_SLOTS" using assms(1) s(1) by (auto simp: side_ok_def)
  note r = rest_level_queue [OF ok(1) assms(4), of x]
  have l': "levels' = levels[s := rest_level x (levels ! s)]" using assms(4,5) by (simp add: rest_at_level_form)
  show "side_ok (levels', bits')" using rest_at_level_ok [OF assms(1) s(1), of x] assms(5) by simp
  show "prices_ok base levels'" unfolding l' using r(3) s assms(2) ok(2) by (intro prices_ok_update) auto
  have "price_view base levels (o_price x) = queue_of (levels ! s)"
    using assms(3) by (simp add: price_view_def)
  then show "price_view base levels' = (price_view base levels)
      (o_price x := price_view base levels (o_price x) @ [(o_order_ref x, o_quantity x)])"
    unfolding l' view_update [OF ok(2) s] r(1) by simp
qed

lemma buy_match_sim:
  assumes sim: "pipe_sim p e" and set: "fp_base_set p" and side: "o_side x = Buy"
    and best: "bottom_slot (fp_sell_bits p) = Some t" and l: "l = fp_sell_levels p ! t"
    and cross: "pl_price l \<le> o_price x" and n: "n = min (o_quantity x) (pl_quantities l ! 0)"
  shows "\<exists>e'. submit x e = Some (\<lparr>mr_buy_order_ref = o_order_ref x, mr_sell_order_ref = pl_order_refs l ! 0,
      mr_price = pl_price l, mr_quantity = n, mr_matched = True\<rparr>, e') \<and>
    pipe_sim (let q = on_ladder False (take_from_level n t) p in q\<lparr>fp_matches_made := k q\<rparr>) e'"
proof -
  have ok: "side_ok (fp_sell_levels p, fp_sell_bits p)" and px: "prices_ok (fp_base_price p) (fp_sell_levels p)"
    and view: "level_at (se_asks e) = price_view (fp_base_price p) (fp_sell_levels p)"
    and eok: "engine_ok e"
    using sim by (simp_all add: pipe_sim_def pipe_ok_def)
  note range = asks.best_range [OF ok best] and ne = asks.best_is_nonempty [OF ok best]
  note bl = asks.best_level [OF ok px best]
  have lok: "level_ok l" using ok range by (simp add: side_ok_def l)
  note qh = queue_of_head [OF lok ne [folded l]]
  obtain r e' where sub: "submit x e = Some (r, e')" "engine_ok e'" "buy_spec x e r e'"
    using submit_law [OF eok, of x] side by auto
  have "\<exists>p. level_at (se_asks e) p \<noteq> [] \<and> p \<le> o_price x"
    using bl(1,2) cross view by (intro exI [of _ "pl_price l"]) (simp add: l)
  then have r: "mr_matched r" "mr_buy_order_ref r = o_order_ref x" "se_bids e' = se_bids e"
    and tb: "takes_best (\<le>) (o_quantity x) (level_at (se_asks e)) (level_at (se_asks e'))
      (mr_price r) (mr_sell_order_ref r) (mr_quantity r)"
    using sub(3) unfolding buy_spec_def by (simp_all split: if_splits)
  have at: "level_at (se_asks e) (pl_price l) = (pl_order_refs l ! 0, pl_quantities l ! 0) # tl (queue_of l)"
    using bl(1) view qh by (simp add: l)
  note t = takes_best_at [OF tb at]
  have t': "mr_price r = pl_price l" "mr_sell_order_ref r = pl_order_refs l ! 0" "mr_quantity r = n"
    "level_at (se_asks e') = (level_at (se_asks e))(pl_price l := if pl_quantities l ! 0 - n = 0 then
        tl (queue_of l) else (pl_order_refs l ! 0, pl_quantities l ! 0 - n) # tl (queue_of l))"
    using t bl(3) view n by (simp_all add: l)
  obtain levels' bits' where tk: "take_from_level n t (fp_sell_levels p, fp_sell_bits p) = (levels', bits')"
    by (cases "take_from_level n t (fp_sell_levels p, fp_sell_bits p)")
  note fs = fill_side [OF ok px range ne tk qh [unfolded l]]
  have "r = \<lparr>mr_buy_order_ref = o_order_ref x, mr_sell_order_ref = pl_order_refs l ! 0,
      mr_price = pl_price l, mr_quantity = n, mr_matched = True\<rparr>"
    using r(1,2) t'(1-3) by (intro MatchResult.equality) simp_all
  moreover have "pipe_sim (let q = on_ladder False (take_from_level n t) p in q\<lparr>fp_matches_made := k q\<rparr>) e'"
    using sim sub(2) r(3) t'(4) fs set view
    by (simp add: pipe_sim_def pipe_ok_def on_ladder_def tk l Let_def)
  ultimately show ?thesis using sub(1) by blast
qed

lemma buy_rest_sim:
  assumes sim: "pipe_sim p e" and set: "fp_base_set p" and side: "o_side x = Buy"
    and no: "\<And>p'. price_view (fp_base_price p) (fp_sell_levels p) p' \<noteq> [] \<Longrightarrow> \<not> p' \<le> o_price x"
    and slot: "tick_slot (fp_base_price p) (o_price x) = Some s" and room: "\<not> is_full (fp_buy_levels p ! s)"
  shows "\<exists>e'. submit x e = Some (MatchResult_zero, e') \<and> pipe_sim (on_ladder True (rest_at_level x s) p) e'"
proof -
  have ok: "side_ok (fp_buy_levels p, fp_buy_bits p)" and px: "prices_ok (fp_base_price p) (fp_buy_levels p)"
    and eok: "engine_ok e"
    using sim by (simp_all add: pipe_sim_def pipe_ok_def)
  obtain r e' where sub: "submit x e = Some (r, e')" "engine_ok e'" "buy_spec x e r e'"
    using submit_law [OF eok, of x] side by auto
  have "\<not> (\<exists>p. level_at (se_asks e) p \<noteq> [] \<and> p \<le> o_price x)"
    using no sim by (auto simp: pipe_sim_def)
  then have r: "r = MatchResult_zero" "se_asks e' = se_asks e"
    "level_at (se_bids e') = (level_at (se_bids e))
       (o_price x := level_at (se_bids e) (o_price x) @ [(o_order_ref x, o_quantity x)])"
    using sub(3) unfolding buy_spec_def by (simp_all only: if_False)
  obtain levels' bits' where tk: "rest_at_level x s (fp_buy_levels p, fp_buy_bits p) = (levels', bits')"
    by (cases "rest_at_level x s (fp_buy_levels p, fp_buy_bits p)")
  note rs = rest_side [OF ok px slot room tk]
  have "pipe_sim (on_ladder True (rest_at_level x s) p) e'"
    using sim sub(2) r(2,3) rs set
    by (simp add: pipe_sim_def pipe_ok_def on_ladder_def tk)
  then show ?thesis using sub(1) r(1) by blast
qed

lemma sell_match_sim:
  assumes sim: "pipe_sim p e" and set: "fp_base_set p" and side: "o_side x \<noteq> Buy"
    and best: "top_slot (fp_buy_bits p) = Some t" and l: "l = fp_buy_levels p ! t"
    and cross: "o_price x \<le> pl_price l" and n: "n = min (o_quantity x) (pl_quantities l ! 0)"
  shows "\<exists>e'. submit x e = Some (\<lparr>mr_buy_order_ref = pl_order_refs l ! 0, mr_sell_order_ref = o_order_ref x,
      mr_price = pl_price l, mr_quantity = n, mr_matched = True\<rparr>, e') \<and>
    pipe_sim (let q = on_ladder True (take_from_level n t) p in q\<lparr>fp_matches_made := k q\<rparr>) e'"
proof -
  have ok: "side_ok (fp_buy_levels p, fp_buy_bits p)" and px: "prices_ok (fp_base_price p) (fp_buy_levels p)"
    and view: "level_at (se_bids e) = price_view (fp_base_price p) (fp_buy_levels p)"
    and eok: "engine_ok e"
    using sim by (simp_all add: pipe_sim_def pipe_ok_def)
  note range = bids.best_range [OF ok best] and ne = bids.best_is_nonempty [OF ok best]
  note bl = bids.best_level [OF ok px best]
  have lok: "level_ok l" using ok range by (simp add: side_ok_def l)
  note qh = queue_of_head [OF lok ne [folded l]]
  obtain r e' where sub: "submit x e = Some (r, e')" "engine_ok e'" "sell_spec x e r e'"
    using submit_law [OF eok, of x] side by auto
  have "\<exists>p. level_at (se_bids e) p \<noteq> [] \<and> p \<ge> o_price x"
    using bl(1,2) cross view by (intro exI [of _ "pl_price l"]) (simp add: l)
  then have r: "mr_matched r" "mr_sell_order_ref r = o_order_ref x" "se_asks e' = se_asks e"
    and tb: "takes_best (\<ge>) (o_quantity x) (level_at (se_bids e)) (level_at (se_bids e'))
      (mr_price r) (mr_buy_order_ref r) (mr_quantity r)"
    using sub(3) unfolding sell_spec_def by (simp_all split: if_splits)
  have at: "level_at (se_bids e) (pl_price l) = (pl_order_refs l ! 0, pl_quantities l ! 0) # tl (queue_of l)"
    using bl(1) view qh by (simp add: l)
  note t = takes_best_at [OF tb at]
  have t': "mr_price r = pl_price l" "mr_buy_order_ref r = pl_order_refs l ! 0" "mr_quantity r = n"
    "level_at (se_bids e') = (level_at (se_bids e))(pl_price l := if pl_quantities l ! 0 - n = 0 then
        tl (queue_of l) else (pl_order_refs l ! 0, pl_quantities l ! 0 - n) # tl (queue_of l))"
    using t bl(3) view n by (simp_all add: l)
  obtain levels' bits' where tk: "take_from_level n t (fp_buy_levels p, fp_buy_bits p) = (levels', bits')"
    by (cases "take_from_level n t (fp_buy_levels p, fp_buy_bits p)")
  note fs = fill_side [OF ok px range ne tk qh [unfolded l]]
  have "r = \<lparr>mr_buy_order_ref = pl_order_refs l ! 0, mr_sell_order_ref = o_order_ref x,
      mr_price = pl_price l, mr_quantity = n, mr_matched = True\<rparr>"
    using r(1,2) t'(1-3) by (intro MatchResult.equality) simp_all
  moreover have "pipe_sim (let q = on_ladder True (take_from_level n t) p in q\<lparr>fp_matches_made := k q\<rparr>) e'"
    using sim sub(2) r(3) t'(4) fs set view
    by (simp add: pipe_sim_def pipe_ok_def on_ladder_def tk l Let_def)
  ultimately show ?thesis using sub(1) by blast
qed

lemma sell_rest_sim:
  assumes sim: "pipe_sim p e" and set: "fp_base_set p" and side: "o_side x \<noteq> Buy"
    and no: "\<And>p'. price_view (fp_base_price p) (fp_buy_levels p) p' \<noteq> [] \<Longrightarrow> \<not> p' \<ge> o_price x"
    and slot: "tick_slot (fp_base_price p) (o_price x) = Some s" and room: "\<not> is_full (fp_sell_levels p ! s)"
  shows "\<exists>e'. submit x e = Some (MatchResult_zero, e') \<and> pipe_sim (on_ladder False (rest_at_level x s) p) e'"
proof -
  have ok: "side_ok (fp_sell_levels p, fp_sell_bits p)" and px: "prices_ok (fp_base_price p) (fp_sell_levels p)"
    and eok: "engine_ok e"
    using sim by (simp_all add: pipe_sim_def pipe_ok_def)
  obtain r e' where sub: "submit x e = Some (r, e')" "engine_ok e'" "sell_spec x e r e'"
    using submit_law [OF eok, of x] side by auto
  have "\<not> (\<exists>p. level_at (se_bids e) p \<noteq> [] \<and> p \<ge> o_price x)"
    using no sim by (auto simp: pipe_sim_def)
  then have r: "r = MatchResult_zero" "se_bids e' = se_bids e"
    "level_at (se_asks e') = (level_at (se_asks e))
       (o_price x := level_at (se_asks e) (o_price x) @ [(o_order_ref x, o_quantity x)])"
    using sub(3) unfolding sell_spec_def by (simp_all only: if_False)
  obtain levels' bits' where tk: "rest_at_level x s (fp_sell_levels p, fp_sell_bits p) = (levels', bits')"
    by (cases "rest_at_level x s (fp_sell_levels p, fp_sell_bits p)")
  note rs = rest_side [OF ok px slot room tk]
  have "pipe_sim (on_ladder False (rest_at_level x s) p) e'"
    using sim sub(2) r(2,3) rs set
    by (simp add: pipe_sim_def pipe_ok_def on_ladder_def tk)
  then show ?thesis using sub(1) r(1) by blast
qed

lemma process_buy_sim:
  assumes sim: "pipe_sim p1 e" and set: "fp_base_set p1" and valid: "o_valid x \<noteq> 0"
    and slot: "slot_of (o_price x) p = (p1, Some s)" and s: "tick_slot (fp_base_price p1) (o_price x) = Some s"
    and side: "o_side x = Buy" and room: "mr_matched (fst (process x p)) \<or> \<not> is_full (fp_buy_levels p1 ! s)"
  shows "\<exists>e'. submit x e = Some (fst (process x p), e') \<and> pipe_sim (snd (process x p)) e'"
proof -
  have ok: "side_ok (fp_sell_levels p1, fp_sell_bits p1)" "prices_ok (fp_base_price p1) (fp_sell_levels p1)"
    using sim by (simp_all add: pipe_sim_def pipe_ok_def)
  note form = process_buy [OF valid slot side] and rest = buy_rest_sim [OF sim set side _ s]
  show ?thesis
  proof (cases "bottom_slot (fp_sell_bits p1)")
    case None
    then show ?thesis using rest asks.no_level [OF ok(1) None] room form by (simp add: MatchResult_zero_def)
  next
    case (Some t)
    note ne = asks.best_is_nonempty [OF ok(1) Some] and bl = asks.best_level(3) [OF ok Some]
    show ?thesis
    proof (cases "pl_price (fp_sell_levels p1 ! t) \<le> o_price x")
      case True
      then show ?thesis using buy_match_sim [OF sim set side Some refl _ refl] ne form Some
        by (simp add: Let_def)
    next
      case False
      moreover have "\<not> p' \<le> o_price x"
        if "price_view (fp_base_price p1) (fp_sell_levels p1) p' \<noteq> []" for p'
        using bl [OF that] False by auto
      ultimately show ?thesis using rest room form Some by (simp add: MatchResult_zero_def Let_def)
    qed
  qed
qed

lemma process_sell_sim:
  assumes sim: "pipe_sim p1 e" and set: "fp_base_set p1" and valid: "o_valid x \<noteq> 0"
    and slot: "slot_of (o_price x) p = (p1, Some s)" and s: "tick_slot (fp_base_price p1) (o_price x) = Some s"
    and side: "o_side x \<noteq> Buy" and room: "mr_matched (fst (process x p)) \<or> \<not> is_full (fp_sell_levels p1 ! s)"
  shows "\<exists>e'. submit x e = Some (fst (process x p), e') \<and> pipe_sim (snd (process x p)) e'"
proof -
  have ok: "side_ok (fp_buy_levels p1, fp_buy_bits p1)" "prices_ok (fp_base_price p1) (fp_buy_levels p1)"
    using sim by (simp_all add: pipe_sim_def pipe_ok_def)
  note form = process_sell [OF valid slot side] and rest = sell_rest_sim [OF sim set side _ s]
  show ?thesis
  proof (cases "top_slot (fp_buy_bits p1)")
    case None
    then show ?thesis using rest bids.no_level [OF ok(1) None] room form by (simp add: MatchResult_zero_def)
  next
    case (Some t)
    note ne = bids.best_is_nonempty [OF ok(1) Some] and bl = bids.best_level(3) [OF ok Some]
    show ?thesis
    proof (cases "o_price x \<le> pl_price (fp_buy_levels p1 ! t)")
      case True
      then show ?thesis using sell_match_sim [OF sim set side Some refl _ refl] ne form Some
        by (simp add: Let_def)
    next
      case False
      moreover have "\<not> p' \<ge> o_price x"
        if "price_view (fp_base_price p1) (fp_buy_levels p1) p' \<noteq> []" for p'
        using bl [OF that] False by auto
      ultimately show ?thesis using rest room form Some by (simp add: MatchResult_zero_def Let_def)
    qed
  qed
qed

lemma process_sim:
  assumes sim: "pipe_sim p e" and fits: "fits_ladder x p"
  shows "\<exists>e'. submit x e = Some (fst (process x p), e') \<and> pipe_sim (snd (process x p)) e'"
proof -
  define p1 where "p1 = fst (slot_of (o_price x) p)"
  have sim1: "pipe_sim p1 e" and set1: "fp_base_set p1" using slot_of_sim [OF sim] by (simp_all add: p1_def)
  obtain s where valid: "o_valid x \<noteq> 0" and s: "tick_slot (fp_base_price p1) (o_price x) = Some s"
    and room: "mr_matched (fst (process x p)) \<or>
      \<not> is_full ((if o_side x = Buy then fp_buy_levels p1 else fp_sell_levels p1) ! s)"
    using fits unfolding fits_ladder_def p1_def [symmetric] Let_def by (auto split: option.splits)
  have "snd (slot_of (o_price x) p) = snd (slot_of (o_price x) p1)"
    by (simp add: p1_def slot_of_def Let_def)
  then have slot: "slot_of (o_price x) p = (p1, Some s)"
    using slot_of_window [OF set1 s] by (simp add: p1_def prod_eq_iff)
  show ?thesis
    using process_buy_sim [OF sim1 set1 valid slot s] process_sell_sim [OF sim1 set1 valid slot s] room
    by (cases "o_side x = Buy") auto
qed

lemma process_run_sim:
  assumes "pipe_sim p e" and "fits_run xs p"
  shows "\<exists>e'. submit_run xs e = Some (fst (process_run xs p), e') \<and> pipe_sim (snd (process_run xs p)) e'"
  using assms
proof (induction xs arbitrary: p e)
  case (Cons x xs)
  obtain e1 where e1: "submit x e = Some (fst (process x p), e1)" "pipe_sim (snd (process x p)) e1"
    using process_sim Cons.prems by (metis fits_run.simps(2))
  then obtain e2 where "submit_run xs e1 = Some (fst (process_run xs (snd (process x p))), e2)"
    "pipe_sim (snd (process_run xs (snd (process x p)))) e2"
    using Cons.IH [OF e1(2)] Cons.prems(2) by auto
  then show ?case using e1 by (simp add: split_def)
qed simp

section \<open>The clock keeps the ladder well formed\<close>

text \<open>
  The invariant of the pipeline: both sides well formed, and every valid register past the routing
  stage addresses a slot of the ladder.
\<close>

definition pipe_inv :: "FpgaPipeline \<Rightarrow> bool" where
  "pipe_inv p \<longleftrightarrow> pipe_ok p \<and> length (fp_stages p) = 5 \<and>
     (\<forall>i \<in> {2, 3}. pr_valid (fp_stages p ! i) \<longrightarrow> unat (pr_level_index (fp_stages p ! i)) < LADDER_SLOTS)"

lemma on_ladder_ok:
  assumes "pipe_ok p"
    and "b \<Longrightarrow> side_ok (f (fp_buy_levels p, fp_buy_bits p))"
    and "\<not> b \<Longrightarrow> side_ok (f (fp_sell_levels p, fp_sell_bits p))"
  shows "pipe_ok (on_ladder b f p)"
  using assms by (cases b) (simp_all add: pipe_ok_def on_ladder_def split_def)

lemma pipe_ok_frame [tp_frame, simp]:
  "pipe_ok (set_ctl c p) = pipe_ok p" "pipe_ok (set_rt t p) = pipe_ok p"
  "pipe_ok (p\<lparr>fp_matches_made := k\<rparr>) = pipe_ok p"
  by (simp_all add: pipe_ok_def set_ctl_def set_rt_def split_def)

lemma execute_ok:
  assumes "pipe_ok p" and "pr_valid r \<longrightarrow> unat (pr_level_index r) < LADDER_SLOTS"
  shows "pipe_ok (snd (stage4_execute r p))"
proof -
  have ok: "side_ok (fp_sell_levels p, fp_sell_bits p)" "side_ok (fp_buy_levels p, fp_buy_bits p)"
    using assms(1) by (simp_all add: pipe_ok_def)
  show ?thesis
    using assms take_from_level_ok [OF ok(1) asks.best_range [OF ok(1)]]
      take_from_level_ok [OF ok(2) bids.best_range [OF ok(2)]]
      rest_at_level_ok [OF ok(1)] rest_at_level_ok [OF ok(2)]
    by (auto simp: stage4_execute_def Let_def intro!: on_ladder_ok split: option.splits)
qed

lemma route_ok:
  assumes "pipe_ok p"
  shows "pipe_ok (snd (stage2_route r p))"
    and "pr_valid (fst (stage2_route r p)) \<Longrightarrow> unat (pr_level_index (fst (stage2_route r p))) < LADDER_SLOTS"
proof -
  show "pipe_ok (snd (stage2_route r p))"
    using assms route_frame(3) [of p p r] by (metis pipe_ok_frame(2))
  have "unat (of_nat s :: u32) < LADDER_SLOTS" if "slot_of px p = (p', Some s)" for px p' s
    using slot_of_range [OF that] by (simp add: LADDER_SLOTS_def unat_of_nat)
  then show "pr_valid (fst (stage2_route r p)) \<Longrightarrow> unat (pr_level_index (fst (stage2_route r p))) < LADDER_SLOTS"
    by (auto simp: stage2_route_def Let_def split: prod.splits option.splits if_splits)
qed

lemma match_keeps:
  "pr_valid (stage3_match r p) = pr_valid r" "pr_level_index (stage3_match r p) = pr_level_index r"
  by (auto simp: stage3_match_def Let_def split: option.splits)

lemma clock_inv:
  assumes "pipe_inv p" shows "pipe_inv (snd (clock x p))"
proof -
  obtain s0 s1 s2 s3 s4 where s: "fp_stages p = [s0, s1, s2, s3, s4]"
    using assms five_stages unfolding pipe_inv_def by blast
  obtain r4 p1 where e3: "stage4_execute s3 p = (r4, p1)" by (cases "stage4_execute s3 p")
  have ok1: "pipe_ok p1" using execute_ok [of p s3] assms s e3 by (simp add: pipe_inv_def)
  have st: "fp_stages (set_ctl (a, n, m) q) = a" for a n m q by (simp add: set_ctl_def)
  show ?thesis
    using route_ok [OF ok1, of s1] assms s
    by (auto simp: clock_form [OF s e3] pipe_inv_def st match_keeps)
qed

interpretation clock_runs: kept_invariant pipe_inv "\<lambda>x p. snd (clock x p)"
  by unfold_locales (rule clock_inv)

text \<open>Memory whose levels have their arrays, whatever the arrays hold.\<close>

definition levels_in_memory :: "(nat \<Rightarrow> PriceLevel) \<Rightarrow> bool" where
  "levels_in_memory mem \<longleftrightarrow> (\<forall>s < LADDER_SLOTS. length (pl_order_refs (mem s)) = MAX_ORDERS \<and>
     length (pl_quantities (mem s)) = MAX_ORDERS)"

lemma new_side_ok:
  "levels_in_memory mem \<Longrightarrow> side_ok (map (level_clear \<circ> mem) [0..<LADDER_SLOTS], replicate BITMAP_WORDS 0)"
  by (auto simp: side_ok_def levels_in_memory_def level_ok_def level_clear_def bit_at_def sizes)

lemma new_pipe:
  assumes "levels_in_memory bmem" and "levels_in_memory smem"
  shows "pipe_inv (FpgaPipeline_new bmem smem)" and "pipe_sim (core (FpgaPipeline_new bmem smem)) SoftwareEngine_new"
proof -
  note ok = new_side_ok [OF assms(1)] new_side_ok [OF assms(2)]
  have e: "all_empty (map (level_clear \<circ> mem) [0..<LADDER_SLOTS])" for mem
    by (simp add: all_empty_def is_empty_def level_clear_def)
  show "pipe_inv (FpgaPipeline_new bmem smem)"
    using ok by (simp add: pipe_inv_def pipe_ok_def FpgaPipeline_new_def NUM_STAGES_def
        PipelineRegister_zero_def)
  have "prices_ok b (map (level_clear \<circ> mem) [0..<LADDER_SLOTS])" for b mem
    using e [of mem] by (simp add: prices_ok_def all_empty_def)
  then show "pipe_sim (core (FpgaPipeline_new bmem smem)) SoftwareEngine_new"
    using ok e empty_view [OF ok(1) e] empty_view [OF ok(2) e]
    by (simp add: pipe_sim_def pipe_ok_def FpgaPipeline_new_def core_def set_ctl_def SoftwareEngine_new_def
        engine_ok_def fun_eq_iff)
qed

lemma new_stages: "length (fp_stages (FpgaPipeline_new bmem smem)) = 5"
  by (simp add: FpgaPipeline_new_def NUM_STAGES_def)

lemma drain_new:
  "drain (FpgaPipeline_new bmem smem) = (replicate 4 MatchResult_zero, core (FpgaPipeline_new bmem smem))"
  by (simp add: drain_def FpgaPipeline_new_def NUM_STAGES_def PipelineRegister_zero_def invalid_stages
      numeral_eq_Suc)

lemma flush_run: "flush p = (last (fst (clock_run (replicate 5 bubble) p)), snd (clock_run (replicate 5 bubble) p))"
  by (simp add: flush_def NUM_STAGES_def numeral_eq_Suc split_def)

lemma flush_law:
  assumes "length (fp_stages p) = 5"
  shows "fst (flush p) = MatchResult_zero" and "core (snd (flush p)) = snd (drain p)"
proof -
  obtain d q where d: "drain p = (d, q)" by (cases "drain p")
  have five: "replicate 5 bubble = [bubble] @ replicate 4 bubble" by (simp add: numeral_eq_Suc)
  have "fst (clock_run (replicate 5 bubble) p) = d @ [MatchResult_zero]"
    "core (snd (clock_run (replicate 5 bubble) p)) = q"
    using clock_run_finishes [OF assms d, of "[bubble]"] unfolding five by (simp_all add: split_def)
  then show "fst (flush p) = MatchResult_zero" and "core (snd (flush p)) = snd (drain p)"
    by (simp_all add: flush_run d)
qed

lemma top_slot_none: "top_slot (replicate BITMAP_WORDS 0) = None"
proof (cases "top_slot (replicate BITMAP_WORDS 0)")
  case (Some s)
  then have "bit_at (replicate BITMAP_WORDS 0) s" "s < LADDER_SLOTS" using bids.best_Some [OF _ Some] by simp_all
  then show ?thesis by (simp add: bit_at_def sizes)
qed

lemma bottom_slot_one:
  assumes "s < LADDER_SLOTS"
  shows "bottom_slot (set_bit_slot (replicate BITMAP_WORDS 0) s) = Some s"
proof -
  let ?b = "set_bit_slot (replicate BITMAP_WORDS 0) s"
  have one: "bit_at ?b t \<longleftrightarrow> t = s" if "t < LADDER_SLOTS" for t
    using that bit_at_set(1) [of "replicate BITMAP_WORDS 0" s t] assms by (auto simp: bit_at_def sizes)
  show ?thesis
  proof (cases "bottom_slot ?b")
    case None
    then show ?thesis using asks.best_None [OF _ None, of s] one assms by simp
  next
    case (Some t)
    then have "t < LADDER_SLOTS" "bit_at ?b t" using asks.best_Some [OF _ Some] by simp_all
    then show ?thesis using Some one by simp
  qed
qed

section \<open>Properties\<close>

text \<open>A sample session: a sell opens the window, so the next prices are near slot 1024.\<close>

definition zero_level :: PriceLevel where
  "zero_level = \<lparr>pl_order_refs = replicate MAX_ORDERS 0, pl_quantities = replicate MAX_ORDERS 0, pl_price = 0,
     pl_count = 0, pl_side = Side_None\<rparr>"

lemma zero_levels: "levels_in_memory (\<lambda>i. zero_level)"
  by (simp add: levels_in_memory_def zero_level_def)

definition opened :: "(nat \<Rightarrow> PriceLevel) \<Rightarrow> (nat \<Rightarrow> PriceLevel) \<Rightarrow> FpgaPipeline" where
  "opened bmem smem = (core (FpgaPipeline_new bmem smem))\<lparr>fp_base_price := 897600, fp_base_set := True\<rparr>"

lemma opened_slots:
  "slot_of 1000000 (core (FpgaPipeline_new bmem smem)) = (opened bmem smem, Some 1024)"
  "fp_base_set p \<Longrightarrow> fp_base_price p = 897600 \<Longrightarrow> slot_of 1000050 p = (p, Some 1024)"
  "fp_base_set p \<Longrightarrow> fp_base_price p = 897600 \<Longrightarrow> slot_of 1000010 p = (p, Some 1024)"
  "fp_base_set p \<Longrightarrow> fp_base_price p = 897600 \<Longrightarrow> slot_of 1000000 p = (p, Some 1024)"
  by (simp_all add: opened_def slot_of_def core_def set_ctl_def FpgaPipeline_new_def Let_def TICK_def LADDER_SLOTS_def)

lemma limit_order_sel [simp]:
  "o_valid (limit_order side ref px qty) = 1" "o_price (limit_order side ref px qty) = px"
  "o_side (limit_order side ref px qty) = side" "o_quantity (limit_order side ref px qty) = qty"
  "o_order_ref (limit_order side ref px qty) = ref"
  by (simp_all add: limit_order_def)

lemma opened_sell:
  "process (limit_order Sell ref 1000000 qty) (core (FpgaPipeline_new bmem smem)) =
     (MatchResult_zero, on_ladder False (rest_at_level (limit_order Sell ref 1000000 qty) 1024) (opened bmem smem))"
proof -
  have "fp_buy_bits (opened bmem smem) = replicate BITMAP_WORDS 0"
    by (simp add: opened_def core_def set_ctl_def FpgaPipeline_new_def)
  then show ?thesis
    using process_sell [of "limit_order Sell ref 1000000 qty" "core (FpgaPipeline_new bmem smem)"
        "opened bmem smem" 1024]
    by (simp add: opened_slots(1) top_slot_none)
qed

text \<open>
  C24. The registers in flight never interfere: whatever orders are clocked in, the pipeline
  returns, four cycles late, exactly the results of processing the orders one at a time (decode,
  route, match, execute), and leaves the same ladder, bitmaps, window and counters.
\<close>

theorem pipeline_is_sequential:
  "case process_run xs (core (FpgaPipeline_new bmem smem)) of (rs, q) \<Rightarrow>
   case clock_run (xs @ replicate 4 bubble) (FpgaPipeline_new bmem smem) of (outs, p) \<Rightarrow>
     outs = replicate 4 MatchResult_zero @ rs \<and> core p = q"
  by (rule clock_run_finishes [OF new_stages drain_new])

text \<open>
  C3. The pipeline is the matching engine: on a session of orders the ladder can represent (prices
  on the tick grid of the window, room on the level an order rests at), the clocked pipeline returns
  exactly the results of \<^verbatim>\<open>SoftwareEngine::submit\<close>, four cycles late, and ends with the same queue at
  every price on both sides.
\<close>

theorem pipeline_matches_engine:
  assumes "levels_in_memory bmem" and "levels_in_memory smem"
    and "fits_run xs (core (FpgaPipeline_new bmem smem))"
  shows "\<exists>rs e p. submit_run xs SoftwareEngine_new = Some (rs, e) \<and>
     clock_run (xs @ replicate 4 bubble) (FpgaPipeline_new bmem smem) = (replicate 4 MatchResult_zero @ rs, p) \<and>
     level_at (se_bids e) = price_view (fp_base_price p) (fp_buy_levels p) \<and>
     level_at (se_asks e) = price_view (fp_base_price p) (fp_sell_levels p)"
proof -
  let ?p = "FpgaPipeline_new bmem smem"
  obtain rs q where pr: "process_run xs (core ?p) = (rs, q)" by (cases "process_run xs (core ?p)")
  obtain outs p where cr: "clock_run (xs @ replicate 4 bubble) ?p = (outs, p)"
    by (cases "clock_run (xs @ replicate 4 bubble) ?p")
  obtain e where e: "submit_run xs SoftwareEngine_new = Some (rs, e)" "pipe_sim q e"
    using process_run_sim [OF new_pipe(2) [OF assms(1,2)] assms(3)] pr by auto
  have fin: "outs = replicate 4 MatchResult_zero @ rs" "core p = q"
    using clock_run_finishes [OF new_stages [of bmem smem] drain_new, of xs] by (simp_all add: pr cr)
  have "fp_base_price q = fp_base_price p" "fp_buy_levels q = fp_buy_levels p" "fp_sell_levels q = fp_sell_levels p"
    by (simp_all add: core_def set_ctl_def flip: fin(2))
  then show ?thesis using e cr fin(1) by (simp add: pipe_sim_def)
qed

theorem pipeline_matches_engine_witness:
  "let xs = [limit_order Sell 1 1000000 50, limit_order Buy 2 1000000 20];
       p = FpgaPipeline_new (\<lambda>i. zero_level) (\<lambda>i. zero_level)
   in fits_run xs (core p) \<and>
      map mr_quantity (fst (clock_run (xs @ replicate 4 bubble) p)) = [0, 0, 0, 0, 0, 20]"
proof -
  let ?xs = "[limit_order Sell 1 1000000 50, limit_order Buy 2 1000000 20]"
  let ?p = "FpgaPipeline_new (\<lambda>i. zero_level) (\<lambda>i. zero_level)"
  have slot: "tick_slot 897600 1000000 = Some 1024" by (simp add: tick_slot_iff LADDER_SLOTS_def)
  have lv: "fp_base_set (opened m n)" "fp_base_price (opened m n) = 897600"
    "\<not> is_full (fp_buy_levels (opened m n) ! 1024)" "\<not> is_full (fp_sell_levels (opened m n) ! 1024)" for m n
    by (simp_all add: opened_def core_def set_ctl_def FpgaPipeline_new_def is_full_def level_clear_def
        MAX_ORDERS_def LADDER_SLOTS_def)
  have fits: "fits_run ?xs (core ?p)"
    using slot lv opened_slots(4)
    by (simp add: fits_ladder_def opened_slots(1) opened_sell on_ladder_def split_def)
  have "map_option (map mr_quantity \<circ> fst) (submit_run ?xs SoftwareEngine_new) = Some [0, 20]" by code_simp
  moreover have "mr_quantity MatchResult_zero = 0" by (simp add: MatchResult_zero_def)
  ultimately show ?thesis
    using pipeline_matches_engine [OF zero_levels zero_levels fits] fits unfolding Let_def
    by (auto simp: numeral_eq_Suc)
qed

text \<open>
  C35. The occupancy bitmaps are exact in every state the clock can reach: a slot's bit is set
  exactly when its level holds an order, so the priority encoders see every level, and no level
  ever holds more than its sixteen orders.
\<close>

theorem bitmaps_are_exact:
  assumes "levels_in_memory bmem" and "levels_in_memory smem"
    and "p = fold (\<lambda>x p. snd (clock x p)) xs (FpgaPipeline_new bmem smem)" and "s < LADDER_SLOTS"
  shows "(bit_at (fp_buy_bits p) s \<longleftrightarrow> pl_count (fp_buy_levels p ! s) \<noteq> 0) \<and>
         (bit_at (fp_sell_bits p) s \<longleftrightarrow> pl_count (fp_sell_levels p ! s) \<noteq> 0) \<and>
         pl_count (fp_buy_levels p ! s) \<le> MAX_ORDERS \<and> pl_count (fp_sell_levels p ! s) \<le> MAX_ORDERS"
  using clock_runs.run_inv [OF new_pipe(1) [OF assms(1,2)], of xs] assms(3,4)
  by (simp add: pipe_inv_def pipe_ok_def side_ok_def level_ok_def)

theorem bitmaps_are_exact_witness:
  "levels_in_memory (\<lambda>i. zero_level) \<and>
   (let p = fold (\<lambda>x p. snd (clock x p)) [limit_order Sell 1 1000000 50, bubble]
              (FpgaPipeline_new (\<lambda>i. zero_level) (\<lambda>i. zero_level))
    in bit_at (fp_sell_bits p) 1024 \<longleftrightarrow> pl_count (fp_sell_levels p ! 1024) \<noteq> 0)"
  using bitmaps_are_exact [OF zero_levels zero_levels refl, of 1024 "[limit_order Sell 1 1000000 50, bubble]"]
    zero_levels by (simp add: Let_def LADDER_SLOTS_def)

text \<open>
  \<^verbatim>\<open>flush\<close> finishes every order in flight, whatever was clocked in before it, but hands back the
  result of its own first bubble: the caller always sees an unmatched result, and the results of
  the orders it drained are gone.
\<close>

lemma flush_drops_results:
  "fst (flush (snd (clock_run xs (FpgaPipeline_new bmem smem)))) = MatchResult_zero \<and>
   core (snd (flush (snd (clock_run xs (FpgaPipeline_new bmem smem))))) =
     snd (process_run xs (core (FpgaPipeline_new bmem smem)))"
proof -
  let ?p = "FpgaPipeline_new bmem smem"
  note run = clock_run_drain [OF new_stages [of bmem smem] drain_new prod.collapse [symmetric]
      prod.collapse [symmetric], of xs]
  then show ?thesis using flush_law [of "snd (clock_run xs ?p)"] by auto
qed

text \<open>
  Prices off the tick grid share a slot and its one price field. After a sell at 100.0000 a
  sell at 100.0050 moves the whole level to 100.0050, and a buy at 100.0010, which the engine
  fills at 100.0000, goes unmatched.
\<close>

lemma subtick_order_reprices_level:
  "fst (process_run [limit_order Sell 1 1000000 50, limit_order Sell 2 1000050 20, limit_order Buy 3 1000010 50]
          (core (FpgaPipeline_new bmem smem))) = [MatchResult_zero, MatchResult_zero, MatchResult_zero] \<and>
   map_option (map mr_price \<circ> fst)
     (submit_run [limit_order Sell 1 1000000 50, limit_order Sell 2 1000050 20, limit_order Buy 3 1000010 50]
        SoftwareEngine_new) = Some [0, 0, 1000000]"
proof (rule conjI)
  let ?x = "limit_order Sell 1 1000000 50" and ?y = "limit_order Sell 2 1000050 20" and ?z = "limit_order Buy 3 1000010 50"
  define p1 where "p1 = on_ladder False (rest_at_level ?x 1024) (opened bmem smem)"
  define p2 where "p2 = on_ladder False (rest_at_level ?y 1024) p1"
  let ?l = "rest_level ?x (level_clear (smem 1024))"
  have open_: "fp_sell_levels (opened bmem smem) ! 1024 = level_clear (smem 1024)"
    "length (fp_sell_levels (opened bmem smem)) = 2048"
    "fp_sell_bits (opened bmem smem) = replicate BITMAP_WORDS 0" "fp_base_set (opened bmem smem)"
    "fp_buy_bits (opened bmem smem) = replicate BITMAP_WORDS 0" "fp_base_price (opened bmem smem) = 897600"
    by (simp_all add: opened_def core_def set_ctl_def FpgaPipeline_new_def LADDER_SLOTS_def)
  have f1: "\<not> is_full (level_clear (smem 1024))" "\<not> is_full ?l"
    by (simp_all add: is_full_def level_clear_def rest_level_def MAX_ORDERS_def)
  have p1: "fp_base_set p1" "fp_base_price p1 = 897600" "fp_buy_bits p1 = replicate BITMAP_WORDS 0"
    "fp_sell_levels p1 ! 1024 = ?l" "length (fp_sell_levels p1) = 2048"
    "fp_sell_bits p1 = set_bit_slot (replicate BITMAP_WORDS 0) 1024"
    using open_ f1 by (simp_all add: p1_def on_ladder_def rest_at_level_form)
  have again: "set_bit_slot (set_bit_slot b 1024) 1024 = set_bit_slot b 1024" if "length b = BITMAP_WORDS" for b
    using that by (simp add: set_bit_slot_def sizes or.assoc)
  have p2: "fp_base_set p2" "fp_base_price p2 = 897600" "pl_price (fp_sell_levels p2 ! 1024) = 1000050"
    "fp_sell_bits p2 = set_bit_slot (replicate BITMAP_WORDS 0) 1024"
    using p1 f1(2) again by (simp_all add: p2_def on_ladder_def rest_at_level_form) (simp add: rest_level_def)
  have "process ?y p1 = (MatchResult_zero, p2)"
    using process_sell [of ?y p1 p1 1024] opened_slots(2) [OF p1(1,2)] p1(3)
    by (simp add: p2_def top_slot_none)
  moreover have "fst (process ?z p2) = MatchResult_zero"
    using process_buy [of ?z p2 p2 1024] opened_slots(3) [OF p2(1,2)] p2(3,4) bottom_slot_one [of 1024]
    by (simp add: Let_def LADDER_SLOTS_def)
  ultimately show "fst (process_run [?x, ?y, ?z] (core (FpgaPipeline_new bmem smem))) =
      [MatchResult_zero, MatchResult_zero, MatchResult_zero]"
    by (simp add: opened_sell p1_def [symmetric] split_def)
qed code_simp

end
