(* ===== verification/Bench_Workload.thy ===== *)
theory Bench_Workload
  imports Fpga_Pipeline
begin

text \<open>
  The workloads of the benchmark (\<^verbatim>\<open>src/bench/benchmark.cpp\<close>; the latency demo of
  \<^verbatim>\<open>src/src/main.cpp\<close> draws its orders the same way): the pseudo-random generator, the pool of
  ITCH messages and the orders for the two engines. Timing is not modelled. Proved: the
  parser benchmark measures accepted messages only, and no order of the engine benchmark falls
  outside the price window of the pipeline.
\<close>

section \<open>The pool of messages\<close>

definition lcg :: "u32 \<Rightarrow> u32" where
  "lcg s = s * 1664525 + 1013904223"

fun put64_loop :: "nat \<Rightarrow> u64 \<Rightarrow> bytes \<Rightarrow> bytes" where
  "put64_loop 0 v p = p"
| "put64_loop (Suc k) v p = put64_loop k (drop_bit 8 v) (ucast (v AND 0xFF) # p)"

definition put64 :: "u64 \<Rightarrow> bytes" where
  "put64 v = put64_loop 8 v []"

definition put32 :: "u32 \<Rightarrow> bytes" where
  "put32 v = [ucast (drop_bit 24 v), ucast (drop_bit 16 v), ucast (drop_bit 8 v), ucast v]"

text \<open>Stores into the message buffer; all of them lie within its 44 bytes.\<close>

definition poke :: "nat \<Rightarrow> bytes \<Rightarrow> bytes \<Rightarrow> bytes" where
  "poke k bs m = take k m @ bs @ drop (k + length bs) m"

text \<open>The six time bytes, each a draw of its own.\<close>

fun draw_bytes :: "nat \<Rightarrow> u32 \<Rightarrow> bytes \<times> u32" where
  "draw_bytes 0 s = ([], s)"
| "draw_bytes (Suc k) s = (case draw_bytes k (lcg s) of (bs, s') \<Rightarrow> (ucast (lcg s) # bs, s'))"

definition POOL :: nat where "POOL = 4096"

definition pool_message :: "nat \<Rightarrow> u32 \<Rightarrow> (bytes \<times> u16) \<times> u32" where
  "pool_message i seed =
     (let seed = lcg seed; r = seed mod 100;
          m = replicate 44 0; ref = 1000 + of_nat i;
          m = poke 1 [0] m; m = poke 2 [1] m;
          (time, seed) = draw_bytes 6 seed;
          m = poke 5 time m
      in if r < 45 then
           let m = poke 0 [byte_of CHR ''A''] m; m = poke 11 (put64 ref) m;
               m = poke 19 [if r AND 1 \<noteq> 0 then byte_of CHR ''B'' else byte_of CHR ''S''] m;
               seed = lcg seed; m = poke 20 (put32 (100 + seed mod 900)) m;
               m = poke 24 (map byte_of ''AAPL    '') m;
               seed = lcg seed; m = poke 32 (put32 (2000000 + seed mod 200000)) m
           in ((m, 36), seed)
         else if r < 65 then
           let m = poke 0 [byte_of CHR ''D''] m; m = poke 11 (put64 ref) m in ((m, 19), seed)
         else if r < 80 then
           let m = poke 0 [byte_of CHR ''E''] m; m = poke 11 (put64 ref) m; m = poke 19 (put32 100) m;
               m = poke 23 (put64 (of_nat i)) m
           in ((m, 31), seed)
         else if r < 90 then
           let m = poke 0 [byte_of CHR ''U''] m; m = poke 11 (put64 ref) m; m = poke 19 (put64 (ref + of_nat POOL)) m;
               m = poke 27 (put32 200) m; m = poke 31 (put32 2050000) m
           in ((m, 35), seed)
         else
           let m = poke 0 [byte_of CHR ''X''] m; m = poke 11 (put64 ref) m; m = poke 19 (put32 50) m
           in ((m, 23), seed))"

fun pool_from :: "nat \<Rightarrow> nat \<Rightarrow> u32 \<Rightarrow> (bytes \<times> u16) list" where
  "pool_from i 0 seed = []"
| "pool_from i (Suc n) seed = (case pool_message i seed of (m, seed) \<Rightarrow> m # pool_from (Suc i) n seed)"

definition message_pool :: "(bytes \<times> u16) list" where
  "message_pool = pool_from 0 POOL 12345"

text \<open>One iteration of the measured loop.\<close>

definition parse_step :: "(bytes \<times> u16) list \<Rightarrow> nat \<Rightarrow> Counts \<times> Order \<Rightarrow> Counts \<times> Order" where
  "parse_step pool i s =
     (case (s, pool ! (i mod POOL)) of ((cs, out), (m, len)) \<Rightarrow> snd (parse (Some m) (ucast len) cs out))"

section \<open>The orders\<close>

definition make_order :: "u32 \<Rightarrow> u64 \<Rightarrow> u32 \<Rightarrow> Order \<times> u32" where
  "make_order base ident seed =
     (let seed = lcg seed
      in (Order_zero\<lparr>o_order_ref := ident, o_price := base + (seed mod 200) * 100, o_quantity := 100,
            o_side := (if ident AND 1 \<noteq> 0 then Buy else Sell), o_valid := 1\<rparr>, seed))"

fun bench_orders :: "u32 \<Rightarrow> nat \<Rightarrow> nat \<Rightarrow> u32 \<Rightarrow> Order list \<times> u32" where
  "bench_orders base i 0 seed = ([], seed)"
| "bench_orders base i (Suc n) seed =
     (case make_order base (of_nat i) seed of (x, seed) \<Rightarrow> case bench_orders base (Suc i) n seed of (xs, seed) \<Rightarrow> (x # xs, seed))"

text \<open>The warm-up and the measured batches; the counter starts over, the seed goes on.\<close>

definition bench_session :: "Order list" where
  "bench_session =
     (case bench_orders 2000000 0 10000 999 of (xs, seed) \<Rightarrow> xs @ fst (bench_orders 2000000 0 (1000 * 1000) seed))"

section \<open>Every message of the pool is accepted\<close>

lemma put32_be: "put32 v = be_bytes 4 v"
  by (simp add: put32_def be_bytes_unfold)

lemma put64_be: "put64 v = be_bytes 8 v"
proof -
  have "ucast (w AND 0xFF) = (ucast w :: u8)" for w :: u64
    by (rule bit_word_eqI) (auto simp: bit_simps less_Suc_eq numeral_eq_Suc)
  then show ?thesis by (simp add: put64_def be_bytes_unfold numeral_eq_Suc drop_bit_drop_bit)
qed

lemma draw_bytes_length: "draw_bytes k s = (bs, s') \<Longrightarrow> length bs = k"
  by (induction k arbitrary: s bs s') (auto split: prod.splits)

text \<open>The bytes a message of the pool consists of, up to its length.\<close>

fun pool_bytes :: "itch_msg \<Rightarrow> bytes \<Rightarrow> bytes" where
  "pool_bytes msg time = [msg_type msg, 0, 1, 0, 0] @ time @ msg_body msg"

lemma replicate_2: "replicate 2 x = [x, x]"
  by (simp add: numeral_2_eq_2)

lemmas pool_layout = pool_message_def Let_def poke_def put64_be put32_be side_byte_def expected_length_def replicate_2

lemma pool_message_layout:
  assumes "pool_message i seed = ((m, len), seed')"
  shows "\<exists>msg time. take (unat len) m = pool_bytes msg time \<and> length time = 6 \<and> msg_ok msg \<and> len = expected_length (msg_type msg) \<and>
     (\<forall>h. o_order_ref (order_of msg h) = 1000 + of_nat i)"
proof -
  obtain time s6 where t: "draw_bytes 6 (lcg seed) = (time, s6)" by (cases "draw_bytes 6 (lcg seed)")
  then have len: "length time = 6" by (rule draw_bytes_length)
  define r where "r = lcg seed mod 100"
  define m0 :: bytes where "m0 = poke 5 time (poke 2 [1] (poke 1 [0] (replicate 44 0)))"
  have m0: "m0 = [0, 0, 1, 0, 0] @ time @ replicate 33 0" by (simp add: m0_def poke_def len numeral_eq_Suc)
  note form = assms [unfolded pool_message_def t Let_def prod.case, folded r_def m0_def]
  consider "r < 45" | "\<not> r < 45" "r < 65" | "\<not> r < 45" "\<not> r < 65" "r < 80" | "\<not> r < 45" "\<not> r < 65" "\<not> r < 80" "r < 90"
    | "\<not> r < 45" "\<not> r < 65" "\<not> r < 80" "\<not> r < 90" by blast
  then show ?thesis
  proof cases
    case 1
    with form show ?thesis
      by (intro exI [of _ "AddOrder (1000 + of_nat i) (r AND 1 \<noteq> 0) (100 + lcg s6 mod 900) (map byte_of ''AAPL    '') (2000000 + lcg (lcg s6) mod 200000)"], intro exI [of _ time])
        (auto simp: m0 len pool_layout)
  next
    case 2
    with form show ?thesis
      by (intro exI [of _ "Deleted (1000 + of_nat i)"], intro exI [of _ time]) (auto simp: m0 len pool_layout)
  next
    case 3
    with form show ?thesis
      by (intro exI [of _ "Executed (1000 + of_nat i) 100 (of_nat i)"], intro exI [of _ time]) (auto simp: m0 len pool_layout)
  next
    case 4
    with form show ?thesis
      by (intro exI [of _ "Replaced (1000 + of_nat i) (1000 + of_nat i + of_nat POOL) 200 2050000"], intro exI [of _ time])
        (auto simp: m0 len pool_layout)
  next
    case 5
    with form show ?thesis
      by (intro exI [of _ "Cancelled (1000 + of_nat i) 50"], intro exI [of _ time]) (auto simp: m0 len pool_layout)
  qed
qed

lemma pool_bytes_wire: "length time = 6 \<Longrightarrow> pool_bytes msg time = wire 1 0 (be48 time) msg"
  by (simp add: wire_def be_bytes_be48 be_bytes_unfold)

lemma pool_message_parses:
  assumes "pool_message i seed = ((m, len), seed')"
  shows "\<exists>x. parse (Some m) (ucast len) cs out = (True, cs\<lparr>c_parsed := c_parsed cs + 1\<rparr>, x) \<and> o_order_ref x = 1000 + of_nat i"
proof -
  define h where "h ts = Order_zero\<lparr>o_stock_locate := 1, o_timestamp_ns := ts, o_valid := 1\<rparr>" for ts
  obtain msg time where f: "take (unat len) m = pool_bytes msg time" "length time = 6" "msg_ok msg" "len = expected_length (msg_type msg)"
    and ref: "\<forall>h. o_order_ref (order_of msg h) = 1000 + of_nat i"
    using pool_message_layout [OF assms] by blast
  have w: "take (unat len) m = wire 1 0 (be48 time) msg" using f(1,2) pool_bytes_wire by simp
  have range: "be48 time < 2 ^ 48" using f(2) by (intro be48_range) simp
  have l: "length (take (unat len) m) = unat len" using w length_wire [OF f(3)] f(4) by simp
  then have "parse (Some m) (ucast len) cs out = parse (Some (take (unat len) m)) (ucast len) cs out"
    using parse_prefix [of "take (unat len) m" "ucast len" "drop (unat len) m"] by (simp add: unat_ucast_up)
  also have "\<dots> = (True, cs\<lparr>c_parsed := c_parsed cs + 1\<rparr>, order_of msg (h (be48 time)))"
    using parse_wire [OF f(3) range, of 1 0 cs out] l unfolding w h_def by simp
  finally show ?thesis using ref by blast
qed

lemma pool_from_nth: "j < n \<Longrightarrow> \<exists>s s'. pool_message (i + j) s = (pool_from i n seed ! j, s')"
proof (induction n arbitrary: i j seed)
  case (Suc n)
  obtain m s where m: "pool_message i seed = (m, s)" by (cases "pool_message i seed")
  then show ?case using Suc.IH [of "j - 1" "Suc i" s] Suc.prems by (cases j) auto
qed simp

lemma parse_step_pool:
  "\<exists>x. parse_step (pool_from 0 POOL seed) i (cs, out) = (cs\<lparr>c_parsed := c_parsed cs + 1\<rparr>, x) \<and> o_order_ref x = 1000 + of_nat (i mod POOL)"
proof -
  obtain m len where e: "pool_from 0 POOL seed ! (i mod POOL) = (m, len)" by (cases "pool_from 0 POOL seed ! (i mod POOL)")
  have "i mod POOL < POOL" by (simp add: POOL_def)
  then obtain s s' where "pool_message (i mod POOL) s = ((m, len), s')" using pool_from_nth [of _ POOL 0 seed] e by fastforce
  from pool_message_parses [OF this, of cs out] show ?thesis by (auto simp: parse_step_def e)
qed

text \<open>
  Whatever the seed of the pool and whichever of its messages the loop visits, every call of
  the parser in the benchmark accepts its message: after \<open>n\<close> iterations the counters show \<open>n\<close>
  parsed messages and no other, and the order parsed last is the one whose message was visited last.
\<close>

lemma benchmark_parses_every_message:
  "case fold (parse_step (pool_from 0 POOL seed)) visited (reset_counts cs, out) of (cs', out') \<Rightarrow>
     cs' = Counts_zero\<lparr>c_parsed := of_nat (length visited)\<rparr> \<and>
     (visited = [] \<or> o_order_ref out' = 1000 + of_nat (last visited mod POOL))"
proof (induction visited rule: rev_induct)
  case Nil
  then show ?case by (simp add: reset_counts_def Counts_zero_def)
next
  case (snoc i visited)
  obtain cs' out' where f: "fold (parse_step (pool_from 0 POOL seed)) visited (reset_counts cs, out) = (cs', out')"
    by (cases "fold (parse_step (pool_from 0 POOL seed)) visited (reset_counts cs, out)")
  then have "cs' = Counts_zero\<lparr>c_parsed := of_nat (length visited)\<rparr>" using snoc by simp
  then show ?case using parse_step_pool [of seed i cs' out'] by (auto simp: f Counts_zero_def)
qed

section \<open>The window of the ladder\<close>

text \<open>The window is set by the first order, 1024 ticks below its price.\<close>

definition window_ok :: "nat \<Rightarrow> nat \<Rightarrow> FpgaPipeline \<Rightarrow> bool" where
  "window_ok lo hi p \<longleftrightarrow> fp_window_misses p = 0 \<and>
     (fp_base_set p \<longrightarrow> unat (fp_base_price p) \<le> lo \<and> hi < unat (fp_base_price p) + 204800)"

lemma slot_of_base_set:
  assumes "fp_base_set p" "unat (fp_base_price p) \<le> unat price" "unat price < unat (fp_base_price p) + 204800"
  shows "\<exists>s. slot_of price p = (p, Some s)"
proof -
  have "unat (price - fp_base_price p) = unat price - unat (fp_base_price p)"
    using assms(2) by (simp add: unat_sub word_le_nat_alt)
  then have "(price - fp_base_price p) div TICK < of_nat LADDER_SLOTS"
    using assms(3) by (simp add: word_less_nat_alt unat_div TICK_def LADDER_SLOTS_def less_mult_imp_div_less)
  then show ?thesis using assms(1,2) by (simp add: slot_of_def Let_def word_less_nat_alt not_less)
qed

definition with_window :: "u32 \<Rightarrow> FpgaPipeline \<Rightarrow> FpgaPipeline" where
  "with_window price p =
     (if fp_base_set p then p
      else p\<lparr>fp_base_price := (if 102400 < price then price - 102400 else 0), fp_base_set := True\<rparr>)"

lemma slot_of_with_window: "slot_of price p = slot_of price (with_window price p)"
  by (simp add: slot_of_def with_window_def Let_def LADDER_SLOTS_def TICK_def)

lemma window_ok_with_window:
  assumes "window_ok lo hi p" and "lo \<le> unat price" "unat price \<le> hi" "hi < lo + 102400"
  shows "window_ok lo hi (with_window price p)"
proof (cases "102400 < price")
  case True
  then have "unat (price - 102400) = unat price - 102400" "102400 < unat price"
    by (simp_all add: unat_sub word_less_nat_alt word_le_nat_alt)
  then show ?thesis using assms True by (auto simp: window_ok_def with_window_def)
next
  case False
  then have "unat price \<le> 102400" by (simp add: word_less_nat_alt not_less)
  then show ?thesis using assms False by (auto simp: window_ok_def with_window_def)
qed

lemma slot_in_window:
  assumes "window_ok lo hi p" and "lo \<le> unat price" "unat price \<le> hi" "hi < lo + 102400"
  shows "\<exists>p' s. slot_of price p = (p', Some s) \<and> window_ok lo hi p'"
proof -
  let ?q = "with_window price p"
  have "window_ok lo hi ?q" "fp_base_set ?q" using window_ok_with_window [OF assms] by (simp_all add: with_window_def)
  moreover from this have "\<exists>s. slot_of price ?q = (?q, Some s)" using assms(2,3) by (intro slot_of_base_set) (auto simp: window_ok_def)
  ultimately show ?thesis unfolding slot_of_with_window [of price p] by blast
qed

lemma window_ok_get_rt: "get_rt p = get_rt q \<Longrightarrow> window_ok lo hi p = window_ok lo hi q"
  by (simp add: get_rt_def window_ok_def)

definition priced_in :: "nat \<Rightarrow> nat \<Rightarrow> Order \<Rightarrow> bool" where
  "priced_in lo hi x \<longleftrightarrow> o_valid x = 0 \<or> lo \<le> unat (o_price x) \<and> unat (o_price x) \<le> hi"

lemma process_window:
  assumes "window_ok lo hi p" and "priced_in lo hi x" and "hi < lo + 102400"
  shows "window_ok lo hi (snd (process x p))"
proof -
  have "window_ok lo hi (snd (stage2_route (stage1_decode x) p))"
    using assms slot_in_window [OF assms(1) _ _ assms(3), of "o_price x"]
    by (auto simp: stage2_route_def stage1_decode_def priced_in_def Let_def)
  moreover have "get_rt (snd (process x p)) = get_rt (snd (stage2_route (stage1_decode x) p))"
    by (simp add: process_def split: prod.split) (metis execute_frame(3) snd_conv)
  ultimately show ?thesis using window_ok_get_rt by blast
qed

lemma process_run_window:
  "window_ok lo hi p \<Longrightarrow> list_all (priced_in lo hi) xs \<Longrightarrow> hi < lo + 102400 \<Longrightarrow> window_ok lo hi (snd (process_run xs p))"
proof (induction xs arbitrary: p)
  case (Cons x xs)
  then have "window_ok lo hi (snd (process_run xs (snd (process x p))))" using process_window by (intro Cons.IH) auto
  then show ?case by (simp add: split_def)
qed simp

lemma make_order_priced:
  assumes "unat base < 2 ^ 31" and "make_order base ident seed = (x, seed')"
  shows "o_valid x = 1 \<and> unat base \<le> unat (o_price x) \<and> unat (o_price x) \<le> unat base + 19900"
proof -
  have r: "unat (lcg seed mod 200) < 200" by (simp add: unat_mod)
  then have "unat (lcg seed mod 200 * 100) = unat (lcg seed mod 200) * 100" by (simp add: unat_word_ariths)
  then have "unat (base + lcg seed mod 200 * 100) = unat base + unat (lcg seed mod 200) * 100"
    using assms(1) r by (simp add: unat_word_ariths)
  then show ?thesis using assms(2) r by (auto simp: make_order_def Let_def)
qed

lemma bench_orders_priced:
  assumes "unat base < 2 ^ 31" and "x \<in> set (fst (bench_orders base i n seed))"
  shows "o_valid x = 1 \<and> unat base \<le> unat (o_price x) \<and> unat (o_price x) \<le> unat base + 19900"
  using assms(2)
proof (induction n arbitrary: i seed)
  case (Suc n)
  obtain y s where y: "make_order base (of_nat i) seed = (y, s)" by (cases "make_order base (of_nat i) seed")
  then show ?case using Suc make_order_priced [OF assms(1) y] by (auto simp: split_def)
qed simp

lemma bench_session_priced:
  assumes "x \<in> set bench_session"
  shows "2000000 \<le> unat (o_price x) \<and> unat (o_price x) < 2000000 + 102400"
proof -
  obtain i n seed where "x \<in> set (fst (bench_orders 2000000 i n seed))" using assms by (auto simp: bench_session_def split_def)
  from bench_orders_priced [OF _ this] show ?thesis by simp
qed

lemma bench_session_length: "length bench_session = 1010000"
proof -
  have "length (fst (bench_orders base i n seed)) = n" for base i n seed
    by (induction n arbitrary: i seed) (simp_all add: split_def)
  then show ?thesis by (simp add: bench_session_def split_def)
qed

text \<open>
  A session whose prices stay within 1024 ticks of one another never leaves the pipeline's price
  window: wherever its first order puts the window, no order is lost to a window miss. The orders of
  the engine benchmark are such a session.
\<close>

lemma narrow_sessions_stay_in_the_window:
  assumes "\<forall>x \<in> set xs. o_valid x = 0 \<or> lo \<le> unat (o_price x) \<and> unat (o_price x) < lo + 102400"
  shows "fp_window_misses (snd (clock_run (xs @ replicate 4 bubble) (FpgaPipeline_new bmem smem))) = 0"
proof -
  let ?p = "FpgaPipeline_new bmem smem"
  have "list_all (priced_in lo (lo + 102399)) xs" using assms by (auto simp: list_all_iff priced_in_def)
  moreover have "window_ok lo (lo + 102399) (core ?p)" by (simp add: window_ok_def core_def set_ctl_def FpgaPipeline_new_def)
  ultimately have "window_ok lo (lo + 102399) (snd (process_run xs (core ?p)))" by (intro process_run_window) simp_all
  moreover have "core (snd (clock_run (xs @ replicate 4 bubble) ?p)) = snd (process_run xs (core ?p))"
    using clock_run_finishes [OF new_stages [of bmem smem] drain_new, of xs] by (simp add: split_def)
  moreover have "window_ok lo hi (core p) \<Longrightarrow> fp_window_misses p = 0" for hi p
    by (simp add: window_ok_def core_def set_ctl_def)
  ultimately show ?thesis by metis
qed

end
