(* ===== verification/Printf_Format.thy ===== *)
theory Printf_Format
  imports Tick_Prelude
begin

text \<open>
  What the display code uses of \<^verbatim>\<open>printf\<close> and of \<^verbatim>\<open>double\<close>: decimal numerals and padded
  fields, division of integers in IEEE double precision (round to nearest, ties to even) and the
  conversions \<^verbatim>\<open>%.0f\<close> and \<^verbatim>\<open>%.2f\<close>, correctly rounded. The readers of the texts
  are the specification: a numeral reads back as its number, and a quotient printed with two
  decimals reads back as its nearest hundredth, although it is rounded twice on the way.
\<close>

section \<open>Decimal numerals and padded fields\<close>

definition digit_char :: "nat \<Rightarrow> char" where
  "digit_char d = char_of (48 + d)"

definition digit_value :: "char \<Rightarrow> nat" where
  "digit_value c = of_char c - 48"

fun dec_text :: "nat \<Rightarrow> string" where
  "dec_text n = (if n < 10 then [digit_char n] else dec_text (n div 10) @ [digit_char (n mod 10)])"

declare dec_text.simps [simp del]

definition dec_int :: "int \<Rightarrow> string" where
  "dec_int i = (if i < 0 then ''-'' @ dec_text (nat (- i)) else dec_text (nat i))"

definition pad_left :: "nat \<Rightarrow> string \<Rightarrow> string" where
  "pad_left w s = replicate (w - length s) CHR '' '' @ s"

definition pad_right :: "nat \<Rightarrow> string \<Rightarrow> string" where
  "pad_right w s = s @ replicate (w - length s) CHR '' ''"

definition zero_pad :: "nat \<Rightarrow> string \<Rightarrow> string" where
  "zero_pad w s = replicate (w - length s) CHR ''0'' @ s"

definition newline :: string where "newline = [CHR 0x0A]"

definition number_in :: "string \<Rightarrow> nat" where
  "number_in s = foldl (\<lambda>v c. 10 * v + digit_value c) 0 s"

section \<open>Double precision\<close>

text \<open>
  A non-negative double is a pair \<open>(m, s)\<close> with the value \<open>m / 2 ^ s\<close>. \<open>round_div n d\<close> is
  the integer nearest to \<open>n / d\<close>, the even one of two. \<open>dbl_scale n d\<close> is the least power of
  two that scales the quotient to 53 bits, \<open>dbl_excess q\<close> the number of bits of \<open>q\<close>
  beyond 53. Quotients so small or so large that the exponent of a double cannot express them do
  not occur here.
\<close>

type_synonym dyadic = "nat \<times> nat"

definition round_div :: "nat \<Rightarrow> nat \<Rightarrow> nat" where
  "round_div n d =
     (let q = n div d; r = n mod d
      in if 2 * r < d \<or> (2 * r = d \<and> even q) then q else q + 1)"

function dbl_scale :: "nat \<Rightarrow> nat \<Rightarrow> nat" where
  "dbl_scale n d = (if n = 0 \<or> d * 2 ^ 52 \<le> n then 0 else Suc (dbl_scale (2 * n) d))"
  by pat_completeness auto
termination
  by (relation "measure (\<lambda>(n, d). d * 2 ^ 52 - n)") auto

declare dbl_scale.simps [simp del]

fun dbl_excess :: "nat \<Rightarrow> nat" where
  "dbl_excess q = (if q < 2 ^ 53 then 0 else Suc (dbl_excess (q div 2)))"

declare dbl_excess.simps [simp del]

definition dbl_div :: "nat \<Rightarrow> nat \<Rightarrow> dyadic" where
  "dbl_div n d =
     (if n < d * 2 ^ 53 then let s = dbl_scale n d in (round_div (n * 2 ^ s) d, s)
      else let k = dbl_excess (n div d) in (round_div n (d * 2 ^ k) * 2 ^ k, 0))"

text \<open>The quotient, product and sum of two doubles, and the conversion of an integer.\<close>

definition dbl_quot :: "dyadic \<Rightarrow> dyadic \<Rightarrow> dyadic" where
  "dbl_quot x y = (case (x, y) of ((m, s), (n, t)) \<Rightarrow> dbl_div (m * 2 ^ t) (n * 2 ^ s))"

definition dbl_mul :: "dyadic \<Rightarrow> dyadic \<Rightarrow> dyadic" where
  "dbl_mul x y = (case (x, y) of ((m, s), (n, t)) \<Rightarrow> dbl_div (m * n) (2 ^ (s + t)))"

definition dbl_add :: "dyadic \<Rightarrow> dyadic \<Rightarrow> dyadic" where
  "dbl_add x y = (case (x, y) of ((m, s), (n, t)) \<Rightarrow> dbl_div (m * 2 ^ t + n * 2 ^ s) (2 ^ (s + t)))"

definition dbl_of :: "nat \<Rightarrow> dyadic" where
  "dbl_of n = dbl_div n 1"

definition dbl_trunc :: "dyadic \<Rightarrow> nat" where
  "dbl_trunc x = (case x of (m, s) \<Rightarrow> m div 2 ^ s)"

text \<open>\<^verbatim>\<open>%.0f\<close>, \<^verbatim>\<open>%.1f\<close> and \<^verbatim>\<open>%.2f\<close>.\<close>

definition fixed0 :: "dyadic \<Rightarrow> string" where
  "fixed0 x = (case x of (m, s) \<Rightarrow> dec_text (round_div m (2 ^ s)))"

definition fixed1 :: "dyadic \<Rightarrow> string" where
  "fixed1 x = (case x of (m, s) \<Rightarrow> let c = round_div (m * 10) (2 ^ s) in dec_text (c div 10) @ ''.'' @ dec_text (c mod 10))"

definition hundredths :: "dyadic \<Rightarrow> nat" where
  "hundredths x = (case x of (m, s) \<Rightarrow> round_div (m * 100) (2 ^ s))"

definition fixed2 :: "dyadic \<Rightarrow> string" where
  "fixed2 x = (let c = hundredths x in dec_text (c div 100) @ ''.'' @ zero_pad 2 (dec_text (c mod 100)))"

text \<open>\<^verbatim>\<open>%.Nf\<close> in general, a signed integer over a power of ten printed so, and a line with a counter.\<close>

definition fixed_units :: "nat \<Rightarrow> dyadic \<Rightarrow> nat" where
  "fixed_units k x = (case x of (m, s) \<Rightarrow> round_div (m * 10 ^ k) (2 ^ s))"

definition fixed :: "nat \<Rightarrow> dyadic \<Rightarrow> string" where
  "fixed k x = (let c = fixed_units k x in dec_text (c div 10 ^ k) @ ''.'' @ zero_pad k (dec_text (c mod 10 ^ k)))"

definition sign_text :: "bool \<Rightarrow> int \<Rightarrow> string" where
  "sign_text show_plus i = (if i < 0 then ''-'' else if show_plus then ''+'' else '''')"

definition scaled_text :: "bool \<Rightarrow> nat \<Rightarrow> nat \<Rightarrow> int \<Rightarrow> string" where
  "scaled_text show_plus k e i = sign_text show_plus i @ fixed k (dbl_quot (dbl_of (nat \<bar>i\<bar>)) (10 ^ e, 0))"

definition stat_line :: "string \<Rightarrow> 'a::len word \<Rightarrow> string" where
  "stat_line label v = ''  '' @ label @ '' : '' @ dec_text (unat v) @ newline"

section \<open>Numerals read back\<close>

lemma digit_value_char: "d < 10 \<Longrightarrow> digit_value (digit_char d) = d"
  by (simp add: digit_value_def digit_char_def)

lemma digit_not_point: "d < 10 \<Longrightarrow> digit_char d \<noteq> CHR ''.''"
proof
  assume "d < 10" and "digit_char d = CHR ''.''"
  then have "of_char (digit_char d) = (46 :: nat)" by simp
  then show False using \<open>d < 10\<close> by (simp add: digit_char_def)
qed

lemma number_in_append: "number_in (s @ [c]) = 10 * number_in s + digit_value c"
  by (simp add: number_in_def)

lemma number_in_zeros: "foldl (\<lambda>v c. 10 * v + digit_value c) 0 (replicate k CHR ''0'' @ s) = number_in s"
  by (induction k) (simp_all add: number_in_def digit_value_def)

lemma number_in_zero_pad [simp]: "number_in (zero_pad w s) = number_in s"
  using number_in_zeros by (simp add: number_in_def zero_pad_def)

lemma number_in_dec_text [simp]: "number_in (dec_text n) = n"
proof (induction n rule: dec_text.induct)
  case (1 n)
  show ?case
  proof (cases "n < 10")
    case True
    then show ?thesis by (subst dec_text.simps) (simp add: number_in_def digit_value_char)
  next
    case False
    then show ?thesis using 1 by (subst dec_text.simps) (simp add: number_in_append digit_value_char)
  qed
qed

lemma number_in_split:
  "number_in (s @ t) = number_in s * 10 ^ length t + number_in t"
proof (induction t rule: rev_induct)
  case (snoc c t)
  have "number_in (s @ t @ [c]) = number_in ((s @ t) @ [c])" by simp
  also have "\<dots> = 10 * number_in (s @ t) + digit_value c" by (rule number_in_append)
  finally show ?case using snoc by (simp add: number_in_append algebra_simps)
qed (simp add: number_in_def)

lemma dec_text_length: "n < 10 ^ k \<Longrightarrow> 0 < k \<Longrightarrow> length (dec_text n) \<le> k"
proof (induction n arbitrary: k rule: dec_text.induct)
  case (1 n)
  show ?case
  proof (cases "n < 10")
    case True
    then show ?thesis using 1 by (subst dec_text.simps) simp
  next
    case False
    then obtain j where j: "k = Suc j" "0 < j" using 1(2,3) by (cases k; cases "k - 1") auto
    then have "n div 10 < 10 ^ j" using 1(2) by (simp add: less_mult_imp_div_less)
    then show ?thesis using 1(1) [OF False _ j(2)] False j by (subst dec_text.simps) simp
  qed
qed

lemma dec_text_ne [simp]: "dec_text n \<noteq> []"
  by (subst dec_text.simps) simp

lemma zero_pad_length: "length s \<le> w \<Longrightarrow> length (zero_pad w s) = w"
  by (simp add: zero_pad_def)

lemma zero_pad_dec: "n < 10 ^ w \<Longrightarrow> 0 < w \<Longrightarrow> length (zero_pad w (dec_text n)) = w"
  by (intro zero_pad_length dec_text_length)

lemma pad_length:
  "length (pad_left w s) = max w (length s)" "length (pad_right w s) = max w (length s)"
  by (simp_all add: pad_left_def pad_right_def)

lemma dec_text_digits: "c \<in> set (dec_text n) \<Longrightarrow> c \<noteq> CHR ''.''"
proof (induction n rule: dec_text.induct)
  case (1 n)
  then show ?case
    by (subst (asm) (2) dec_text.simps) (auto simp: digit_not_point digit_not_point [symmetric] split: if_splits)
qed

lemma zero_pad_digits: "c \<in> set (zero_pad w (dec_text n)) \<Longrightarrow> c \<noteq> CHR ''.''"
  by (auto simp: zero_pad_def dest: dec_text_digits)

text \<open>Reading a text with a decimal point, as a number of units of its last place.\<close>

definition units_in :: "string \<Rightarrow> nat" where
  "units_in s = number_in (filter (\<lambda>c. c \<noteq> CHR ''.'') s)"

lemma units_in_fixed2: "units_in (fixed2 x) = hundredths x"
proof -
  have "filter (\<lambda>c. c \<noteq> CHR ''.'') (fixed2 x) =
      dec_text (hundredths x div 100) @ zero_pad 2 (dec_text (hundredths x mod 100))"
    by (simp add: fixed2_def Let_def dec_text_digits zero_pad_digits)
  moreover have "length (zero_pad 2 (dec_text (hundredths x mod 100))) = 2" by (rule zero_pad_dec) simp_all
  ultimately show ?thesis by (simp add: units_in_def number_in_split)
qed

section \<open>Rounding\<close>

lemma round_div_close:
  assumes "0 < d"
  shows "2 * \<bar>int (d * round_div n d) - int n\<bar> \<le> int d"
proof -
  have n: "int n = int d * int (n div d) + int (n mod d)" by (simp flip: of_nat_mult of_nat_add)
  have "int (n mod d) < int d" using assms by simp
  then show ?thesis
    by (simp add: round_div_def Let_def n [symmetric] algebra_simps) (use n in \<open>simp add: abs_le_iff algebra_simps\<close>)
qed

lemma round_div_le: "0 < d \<Longrightarrow> n < d * b \<Longrightarrow> round_div n d \<le> b"
  using less_mult_imp_div_less [of n b d] by (simp add: round_div_def Let_def mult.commute)

lemma dbl_scale_large: "0 < n \<Longrightarrow> d * 2 ^ 52 \<le> n * 2 ^ dbl_scale n d"
proof (induction n d rule: dbl_scale.induct)
  case (1 n d)
  then show ?case by (subst dbl_scale.simps) (auto simp: mult.assoc mult.left_commute)
qed

text \<open>
  Rounding twice, to 53 bits and then to hundredths, still gives a nearest hundredth: the first
  rounding moves the quotient by less than its distance to the nearest midpoint between hundredths,
  unless it is such a midpoint.
\<close>

lemma hundredths_nearest:
  assumes "0 < d" and "p < 2 ^ 45"
  shows "2 * \<bar>int (hundredths (dbl_div p d)) * int d - 100 * int p\<bar> \<le> int d"
proof (cases "p = 0")
  case True
  then show ?thesis using assms by (simp add: hundredths_def dbl_div_def Let_def round_div_def dbl_scale.simps)
next
  case False
  define s where "s = dbl_scale p d"
  define m where "m = round_div (p * 2 ^ s) d"
  define c where "c = round_div (m * 100) (2 ^ s)"
  define S :: int where "S = 2 ^ s"
  have "p < d * 2 ^ 53" using assms by (auto intro: less_le_trans)
  then have c: "hundredths (dbl_div p d) = c" by (simp add: hundredths_def dbl_div_def c_def m_def s_def Let_def)
  have "d * 2 ^ 52 \<le> p * 2 ^ s" using dbl_scale_large False by (simp add: s_def)
  also have "\<dots> < 2 ^ 45 * 2 ^ s" using assms(2) by simp
  finally have "d * 2 ^ 7 * 2 ^ 45 < 2 ^ s * 2 ^ 45" by (simp add: mult.commute)
  then have "d * 2 ^ 7 < 2 ^ s" by simp
  then have "int (d * 2 ^ 7) < int (2 ^ s)" by (simp only: of_nat_less_iff)
  then have big: "128 * int d < S" by (simp add: S_def)
  have "2 * \<bar>int (d * m) - int (p * 2 ^ s)\<bar> \<le> int d" unfolding m_def by (rule round_div_close [OF assms(1)])
  then have m: "2 * \<bar>int d * int m - int p * S\<bar> \<le> int d" by (simp add: S_def)
  have "2 * \<bar>int (2 ^ s * c) - int (m * 100)\<bar> \<le> int (2 ^ s)" unfolding c_def by (rule round_div_close) simp
  then have r: "2 * \<bar>S * int c - int m * 100\<bar> \<le> S" by (simp add: S_def)
  define x where "x = int c * int d - 100 * int p"
  have "S * x = int d * (S * int c - int m * 100) + 100 * (int d * int m - int p * S)"
    by (simp add: x_def algebra_simps)
  then have "2 * \<bar>S * x\<bar> \<le> 2 * \<bar>int d * (S * int c - int m * 100)\<bar> + 2 * \<bar>100 * (int d * int m - int p * S)\<bar>"
    by linarith
  also have "\<dots> = int d * (2 * \<bar>S * int c - int m * 100\<bar>) + 100 * (2 * \<bar>int d * int m - int p * S\<bar>)"
    by (simp only: abs_mult abs_numeral abs_of_nat mult.left_commute)
  also have "\<dots> \<le> int d * S + 100 * int d"
    using mult_left_mono [OF r, of "int d"] m by simp
  also have "\<dots> < int d * S + S" using big assms(1) by simp
  finally have "S * (2 * \<bar>x\<bar>) < S * (int d + 1)" by (simp add: abs_mult S_def algebra_simps)
  then have "2 * \<bar>x\<bar> < int d + 1" by (simp add: S_def)
  then show ?thesis by (simp add: c x_def)
qed

text \<open>The printed length is bounded by the number of whole units.\<close>

lemma fixed2_length:
  assumes "0 < d" and "p < 2 ^ 45" and "p < d * 10 ^ k"
  shows "length (fixed2 (dbl_div p d)) \<le> k + 4"
proof -
  let ?c = "hundredths (dbl_div p d)"
  define y where "y = int ?c * int d"
  have "y \<le> 100 * int p + int d" using hundredths_nearest [OF assms(1,2)] of_nat_0_le_iff [of d]
    unfolding y_def [symmetric] by arith
  then have "int (?c * d) \<le> int (100 * p + d)" by (simp add: y_def)
  then have "?c * d \<le> 100 * p + d" by (simp only: of_nat_le_iff)
  also have "\<dots> < 100 * (d * 10 ^ k) + d" using assms(3) by simp
  finally have "?c * d < (100 * 10 ^ k + 1) * d" by (simp add: algebra_simps)
  then have "?c < 100 * 10 ^ k + 1" by (rule mult_right_less_imp_less) simp
  moreover have "(1 :: nat) \<le> 10 ^ k" by simp
  ultimately have "?c < 10 ^ Suc k * 100" unfolding power_Suc by linarith
  then have "?c div 100 < 10 ^ Suc k" by (rule less_mult_imp_div_less)
  then have "length (dec_text (?c div 100)) \<le> Suc k" by (rule dec_text_length) simp
  then show ?thesis by (simp add: fixed2_def Let_def zero_pad_dec)
qed

section \<open>Decimal fractions are exact\<close>

text \<open>
  An integer below \<open>2^52\<close>, divided by a power of ten in double precision and printed with that many
  decimals, reads back as itself: both roundings together move it by less than half a unit.
\<close>

lemma fixed_units_div:
  assumes "0 < w" and "v < 2 ^ 52"
  shows "fixed_units k (dbl_div (v * w) (10 ^ k * w)) = v"
proof (cases "v = 0")
  case True
  then show ?thesis using assms by (simp add: fixed_units_def dbl_div_def Let_def round_div_def dbl_scale.simps)
next
  case False
  define d where "d = 10 ^ k * w"
  define n where "n = v * w"
  define s where "s = dbl_scale n d"
  define m where "m = round_div (n * 2 ^ s) d"
  define c where "c = round_div (m * 10 ^ k) (2 ^ s)"
  define S :: int where "S = 2 ^ s"
  define T :: int where "T = 10 ^ k"
  have d: "0 < d" "0 < n" using assms False by (simp_all add: d_def n_def)
  have "v * w < 2 ^ 52 * w" using assms by simp
  also have "\<dots> \<le> d * 2 ^ 53" by (simp add: d_def)
  finally have "n < d * 2 ^ 53" by (simp add: n_def)
  then have c: "fixed_units k (dbl_div n d) = c" by (simp add: fixed_units_def dbl_div_def c_def m_def s_def Let_def)
  have "d * 2 ^ 52 \<le> n * 2 ^ s" unfolding s_def by (rule dbl_scale_large [OF d(2)])
  also have "\<dots> < 2 ^ 52 * w * 2 ^ s" using assms by (simp add: n_def)
  finally have "10 ^ k * (2 ^ 52 * w) < 2 ^ s * (2 ^ 52 * w)" by (simp add: d_def mult.commute mult.left_commute)
  then have "(10 ^ k :: nat) < 2 ^ s" by (simp only: mult_less_cancel2)
  then have "int (10 ^ k) < int (2 ^ s)" by (simp only: of_nat_less_iff)
  then have big: "T < S" by (simp add: S_def T_def)
  have "2 * \<bar>int (d * m) - int (n * 2 ^ s)\<bar> \<le> int d" unfolding m_def by (rule round_div_close [OF d(1)])
  then have m: "2 * \<bar>int d * int m - int n * S\<bar> \<le> int d" by (simp add: S_def)
  have "2 * \<bar>int (2 ^ s * c) - int (m * 10 ^ k)\<bar> \<le> int (2 ^ s)" unfolding c_def by (rule round_div_close) simp
  then have r: "2 * \<bar>S * int c - int m * T\<bar> \<le> S" by (simp add: S_def T_def)
  have nd: "int n * T = int d * int v" by (simp add: n_def d_def T_def)
  define x where "x = int c - int v"
  have "int d * (S * x) = int d * (S * int c) - S * (int d * int v)" by (simp add: x_def algebra_simps)
  also have "\<dots> = int d * (S * int c) - S * (int n * T)" by (simp only: nd)
  also have "\<dots> = int d * (S * int c - int m * T) + T * (int d * int m - int n * S)" by (simp add: algebra_simps)
  finally have "2 * \<bar>int d * (S * x)\<bar> \<le> 2 * \<bar>int d * (S * int c - int m * T)\<bar> + 2 * \<bar>T * (int d * int m - int n * S)\<bar>"
    by linarith
  also have "\<dots> = int d * (2 * \<bar>S * int c - int m * T\<bar>) + T * (2 * \<bar>int d * int m - int n * S\<bar>)"
    by (simp add: abs_mult T_def)
  also have "\<dots> \<le> int d * S + T * int d" by (intro add_mono mult_left_mono r m) (simp_all add: T_def)
  also have "\<dots> < int d * (2 * S)" using big d(1) by (simp add: algebra_simps)
  finally have "int d * S * (2 * \<bar>x\<bar>) < int d * S * 2" by (simp add: abs_mult S_def algebra_simps)
  moreover have "0 < int d * S" using d(1) by (simp add: S_def)
  ultimately have "2 * \<bar>x\<bar> < 2" by (simp only: mult_less_cancel_left_pos)
  then show ?thesis using c by (simp add: x_def n_def d_def)
qed

lemma dbl_of_exact: "v < 2 ^ 53 \<Longrightarrow> \<exists>s. dbl_of v = (v * 2 ^ s, s)"
  by (auto simp: dbl_of_def dbl_div_def Let_def round_div_def)

lemma fixed_units_quot:
  assumes "v < 2 ^ 52" and "v * 10 ^ j < 2 ^ 53"
  shows "fixed_units k (dbl_quot (dbl_of (v * 10 ^ j)) (10 ^ (k + j), 0)) = v"
proof -
  obtain s where s: "dbl_of (v * 10 ^ j) = (v * 10 ^ j * 2 ^ s, s)" using dbl_of_exact [OF assms(2)] by blast
  have "fixed_units k (dbl_div (v * 10 ^ j * 2 ^ s) (10 ^ (k + j) * 2 ^ s)) = v"
    using fixed_units_div [of "10 ^ j * 2 ^ s" v k] assms(1) by (simp add: power_add mult.assoc)
  then show ?thesis by (simp add: dbl_quot_def s)
qed

lemma units_in_fixed: "0 < k \<Longrightarrow> units_in (fixed k x) = fixed_units k x"
proof -
  assume k: "0 < k"
  have "filter (\<lambda>c. c \<noteq> CHR ''.'') (fixed k x) =
      dec_text (fixed_units k x div 10 ^ k) @ zero_pad k (dec_text (fixed_units k x mod 10 ^ k))"
    by (simp add: fixed_def Let_def dec_text_digits zero_pad_digits)
  moreover have "length (zero_pad k (dec_text (fixed_units k x mod 10 ^ k))) = k" using k by (intro zero_pad_dec) simp_all
  ultimately have "units_in (fixed k x) = fixed_units k x div 10 ^ k * 10 ^ k + fixed_units k x mod 10 ^ k"
    by (simp add: units_in_def number_in_split)
  then show ?thesis by (simp only: div_mult_mod_eq)
qed

text \<open>The reader of a signed text.\<close>

definition signed_units_in :: "string \<Rightarrow> int" where
  "signed_units_in s =
     (if take 1 s = ''-'' then - int (units_in (drop 1 s))
      else if take 1 s = ''+'' then int (units_in (drop 1 s)) else int (units_in s))"

lemma digit_not_sign: "d < 10 \<Longrightarrow> digit_char d \<noteq> CHR ''-'' \<and> digit_char d \<noteq> CHR ''+''"
proof -
  assume d: "d < 10"
  have "of_char (digit_char d) \<noteq> (45 :: nat)" "of_char (digit_char d) \<noteq> (43 :: nat)" using d by (simp_all add: digit_char_def)
  then show ?thesis by auto
qed

lemma dec_text_first: "take 1 (dec_text n) \<noteq> ''-'' \<and> take 1 (dec_text n) \<noteq> ''+''"
proof (induction n rule: dec_text.induct)
  case (1 n)
  show ?case
  proof (cases "n < 10")
    case True
    then show ?thesis using digit_not_sign [of n] by (subst (1 2) dec_text.simps) simp
  next
    case False
    then have "take 1 (dec_text n) = take 1 (dec_text (n div 10))"
      by (subst dec_text.simps) (cases "dec_text (n div 10)"; simp)
    then show ?thesis using 1 [OF False] by simp
  qed
qed

lemma scaled_text_reads: "0 < k \<Longrightarrow>
  signed_units_in (scaled_text show_plus k e i) = sgn i * int (fixed_units k (dbl_quot (dbl_of (nat \<bar>i\<bar>)) (10 ^ e, 0)))"
proof -
  assume k: "0 < k"
  define t where "t = fixed k (dbl_quot (dbl_of (nat \<bar>i\<bar>)) (10 ^ e, 0))"
  have t: "units_in t = fixed_units k (dbl_quot (dbl_of (nat \<bar>i\<bar>)) (10 ^ e, 0))"
    using k by (simp add: t_def units_in_fixed)
  have "take 1 t = take 1 (dec_text (fixed_units k (dbl_quot (dbl_of (nat \<bar>i\<bar>)) (10 ^ e, 0)) div 10 ^ k))"
    by (simp add: t_def fixed_def Let_def Suc_le_eq)
  then have "take 1 t \<noteq> ''-''" "take 1 t \<noteq> ''+''" using dec_text_first by simp_all
  moreover have "fixed_units k (dbl_quot (dbl_of 0) (10 ^ e, 0)) = 0"
    by (simp add: fixed_units_def dbl_quot_def dbl_of_def dbl_div_def Let_def round_div_def dbl_scale.simps)
  ultimately show ?thesis using t
    by (auto simp: scaled_text_def t_def [symmetric] sign_text_def signed_units_in_def sgn_if)
qed

lemma scaled_text_exact:
  assumes "\<bar>i\<bar> < 2 ^ 52" and "0 < k"
  shows "signed_units_in (scaled_text show_plus k k i) = i"
proof -
  have "nat \<bar>i\<bar> < 2 ^ 52" using assms(1) by (simp add: nat_less_iff)
  then have "fixed_units k (dbl_quot (dbl_of (nat \<bar>i\<bar>)) (10 ^ k, 0)) = nat \<bar>i\<bar>"
    using fixed_units_quot [of "nat \<bar>i\<bar>" 0 k] by simp
  then show ?thesis using assms(2) by (simp add: scaled_text_reads sgn_mult_abs)
qed

lemma scaled_text_scaled:
  assumes "u * 10 ^ j < 2 ^ 52" and "0 < k"
  shows "signed_units_in (scaled_text show_plus k (k + j) (10 ^ j * int u)) = int u"
proof -
  have "u * 1 \<le> u * 10 ^ j" by (intro mult_le_mono) simp_all
  then have u: "u < 2 ^ 52" using assms(1) by linarith
  have n: "nat \<bar>10 ^ j * int u\<bar> = u * 10 ^ j" by (simp add: nat_mult_distrib nat_power_eq mult.commute abs_mult)
  have "fixed_units k (dbl_quot (dbl_of (u * 10 ^ j)) (10 ^ (k + j), 0)) = u"
    using fixed_units_quot [OF u, of j k] assms(1) by simp
  then show ?thesis unfolding scaled_text_reads [OF assms(2)] n by (simp add: sgn_mult sgn_if)
qed

end
