(* ===== verification/Batch_Stats.thy ===== *)
theory Batch_Stats
  imports Bench_Workload Printf_Format "HOL-Library.Multiset"
begin

text \<open>
  How the benchmarks measure (\<^verbatim>\<open>summarize\<close>, \<^verbatim>\<open>run_batches\<close>, \<^verbatim>\<open>print_dist\<close> and \<^verbatim>\<open>bench_timer_resolution\<close>
  of \<^verbatim>\<open>bench/benchmark.cpp\<close>, and their twins in \<^verbatim>\<open>demo_latency_comparison\<close> of \<^verbatim>\<open>src/main.cpp\<close>): batches of
  calls between two readings of the clock, the mean of each batch as one sample, and percentiles of the
  samples by an index computed in double precision. The readings of the clock are an argument. Shown:
  the measured loop makes exactly the calls of a plain loop, and each percentile is the sample of its
  rank, although 99.9 is not a double.
\<close>

section \<open>Samples\<close>

record Dist =
  di_p50 :: dyadic
  di_p90 :: dyadic
  di_p99 :: dyadic
  di_p999 :: dyadic
  di_min :: dyadic
  di_max :: dyadic
  di_mean :: dyadic
  di_total_ns :: u64

definition dbl_le :: "dyadic \<Rightarrow> dyadic \<Rightarrow> bool" where
  "dbl_le x y \<longleftrightarrow> fst x * 2 ^ snd y \<le> fst y * 2 ^ snd x"

text \<open>\<^verbatim>\<open>std::sort\<close>.\<close>

fun insert_double :: "dyadic \<Rightarrow> dyadic list \<Rightarrow> dyadic list" where
  "insert_double x [] = [x]"
| "insert_double x (y # ys) = (if dbl_le x y then x # y # ys else y # insert_double x ys)"

definition sort_doubles :: "dyadic list \<Rightarrow> dyadic list" where
  "sort_doubles v = foldr insert_double v []"

definition rank_of :: "dyadic \<Rightarrow> nat \<Rightarrow> nat" where
  "rank_of p n =
     (let i = dbl_trunc (dbl_mul (dbl_quot p (100, 0)) (dbl_of n))
      in if i \<ge> n then n - 1 else i)"

definition percentile :: "dyadic list \<Rightarrow> dyadic \<Rightarrow> dyadic" where
  "percentile v p = v ! rank_of p (length v)"

definition mean_of :: "dyadic list \<Rightarrow> dyadic" where
  "mean_of v = dbl_quot (fold (\<lambda>x sum. dbl_add sum x) v (0, 0)) (dbl_of (length v))"

text \<open>Without a sample the accesses are undefined.\<close>

definition summarize :: "dyadic list \<Rightarrow> u64 \<Rightarrow> Dist option" where
  "summarize samples total_ns =
     (let v = sort_doubles samples
      in if v = [] then None
         else Some \<lparr>di_p50 = percentile v (50, 0), di_p90 = percentile v (90, 0), di_p99 = percentile v (99, 0),
                    di_p999 = percentile v (dbl_div 999 10), di_min = hd v, di_max = last v, di_mean = mean_of v,
                    di_total_ns = total_ns\<rparr>)"

section \<open>Batches\<close>

text \<open>Batch \<open>b\<close> starts at call \<open>start + b * batch\<close>; reading \<open>2 b\<close> of the clock is taken before it and the next one after it.\<close>

definition one_batch ::
    "(nat \<Rightarrow> 's \<Rightarrow> 's) \<Rightarrow> (nat \<Rightarrow> u64) \<Rightarrow> nat \<Rightarrow> nat \<Rightarrow> nat \<Rightarrow> 's \<times> u64 \<times> dyadic list \<Rightarrow> 's \<times> u64 \<times> dyadic list" where
  "one_batch fn ns start batch b = (\<lambda>(s, spent, per_op).
     let s = fold (\<lambda>i. fn (start + b * batch + i)) [0..<batch] s;
         t = ns (2 * b + 1) - ns (2 * b)
     in (s, spent + t, per_op @ [dbl_quot (dbl_of (unat t)) (dbl_of batch)]))"

definition all_batches ::
    "(nat \<Rightarrow> 's \<Rightarrow> 's) \<Rightarrow> (nat \<Rightarrow> u64) \<Rightarrow> nat \<Rightarrow> nat \<Rightarrow> nat \<Rightarrow> 's \<Rightarrow> 's \<times> u64 \<times> dyadic list" where
  "all_batches fn ns start batch nbatches s = fold (one_batch fn ns start batch) [0..<nbatches] (s, 0, [])"

definition run_batches :: "(nat \<Rightarrow> 's \<Rightarrow> 's) \<Rightarrow> (nat \<Rightarrow> u64) \<Rightarrow> nat \<Rightarrow> nat \<Rightarrow> 's \<Rightarrow> 's \<times> Dist option" where
  "run_batches fn ns batch nbatches s =
     (case all_batches fn ns 0 batch nbatches s of (s, spent, per_op) \<Rightarrow> (s, summarize per_op spent))"

text \<open>The variant of the demonstration warms up first and goes on counting; its result has fewer fields and a rate.\<close>

record Res =
  rr_mean :: dyadic
  rr_p50 :: dyadic
  rr_p99 :: dyadic
  rr_p999 :: dyadic
  rr_mops :: "dyadic option"

definition ops_rate :: "nat \<Rightarrow> u64 \<Rightarrow> dyadic option" where
  "ops_rate ops total_ns =
     (if total_ns = 0 then None
      else Some (dbl_quot (dbl_quot (dbl_of ops) (dbl_quot (dbl_of (unat total_ns)) (10 ^ 9, 0))) (10 ^ 6, 0)))"

definition demo_bench :: "(nat \<Rightarrow> 's \<Rightarrow> 's) \<Rightarrow> (nat \<Rightarrow> u64) \<Rightarrow> 's \<Rightarrow> 's \<times> Res option" where
  "demo_bench step ns s =
     (case all_batches step ns 10000 1000 1000 (fold step [0..<10000] s) of (s, spent, per_op) \<Rightarrow>
        let v = sort_doubles per_op
        in (s, if v = [] then None
               else Some \<lparr>rr_mean = mean_of v, rr_p50 = percentile v (50, 0), rr_p99 = percentile v (99, 0),
                          rr_p999 = percentile v (dbl_div 999 10), rr_mops = ops_rate (1000 * 1000) spent\<rparr>))"

section \<open>Texts\<close>

definition column :: "nat \<Rightarrow> dyadic \<Rightarrow> string" where
  "column w x = '' '' @ pad_left w (fixed1 x)"

definition print_dist :: "string \<Rightarrow> Dist \<Rightarrow> nat \<Rightarrow> string option list" where
  "print_dist name d ops =
     [Some (''  '' @ pad_right 18 name @ column 7 (di_mean d) @ column 7 (di_p50 d) @ column 7 (di_p90 d) @ column 7 (di_p99 d)
            @ column 7 (di_p999 d) @ column 7 (di_max d) @ newline),
      map_option (\<lambda>rate. ''  '' @ pad_right 18 '''' @ '' '' @ fixed2 rate @ '' M ops/sec over '' @ dec_text ops @ '' ops'' @ newline)
        (ops_rate ops (di_total_ns d))]"

definition dist_header :: "string list" where
  "dist_header =
     [''  '' @ pad_right 18 '''' @ concat (map (\<lambda>s. '' '' @ pad_left 7 s) [''mean'', ''p50'', ''p90'', ''p99'', ''p999'', ''max'']) @ newline,
      ''  '' @ pad_right 18 '''' @ '' '' @ replicate 46 CHR ''-'' @ newline]"

definition demo_row :: "string \<Rightarrow> Res \<Rightarrow> string option" where
  "demo_row name r =
     map_option (\<lambda>mops. ''  '' @ pad_right 20 name @ column 8 (rr_mean r) @ column 8 (rr_p50 r) @ column 8 (rr_p99 r)
        @ column 8 (rr_p999 r) @ column 8 mops @ '' M/s'' @ newline) (rr_mops r)"

definition quotient_text :: "dyadic \<Rightarrow> dyadic \<Rightarrow> string option" where
  "quotient_text x y = (if fst y = 0 then None else Some (fixed2 (dbl_quot x y)))"

definition latency_report :: "u64 \<Rightarrow> Res \<Rightarrow> Res \<Rightarrow> string option list" where
  "latency_report tick fpga sw =
     (let rule = Some (''  '' @ replicate 60 CHR ''-'' @ newline)
      in [Some (''  Timer resolution on this machine: '' @ dec_text (unat tick) @ '' ns'' @ newline),
          Some (''  Figures are ns per operation, measured as batch means'' @ newline),
          Some (''  over 1000 batches of 1000.'' @ newline @ newline),
          Some (''  '' @ pad_right 20 ''Engine'' @ concat (map (\<lambda>s. '' '' @ pad_left 8 s) [''mean'', ''p50'', ''p99'', ''p999''])
            @ '' '' @ pad_left 12 ''throughput'' @ newline),
          rule, demo_row ''FPGA Pipeline'' fpga, demo_row ''Software Engine'' sw, rule,
          (case (quotient_text (rr_p999 sw) (rr_p999 fpga), quotient_text (rr_mean sw) (rr_mean fpga)) of
             (Some a, Some b) \<Rightarrow> Some (''  Tail: '' @ a @ ''x at p999, '' @ b @ ''x on mean'' @ newline)
           | _ \<Rightarrow> None),
          Some (newline @ ''  The FPGA model enforces: no heap allocation, no'' @ newline),
          Some (''  branching in the hot path, fixed pipeline stages.'' @ newline)])"

section \<open>The resolution of the timer\<close>

text \<open>The readings still to come; \<^const>\<open>None\<close> when the loop waits for more of them.\<close>

fun next_tick :: "u64 \<Rightarrow> u64 list \<Rightarrow> (u64 \<times> u64 list) option" where
  "next_tick a [] = None"
| "next_tick a (b # ns) = (if b = a then next_tick a ns else Some (b, ns))"

fun tick_rounds :: "nat \<Rightarrow> u64 \<Rightarrow> u64 list \<Rightarrow> (u64 \<times> u64 list) option" where
  "tick_rounds 0 min_delta ns = Some (min_delta, ns)"
| "tick_rounds (Suc n) min_delta [] = None"
| "tick_rounds (Suc n) min_delta (a # ns) =
     (case next_tick a ns of None \<Rightarrow> None
      | Some (b, ns) \<Rightarrow> tick_rounds n (if b - a < min_delta then b - a else min_delta) ns)"

definition timer_resolution :: "nat \<Rightarrow> u64 list \<Rightarrow> u64 option" where
  "timer_resolution rounds ns = map_option fst (tick_rounds rounds (- 1) ns)"

section \<open>Sorting\<close>

lemma dbl_le_total: "dbl_le x y \<or> dbl_le y x"
  by (auto simp: dbl_le_def)

lemma dbl_le_trans:
  assumes "dbl_le x y" and "dbl_le y z"
  shows "dbl_le x z"
proof -
  have "fst x * 2 ^ snd z * 2 ^ snd y = fst x * 2 ^ snd y * 2 ^ snd z" by simp
  also have "\<dots> \<le> fst y * 2 ^ snd x * 2 ^ snd z" using assms(1) by (simp add: dbl_le_def)
  also have "\<dots> = fst y * 2 ^ snd z * 2 ^ snd x" by simp
  also have "\<dots> \<le> fst z * 2 ^ snd y * 2 ^ snd x" using assms(2) by (simp add: dbl_le_def)
  finally have "(fst x * 2 ^ snd z) * 2 ^ snd y \<le> (fst z * 2 ^ snd x) * 2 ^ snd y" by (simp add: ac_simps)
  then show ?thesis by (simp add: dbl_le_def)
qed

lemma insert_double_mset: "mset (insert_double x v) = add_mset x (mset v)"
  by (induction v) auto

lemma insert_double_sorted: "sorted_wrt dbl_le v \<Longrightarrow> sorted_wrt dbl_le (insert_double x v)"
proof (induction v)
  case (Cons y ys)
  have set: "set (insert_double x ys) = insert x (set ys)"
    using arg_cong [OF insert_double_mset [of x ys], of set_mset] by simp
  show ?case
  proof (cases "dbl_le x y")
    case True
    then show ?thesis using Cons.prems dbl_le_trans by auto
  next
    case False
    then have "dbl_le y x" using dbl_le_total by blast
    then show ?thesis using Cons False set by auto
  qed
qed simp

lemma sort_doubles_sorts: "mset (sort_doubles v) = mset v \<and> sorted_wrt dbl_le (sort_doubles v)"
  unfolding sort_doubles_def by (induction v) (simp_all add: insert_double_mset insert_double_sorted)

lemma sort_doubles_length: "length (sort_doubles v) = length v"
  using sort_doubles_sorts by (metis size_mset)

section \<open>Ranks\<close>

lemma rank_values:
  "rank_of (50, 0) 1000 = 500" "rank_of (90, 0) 1000 = 900" "rank_of (99, 0) 1000 = 990" "rank_of (dbl_div 999 10) 1000 = 999"
  "rank_of (50, 0) 2000 = 1000" "rank_of (90, 0) 2000 = 1800" "rank_of (99, 0) 2000 = 1980" "rank_of (dbl_div 999 10) 2000 = 1998"
  by (simp_all add: rank_of_def dbl_trunc_def dbl_mul_def dbl_quot_def dbl_of_def dbl_div_def dbl_scale.simps dbl_excess.simps round_div_def Let_def)

section \<open>The measured loop\<close>

definition sample :: "(nat \<Rightarrow> u64) \<Rightarrow> nat \<Rightarrow> nat \<Rightarrow> dyadic" where
  "sample ns batch b = dbl_quot (dbl_of (unat (ns (2 * b + 1) - ns (2 * b)))) (dbl_of batch)"

lemma fold_batch: "fold (\<lambda>i. fn (k + i)) [0..<n] s = fold fn [k..<k + n] s"
proof -
  have "[k..<k + n] = map (\<lambda>i. k + i) [0..<n]" by (simp add: map_add_upt add.commute)
  then show ?thesis by (simp add: fold_map comp_def)
qed

lemma all_batches_run:
  "all_batches fn ns start batch n s =
     (fold fn [start..<start + n * batch] s, (\<Sum>b < n. ns (2 * b + 1) - ns (2 * b)), map (sample ns batch) [0..<n])"
proof (induction n)
  case (Suc n)
  have split: "[start..<start + Suc n * batch] = [start..<start + n * batch] @ [start + n * batch..<start + n * batch + batch]"
    using upt_add_eq_append [of start "start + n * batch" batch] by (simp add: ac_simps)
  have "all_batches fn ns start batch (Suc n) s = one_batch fn ns start batch n (all_batches fn ns start batch n s)"
    by (simp add: all_batches_def)
  then show ?case
    unfolding Suc.IH split by (simp add: one_batch_def fold_batch sample_def Let_def)
qed (simp add: all_batches_def)

text \<open>
  The benchmarks measure what they say. For the 1000 and 2000 batches the benchmarks use, whatever
  the clock reads, \<^verbatim>\<open>run_batches\<close> leaves the state of a plain loop over all calls, in order; its
  total is the time spent between the readings; and its percentiles are samples of exactly the rank
  named, 1/2, 9/10, 99/100 and 999/1000 of the sorted batch means, with the least and the greatest as
  bounds, although the index passes through a product with 99.9 in double precision.
\<close>

lemma percentiles_have_their_ranks:
  assumes "n = 1000 \<or> n = 2000"
  shows "\<exists>d v. run_batches fn ns batch n s = (fold fn [0..<n * batch] s, Some d) \<and>
     mset v = mset (map (sample ns batch) [0..<n]) \<and> sorted_wrt dbl_le v \<and>
     di_p50 d = v ! (n div 2) \<and> di_p90 d = v ! (9 * n div 10) \<and> di_p99 d = v ! (99 * n div 100) \<and> di_p999 d = v ! (999 * n div 1000) \<and>
     di_min d = v ! 0 \<and> di_max d = v ! (n - 1) \<and> di_total_ns d = (\<Sum>b < n. ns (2 * b + 1) - ns (2 * b))"
proof -
  define v where "v = sort_doubles (map (sample ns batch) [0..<n])"
  have v: "mset v = mset (map (sample ns batch) [0..<n])" "sorted_wrt dbl_le v" "length v = n"
    using sort_doubles_sorts sort_doubles_length by (simp_all add: v_def)
  have ranks: "rank_of (50, 0) n = n div 2" "rank_of (90, 0) n = 9 * n div 10" "rank_of (99, 0) n = 99 * n div 100"
    "rank_of (dbl_div 999 10) n = 999 * n div 1000"
    using assms rank_values by auto
  have ne: "v \<noteq> []" using assms v(3) by auto
  define spent where "spent = (\<Sum>b < n. ns (2 * b + 1) - ns (2 * b))"
  define d where "d = the (summarize (map (sample ns batch) [0..<n]) spent)"
  have d: "summarize (map (sample ns batch) [0..<n]) spent = Some d"
    "di_p50 d = v ! (n div 2)" "di_p90 d = v ! (9 * n div 10)" "di_p99 d = v ! (99 * n div 100)" "di_p999 d = v ! (999 * n div 1000)"
    "di_min d = v ! 0" "di_max d = v ! (n - 1)" "di_total_ns d = spent"
    using ne by (simp_all add: d_def summarize_def v_def [symmetric] percentile_def v(3) ranks hd_conv_nth last_conv_nth Let_def)
  have "run_batches fn ns batch n s = (fold fn [0..<n * batch] s, Some d)" 
    unfolding run_batches_def all_batches_run spent_def [symmetric] by (simp add: d(1))
  then show ?thesis using d(2-8) v(1,2) unfolding spent_def by blast
qed

section \<open>The engine benchmark\<close>

text \<open>
  The measured steps of both engines and the warmed-up, measured runs, on a constructed pipeline or an
  empty engine. The software engine is submitted exactly the prepared session.
\<close>

definition submit_to :: "Order \<Rightarrow> SoftwareEngine option \<Rightarrow> SoftwareEngine option" where
  "submit_to x e = (case e of None \<Rightarrow> None | Some e \<Rightarrow> map_option snd (submit x e))"

definition engine_step :: "u32 \<Rightarrow> nat \<Rightarrow> SoftwareEngine option \<times> u32 \<Rightarrow> SoftwareEngine option \<times> u32" where
  "engine_step base i = (\<lambda>(e, seed). case make_order base (of_nat i) seed of (x, seed) \<Rightarrow> (submit_to x e, seed))"

definition bench_software_engine :: "(nat \<Rightarrow> u64) \<Rightarrow> (SoftwareEngine option \<times> u32) \<times> Dist option" where
  "bench_software_engine ns =
     run_batches (engine_step 2000000) ns 1000 1000 (fold (engine_step 2000000) [0..<10000] (Some SoftwareEngine_new, 999))"

definition pipeline_step :: "u32 \<Rightarrow> nat \<Rightarrow> FpgaPipeline \<times> u32 \<Rightarrow> FpgaPipeline \<times> u32" where
  "pipeline_step base i = (\<lambda>(p, seed). case make_order base (of_nat i) seed of (x, seed) \<Rightarrow> (snd (clock x p), seed))"

definition bench_pipeline :: "(nat \<Rightarrow> u64) \<Rightarrow> FpgaPipeline \<Rightarrow> (FpgaPipeline \<times> u32) \<times> Dist option" where
  "bench_pipeline ns pipe = run_batches (pipeline_step 2000000) ns 1000 1000 (fold (pipeline_step 2000000) [0..<10000] (pipe, 999))"

definition demo_pipeline :: "(nat \<Rightarrow> u64) \<Rightarrow> FpgaPipeline \<Rightarrow> (FpgaPipeline \<times> u32) \<times> Res option" where
  "demo_pipeline ns pipe = demo_bench (pipeline_step 1500000) ns (pipe, 999)"

definition demo_software_engine :: "(nat \<Rightarrow> u64) \<Rightarrow> (SoftwareEngine option \<times> u32) \<times> Res option" where
  "demo_software_engine ns = demo_bench (engine_step 1500000) ns (Some SoftwareEngine_new, 999)"

lemma engine_loop:
  "fold (engine_step base) [i..<i + n] (e, seed) =
     (fold submit_to (fst (bench_orders base i n seed)) e, snd (bench_orders base i n seed))"
proof (induction n arbitrary: i e seed)
  case (Suc n)
  have upt: "[i..<i + Suc n] = i # [Suc i..<Suc i + n]" by (simp add: upt_conv_Cons del: upt_Suc)
  obtain x seed1 where x: "make_order base (of_nat i) seed = (x, seed1)" by fastforce
  then have "engine_step base i (e, seed) = (submit_to x e, seed1)" by (simp add: engine_step_def)
  then show ?case unfolding upt using Suc.IH [of "Suc i" "submit_to x e" seed1] x by (simp split: prod.split)
qed simp

lemma bench_software_engine_session:
  "fst (fst (bench_software_engine ns)) = fold submit_to bench_session (Some SoftwareEngine_new)"
  using engine_loop [of 2000000 0 10000 "Some SoftwareEngine_new" 999]
  by (simp add: bench_software_engine_def run_batches_def all_batches_run bench_session_def engine_loop [where i = 0, simplified] split: prod.split)

section \<open>The parser benchmark\<close>

definition bench_itch_parser :: "(nat \<Rightarrow> u64) \<Rightarrow> (Counts \<times> Order) \<times> Dist option" where
  "bench_itch_parser ns =
     (case fold (parse_step message_pool) [0..<100000] (Counts_zero, Order_zero) of (counts, order) \<Rightarrow>
        run_batches (parse_step message_pool) ns 1000 2000 (reset_counts counts, order))"

text \<open>Every one of the two million measured calls parses its message.\<close>

lemma bench_itch_parser_counts: "fst (fst (bench_itch_parser ns)) = Counts_zero\<lparr>c_parsed := 2000000\<rparr>"
proof -
  obtain counts order where w: "fold (parse_step message_pool) [0..<100000] (Counts_zero, Order_zero) = (counts, order)"
    by (metis surj_pair)
  obtain cs out where r: "fold (parse_step message_pool) [0..<2000000] (reset_counts counts, order) = (cs, out)"
    by (metis surj_pair)
  have "cs = Counts_zero\<lparr>c_parsed := 2000000\<rparr>"
    using benchmark_parses_every_message [where seed = 12345 and visited = "[0..<2000000]" and cs = counts and out = order] r by (simp add: message_pool_def split: prod.splits)
  then show ?thesis by (simp add: bench_itch_parser_def w run_batches_def all_batches_run r)
qed

section \<open>The timer\<close>

lemma next_tick_differs: "next_tick a ns = Some (b, ns') \<Longrightarrow> b \<noteq> a"
  by (induction a ns rule: next_tick.induct) (auto split: if_splits)

text \<open>The resolution is never 0, and a clock that advances at every reading gives an answer after two readings per round.\<close>

lemma tick_rounds_positive: "tick_rounds n m ns = Some (r, ns') \<Longrightarrow> m > 0 \<Longrightarrow> r > 0 \<and> r \<le> m"
proof (induction n m ns rule: tick_rounds.induct)
  case (3 n m a ns)
  then obtain b ns1 where b: "next_tick a ns = Some (b, ns1)" by (auto split: option.splits)
  define m' where "m' = (if b - a < m then b - a else m)"
  have "b - a > 0" using next_tick_differs [OF b] by (simp add: word_gt_0)
  then have m': "m' > 0" "m' \<le> m" using 3(3) by (auto simp: m'_def)
  have "tick_rounds n m' ns1 = Some (r, ns')" using 3(2) b by (simp add: m'_def)
  then have "r > 0 \<and> r \<le> m'" using 3(1) [OF b refl] m'(1) unfolding m'_def by blast
  then show ?case using m'(2) by auto
qed auto

lemma tick_rounds_return:
  "length ns \<ge> 2 * n \<Longrightarrow> distinct ns \<Longrightarrow> tick_rounds n m ns \<noteq> None"
proof (induction n arbitrary: m ns)
  case (Suc n)
  then obtain a b ns1 where "ns = a # b # ns1" by (cases ns; cases "tl ns") auto
  then show ?case using Suc by auto
qed simp

lemma timer_resolution_returns:
  assumes "length ns \<ge> 2 * n" and "distinct ns"
  shows "\<exists>r > 0. timer_resolution n ns = Some r"
proof -
  obtain r ns' where r: "tick_rounds n (- 1) ns = Some (r, ns')" using tick_rounds_return [OF assms] by (metis not_None_eq surj_pair)
  have "r > 0" using tick_rounds_positive [OF r] by (simp add: word_gt_0)
  then show ?thesis by (simp add: timer_resolution_def r)
qed

end
