(* ===== verification/Risk_Engine.thy ===== *)
theory Risk_Engine
  imports Itch_Parser
begin

text \<open>
  \<^verbatim>\<open>RiskEngine\<close> (\<^verbatim>\<open>include/risk_engine.hpp\<close>, \<^verbatim>\<open>src/risk_engine.cpp\<close>): pre-trade checks with a fixed
  table of per-instrument positions. Proved: the decision of \<open>check\<close> on every branch, that the table is
  a map from tickers to positions while it has room, and that an accept-then-fill discipline keeps every
  position within its limit.
\<close>

section \<open>Data\<close>

datatype RiskResult = Accepted | ExceedsMaxSize | ExceedsPosition | PriceOutOfBand | InvalidOrder

record PositionEntry =
  pe_stock :: bytes
  pe_net_position :: int
  pe_gross_bought :: u64
  pe_gross_sold :: u64

record RiskEngine =
  re_positions :: "PositionEntry list"
  re_ref_prices :: "u32 list"
  re_instrument_count :: nat
  re_accepted :: u64
  re_rejected :: u64

definition MAX_ORDER_SIZE :: u32 where "MAX_ORDER_SIZE = 10000"

definition MAX_NET_POSITION :: int where "MAX_NET_POSITION = 100000"

definition MAX_PRICE_BAND :: u32 where "MAX_PRICE_BAND = 500000"

definition MAX_INSTRUMENTS :: nat where "MAX_INSTRUMENTS = 128"

definition RiskEngine_new :: RiskEngine where
  "RiskEngine_new =
     \<lparr>re_positions = replicate MAX_INSTRUMENTS
        \<lparr>pe_stock = replicate 8 0, pe_net_position = 0, pe_gross_bought = 0, pe_gross_sold = 0\<rparr>,
      re_ref_prices = replicate MAX_INSTRUMENTS 0, re_instrument_count = 0, re_accepted = 0, re_rejected = 0\<rparr>"

section \<open>Operations\<close>

text \<open>The scan of \<^verbatim>\<open>find_or_create\<close> from entry \<open>i\<close> on; \<^verbatim>\<open>memcmp\<close> over eight bytes.\<close>

function find_entry :: "RiskEngine \<Rightarrow> bytes \<Rightarrow> nat \<Rightarrow> nat option" where
  "find_entry e stock i =
     (if i < re_instrument_count e
      then if take 8 (pe_stock (re_positions e ! i)) = take 8 stock then Some i else find_entry e stock (i + 1)
      else None)"
  by pat_completeness auto
termination by (relation "measure (\<lambda>(e, stock, i). re_instrument_count e - i)") auto

declare find_entry.simps [simp del]

definition find_or_create :: "bytes \<Rightarrow> RiskEngine \<Rightarrow> RiskEngine \<times> nat" where
  "find_or_create stock e =
     (case find_entry e stock 0 of
        Some i \<Rightarrow> (e, i)
      | None \<Rightarrow>
          let n = re_instrument_count e
          in if n < MAX_INSTRUMENTS
             then (e\<lparr>re_positions := (re_positions e)
                       [n := (re_positions e ! n)\<lparr>pe_stock := take 8 stock, pe_net_position := 0\<rparr>],
                     re_instrument_count := n + 1\<rparr>, n)
             else (e, 0))"

definition reject :: "RiskResult \<Rightarrow> RiskEngine \<Rightarrow> RiskResult \<times> RiskEngine" where
  "reject why e = (why, e\<lparr>re_rejected := re_rejected e + 1\<rparr>)"

definition check :: "Order \<Rightarrow> RiskEngine \<Rightarrow> RiskResult \<times> RiskEngine" where
  "check x e =
     (if o_quantity x = 0 \<or> o_price x = 0 then reject InvalidOrder e
      else if o_quantity x > MAX_ORDER_SIZE then reject ExceedsMaxSize e
      else
        let (e, idx) = find_or_create (o_stock x) e;
            ref = re_ref_prices e ! idx;
            diff = (if o_price x > ref then o_price x - ref else ref - o_price x)
        in if ref > 0 \<and> diff \<ge> MAX_PRICE_BAND then reject PriceOutOfBand e
           else
             let current = pe_net_position (re_positions e ! idx);
                 delta = (if o_side x = Buy then int (unat (o_quantity x)) else - int (unat (o_quantity x)));
                 projected = current + delta
             in if projected > MAX_NET_POSITION \<or> projected < - MAX_NET_POSITION then reject ExceedsPosition e
                else (Accepted, e\<lparr>re_accepted := re_accepted e + 1\<rparr>))"

definition on_fill :: "bytes \<Rightarrow> Side \<Rightarrow> u32 \<Rightarrow> RiskEngine \<Rightarrow> RiskEngine" where
  "on_fill stock side quantity e =
     (let (e, idx) = find_or_create stock e; p = re_positions e ! idx
      in e\<lparr>re_positions := (re_positions e)[idx :=
           (if side = Buy
            then p\<lparr>pe_net_position := pe_net_position p + int (unat quantity),
                   pe_gross_bought := pe_gross_bought p + ucast quantity\<rparr>
            else p\<lparr>pe_net_position := pe_net_position p - int (unat quantity),
                   pe_gross_sold := pe_gross_sold p + ucast quantity\<rparr>)]\<rparr>)"

definition set_reference_price :: "bytes \<Rightarrow> u32 \<Rightarrow> RiskEngine \<Rightarrow> RiskEngine" where
  "set_reference_price stock price e =
     (let (e, idx) = find_or_create stock e in e\<lparr>re_ref_prices := (re_ref_prices e)[idx := price]\<rparr>)"

section \<open>The table as a map\<close>

definition tickers :: "RiskEngine \<Rightarrow> bytes list" where
  "tickers e = map (\<lambda>i. take 8 (pe_stock (re_positions e ! i))) [0..<re_instrument_count e]"

definition risk_inv :: "RiskEngine \<Rightarrow> bool" where
  "risk_inv e \<longleftrightarrow> length (re_positions e) = MAX_INSTRUMENTS \<and> length (re_ref_prices e) = MAX_INSTRUMENTS \<and>
     re_instrument_count e \<le> MAX_INSTRUMENTS \<and> distinct (tickers e)"

text \<open>The entry that answers for a ticker: its own, a new one, or entry 0 once the table is full.\<close>

definition entry_of :: "bytes \<Rightarrow> RiskEngine \<Rightarrow> nat" where
  "entry_of stock e = snd (find_or_create stock e)"

definition position_of :: "bytes \<Rightarrow> RiskEngine \<Rightarrow> int" where
  "position_of stock e = (case find_entry e stock 0 of None \<Rightarrow> 0 | Some i \<Rightarrow> pe_net_position (re_positions e ! i))"

definition has_room :: "bytes \<Rightarrow> RiskEngine \<Rightarrow> bool" where
  "has_room stock e \<longleftrightarrow> find_entry e stock 0 \<noteq> None \<or> re_instrument_count e < MAX_INSTRUMENTS"

lemma find_entry_Some:
  "find_entry e stock i = Some j \<Longrightarrow> i \<le> j \<and> j < re_instrument_count e \<and>
     take 8 (pe_stock (re_positions e ! j)) = take 8 stock"
proof (induction e stock i rule: find_entry.induct)
  case (1 e stock i)
  then show ?case by (subst (asm) (2) find_entry.simps) (force split: if_splits)
qed

lemma find_entry_None:
  "find_entry e stock i = None \<longleftrightarrow>
     (\<forall>j. i \<le> j \<longrightarrow> j < re_instrument_count e \<longrightarrow> take 8 (pe_stock (re_positions e ! j)) \<noteq> take 8 stock)"
proof (induction e stock i rule: find_entry.induct)
  case (1 e stock i)
  have le: "i \<le> j \<longleftrightarrow> j = i \<or> i + 1 \<le> j" for j by auto
  show ?case unfolding le using 1 by (subst find_entry.simps) auto
qed

lemma tickers_nth:
  "j < re_instrument_count e \<Longrightarrow> tickers e ! j = take 8 (pe_stock (re_positions e ! j))"
  "length (tickers e) = re_instrument_count e"
  by (simp_all add: tickers_def)

lemma find_entry_iff:
  assumes "distinct (tickers e)"
  shows "find_entry e stock 0 = Some j \<longleftrightarrow>
    j < re_instrument_count e \<and> take 8 (pe_stock (re_positions e ! j)) = take 8 stock"
proof
  assume j: "j < re_instrument_count e \<and> take 8 (pe_stock (re_positions e ! j)) = take 8 stock"
  then obtain i where i: "find_entry e stock 0 = Some i"
    using find_entry_None [of e stock 0] by (cases "find_entry e stock 0") auto
  have "tickers e ! i = tickers e ! j" using find_entry_Some [OF i] j by (simp add: tickers_nth)
  then have "i = j" using assms find_entry_Some [OF i] j by (simp add: distinct_conv_nth tickers_nth(2)) metis
  then show "find_entry e stock 0 = Some j" using i by simp
qed (use find_entry_Some [of e stock 0 j] in blast)

lemma find_or_create_law:
  assumes "risk_inv e" and "find_or_create stock e = (e', i)"
  shows "risk_inv e'" and "i < MAX_INSTRUMENTS" and "re_ref_prices e' = re_ref_prices e"
    and "re_accepted e' = re_accepted e" and "re_rejected e' = re_rejected e"
    and "find_or_create stock e' = (e', i)" and "has_room stock e \<Longrightarrow> find_entry e' stock 0 = Some i"
    and "j < MAX_INSTRUMENTS \<Longrightarrow> pe_net_position (re_positions e' ! j) =
           (if find_entry e stock 0 = None \<and> re_instrument_count e < MAX_INSTRUMENTS \<and> j = re_instrument_count e
            then 0 else pe_net_position (re_positions e ! j))"
proof -
  have lens: "length (re_positions e) = MAX_INSTRUMENTS" "re_instrument_count e \<le> MAX_INSTRUMENTS"
    "distinct (tickers e)" using assms(1) by (simp_all add: risk_inv_def)
  let ?n = "re_instrument_count e"
  have all: "risk_inv e' \<and> i < MAX_INSTRUMENTS \<and> find_or_create stock e' = (e', i) \<and>
    (has_room stock e \<longrightarrow> find_entry e' stock 0 = Some i)"
  proof (cases "find_entry e stock 0")
    case (Some j)
    then have "e' = e" "i = j" using assms(2) by (simp_all add: find_or_create_def)
    then show ?thesis using assms find_entry_Some [OF Some] lens Some by auto
  next
    case None
    show ?thesis
    proof (cases "?n < MAX_INSTRUMENTS")
      case False
      then show ?thesis using None assms by (simp add: find_or_create_def has_room_def MAX_INSTRUMENTS_def)
    next
      case True
      then have e': "e' = e\<lparr>re_positions := (re_positions e)
          [?n := (re_positions e ! ?n)\<lparr>pe_stock := take 8 stock, pe_net_position := 0\<rparr>],
          re_instrument_count := ?n + 1\<rparr>" and i: "i = ?n"
        using None assms(2) by (auto simp: find_or_create_def Let_def)
      have new: "take 8 stock \<notin> set (tickers e)"
        using None find_entry_None [of e stock 0] by (auto simp: tickers_def)
      have "tickers e' = tickers e @ [take 8 stock]"
        using True lens(1) by (auto simp: e' tickers_def nth_list_update intro!: nth_equalityI)
      then have d: "distinct (tickers e')" using new lens(3) by simp
      moreover have "find_entry e' stock 0 = Some ?n"
        using True lens(1) by (simp add: find_entry_iff [OF d]) (simp add: e')
      ultimately show ?thesis using True i assms(1) by (simp add: find_or_create_def risk_inv_def) (simp add: e')
    qed
  qed
  then show "risk_inv e'" and "i < MAX_INSTRUMENTS" and "find_or_create stock e' = (e', i)"
    and "has_room stock e \<Longrightarrow> find_entry e' stock 0 = Some i" by blast+
  show "re_ref_prices e' = re_ref_prices e" "re_accepted e' = re_accepted e" "re_rejected e' = re_rejected e"
    using assms(2) by (auto simp: find_or_create_def Let_def split: option.splits if_splits)
  show "pe_net_position (re_positions e' ! j) =
           (if find_entry e stock 0 = None \<and> ?n < MAX_INSTRUMENTS \<and> j = ?n
            then 0 else pe_net_position (re_positions e ! j))" if "j < MAX_INSTRUMENTS"
    using assms(2) that lens(1) by (auto simp: find_or_create_def Let_def nth_list_update split: option.splits if_splits)
qed

lemma position_of_created:
  assumes "risk_inv e" and "find_or_create stock e = (e', i)"
  shows "position_of s e' = position_of s e"
proof (cases "find_entry e stock 0")
  case (Some j)
  then show ?thesis using assms(2) by (simp add: find_or_create_def)
next
  case None
  have d: "distinct (tickers e)" "length (re_positions e) = MAX_INSTRUMENTS" using assms(1) by (simp_all add: risk_inv_def)
  note law = find_or_create_law [OF assms]
  have d': "distinct (tickers e')" using law(1) by (simp add: risk_inv_def)
  show ?thesis
  proof (cases "re_instrument_count e < MAX_INSTRUMENTS")
    case False
    then show ?thesis using None assms(2) by (simp add: find_or_create_def)
  next
    case True
    let ?n = "re_instrument_count e"
    have e': "e' = e\<lparr>re_positions := (re_positions e)
          [?n := (re_positions e ! ?n)\<lparr>pe_stock := take 8 stock, pe_net_position := 0\<rparr>],
          re_instrument_count := ?n + 1\<rparr>"
      using None True assms(2) by (auto simp: find_or_create_def Let_def)
    have "find_entry e' s 0 = (if take 8 s = take 8 stock then Some ?n else find_entry e s 0)"
    proof (cases "take 8 s = take 8 stock")
      case True
      then show ?thesis using \<open>?n < MAX_INSTRUMENTS\<close> d(2) by (simp add: find_entry_iff [OF d']) (simp add: e')
    next
      case False
      have "find_entry e' s 0 = Some j \<longleftrightarrow> find_entry e s 0 = Some j" for j
        unfolding find_entry_iff [OF d'] find_entry_iff [OF d(1)]
        using False True d(2) by (auto simp: e' nth_list_update less_Suc_eq)
      then show ?thesis using False by (metis option.exhaust)
    qed
    moreover have "find_entry e s 0 = None" if "take 8 s = take 8 stock"
      using None that by (simp add: find_entry_None)
    moreover have "j < ?n" if "find_entry e s 0 = Some j" for j using find_entry_Some [OF that] by simp
    ultimately show ?thesis using True d(2)
      by (auto simp: position_of_def e' nth_list_update split: option.splits)
  qed
qed

section \<open>Fills\<close>

definition signed_qty :: "Side \<Rightarrow> u32 \<Rightarrow> int" where
  "signed_qty side q = (if side = Buy then int (unat q) else - int (unat q))"

text \<open>The state after a fill at entry \<open>i\<close>.\<close>

definition fill_entry :: "nat \<Rightarrow> Side \<Rightarrow> u32 \<Rightarrow> RiskEngine \<Rightarrow> RiskEngine" where
  "fill_entry i side q e = (let p = re_positions e ! i in e\<lparr>re_positions := (re_positions e)[i :=
     (if side = Buy then p\<lparr>pe_net_position := pe_net_position p + int (unat q), pe_gross_bought := pe_gross_bought p + ucast q\<rparr>
      else p\<lparr>pe_net_position := pe_net_position p - int (unat q), pe_gross_sold := pe_gross_sold p + ucast q\<rparr>)]\<rparr>)"

lemma on_fill_form: "on_fill stock side q e = (case find_or_create stock e of (e', i) \<Rightarrow> fill_entry i side q e')"
  by (simp add: on_fill_def fill_entry_def Let_def split: prod.split)

lemma fill_entry_law:
  assumes "risk_inv e" and "i < MAX_INSTRUMENTS"
  shows "tickers (fill_entry i side q e) = tickers e" and "risk_inv (fill_entry i side q e)"
    and "j < MAX_INSTRUMENTS \<Longrightarrow> pe_net_position (re_positions (fill_entry i side q e) ! j) =
      pe_net_position (re_positions e ! j) + (if j = i then signed_qty side q else 0)"
proof -
  have len: "length (re_positions e) = MAX_INSTRUMENTS" "re_instrument_count e \<le> MAX_INSTRUMENTS"
    using assms(1) by (simp_all add: risk_inv_def)
  show t: "tickers (fill_entry i side q e) = tickers e"
    using len assms(2) by (auto simp: tickers_def fill_entry_def Let_def nth_list_update)
  show "risk_inv (fill_entry i side q e)"
    using assms(1) t by (simp add: risk_inv_def) (simp add: fill_entry_def Let_def)
  show "j < MAX_INSTRUMENTS \<Longrightarrow> pe_net_position (re_positions (fill_entry i side q e) ! j) =
      pe_net_position (re_positions e ! j) + (if j = i then signed_qty side q else 0)"
    using len assms(2) by (auto simp: fill_entry_def Let_def signed_qty_def nth_list_update)
qed

lemma tickers_find_entry:
  assumes "risk_inv e" and "risk_inv e'" and "tickers e' = tickers e"
  shows "find_entry e' s 0 = find_entry e s 0"
proof -
  have d: "distinct (tickers e)" "distinct (tickers e')" using assms by (simp_all add: risk_inv_def)
  have n: "re_instrument_count e' = re_instrument_count e" using assms(3) tickers_nth(2) by metis
  have "find_entry e' s 0 = Some j \<longleftrightarrow> find_entry e s 0 = Some j" for j
    unfolding find_entry_iff [OF d(1)] find_entry_iff [OF d(2)] using assms(3) n tickers_nth(1) by metis
  then show ?thesis by (metis option.exhaust)
qed

lemma on_fill_positions:
  assumes "risk_inv e" and "has_room stock e"
  shows "risk_inv (on_fill stock side q e)"
    and "position_of s (on_fill stock side q e) =
      position_of s e + (if take 8 s = take 8 stock then signed_qty side q else 0)"
proof -
  obtain e' i where foc: "find_or_create stock e = (e', i)" by (cases "find_or_create stock e")
  note law = find_or_create_law [OF assms(1) foc]
  note own = law(7) [OF assms(2)]
  have form: "on_fill stock side q e = fill_entry i side q e'" by (simp add: on_fill_form foc)
  note fl = fill_entry_law [OF law(1,2)]
  show "risk_inv (on_fill stock side q e)" by (simp add: form fl(2))
  have d: "distinct (tickers e')" using law(1) by (simp add: risk_inv_def)
  have fe: "find_entry (fill_entry i side q e') s 0 = find_entry e' s 0"
    by (rule tickers_find_entry [OF law(1) fl(2,1)])
  have "find_entry e' s 0 = Some i \<longleftrightarrow> take 8 s = take 8 stock"
    using own by (auto simp: find_entry_iff [OF d])
  moreover have "j < MAX_INSTRUMENTS" if "find_entry e' s 0 = Some j" for j
    using find_entry_Some [OF that] law(1) by (simp add: risk_inv_def)
  ultimately have "position_of s (fill_entry i side q e') =
      position_of s e' + (if take 8 s = take 8 stock then signed_qty side q else 0)"
    using fl(3) by (auto simp: position_of_def fe split: option.splits)
  then show "position_of s (on_fill stock side q e) =
      position_of s e + (if take 8 s = take 8 stock then signed_qty side q else 0)"
    using position_of_created [OF assms(1) foc, of s] by (simp add: form)
qed

section \<open>The decision\<close>

definition reference_of :: "bytes \<Rightarrow> RiskEngine \<Rightarrow> u32" where
  "reference_of stock e = re_ref_prices e ! entry_of stock e"

definition net_at :: "bytes \<Rightarrow> RiskEngine \<Rightarrow> int" where
  "net_at stock e = pe_net_position (re_positions (fst (find_or_create stock e)) ! entry_of stock e)"

lemma net_at_position:
  assumes "risk_inv e" and "has_room stock e"
  shows "net_at stock e = position_of stock e"
proof -
  obtain e' i where foc: "find_or_create stock e = (e', i)" by (cases "find_or_create stock e")
  have "position_of stock e' = pe_net_position (re_positions e' ! i)"
    using find_or_create_law(7) [OF assms(1) foc assms(2)] by (simp add: position_of_def)
  then show ?thesis using position_of_created [OF assms(1) foc, of stock] by (simp add: net_at_def entry_of_def foc)
qed

lemma band_distance:
  "(if ref < px then px - ref else ref - (px :: u32)) \<ge> b \<longleftrightarrow> \<bar>int (unat px) - int (unat ref)\<bar> \<ge> int (unat b)"
proof (cases "ref < px")
  case True
  then have "unat (px - ref) = unat px - unat ref" "unat ref < unat px"
    by (simp_all add: unat_sub word_less_nat_alt less_imp_le)
  then show ?thesis using True by (simp only: word_le_nat_alt if_True) linarith
next
  case False
  then have "unat (ref - px) = unat ref - unat px" "unat px \<le> unat ref"
    by (simp_all add: unat_sub not_less word_le_nat_alt)
  then show ?thesis using False by (simp only: word_le_nat_alt if_False) linarith
qed

text \<open>The tests of \<^verbatim>\<open>check\<close> in the order they are made, over integers.\<close>

definition risk_decision :: "Order \<Rightarrow> u32 \<Rightarrow> int \<Rightarrow> RiskResult" where
  "risk_decision x ref net =
     (if o_quantity x = 0 \<or> o_price x = 0 then InvalidOrder
      else if unat (o_quantity x) > 10000 then ExceedsMaxSize
      else if ref \<noteq> 0 \<and> \<bar>int (unat (o_price x)) - int (unat ref)\<bar> \<ge> 500000 then PriceOutOfBand
      else if \<bar>net + signed_qty (o_side x) (o_quantity x)\<bar> > 100000 then ExceedsPosition
      else Accepted)"

lemma check_law:
  assumes "risk_inv e" and "check x e = (r, e')"
  shows "r = risk_decision x (reference_of (o_stock x) e) (net_at (o_stock x) e)"
    and "re_accepted e' = re_accepted e + of_bool (r = Accepted)"
    and "re_rejected e' = re_rejected e + of_bool (r \<noteq> Accepted)"
    and "e' = (if o_quantity x = 0 \<or> o_price x = 0 \<or> o_quantity x > MAX_ORDER_SIZE then e
           else fst (find_or_create (o_stock x) e))
         \<lparr>re_accepted := re_accepted e', re_rejected := re_rejected e'\<rparr>"
proof -
  obtain e1 i where foc: "find_or_create (o_stock x) e = (e1, i)" by (cases "find_or_create (o_stock x) e")
  note law = find_or_create_law [OF assms(1) foc]
  have ref: "re_ref_prices e1 ! i = reference_of (o_stock x) e" by (simp add: reference_of_def entry_of_def foc law(3))
  have net: "pe_net_position (re_positions e1 ! i) = net_at (o_stock x) e" by (simp add: net_at_def entry_of_def foc)
  have size: "o_quantity x > MAX_ORDER_SIZE \<longleftrightarrow> unat (o_quantity x) > 10000"
    by (simp add: MAX_ORDER_SIZE_def word_less_nat_alt)
  have dl: "(if o_side x = Buy then int (unat (o_quantity x)) else - int (unat (o_quantity x))) =
      signed_qty (o_side x) (o_quantity x)" by (simp add: signed_qty_def)
  have band: "(if reference_of (o_stock x) e < o_price x then o_price x - reference_of (o_stock x) e
        else reference_of (o_stock x) e - o_price x) \<ge> MAX_PRICE_BAND \<longleftrightarrow>
      \<bar>int (unat (o_price x)) - int (unat (reference_of (o_stock x) e))\<bar> \<ge> 500000"
    unfolding band_distance by (simp add: MAX_PRICE_BAND_def)
  have form: "check x e =
      (if o_quantity x = 0 \<or> o_price x = 0 then reject InvalidOrder e
       else if unat (o_quantity x) > 10000 then reject ExceedsMaxSize e
       else if reference_of (o_stock x) e \<noteq> 0 \<and>
         \<bar>int (unat (o_price x)) - int (unat (reference_of (o_stock x) e))\<bar> \<ge> 500000 then reject PriceOutOfBand e1
       else if \<bar>net_at (o_stock x) e + signed_qty (o_side x) (o_quantity x)\<bar> > 100000 then reject ExceedsPosition e1
       else (Accepted, e1\<lparr>re_accepted := re_accepted e1 + 1\<rparr>))"
    unfolding check_def foc Let_def prod.case ref net dl size band
    by (auto simp: MAX_NET_POSITION_def word_gt_0)
  show "r = risk_decision x (reference_of (o_stock x) e) (net_at (o_stock x) e)"
    using assms(2) unfolding form risk_decision_def reject_def by (auto split: if_splits)
  show "re_accepted e' = re_accepted e + of_bool (r = Accepted)"
    "re_rejected e' = re_rejected e + of_bool (r \<noteq> Accepted)"
    using assms(2) law(4,5) unfolding form reject_def by (auto split: if_splits)
  show "e' = (if o_quantity x = 0 \<or> o_price x = 0 \<or> o_quantity x > MAX_ORDER_SIZE then e
           else fst (find_or_create (o_stock x) e))\<lparr>re_accepted := re_accepted e', re_rejected := re_rejected e'\<rparr>"
    using assms(2) unfolding form reject_def size foc by (auto split: if_splits)
qed

section \<open>Position limits\<close>

definition within_limits :: "RiskEngine \<Rightarrow> bool" where
  "within_limits e \<longleftrightarrow> (\<forall>j < MAX_INSTRUMENTS. \<bar>pe_net_position (re_positions e ! j)\<bar> \<le> MAX_NET_POSITION)"

text \<open>
  The discipline the check is meant for: an accepted order is filled, in part or in whole, before
  the next one is checked.
\<close>

datatype risk_cmd = Trade_order Order u32 | Set_reference bytes u32

fun risk_step :: "risk_cmd \<Rightarrow> RiskEngine \<Rightarrow> RiskEngine" where
  "risk_step (Trade_order x fill) e =
     (case check x e of (r, e1) \<Rightarrow>
        if r = Accepted then on_fill (o_stock x) (o_side x) (min fill (o_quantity x)) e1 else e1)"
| "risk_step (Set_reference stock px) e = set_reference_price stock px e"

lemma risk_inv_frame [simp, tp_frame]:
  "risk_inv (e\<lparr>re_accepted := a, re_rejected := b\<rparr>) = risk_inv e"
  "within_limits (e\<lparr>re_accepted := a, re_rejected := b\<rparr>) = within_limits e"
  by (simp_all add: risk_inv_def tickers_def within_limits_def)

lemma find_entry_count_frame:
  "find_entry (e\<lparr>re_accepted := a, re_rejected := b\<rparr>) s i = find_entry e s i"
proof (induction e s i rule: find_entry.induct)
  case (1 e s i)
  then show ?case by (subst (1 2) find_entry.simps) simp
qed

lemma position_of_frame:
  "position_of s (e\<lparr>re_accepted := a, re_rejected := b\<rparr>) = position_of s e"
  by (cases "find_entry e s 0") (simp_all add: position_of_def find_entry_count_frame)

lemma find_or_create_frame:
  "find_or_create s (e\<lparr>re_accepted := a, re_rejected := b\<rparr>) =
     apfst (\<lambda>e. e\<lparr>re_accepted := a, re_rejected := b\<rparr>) (find_or_create s e)"
  by (auto simp: find_or_create_def find_entry_count_frame Let_def split: option.splits)

lemma created_limits:
  assumes "risk_inv e" and "within_limits e" and "find_or_create stock e = (e', i)"
  shows "within_limits e'"
  using find_or_create_law(8) [OF assms(1,3)] assms(2) by (auto simp: within_limits_def MAX_NET_POSITION_def)

lemma check_keeps:
  assumes "risk_inv e" and "within_limits e" and "check x e = (r, e')"
  shows "risk_inv e' \<and> within_limits e'"
proof -
  obtain e1 i where foc: "find_or_create (o_stock x) e = (e1, i)" by (cases "find_or_create (o_stock x) e")
  show ?thesis
    using check_law(4) [OF assms(1,3)] find_or_create_law(1) [OF assms(1) foc] created_limits [OF assms(1,2) foc] assms(1,2)
    by (simp add: foc split: if_splits) (metis risk_inv_frame)+
qed

lemma accepted_fill_keeps:
  assumes "risk_inv e" and "within_limits e" and "check x e = (Accepted, e')" and "q \<le> o_quantity x"
  shows "risk_inv (on_fill (o_stock x) (o_side x) q e') \<and> within_limits (on_fill (o_stock x) (o_side x) q e')"
proof -
  obtain e1 i where foc: "find_or_create (o_stock x) e = (e1, i)" by (cases "find_or_create (o_stock x) e")
  note law = find_or_create_law [OF assms(1) foc]
  have dec: "risk_decision x (reference_of (o_stock x) e) (net_at (o_stock x) e) = Accepted"
    using check_law(1) [OF assms(1,3)] by simp
  have nz: "\<not> (o_quantity x = 0 \<or> o_price x = 0 \<or> o_quantity x > MAX_ORDER_SIZE)"
    using dec by (auto simp: risk_decision_def MAX_ORDER_SIZE_def word_less_nat_alt split: if_splits)
  define e2 where "e2 = e1\<lparr>re_accepted := re_accepted e', re_rejected := re_rejected e'\<rparr>"
  have e': "e' = e2" using check_law(4) [OF assms(1,3)] nz by (simp add: foc e2_def)
  have inv2: "risk_inv e2" "within_limits e2"
    using law(1) created_limits [OF assms(1,2) foc] by (simp_all add: e2_def)
  have fo: "find_or_create (o_stock x) e2 = (e2, i)" using law(6) by (simp add: e2_def find_or_create_frame)
  note fl = fill_entry_law [OF inv2(1) law(2)]
  have net: "pe_net_position (re_positions e2 ! i) = net_at (o_stock x) e"
    by (simp add: e2_def net_at_def entry_of_def foc)
  have lim: "\<bar>net_at (o_stock x) e + signed_qty (o_side x) (o_quantity x)\<bar> \<le> 100000"
    using dec by (auto simp: risk_decision_def split: if_splits)
  have cur: "\<bar>net_at (o_stock x) e\<bar> \<le> 100000"
    using inv2(2) law(2) net by (auto simp: within_limits_def MAX_NET_POSITION_def)
  have "unat q \<le> unat (o_quantity x)" using assms(4) by (simp add: word_le_nat_alt)
  then have new: "\<bar>net_at (o_stock x) e + signed_qty (o_side x) q\<bar> \<le> 100000"
  proof (cases "o_side x = Buy")
    case True
    then show ?thesis using lim cur \<open>unat q \<le> _\<close> by (simp only: signed_qty_def refl if_True; linarith)
  next
    case False
    then show ?thesis using lim cur \<open>unat q \<le> _\<close> by (simp only: signed_qty_def if_False; linarith)
  qed
  have "within_limits (fill_entry i (o_side x) q e2)"
    using fl(3) inv2(2) net new by (auto simp: within_limits_def MAX_NET_POSITION_def)
  then show ?thesis using fl(2) by (simp add: e' on_fill_form fo)
qed

lemma set_reference_keeps:
  assumes "risk_inv e" and "within_limits e"
  shows "risk_inv (set_reference_price stock px e) \<and> within_limits (set_reference_price stock px e)"
proof -
  obtain e1 i where foc: "find_or_create stock e = (e1, i)" by (cases "find_or_create stock e")
  show ?thesis
    using find_or_create_law(1) [OF assms(1) foc] created_limits [OF assms foc]
    by (simp add: set_reference_price_def foc risk_inv_def within_limits_def tickers_def)
qed

lemma risk_step_keeps:
  assumes "risk_inv e \<and> within_limits e"
  shows "risk_inv (risk_step c e) \<and> within_limits (risk_step c e)"
proof (cases c)
  case (Trade_order x fill)
  obtain r e1 where ch: "check x e = (r, e1)" by (cases "check x e")
  show ?thesis
    using check_keeps [OF _ _ ch] accepted_fill_keeps [of e x e1 "min fill (o_quantity x)"] assms ch
    by (auto simp: Trade_order)
next
  case (Set_reference stock px)
  then show ?thesis using set_reference_keeps assms by simp
qed

text \<open>A run of checks of one order, and a run of equal fills.\<close>

definition checks :: "nat \<Rightarrow> Order \<Rightarrow> RiskEngine \<Rightarrow> RiskEngine" where
  "checks n x e = ((\<lambda>e. snd (check x e)) ^^ n) e"

definition fills :: "nat \<Rightarrow> bytes \<Rightarrow> Side \<Rightarrow> u32 \<Rightarrow> RiskEngine \<Rightarrow> RiskEngine" where
  "fills n stock side q e = (on_fill stock side q ^^ n) e"

lemma check_frame:
  assumes "risk_inv e" and "has_room (o_stock x) e"
  shows "risk_inv (snd (check x e))" and "has_room (o_stock x) (snd (check x e))"
    and "position_of (o_stock x) (snd (check x e)) = position_of (o_stock x) e"
    and "reference_of (o_stock x) (snd (check x e)) = reference_of (o_stock x) e"
proof -
  obtain e1 i where foc: "find_or_create (o_stock x) e = (e1, i)" by (cases "find_or_create (o_stock x) e")
  note law = find_or_create_law [OF assms(1) foc]
  define e2 where "e2 = (if o_quantity x = 0 \<or> o_price x = 0 \<or> o_quantity x > MAX_ORDER_SIZE then e else e1)"
  define a where "a = re_accepted (snd (check x e))"
  define b where "b = re_rejected (snd (check x e))"
  have e2: "e2 = e \<or> e2 = e1" by (simp add: e2_def)
  have c: "snd (check x e) = e2\<lparr>re_accepted := a, re_rejected := b\<rparr>"
    using check_law(4) [OF assms(1) prod.collapse [symmetric], of x] by (simp only: foc fst_conv a_def b_def e2_def)
  have same: "risk_inv e2" "find_entry e2 (o_stock x) 0 \<noteq> None \<or> re_instrument_count e2 < MAX_INSTRUMENTS"
    "position_of (o_stock x) e2 = position_of (o_stock x) e" "re_ref_prices e2 = re_ref_prices e"
    "snd (find_or_create (o_stock x) e2) = i"
    using e2 assms law(1,3,6) law(7) [OF assms(2)] position_of_created [OF assms(1) foc] foc
    by (auto simp: has_room_def)
  show "risk_inv (snd (check x e))" using same(1) by (simp add: c)
  show "has_room (o_stock x) (snd (check x e))" using same(2) by (simp add: c has_room_def find_entry_count_frame)
  show "position_of (o_stock x) (snd (check x e)) = position_of (o_stock x) e"
    using same(3) by (simp add: c position_of_frame)
  show "reference_of (o_stock x) (snd (check x e)) = reference_of (o_stock x) e"
    using same(4,5) foc by (simp add: c reference_of_def entry_of_def find_or_create_frame)
qed

lemma checks_law:
  assumes "risk_inv e" and "has_room (o_stock x) e"
  shows "risk_inv (checks n x e)" and "has_room (o_stock x) (checks n x e)"
    and "position_of (o_stock x) (checks n x e) = position_of (o_stock x) e"
    and "reference_of (o_stock x) (checks n x e) = reference_of (o_stock x) e"
  using assms by (induction n) (simp_all add: checks_def check_frame)

lemma has_room_fill:
  assumes "risk_inv e" and "has_room stock e"
  shows "has_room stock (on_fill stock side q e)"
proof -
  obtain e1 i where foc: "find_or_create stock e = (e1, i)" by (cases "find_or_create stock e")
  note law = find_or_create_law [OF assms(1) foc]
  note fl = fill_entry_law [OF law(1,2)]
  have "find_entry (fill_entry i side q e1) stock 0 = Some i"
    using tickers_find_entry [OF law(1) fl(2,1)] law(7) [OF assms(2)] by simp
  then show ?thesis by (simp add: has_room_def on_fill_form foc)
qed

lemma fills_law:
  assumes "risk_inv e" and "has_room stock e"
  shows "position_of stock (fills n stock side q e) = position_of stock e + int n * signed_qty side q"
proof -
  have "risk_inv (fills n stock side q e) \<and> has_room stock (fills n stock side q e) \<and>
    position_of stock (fills n stock side q e) = position_of stock e + int n * signed_qty side q"
    using assms by (induction n) (simp_all add: fills_def on_fill_positions has_room_fill algebra_simps)
  then show ?thesis by blast
qed

interpretation risk_run: kept_invariant "\<lambda>e. risk_inv e \<and> within_limits e" risk_step
  by unfold_locales (rule risk_step_keeps)

lemma new_risk: "risk_inv RiskEngine_new" "within_limits RiskEngine_new"
  by (simp_all add: risk_inv_def within_limits_def RiskEngine_new_def tickers_def MAX_NET_POSITION_def)

section \<open>Properties\<close>

definition risk_order :: "Side \<Rightarrow> u32 \<Rightarrow> Order" where
  "risk_order side qty = Order_zero\<lparr>o_side := side, o_quantity := qty, o_price := 1500000,
     o_stock := [65, 65, 80, 76, 32, 32, 32, 32]\<rparr>"

text \<open>
  \<^verbatim>\<open>check\<close> decides by its five tests in order: zero size or price, size over 10,000, price 50
  dollars or more away from a reference that is set, net position past 100,000 either way if the
  whole order filled, accepted. The distance and the projected position are the true ones (no
  wrap-around), and exactly one of the two counters moves, by one.
\<close>

lemma check_decides:
  assumes "risk_inv e" and "has_room (o_stock x) e"
  shows "fst (check x e) = risk_decision x (reference_of (o_stock x) e) (position_of (o_stock x) e) \<and>
         re_accepted (snd (check x e)) = re_accepted e + of_bool (fst (check x e) = Accepted) \<and>
         re_rejected (snd (check x e)) = re_rejected e + of_bool (fst (check x e) \<noteq> Accepted)"
  using check_law [OF assms(1) prod.collapse [symmetric], of x] net_at_position [OF assms] by simp

text \<open>
  Positions are kept per instrument: while the table knows the ticker or has room for it, a fill
  moves the position of its ticker by exactly its signed size and no other ticker's.
\<close>

lemma fills_are_per_instrument:
  assumes "risk_inv e" and "has_room stock e"
  shows "risk_inv (on_fill stock side q e) \<and>
    position_of s (on_fill stock side q e) =
      position_of s e + (if take 8 s = take 8 stock then signed_qty side q else 0)"
  using on_fill_positions [OF assms] by blast

text \<open>
  C37. The position limit holds on every sequence in which accepted orders are filled, in part or
  in whole, before the next check: no entry's net position ever passes 100,000 shares long or
  short, so the 64-bit arithmetic never overflows.
\<close>

theorem checked_trading_stays_within_limits:
  "\<bar>pe_net_position (re_positions (fold risk_step cmds RiskEngine_new) ! (j mod MAX_INSTRUMENTS))\<bar> \<le> MAX_NET_POSITION"
  using risk_run.run_inv [of RiskEngine_new cmds] new_risk by (simp add: within_limits_def MAX_INSTRUMENTS_def)

text \<open>
  The check looks at filled positions only: any number of buys of 10,000 shares in a row are all
  accepted while none has filled, and their fills then take the position as far past the limit as
  there were orders (eleven already exceed it).
\<close>

lemma open_orders_escape_the_limit:
  "fst (check (risk_order Buy 10000) (checks n (risk_order Buy 10000) RiskEngine_new)) = Accepted \<and>
   position_of (o_stock (risk_order Buy 10000))
     (fills n (o_stock (risk_order Buy 10000)) Buy 10000 (checks n (risk_order Buy 10000) RiskEngine_new)) =
   10000 * int n"
proof -
  let ?x = "risk_order Buy 10000"
  have room: "has_room (o_stock ?x) RiskEngine_new" by (simp add: has_room_def RiskEngine_new_def MAX_INSTRUMENTS_def)
  have start: "position_of (o_stock ?x) RiskEngine_new = 0" "reference_of (o_stock ?x) RiskEngine_new = 0"
    by code_simp+
  note c = checks_law [OF new_risk(1) room, of n]
  have "risk_decision ?x 0 0 = Accepted" by code_simp
  then show ?thesis
    using check_law(1) [OF c(1) prod.collapse [symmetric], of ?x] net_at_position [OF c(1,2)] c(3,4) start
      fills_law [OF c(1,2), of n Buy 10000] by (simp add: signed_qty_def)
qed

end
