(* ===== verification/Ouch.thy ===== *)
theory Ouch
  imports Software_Engine "HOL-Library.Monad_Syntax"
begin

text \<open>
  \<^verbatim>\<open>OuchSerializer\<close> (\<^verbatim>\<open>include/ouch.hpp\<close>, \<^verbatim>\<open>src/ouch.cpp\<close>): outbound messages written into the
  caller's buffer. A buffer is the object the pointer points into; a write outside it has no
  defined result (\<^const>\<open>None\<close>). Proved: the executed and rejected messages carry their fields in
  network order at fixed offsets and stay inside the buffer; the accepted message does not.
\<close>

section \<open>Field writers\<close>

definition write_u8 :: "nat \<Rightarrow> u8 \<Rightarrow> bytes \<Rightarrow> bytes option" where
  "write_u8 off v buf = mem_write buf off [v]"

definition write_u32 :: "nat \<Rightarrow> u32 \<Rightarrow> bytes \<Rightarrow> bytes option" where
  "write_u32 off v buf = mem_write buf off
     [ucast (drop_bit 24 v AND 0xFF), ucast (drop_bit 16 v AND 0xFF), ucast (drop_bit 8 v AND 0xFF), ucast (v AND 0xFF)]"

definition write_u64 :: "nat \<Rightarrow> u64 \<Rightarrow> bytes \<Rightarrow> bytes option" where
  "write_u64 off v buf = do {
     buf \<leftarrow> write_u32 off (ucast (drop_bit 32 v)) buf;
     write_u32 (off + 4) (ucast (v AND 0xFFFFFFFF)) buf }"

datatype OuchMsgType = OrderAccepted | OrderRejected | OrderExecuted | OrderCancelled

fun ouch_code :: "OuchMsgType \<Rightarrow> u8" where
  "ouch_code OrderAccepted = byte_of CHR ''A''"
| "ouch_code OrderRejected = byte_of CHR ''J''"
| "ouch_code OrderExecuted = byte_of CHR ''E''"
| "ouch_code OrderCancelled = byte_of CHR ''C''"

section \<open>Messages\<close>

text \<open>The buffer argument is \<^const>\<open>None\<close> for a null pointer; the result is the return value and the buffer.\<close>

definition write_accepted :: "bytes option \<Rightarrow> u32 \<Rightarrow> Order \<Rightarrow> u64 \<Rightarrow> (u32 \<times> bytes option) option" where
  "write_accepted ptr buf_len x timestamp =
     (case ptr of None \<Rightarrow> Some (0, None)
      | Some buf \<Rightarrow>
          if buf_len < 32 then Some (0, Some buf)
          else do {
            buf \<leftarrow> write_u8 0 (ouch_code OrderAccepted) buf;
            buf \<leftarrow> write_u64 1 timestamp buf;
            buf \<leftarrow> write_u64 9 (o_order_ref x) buf;
            buf \<leftarrow> write_u8 17 (side_code (o_side x)) buf;
            buf \<leftarrow> write_u32 18 (o_quantity x) buf;
            buf \<leftarrow> write_u32 22 (o_price x) buf;
            buf \<leftarrow> mem_write buf 26 (take 8 (o_stock x));
            Some (32, Some buf) })"

definition write_rejected :: "bytes option \<Rightarrow> u32 \<Rightarrow> Order \<Rightarrow> u8 \<Rightarrow> u64 \<Rightarrow> (u32 \<times> bytes option) option" where
  "write_rejected ptr buf_len x reason timestamp =
     (case ptr of None \<Rightarrow> Some (0, None)
      | Some buf \<Rightarrow>
          if buf_len < 19 then Some (0, Some buf)
          else do {
            buf \<leftarrow> write_u8 0 (ouch_code OrderRejected) buf;
            buf \<leftarrow> write_u64 1 timestamp buf;
            buf \<leftarrow> write_u64 9 (o_order_ref x) buf;
            buf \<leftarrow> write_u8 17 reason buf;
            buf \<leftarrow> write_u8 18 0 buf;
            Some (19, Some buf) })"

definition write_executed ::
    "bytes option \<Rightarrow> u32 \<Rightarrow> Order \<Rightarrow> MatchResult \<Rightarrow> u64 \<Rightarrow> u64 \<Rightarrow> (u32 \<times> bytes option) option" where
  "write_executed ptr buf_len x result match_id timestamp =
     (case ptr of None \<Rightarrow> Some (0, None)
      | Some buf \<Rightarrow>
          if buf_len < 34 then Some (0, Some buf)
          else do {
            buf \<leftarrow> write_u8 0 (ouch_code OrderExecuted) buf;
            buf \<leftarrow> write_u64 1 timestamp buf;
            buf \<leftarrow> write_u64 9 (o_order_ref x) buf;
            buf \<leftarrow> write_u32 17 (mr_quantity result) buf;
            buf \<leftarrow> write_u32 21 (mr_price result) buf;
            buf \<leftarrow> write_u64 25 match_id buf;
            buf \<leftarrow> write_u8 33 0 buf;
            Some (34, Some buf) })"

text \<open>\<^verbatim>\<open>peek\<close>: the first byte, cast to the enumeration, which C++ does not check; a null pointer peeks as a rejection.\<close>

definition peek :: "bytes option \<Rightarrow> u8" where
  "peek ptr = (case ptr of None \<Rightarrow> ouch_code OrderRejected | Some buf \<Rightarrow> buf ! 0)"

section \<open>Writing front to back\<close>

text \<open>The buffer with its first bytes replaced; a field written right behind them extends them.\<close>

definition written :: "bytes \<Rightarrow> bytes \<Rightarrow> bytes" where
  "written pre buf = pre @ drop (length pre) buf"

lemma write_next:
  assumes "length pre = off" and "off + length src \<le> length buf"
  shows "mem_write (written pre buf) off src = Some (written (pre @ src) buf)"
  using assms by (simp add: mem_write_def written_def add.commute)

lemma u32_bytes:
  "[ucast (drop_bit 24 v AND 0xFF), ucast (drop_bit 16 v AND 0xFF), ucast (drop_bit 8 v AND 0xFF), ucast (v AND 0xFF)] =
     be_bytes 4 (v :: u32)"
proof -
  have "(ucast (w AND 0xFF) :: u8) = ucast w" for w :: u32
  proof -
    have "(ucast (take_bit 8 w) :: u8) = ucast w" by (rule bit_word_eqI) (auto simp: bit_simps)
    then show ?thesis by (simp add: take_bit_eq_mask mask_eq_exp_minus_1)
  qed
  then show ?thesis by (simp add: be_bytes_unfold)
qed

lemma write_u8_next:
  "length pre = off \<Longrightarrow> off + 1 \<le> length buf \<Longrightarrow> write_u8 off v (written pre buf) = Some (written (pre @ [v]) buf)"
  using write_next [of pre off "[v]" buf] by (simp add: write_u8_def)

lemma write_u32_next:
  "length pre = off \<Longrightarrow> off + 4 \<le> length buf \<Longrightarrow>
     write_u32 off v (written pre buf) = Some (written (pre @ be_bytes 4 v) buf)"
  using write_next [of pre off "be_bytes 4 v" buf] by (simp add: write_u32_def u32_bytes)

lemma u64_halves: "be_bytes 4 (ucast (drop_bit 32 v) :: u32) @ be_bytes 4 (ucast (v AND 0xFFFFFFFF) :: u32) = be_bytes 8 (v :: u64)"
proof -
  have hi: "(ucast (drop_bit n (ucast (drop_bit 32 v) :: u32)) :: u8) = ucast (drop_bit (n + 32) v)" if "n \<le> 24" for n
    using that by (intro bit_word_eqI) (auto simp: bit_simps ac_simps)
  have m: "(ucast (v AND 0xFFFFFFFF) :: u32) = ucast v"
  proof -
    have "(ucast (take_bit 32 v) :: u32) = ucast v" by (rule bit_word_eqI) (auto simp: bit_simps)
    then show ?thesis by (simp add: take_bit_eq_mask mask_eq_exp_minus_1)
  qed
  have lo: "(ucast (drop_bit n (ucast v :: u32)) :: u8) = ucast (drop_bit n v)" if "n \<le> 24" for n
    using that by (intro bit_word_eqI) (auto simp: bit_simps)
  show ?thesis using hi [of 0] hi [of 8] hi [of 16] hi [of 24] lo [of 0] lo [of 8] lo [of 16] lo [of 24]
    by (simp add: be_bytes_unfold m)
qed

lemma write_u64_next:
  assumes "length pre = off" and "off + 8 \<le> length buf"
  shows "write_u64 off v (written pre buf) = Some (written (pre @ be_bytes 8 v) buf)"
  using write_u32_next [of pre off buf "ucast (drop_bit 32 v)"]
    write_u32_next [of "pre @ be_bytes 4 (ucast (drop_bit 32 v) :: u32)" "off + 4" buf "ucast (v AND 0xFFFFFFFF)"]
    assms by (simp add: write_u64_def u64_halves)

section \<open>Layouts\<close>

definition rejected_layout :: "Order \<Rightarrow> u8 \<Rightarrow> u64 \<Rightarrow> bytes" where
  "rejected_layout x reason ts =
     [ouch_code OrderRejected] @ be_bytes 8 ts @ be_bytes 8 (o_order_ref x) @ [reason, 0]"

definition executed_layout :: "Order \<Rightarrow> MatchResult \<Rightarrow> u64 \<Rightarrow> u64 \<Rightarrow> bytes" where
  "executed_layout x r match_id ts =
     [ouch_code OrderExecuted] @ be_bytes 8 ts @ be_bytes 8 (o_order_ref x) @ be_bytes 4 (mr_quantity r) @
     be_bytes 4 (mr_price r) @ be_bytes 8 match_id @ [0]"

definition accepted_layout :: "Order \<Rightarrow> u64 \<Rightarrow> bytes" where
  "accepted_layout x ts =
     [ouch_code OrderAccepted] @ be_bytes 8 ts @ be_bytes 8 (o_order_ref x) @ [side_code (o_side x)] @
     be_bytes 4 (o_quantity x) @ be_bytes 4 (o_price x) @ take 8 (o_stock x)"

lemma first_u8: "1 \<le> length buf \<Longrightarrow> write_u8 0 v buf = Some (written [v] buf)"
  using write_u8_next [of "[]" 0 buf v] by (simp add: written_def)

lemmas writes_next = first_u8 write_u8_next write_u32_next write_u64_next

lemma write_rejected_bytes:
  assumes "19 \<le> unat buf_len" and "unat buf_len \<le> length buf"
  shows "write_rejected (Some buf) buf_len x reason ts = Some (19, Some (rejected_layout x reason ts @ drop 19 buf))"
proof -
  have "\<not> buf_len < 19" using assms(1) by (simp add: word_less_nat_alt)
  then have "write_rejected (Some buf) buf_len x reason ts = Some (19, Some (written (rejected_layout x reason ts) buf))"
    using assms by (simp add: write_rejected_def writes_next rejected_layout_def)
  then show ?thesis by (simp add: written_def rejected_layout_def)
qed

lemma write_executed_bytes:
  assumes "34 \<le> unat buf_len" and "unat buf_len \<le> length buf"
  shows "write_executed (Some buf) buf_len x r match_id ts =
    Some (34, Some (executed_layout x r match_id ts @ drop 34 buf))"
proof -
  have "\<not> buf_len < 34" using assms(1) by (simp add: word_less_nat_alt)
  then have "write_executed (Some buf) buf_len x r match_id ts =
      Some (34, Some (written (executed_layout x r match_id ts) buf))"
    using assms by (simp add: write_executed_def writes_next executed_layout_def)
  then show ?thesis by (simp add: written_def executed_layout_def)
qed

lemma accepted_prefix:
  assumes "32 \<le> unat buf_len" and "unat buf_len \<le> length buf" and "length (o_stock x) = 8"
  shows "write_accepted (Some buf) buf_len x ts =
    (if 34 \<le> length buf then Some (32, Some (accepted_layout x ts @ drop 34 buf)) else None)"
proof -
  define pre where "pre = [ouch_code OrderAccepted] @ be_bytes 8 ts @ be_bytes 8 (o_order_ref x) @
    [side_code (o_side x)] @ be_bytes 4 (o_quantity x) @ be_bytes 4 (o_price x)"
  have len: "length pre = 26" by (simp add: pre_def)
  have "\<not> buf_len < 32" using assms(1) by (simp add: word_less_nat_alt)
  then have "write_accepted (Some buf) buf_len x ts =
      Option.bind (mem_write (written pre buf) 26 (o_stock x)) (\<lambda>b. Some (32, Some b))"
    using assms by (simp add: write_accepted_def writes_next pre_def)
  also have "\<dots> = (if 34 \<le> length buf then Some (32, Some (accepted_layout x ts @ drop 34 buf)) else None)"
    using assms len by (auto simp: mem_write_def written_def accepted_layout_def pre_def)
  finally show ?thesis .
qed

section \<open>Properties\<close>

definition sample_fill :: MatchResult where
  "sample_fill = \<lparr>mr_buy_order_ref = 7, mr_sell_order_ref = 3, mr_price = 10100, mr_quantity = 30, mr_matched = True\<rparr>"

text \<open>
  An executed message is written whole into any buffer the caller vouches for, touches no byte
  past its 34, and a reader of the wire gets every field back: type, timestamp, reference, size,
  price and match id, in network byte order at their offsets.
\<close>

lemma executed_roundtrip:
  assumes "34 \<le> unat buf_len" and "unat buf_len \<le> length buf"
  shows "\<exists>out. write_executed (Some buf) buf_len x r match_id ts = Some (34, Some out) \<and>
    length out = length buf \<and> drop 34 out = drop 34 buf \<and> peek (Some out) = ouch_code OrderExecuted \<and>
    be64 (drop 1 out) = ts \<and> be64 (drop 9 out) = o_order_ref x \<and> be32 (drop 17 out) = mr_quantity r \<and>
    be32 (drop 21 out) = mr_price r \<and> be64 (drop 25 out) = match_id"
proof -
  let ?out = "executed_layout x r match_id ts @ drop 34 buf"
  have len: "length (executed_layout x r match_id ts) = 34" by (simp add: executed_layout_def)
  have fields: "drop 1 ?out = be_bytes 8 ts @ drop 9 ?out" "drop 9 ?out = be_bytes 8 (o_order_ref x) @ drop 17 ?out"
    "drop 17 ?out = be_bytes 4 (mr_quantity r) @ drop 21 ?out" "drop 21 ?out = be_bytes 4 (mr_price r) @ drop 25 ?out"
    "drop 25 ?out = be_bytes 8 match_id @ drop 33 ?out"
    by (simp_all add: executed_layout_def)
  have "be64 (drop 1 ?out) = ts" "be64 (drop 9 ?out) = o_order_ref x" "be32 (drop 17 ?out) = mr_quantity r"
    "be32 (drop 21 ?out) = mr_price r" "be64 (drop 25 ?out) = match_id"
    by (subst fields, rule f64.dec_enc_append f32.dec_enc_append)+
  moreover have "peek (Some ?out) = ouch_code OrderExecuted" by (simp add: peek_def executed_layout_def)
  ultimately show ?thesis
    using write_executed_bytes [OF assms, of x r match_id ts] len assms by (intro exI [of _ ?out]) simp
qed

text \<open>
  A rejected message is written whole into any buffer the caller vouches for, touches no byte
  past its 19, and carries the reason code, the timestamp and the reference.
\<close>

lemma rejected_roundtrip:
  assumes "19 \<le> unat buf_len" and "unat buf_len \<le> length buf"
  shows "\<exists>out. write_rejected (Some buf) buf_len x reason ts = Some (19, Some out) \<and>
    length out = length buf \<and> drop 19 out = drop 19 buf \<and> peek (Some out) = ouch_code OrderRejected \<and>
    be64 (drop 1 out) = ts \<and> be64 (drop 9 out) = o_order_ref x \<and> out ! 17 = reason"
proof -
  let ?out = "rejected_layout x reason ts @ drop 19 buf"
  have len: "length (rejected_layout x reason ts) = 19" by (simp add: rejected_layout_def)
  have fields: "drop 1 ?out = be_bytes 8 ts @ drop 9 ?out" "drop 9 ?out = be_bytes 8 (o_order_ref x) @ drop 17 ?out"
    by (simp_all add: rejected_layout_def)
  have "be64 (drop 1 ?out) = ts" "be64 (drop 9 ?out) = o_order_ref x"
    by (subst fields, rule f64.dec_enc_append)+
  moreover have "peek (Some ?out) = ouch_code OrderRejected" "?out ! 17 = reason"
    by (simp_all add: peek_def rejected_layout_def nth_append)
  ultimately show ?thesis
    using write_rejected_bytes [OF assms, of x reason ts] len assms by (intro exI [of _ ?out]) simp
qed

text \<open>
  C39. The accepted message reports 32 bytes but writes 34: given a buffer of exactly the size it
  asks for it writes past the end, and in a larger one the last two letters of the ticker lie
  outside the message it reports.
\<close>

theorem accepted_overruns:
  assumes "length (o_stock x) = 8" and "32 \<le> unat buf_len" and "unat buf_len \<le> length buf"
  shows "(length buf < 34 \<longrightarrow> write_accepted (Some buf) buf_len x ts = None) \<and>
    (34 \<le> length buf \<longrightarrow> (\<exists>out. write_accepted (Some buf) buf_len x ts = Some (32, Some out) \<and>
       take 34 out = accepted_layout x ts \<and> drop 26 (take 32 out) = take 6 (o_stock x)))"
proof -
  have "length (accepted_layout x ts) = 34" using assms(1) by (simp add: accepted_layout_def)
  moreover have "drop 26 (take 32 (accepted_layout x ts)) = take 6 (o_stock x)"
    using assms(1) by (simp add: accepted_layout_def take_Cons' drop_Cons')
  ultimately show ?thesis using accepted_prefix [OF assms(2,3,1), of ts] by auto
qed

theorem accepted_overruns_witness:
  "write_accepted (Some (replicate 32 0)) 32 (limit_order Buy 7 10200 100) 99 = None"
  using accepted_overruns [of "limit_order Buy 7 10200 100" 32 "replicate 32 0" 99]
  by (simp add: limit_order_def Order_zero_def)

end
