(* ===== verification/Wal.thy ===== *)
theory Wal
  imports Software_Engine
begin

text \<open>
  \<^verbatim>\<open>WriteAheadLog\<close> (\<^verbatim>\<open>include/wal.hpp\<close>, \<^verbatim>\<open>src/wal.cpp\<close>): an append-only file of fixed-size entries.
  The file is its bytes; an entry is written as it lies in memory, so its layout is that of a
  little-endian 64-bit target (the static assertion fixes the size at 192; padding is written as
  zero here and read by nobody). Whether the buffered \<^verbatim>\<open>fwrite\<close> took the entry, how many of its bytes
  were in the file when the append returned or the process died, and the time, are arguments. Proved: recovery reads back exactly the entries whose
  writes completed, numbered without holes, also after a torn last write and across reopening.
\<close>

section \<open>Entries\<close>

datatype WalEntryType = OrderSubmitted | OrderMatched | OrderRejected

record WalEntry =
  we_sequence :: u64
  we_timestamp_ns :: u64
  we_type :: WalEntryType
  we_order :: Order
  we_result :: MatchResult

definition WAL_ENTRY_SIZE :: nat where "WAL_ENTRY_SIZE = 192"

definition le_bytes :: "nat \<Rightarrow> 'a::len word \<Rightarrow> bytes" where
  "le_bytes n w = rev (be_bytes n w)"

definition le_word :: "nat \<Rightarrow> bytes \<Rightarrow> 'a::len word" where
  "le_word n bs = be_word (rev (take n bs))"

fun type_code :: "WalEntryType \<Rightarrow> u8" where
  "type_code OrderSubmitted = 1"
| "type_code OrderMatched = 2"
| "type_code OrderRejected = 3"

definition type_of_code :: "u8 \<Rightarrow> WalEntryType" where
  "type_of_code b = (if b = 1 then OrderSubmitted else if b = 2 then OrderMatched else OrderRejected)"

definition side_of_code :: "u8 \<Rightarrow> Side" where
  "side_of_code b = (if b = byte_of CHR ''B'' then Buy else if b = byte_of CHR ''S'' then Sell else Side_None)"

definition action_of_code :: "u8 \<Rightarrow> Action" where
  "action_of_code b = (if b = 1 then Add else if b = 2 then Execute else if b = 3 then Cancel else if b = 4 then Delete
     else if b = 5 then Replace else if b = 6 then Trade else Action_None)"

definition order_image :: "Order \<Rightarrow> bytes" where
  "order_image o' =
     le_bytes 8 (o_timestamp_ns o') @ le_bytes 8 (o_order_ref o') @ le_bytes 8 (o_new_order_ref o') @
     le_bytes 8 (o_match_number o') @ le_bytes 4 (o_quantity o') @ le_bytes 4 (o_price o') @
     le_bytes 2 (o_stock_locate o') @ [side_code (o_side o'), ucast (action_code (o_action o')), o_valid o'] @ o_stock o' @ replicate 11 0"

definition order_at :: "bytes \<Rightarrow> Order" where
  "order_at p = \<lparr>o_timestamp_ns = le_word 8 p, o_order_ref = le_word 8 (drop 8 p), o_new_order_ref = le_word 8 (drop 16 p),
     o_match_number = le_word 8 (drop 24 p), o_quantity = le_word 4 (drop 32 p), o_price = le_word 4 (drop 36 p),
     o_stock_locate = le_word 2 (drop 40 p), o_side = side_of_code (p ! 42), o_action = action_of_code (p ! 43),
     o_valid = p ! 44, o_stock = take 8 (drop 45 p)\<rparr>"

definition result_image :: "MatchResult \<Rightarrow> bytes" where
  "result_image r = le_bytes 8 (mr_buy_order_ref r) @ le_bytes 8 (mr_sell_order_ref r) @ le_bytes 4 (mr_price r) @
     le_bytes 4 (mr_quantity r) @ [if mr_matched r then 1 else 0] @ replicate 7 0"

definition result_at :: "bytes \<Rightarrow> MatchResult" where
  "result_at p = \<lparr>mr_buy_order_ref = le_word 8 p, mr_sell_order_ref = le_word 8 (drop 8 p), mr_price = le_word 4 (drop 16 p),
     mr_quantity = le_word 4 (drop 20 p), mr_matched = (p ! 24 \<noteq> 0)\<rparr>"

definition entry_image :: "WalEntry \<Rightarrow> bytes" where
  "entry_image e = le_bytes 8 (we_sequence e) @ le_bytes 8 (we_timestamp_ns e) @ [type_code (we_type e)] @ replicate 47 0 @
     order_image (we_order e) @ result_image (we_result e) @ replicate 32 0"

definition entry_at :: "bytes \<Rightarrow> WalEntry" where
  "entry_at p = \<lparr>we_sequence = le_word 8 p, we_timestamp_ns = le_word 8 (drop 8 p), we_type = type_of_code (p ! 16),
     we_order = order_at (drop 64 p), we_result = result_at (drop 128 p)\<rparr>"

section \<open>The log\<close>

record WriteAheadLog =
  wl_open :: bool
  wl_sequence :: u64

definition WriteAheadLog_new :: WriteAheadLog where
  "WriteAheadLog_new = \<lparr>wl_open = False, wl_sequence = 0\<rparr>"

text \<open>\<open>found\<close>: whether \<^verbatim>\<open>fopen\<close> succeeded; the division is of the file size by the entry size.\<close>

definition wal_open :: "bool \<Rightarrow> bytes \<Rightarrow> WriteAheadLog \<Rightarrow> bool \<times> WriteAheadLog" where
  "wal_open found file w =
     (if \<not> found then (False, w\<lparr>wl_open := False\<rparr>)
      else (True, w\<lparr>wl_open := True, wl_sequence := of_nat (length file div WAL_ENTRY_SIZE)\<rparr>))"

text \<open>
  \<open>accepted\<close>: whether \<^verbatim>\<open>fwrite\<close>, which only fills the buffer of the stream, returned 1. \<open>written\<close>: how many
  bytes of the entry reached the file, at the \<^verbatim>\<open>fflush\<close> whose result the code does not look at or, after
  a refused \<^verbatim>\<open>fwrite\<close>, before it. Bytes a failed flush leaves in the buffer count as lost.
\<close>

definition wal_append ::
    "u64 \<Rightarrow> bool \<Rightarrow> nat \<Rightarrow> WalEntryType \<Rightarrow> Order \<Rightarrow> MatchResult \<Rightarrow> WriteAheadLog \<times> bytes \<Rightarrow> bool \<times> WriteAheadLog \<times> bytes" where
  "wal_append now accepted written type order result s =
     (case s of (w, file) \<Rightarrow>
        if \<not> wl_open w then (False, w, file)
        else
          let w = w\<lparr>wl_sequence := wl_sequence w + 1\<rparr>;
              entry = \<lparr>we_sequence = wl_sequence w, we_timestamp_ns = now, we_type = type, we_order = order, we_result = result\<rparr>
          in (accepted, w, file @ take written (entry_image entry)))"

definition wal_close :: "WriteAheadLog \<Rightarrow> WriteAheadLog" where
  "wal_close w = w\<lparr>wl_open := False\<rparr>"

text \<open>The reading loop: whole entries until fewer bytes than an entry are left.\<close>

function wal_entries :: "bytes \<Rightarrow> WalEntry list" where
  "wal_entries f =
     (if length f < WAL_ENTRY_SIZE then [] else entry_at (take WAL_ENTRY_SIZE f) # wal_entries (drop WAL_ENTRY_SIZE f))"
  by pat_completeness auto

termination
  by (relation "measure length") (auto simp: WAL_ENTRY_SIZE_def)

declare wal_entries.simps [simp del]

definition wal_replay :: "bytes option \<Rightarrow> (WalEntry \<Rightarrow> 'c \<Rightarrow> 'c) \<Rightarrow> 'c \<Rightarrow> bool \<times> 'c" where
  "wal_replay file callback ctx =
     (case file of None \<Rightarrow> (False, ctx)
      | Some f \<Rightarrow> (of_nat (length (wal_entries f)) > (0 :: u64), fold callback (wal_entries f) ctx))"

section \<open>Reading back an entry\<close>

lemma length_le_bytes [simp, tp_layout]: "length (le_bytes n w) = n"
  by (simp add: le_bytes_def)

lemma le_roundtrip: "LENGTH('a) \<le> 8 * n \<Longrightarrow> le_word n (le_bytes n w @ rest) = (w :: 'a::len word)"
  by (simp add: le_word_def le_bytes_def be_word_be_bytes)

interpretation le16: wire_field "le_bytes 2" "le_word 2 :: bytes \<Rightarrow> u16" 2
  by unfold_locales (simp_all add: le_word_def le_bytes_def be_word_be_bytes)

interpretation le32: wire_field "le_bytes 4" "le_word 4 :: bytes \<Rightarrow> u32" 4
  by unfold_locales (simp_all add: le_word_def le_bytes_def be_word_be_bytes)

interpretation le64: wire_field "le_bytes 8" "le_word 8 :: bytes \<Rightarrow> u64" 8
  by unfold_locales (simp_all add: le_word_def le_bytes_def be_word_be_bytes)

lemma type_roundtrip [tp_wire]: "type_of_code (type_code t) = t"
  by (cases t) (simp_all add: type_of_code_def)

lemma side_roundtrip [tp_wire]: "side_of_code (side_code s) = s"
  by (cases s) (simp_all add: side_of_code_def)

lemma action_roundtrip [tp_wire]: "action_of_code (ucast (action_code a)) = a"
  by (cases a) (simp_all add: action_of_code_def)

lemma length_order_image [tp_layout]: "length (o_stock o') = 8 \<Longrightarrow> length (order_image o') = 64"
  by (simp add: order_image_def)

lemma length_result_image [tp_layout]: "length (result_image r) = 32"
  by (simp add: result_image_def)

lemma length_entry_image: "length (o_stock (we_order e)) = 8 \<Longrightarrow> length (entry_image e) = WAL_ENTRY_SIZE"
  by (simp add: entry_image_def WAL_ENTRY_SIZE_def tp_layout)

lemma order_roundtrip: "length (o_stock o') = 8 \<Longrightarrow> order_at (order_image o' @ rest) = o'"
  by (simp add: order_at_def order_image_def le64.dec_enc_append le32.dec_enc_append le16.dec_enc_append nth_append tp_wire)

lemma result_roundtrip: "result_at (result_image r @ rest) = r"
  by (simp add: result_at_def result_image_def le64.dec_enc_append le32.dec_enc_append nth_append)

lemma entry_roundtrip: "length (o_stock (we_order e)) = 8 \<Longrightarrow> entry_at (entry_image e) = e"
  by (simp add: entry_at_def entry_image_def le64.dec_enc_append nth_append order_roundtrip result_roundtrip tp_wire tp_layout)

section \<open>Sessions\<close>

datatype wal_event = Append_entry u64 WalEntryType Order MatchResult | Reopen

text \<open>Whole writes; \<open>Reopen\<close> closes the log and opens the same file again.\<close>

fun wal_step :: "wal_event \<Rightarrow> WriteAheadLog \<times> bytes \<Rightarrow> WriteAheadLog \<times> bytes" where
  "wal_step (Append_entry now type order result) s = snd (wal_append now True WAL_ENTRY_SIZE type order result s)"
| "wal_step Reopen s = (snd (wal_open True (snd s) (wal_close (fst s))), snd s)"

text \<open>The specification: the entries of a session, numbered from \<open>n + 1\<close>.\<close>

fun logged :: "nat \<Rightarrow> wal_event list \<Rightarrow> WalEntry list" where
  "logged n [] = []"
| "logged n (Append_entry now type order result # es) =
     \<lparr>we_sequence = of_nat (Suc n), we_timestamp_ns = now, we_type = type, we_order = order, we_result = result\<rparr> # logged (Suc n) es"
| "logged n (Reopen # es) = logged n es"

fun wal_event_ok :: "wal_event \<Rightarrow> bool" where
  "wal_event_ok (Append_entry now type order result) \<longleftrightarrow> length (o_stock order) = 8"
| "wal_event_ok Reopen \<longleftrightarrow> True"

definition log_rep :: "WriteAheadLog \<times> bytes \<Rightarrow> WalEntry list \<Rightarrow> bool" where
  "log_rep s es \<longleftrightarrow> wl_open (fst s) \<and> wl_sequence (fst s) = of_nat (length es) \<and> snd s = concat (map entry_image es) \<and>
     list_all (\<lambda>e. length (o_stock (we_order e)) = 8) es"

lemma image_lengths:
  "list_all (\<lambda>e. length (o_stock (we_order e)) = 8) es \<Longrightarrow> length (concat (map entry_image es)) = length es * WAL_ENTRY_SIZE"
  by (induction es) (simp_all add: length_entry_image)

lemma wal_entries_images:
  "list_all (\<lambda>e. length (o_stock (we_order e)) = 8) es \<Longrightarrow> length torn < WAL_ENTRY_SIZE \<Longrightarrow>
     wal_entries (concat (map entry_image es) @ torn) = es"
proof (induction es)
  case Nil
  then show ?case by (simp add: wal_entries.simps)
next
  case (Cons e es)
  then have "length (entry_image e) = WAL_ENTRY_SIZE" "entry_at (entry_image e) = e"
    by (simp_all add: length_entry_image entry_roundtrip)
  then show ?case using Cons by (subst wal_entries.simps) simp
qed

lemma wal_open_rep:
  assumes "log_rep s es"
  shows "log_rep (wal_step Reopen s) es"
proof -
  have "length (snd s) div WAL_ENTRY_SIZE = length es"
    using assms image_lengths [of es] by (simp add: log_rep_def WAL_ENTRY_SIZE_def)
  then show ?thesis using assms by (simp add: log_rep_def wal_open_def wal_close_def)
qed

lemma wal_append_rep:
  assumes "log_rep s es" and "length (o_stock order) = 8"
  shows "log_rep (wal_step (Append_entry now type order result) s) (es @ logged (length es) [Append_entry now type order result])"
proof -
  obtain w f where s: "s = (w, f)" by (cases s)
  define e where "e = \<lparr>we_sequence = wl_sequence w + 1, we_timestamp_ns = now, we_type = type, we_order = order, we_result = result\<rparr>"
  have "take WAL_ENTRY_SIZE (entry_image e) = entry_image e" using length_entry_image [of e] assms(2) by (simp add: e_def)
  then show ?thesis using assms by (simp add: s wal_append_def log_rep_def Let_def e_def algebra_simps)
qed

lemma logged_append: "logged n (es @ fs) = logged n es @ logged (n + length (logged n es)) fs"
  by (induction n es rule: logged.induct) simp_all

lemma logged_length: "length (logged n es) \<le> length es"
  by (induction n es rule: logged.induct) simp_all

lemma wal_run_rep:
  assumes "list_all wal_event_ok evs"
  shows "log_rep (fold wal_step evs (snd (wal_open True [] WriteAheadLog_new), [])) (logged 0 evs)"
  using assms
proof (induction evs rule: rev_induct)
  case Nil
  then show ?case by (simp add: log_rep_def wal_open_def WriteAheadLog_new_def)
next
  case (snoc e evs)
  then have IH: "log_rep (fold wal_step evs (snd (wal_open True [] WriteAheadLog_new), [])) (logged 0 evs)" by simp
  show ?case
  proof (cases e)
    case (Append_entry now type order result)
    then show ?thesis using wal_append_rep [OF IH, of order now type result] snoc.prems by (simp add: logged_append del: wal_step.simps)
  next
    case Reopen
    then show ?thesis using wal_open_rep [OF IH] by (simp add: logged_append del: wal_step.simps)
  qed
qed

text \<open>
  C21. Crash recovery: after any session of complete appends, with the log closed and reopened at
  will, let one more write be cut short after \<open>t\<close> of its 192 bytes (none, if \<open>t = 0\<close>). Then
  replaying the file calls back with exactly the entries that were completed, in order, with their
  orders, results and times as written and sequence numbers 1, 2, 3 and so on. Whether the append that
  was cut short reports failure depends on the buffered \<^verbatim>\<open>fwrite\<close> alone: cut short at the flush it
  returns true, and the entry is lost all the same.
\<close>

theorem wal_recovers_completed_entries:
  assumes "list_all wal_event_ok evs" and "length (o_stock order) = 8" and "t < WAL_ENTRY_SIZE" and "length evs < 2 ^ 64"
  shows "case wal_append now accepted t type order result (fold wal_step evs (snd (wal_open True [] WriteAheadLog_new), [])) of
     (ok, w, file) \<Rightarrow> (ok \<longleftrightarrow> accepted) \<and> wal_replay (Some file) callback ctx = (logged 0 evs \<noteq> [], fold callback (logged 0 evs) ctx)"
proof -
  obtain w f where run: "fold wal_step evs (snd (wal_open True [] WriteAheadLog_new), []) = (w, f)" by fastforce
  have rep: "wl_open w" "f = concat (map entry_image (logged 0 evs))" "list_all (\<lambda>e. length (o_stock (we_order e)) = 8) (logged 0 evs)"
    using wal_run_rep [OF assms(1)] by (simp_all add: run log_rep_def)
  have "wal_entries (f @ take t img) = logged 0 evs" for img
    using wal_entries_images [OF rep(3), of "take t img"] assms(3) rep(2) by simp
  moreover have "length (logged 0 evs) \<le> length evs" by (rule logged_length)
  ultimately show ?thesis using rep(1) assms(3,4)
    by (auto simp: run wal_append_def wal_replay_def Let_def word_less_nat_alt unat_of_nat)
qed

text \<open>An append that returned true and left 100 bytes.\<close>

theorem wal_recovers_completed_entries_witness:
  "case wal_append 9 True 100 OrderMatched Order_zero MatchResult_zero
      (fold wal_step [Append_entry 7 OrderSubmitted (Order_zero\<lparr>o_order_ref := 5\<rparr>) MatchResult_zero, Reopen]
         (snd (wal_open True [] WriteAheadLog_new), [])) of
     (ok, w, file) \<Rightarrow> ok \<and> wal_replay (Some file) (\<lambda>e ctx. ctx @ [(we_sequence e, o_order_ref (we_order e))]) [] = (True, [(1, 5)])"
  using wal_recovers_completed_entries
    [where evs = "[Append_entry 7 OrderSubmitted (Order_zero\<lparr>o_order_ref := 5\<rparr>) MatchResult_zero, Reopen]"
       and order = Order_zero and accepted = True and t = 100 and now = 9 and type = OrderMatched and result = MatchResult_zero
       and callback = "\<lambda>e ctx. ctx @ [(we_sequence e, o_order_ref (we_order e))]" and ctx = "[]"]
  by (simp add: Order_zero_def WAL_ENTRY_SIZE_def)

text \<open>
  A torn entry is not cut off when the log is opened again: the next entry is appended behind it, and
  a later replay reads an entry spliced from the torn one and the first bytes of the new one, which
  itself is never recovered.
\<close>

lemma torn_write_splices_entries:
  assumes "list_all (\<lambda>e. length (o_stock (we_order e)) = 8) (es @ [e, e'])" and "0 < t" and "t < WAL_ENTRY_SIZE"
  shows "wal_entries (concat (map entry_image es) @ take t (entry_image e) @ entry_image e') =
     es @ [entry_at (take t (entry_image e) @ take (WAL_ENTRY_SIZE - t) (entry_image e'))]"
proof -
  define torn where "torn = take t (entry_image e)"
  have len: "length torn = t" "length (entry_image e') = WAL_ENTRY_SIZE" using assms by (simp_all add: torn_def length_entry_image)
  have "wal_entries (torn @ entry_image e') = [entry_at (torn @ take (WAL_ENTRY_SIZE - t) (entry_image e'))]"
    using len assms(2,3) by (subst wal_entries.simps, subst wal_entries.simps) simp
  moreover have "wal_entries (concat (map entry_image es) @ f) = es @ wal_entries f" for f
    using assms(1)
  proof (induction es)
    case (Cons a es)
    then have "length (entry_image a) = WAL_ENTRY_SIZE" "entry_at (entry_image a) = a"
      by (simp_all add: length_entry_image entry_roundtrip)
    then show ?case using Cons by (subst wal_entries.simps) simp
  qed simp
  ultimately show ?thesis by (simp add: torn_def)
qed

end
