(* ===== verification/Demo_Runs.thy ===== *)
theory Demo_Runs
  imports Risk_Engine Ouch Wal
begin

text \<open>
  The self-checking sections of the demonstration program (\<^verbatim>\<open>src/main.cpp\<close>): the parser on one message, the risk
  checks, the crash recovery of the write-ahead log and the outbound messages, as the sequences of
  calls the program makes. What is printed is the result here. Proved: the verdicts are the ones the
  labels of the section announce, the recovery reads back everything the log held and the five
  entries written, and all messages fit the buffer of the section.
\<close>

definition demo_stock :: bytes where "demo_stock = map byte_of ''AAPL    ''"

definition demo_order :: "u64 \<Rightarrow> u32 \<Rightarrow> u32 \<Rightarrow> Side \<Rightarrow> Order" where
  "demo_order ref price qty side =
     Order_zero\<lparr>o_order_ref := ref, o_price := price, o_quantity := qty, o_side := side, o_valid := 1, o_stock := demo_stock\<rparr>"

section \<open>Parser\<close>

definition demo_message :: bytes where
  "demo_message =
     byte_of CHR ''A'' # [0x00, 0x01, 0x00, 0x00, 0x00, 0x00, 0x0F, 0x42, 0x40, 0x00,
       0x00, 0x00, 0x00, 0x00, 0x00, 0x00, 0x00, 0x01, byte_of CHR ''B'', 0x00, 0x00, 0x00, 0x64]
     @ map byte_of ''AAPL    '' @ [0x00, 0x16, 0xE3, 0x60]"

text \<open>The warm-up and the measured calls, on the message above.\<close>

definition demo_itch_parser :: "Counts \<times> Order" where
  "demo_itch_parser =
     ((\<lambda>(cs, out). snd (parse (Some demo_message) (of_nat (length demo_message)) cs out)) ^^ (100000 + 1000000)) (Counts_zero, Order_zero)"

lemma demo_message_parses:
  "parse (Some demo_message) (of_nat (length demo_message)) cs out =
     (True, cs\<lparr>c_parsed := c_parsed cs + 1\<rparr>,
      Order_zero\<lparr>o_action := Add, o_order_ref := 1, o_side := Buy, o_quantity := 100, o_price := 1500000,
        o_stock := map byte_of ''AAPL    '', o_stock_locate := 1, o_timestamp_ns := 256000000, o_valid := 1\<rparr>)"
  by code_simp

lemma demo_itch_parser_accepts: "fst demo_itch_parser = Counts_zero\<lparr>c_parsed := 1100000\<rparr>"
proof -
  let ?f = "\<lambda>(cs, out). snd (parse (Some demo_message) (of_nat (length demo_message)) cs out)"
  have "fst ((?f ^^ n) (Counts_zero, out)) = Counts_zero\<lparr>c_parsed := of_nat n\<rparr>" for n and out :: Order
    by (induction n) (simp_all add: Counts_zero_def split_def demo_message_parses)
  then show ?thesis by (simp add: demo_itch_parser_def del: funpow.simps)
qed

section \<open>Risk engine\<close>

definition demo_test :: "u32 \<Rightarrow> u32 \<Rightarrow> Side \<Rightarrow> RiskResult list \<times> RiskEngine \<Rightarrow> RiskResult list \<times> RiskEngine" where
  "demo_test qty price side s =
     (case check (demo_order 1 price qty side) (snd s) of (r, risk) \<Rightarrow> (fst s @ [r], risk))"

definition demo_risk_engine :: "RiskResult list \<times> RiskEngine" where
  "demo_risk_engine =
     (let s = ([], set_reference_price demo_stock 1500000 RiskEngine_new);
          s = demo_test 100 1500000 Buy s;
          s = demo_test 50000 1500000 Buy s;
          s = demo_test 100 2000000 Buy s;
          s = demo_test 0 1500000 Buy s
      in demo_test 100 1500000 Sell s)"

lemma demo_risk_verdicts:
  "fst demo_risk_engine = [Accepted, ExceedsMaxSize, PriceOutOfBand, InvalidOrder, Accepted] \<and>
   re_accepted (snd demo_risk_engine) = 2 \<and> re_rejected (snd demo_risk_engine) = 3"
  by code_simp

section \<open>Write-ahead log\<close>

definition demo_events :: "(nat \<Rightarrow> u64) \<Rightarrow> wal_event list" where
  "demo_events now =
     [Append_entry (now 0) OrderSubmitted (demo_order 1 1500000 100 Sell) MatchResult_zero,
      Append_entry (now 1) OrderSubmitted (demo_order 2 1500000 100 Buy) MatchResult_zero,
      Append_entry (now 2) OrderMatched (demo_order 3 1500000 100 Buy) MatchResult_zero,
      Append_entry (now 3) OrderRejected (demo_order 4 1500000 50000 Buy) MatchResult_zero,
      Append_entry (now 4) OrderSubmitted (demo_order 5 1500000 200 Sell) MatchResult_zero]"

text \<open>
  \<open>old\<close> is what a file of that name held before, \<open>can_open\<close> whether it can be opened for appending, and
  \<open>found\<close> what the recovery can read if it cannot; the results are the number of entries reported as written
  and the rows of the recovery with their count.
\<close>

definition demo_wal :: "(nat \<Rightarrow> u64) \<Rightarrow> bool \<Rightarrow> bytes \<Rightarrow> bytes option \<Rightarrow> u64 \<times> int \<times> (u64 \<times> WalEntryType \<times> u64 \<times> u32) list" where
  "demo_wal now can_open old found =
     (case fold wal_step (demo_events now) (snd (wal_open can_open old WriteAheadLog_new), old) of (w, f) \<Rightarrow>
        (wl_sequence (wal_close w),
         snd (wal_replay (if can_open then Some f else found)
           (\<lambda>e (n, rows). (n + 1, rows @ [(we_sequence e, we_type e, o_order_ref (we_order e), o_quantity (we_order e))])) (0, []))))"

lemma wal_appends_rep:
  "log_rep s es \<Longrightarrow> list_all wal_event_ok evs \<Longrightarrow> log_rep (fold wal_step evs s) (es @ logged (length es) evs)"
proof (induction evs arbitrary: s es)
  case (Cons ev evs)
  show ?case
  proof (cases ev)
    case (Append_entry now type order result)
    then show ?thesis
      using Cons.IH [OF wal_append_rep [OF Cons.prems(1)], of order now type result] Cons.prems(2) by (simp del: wal_step.simps)
  next
    case Reopen
    then show ?thesis using Cons.IH [OF wal_open_rep [OF Cons.prems(1)]] Cons.prems(2) by (simp del: wal_step.simps)
  qed
qed simp

lemma fold_rows:
  "fold (\<lambda>e (n, rows). (n + 1, rows @ [f e])) es (k, acc) = (k + int (length es), acc @ map f es)"
  by (induction es arbitrary: k acc) simp_all

text \<open>
  Recovery is complete even after an earlier run that was interrupted before it could remove its
  file: the old entries come back first, and the new ones are numbered on from them.
\<close>

lemma demo_wal_recovers:
  assumes "list_all (\<lambda>e. length (o_stock (we_order e)) = 8) es"
  shows "demo_wal now True (concat (map entry_image es)) found =
     (of_nat (length es + 5), int (length es + 5),
      map (\<lambda>e. (we_sequence e, we_type e, o_order_ref (we_order e), o_quantity (we_order e))) es @
        [(of_nat (length es + 1), OrderSubmitted, 1, 100), (of_nat (length es + 2), OrderSubmitted, 2, 100),
         (of_nat (length es + 3), OrderMatched, 3, 100), (of_nat (length es + 4), OrderRejected, 4, 50000),
         (of_nat (length es + 5), OrderSubmitted, 5, 200)])"
proof -
  let ?old = "concat (map entry_image es)"
  have "log_rep (snd (wal_open True ?old WriteAheadLog_new), ?old) es"
    using assms image_lengths [OF assms] by (simp add: log_rep_def wal_open_def WAL_ENTRY_SIZE_def)
  moreover have "list_all wal_event_ok (demo_events now)" by (simp add: demo_events_def demo_order_def demo_stock_def)
  ultimately have rep: "log_rep (fold wal_step (demo_events now) (snd (wal_open True ?old WriteAheadLog_new), ?old))
      (es @ logged (length es) (demo_events now))" by (rule wal_appends_rep)
  obtain w f where run: "fold wal_step (demo_events now) (snd (wal_open True ?old WriteAheadLog_new), ?old) = (w, f)" by fastforce
  have f: "wal_entries f = es @ logged (length es) (demo_events now)" "wl_sequence w = of_nat (length (es @ logged (length es) (demo_events now)))"
    using rep wal_entries_images [of "es @ logged (length es) (demo_events now)" "[]"] by (simp_all add: run log_rep_def WAL_ENTRY_SIZE_def)
  show ?thesis unfolding demo_wal_def run prod.case if_True wal_replay_def option.case snd_conv f fold_rows
    by (simp add: wal_close_def f(2) demo_events_def demo_order_def algebra_simps)
qed

text \<open>A log that cannot be opened is not written; nothing is recovered when there is no file.\<close>

lemma demo_wal_unopened: "demo_wal now False old None = (0, 0, [])"
  by (simp add: demo_wal_def demo_events_def wal_open_def wal_append_def WriteAheadLog_new_def wal_close_def wal_replay_def)

section \<open>Outbound messages\<close>

definition demo_ouch :: "bytes \<Rightarrow> u64 \<Rightarrow> (u32 list \<times> bytes) option" where
  "demo_ouch buf ts =
     (let x = demo_order 42 1500000 100 Buy;
          result = \<lparr>mr_buy_order_ref = 42, mr_sell_order_ref = 43, mr_price = 1500000, mr_quantity = 100, mr_matched = True\<rparr>
      in do {
        (n1, buf1) \<leftarrow> write_accepted (Some buf) 64 x ts;
        (n2, buf2) \<leftarrow> write_rejected buf1 64 x 1 ts;
        (n3, buf3) \<leftarrow> write_executed buf2 64 x result 1 ts;
        map_option (\<lambda>b. ([n1, n2, n3], b)) buf3 })"

lemma demo_ouch_fits:
  assumes "length buf = 64"
  shows "\<exists>out. demo_ouch buf ts = Some ([32, 19, 34], out) \<and> length out = 64"
  using assms
  by (simp add: demo_ouch_def Let_def write_accepted_def write_rejected_def write_executed_def write_u8_def write_u32_def write_u64_def
      mem_write_def demo_order_def demo_stock_def)

end
