(* ===== verification/Symbol_Directory.thy ===== *)
theory Symbol_Directory
  imports Itch_Parser
begin

text \<open>
  \<^verbatim>\<open>SymbolDirectory\<close> (\<^verbatim>\<open>include/symbol_directory.hpp\<close>, \<^verbatim>\<open>src/symbol_directory.cpp\<close>): the map from
  stock locate to ticker built from the \<^verbatim>\<open>R\<close> messages, and the subscriptions, which may be made
  before or after the ticker is announced. The flat arrays are functions of the 16-bit locate, which
  is always in range; a C string is the list of its characters before the terminating zero.
  Proved: the filter answers the same whatever the order of announcements and subscriptions.
\<close>

section \<open>State\<close>

record SymbolDirectory =
  sd_symbols :: "u16 \<Rightarrow> bytes"
  sd_known :: "u16 \<Rightarrow> bool"
  sd_subscribed :: "u16 \<Rightarrow> bool"
  sd_pending :: "bytes list"
  sd_pending_count :: u32
  sd_known_count :: u32
  sd_subscribed_count :: u32
  sd_all :: bool

definition MAX_LOCATE :: nat where "MAX_LOCATE = 65536"

definition MAX_PENDING :: nat where "MAX_PENDING = 64"

definition blank :: u8 where "blank = byte_of CHR '' ''"

definition SymbolDirectory_new :: SymbolDirectory where
  "SymbolDirectory_new =
     \<lparr>sd_symbols = (\<lambda>_. replicate 8 blank), sd_known = (\<lambda>_. False), sd_subscribed = (\<lambda>_. False),
      sd_pending = replicate MAX_PENDING (replicate 8 blank), sd_pending_count = 0, sd_known_count = 0,
      sd_subscribed_count = 0, sd_all = False\<rparr>"

section \<open>Operations\<close>

definition pad8 :: "bytes \<Rightarrow> bytes" where
  "pad8 s = (let t = take 8 (takeWhile (\<lambda>c. c \<noteq> 0) s) in t @ replicate (8 - length t) blank)"

text \<open>A counting loop that stops at the first index that passes a test.\<close>

function first_from :: "(nat \<Rightarrow> bool) \<Rightarrow> nat \<Rightarrow> nat \<Rightarrow> nat option" where
  "first_from test n i = (if i < n then if test i then Some i else first_from test n (Suc i) else None)"
  by pat_completeness auto

termination
  by (relation "measure (\<lambda>(test, n, i). n - i)") auto

declare first_from.simps [simp del]

definition mark_subscribed :: "u16 \<Rightarrow> SymbolDirectory \<Rightarrow> SymbolDirectory" where
  "mark_subscribed l d =
     (if \<not> sd_subscribed d l
      then d\<lparr>sd_subscribed := (sd_subscribed d)(l := True), sd_subscribed_count := sd_subscribed_count d + 1\<rparr>
      else d)"

definition feed :: "bytes option \<Rightarrow> u32 \<Rightarrow> SymbolDirectory \<Rightarrow> bool \<times> SymbolDirectory" where
  "feed data_ptr len d =
     (case data_ptr of None \<Rightarrow> (False, d)
      | Some data \<Rightarrow>
        if len \<noteq> 39 \<or> data ! 0 \<noteq> byte_of CHR ''R'' then (False, d)
        else
          let locate = be16 (drop 1 data);
              d = (if \<not> sd_known d locate then d\<lparr>sd_known_count := sd_known_count d + 1\<rparr> else d);
              d = d\<lparr>sd_symbols := (sd_symbols d)(locate := take 8 (drop 11 data)),
                    sd_known := (sd_known d)(locate := True)\<rparr>
          in case first_from (\<lambda>i. sd_pending d ! i = sd_symbols d locate) (unat (sd_pending_count d)) 0 of
               None \<Rightarrow> (True, d)
             | Some i \<Rightarrow>
                 let d = mark_subscribed locate d
                 in (True, d\<lparr>sd_pending := (sd_pending d)[i := sd_pending d ! unat (sd_pending_count d - 1)],
                             sd_pending_count := sd_pending_count d - 1\<rparr>))"

definition find_locate :: "bytes \<Rightarrow> SymbolDirectory \<Rightarrow> nat option" where
  "find_locate want d = first_from (\<lambda>l. sd_known d (of_nat l) \<and> sd_symbols d (of_nat l) = want) MAX_LOCATE 0"

definition subscribe :: "bytes option \<Rightarrow> SymbolDirectory \<Rightarrow> bool \<times> SymbolDirectory" where
  "subscribe symbol d =
     (case symbol of None \<Rightarrow> (False, d)
      | Some s \<Rightarrow>
        let want = pad8 s
        in case find_locate want d of
             Some l \<Rightarrow> (True, mark_subscribed (of_nat l) d)
           | None \<Rightarrow>
               if unat (sd_pending_count d) \<ge> MAX_PENDING then (False, d)
               else (True, d\<lparr>sd_pending := (sd_pending d)[unat (sd_pending_count d) := want],
                             sd_pending_count := sd_pending_count d + 1\<rparr>))"

definition subscribe_all :: "SymbolDirectory \<Rightarrow> SymbolDirectory" where
  "subscribe_all d = d\<lparr>sd_all := True\<rparr>"

definition is_subscribed :: "u16 \<Rightarrow> SymbolDirectory \<Rightarrow> bool" where
  "is_subscribed locate d \<longleftrightarrow> sd_all d \<or> sd_subscribed d locate"

definition symbol_of :: "u16 \<Rightarrow> SymbolDirectory \<Rightarrow> bytes option" where
  "symbol_of locate d = (if sd_known d locate then Some (sd_symbols d locate) else None)"

definition locate_of :: "bytes option \<Rightarrow> SymbolDirectory \<Rightarrow> u16" where
  "locate_of symbol d =
     (case symbol of None \<Rightarrow> 0
      | Some s \<Rightarrow> (case find_locate (pad8 s) d of Some l \<Rightarrow> of_nat l | None \<Rightarrow> 0))"

definition unmatched :: "nat \<Rightarrow> SymbolDirectory \<Rightarrow> bytes option" where
  "unmatched i d = (if i < unat (sd_pending_count d) then Some (sd_pending d ! i) else None)"

section \<open>Loops\<close>

lemma first_from_Some:
  "first_from test n i = Some j \<Longrightarrow> i \<le> j \<and> j < n \<and> test j \<and> (\<forall>l. i \<le> l \<and> l < j \<longrightarrow> \<not> test l)"
proof (induction test n i rule: first_from.induct)
  case (1 test n i)
  show ?case
  proof (cases "i < n \<and> \<not> test i")
    case True
    then have "first_from test n (Suc i) = Some j" using "1.prems" by (simp add: first_from.simps [of _ _ i])
    then show ?thesis using "1.IH" True by (metis Suc_leD le_antisym not_less_eq_eq)
  next
    case False
    then show ?thesis using "1.prems" by (auto simp: first_from.simps [of _ _ i] split: if_splits)
  qed
qed

lemma first_from_None: "first_from test n i = None \<longleftrightarrow> (\<forall>l. i \<le> l \<and> l < n \<longrightarrow> \<not> test l)"
proof (induction test n i rule: first_from.induct)
  case (1 test n i)
  then show ?case by (subst first_from.simps) (auto, metis Suc_leI le_neq_implies_less)
qed

text \<open>Removal from an unordered array: the last entry moves into the hole.\<close>

lemma swap_remove:
  assumes "distinct xs" and "i < length xs"
  shows "set (take (length xs - 1) (xs[i := xs ! (length xs - 1)])) = set xs - {xs ! i}"
    and "distinct (take (length xs - 1) (xs[i := xs ! (length xs - 1)]))"
proof -
  obtain ys z where xs: "xs = ys @ [z]" using assms(2) by (cases xs rule: rev_cases) auto
  have "take (length xs - 1) (xs[i := xs ! (length xs - 1)]) = (if i < length ys then ys[i := z] else ys)"
    using assms(2) by (auto simp: xs list_update_append)
  moreover have "i < length ys \<Longrightarrow> set (ys[i := z]) = insert z (set ys - {ys ! i})"
    using assms(1) by (simp add: xs set_update_distinct)
  ultimately show "set (take (length xs - 1) (xs[i := xs ! (length xs - 1)])) = set xs - {xs ! i}"
    and "distinct (take (length xs - 1) (xs[i := xs ! (length xs - 1)]))"
    using assms by (auto simp: xs nth_append less_Suc_eq distinct_list_update in_set_conv_nth split: if_splits)
qed

section \<open>What a directory stands for\<close>

text \<open>
  The specification: the set \<open>A\<close> of announced pairs of locate and name, and the set \<open>W\<close> of the
  padded names that were subscribed to.
\<close>

definition consistent :: "(u16 \<times> bytes) set \<Rightarrow> bool" where
  "consistent A \<longleftrightarrow> (\<forall>l n l' n'. (l, n) \<in> A \<longrightarrow> (l', n') \<in> A \<longrightarrow> (l = l' \<longleftrightarrow> n = n'))"

definition names_of :: "SymbolDirectory \<Rightarrow> bytes list" where
  "names_of d = take (unat (sd_pending_count d)) (sd_pending d)"

definition dir_rep :: "SymbolDirectory \<Rightarrow> (u16 \<times> bytes) set \<Rightarrow> bytes set \<Rightarrow> bool" where
  "dir_rep d A W \<longleftrightarrow>
     (\<forall>l n. sd_known d l \<and> sd_symbols d l = n \<longleftrightarrow> (l, n) \<in> A)
     \<and> (\<forall>l. sd_subscribed d l \<longleftrightarrow> (\<exists>n \<in> W. (l, n) \<in> A))
     \<and> unat (sd_known_count d) = card {l. sd_known d l} \<and> unat (sd_subscribed_count d) = card {l. sd_subscribed d l}
     \<and> length (sd_pending d) = MAX_PENDING \<and> unat (sd_pending_count d) \<le> MAX_PENDING
     \<and> distinct (names_of d) \<and> set (names_of d) = W - snd ` A"

lemma dir_rep_new: "dir_rep SymbolDirectory_new {} {}"
  by (simp add: dir_rep_def SymbolDirectory_new_def names_of_def)

lemma card_locates: "card (S :: u16 set) \<le> 65536"
proof -
  have "card S \<le> card (UNIV :: u16 set)" by (rule card_mono) simp_all
  then show ?thesis by (simp add: card_word)
qed

lemma unat_count_Suc: "unat (c :: u32) \<le> 65536 \<Longrightarrow> unat (c + 1) = Suc (unat c)"
  by (simp add: unat_word_ariths)

text \<open>One more member of an array of flags: its counter goes up exactly when the flag was off.\<close>

lemma flag_count:
  assumes "unat (c :: u32) = card {l :: u16. f l}"
  shows "unat (if f k then c else c + 1) = card {l. (f(k := True)) l}"
proof -
  have "{l. (f(k := True)) l} = insert k {l. f l}" by auto
  moreover have "unat c \<le> 65536" using assms card_locates by simp
  ultimately show ?thesis using assms by (auto simp: unat_count_Suc insert_absorb)
qed

lemma mark_subscribed_fields [tp_frame]:
  "sd_subscribed (mark_subscribed l d) = (sd_subscribed d)(l := True)"
  "sd_subscribed_count (mark_subscribed l d) = (if sd_subscribed d l then sd_subscribed_count d else sd_subscribed_count d + 1)"
  "sd_known (mark_subscribed l d) = sd_known d" "sd_symbols (mark_subscribed l d) = sd_symbols d"
  "sd_known_count (mark_subscribed l d) = sd_known_count d" "sd_pending (mark_subscribed l d) = sd_pending d"
  "sd_pending_count (mark_subscribed l d) = sd_pending_count d" "sd_all (mark_subscribed l d) = sd_all d"
  by (auto simp: mark_subscribed_def fun_eq_iff)

lemma find_locate_rep:
  assumes "dir_rep d A W" and "consistent A"
  shows "find_locate n d = Some l \<Longrightarrow> (of_nat l, n) \<in> A" and "find_locate n d = None \<Longrightarrow> n \<notin> snd ` A"
    and "(k, n) \<in> A \<Longrightarrow> find_locate n d = Some (unat k)"
proof -
  have rep: "sd_known d l \<and> sd_symbols d l = n \<longleftrightarrow> (l, n) \<in> A" for l using assms(1) by (simp add: dir_rep_def)
  show found: "(of_nat l, n) \<in> A" if "find_locate n d = Some l" for l
    using first_from_Some [OF that [unfolded find_locate_def]] rep by simp
  have range: "unat l < MAX_LOCATE" for l :: u16 unfolding MAX_LOCATE_def by (rule order_less_le_trans [OF unsigned_less]) simp
  show miss: "n \<notin> snd ` A" if "find_locate n d = None"
  proof
    assume "n \<in> snd ` A"
    then obtain l where "(l, n) \<in> A" by auto
    then have "sd_known d (of_nat (unat l)) \<and> sd_symbols d (of_nat (unat l)) = n" using rep by simp
    then show False using that range [of l] unfolding find_locate_def first_from_None by blast
  qed
  show "find_locate n d = Some (unat k)" if "(k, n) \<in> A"
  proof (cases "find_locate n d")
    case None
    then show ?thesis using miss that by force
  next
    case (Some l)
    then have "of_nat l = k" using found that assms(2) by (auto simp: consistent_def)
    moreover have "l < 2 ^ 16" using first_from_Some [OF Some [unfolded find_locate_def]] by (simp add: MAX_LOCATE_def)
    ultimately show ?thesis using Some by (auto simp: unat_of_nat)
  qed
qed

lemma subscribe_rep:
  assumes rep: "dir_rep d A W" and A: "consistent A" and new: "pad8 s \<notin> W" and fin: "finite W" and room: "card W < MAX_PENDING"
  shows "\<exists>d'. subscribe (Some s) d = (True, d') \<and> dir_rep d' A (insert (pad8 s) W) \<and> sd_all d' = sd_all d"
proof (cases "find_locate (pad8 s) d")
  case (Some l)
  then have l: "(of_nat l, pad8 s) \<in> A" using find_locate_rep [OF rep A] by blast
  have flags: "((sd_subscribed d)(of_nat l := True)) k \<longleftrightarrow> (\<exists>n \<in> insert (pad8 s) W. (k, n) \<in> A)" for k
  proof -
    have "sd_subscribed d k \<longleftrightarrow> (\<exists>n \<in> W. (k, n) \<in> A)" using rep by (simp add: dir_rep_def)
    moreover have "(k, pad8 s) \<in> A \<longleftrightarrow> k = of_nat l" using A l unfolding consistent_def by blast
    ultimately show ?thesis by simp
  qed
  have "pad8 s \<in> snd ` A" using l by (simp add: rev_image_eqI)
  then have "set (names_of d) = insert (pad8 s) W - snd ` A" using rep by (auto simp: dir_rep_def simp del: fun_upd_apply)
  moreover have "names_of (mark_subscribed (of_nat l) d) = names_of d" by (simp add: names_of_def tp_frame)
  moreover note flag_count [of "sd_subscribed_count d" "sd_subscribed d" "of_nat l"]
  ultimately have "dir_rep (mark_subscribed (of_nat l) d) A (insert (pad8 s) W)"
    using rep flags by (simp add: dir_rep_def tp_frame)
  then show ?thesis using Some by (simp add: subscribe_def Let_def tp_frame)
next
  case None
  define c where "c = unat (sd_pending_count d)"
  have names: "distinct (names_of d)" "set (names_of d) = W - snd ` A" "length (names_of d) = c" "length (sd_pending d) = 64"
    using rep by (auto simp: dir_rep_def names_of_def c_def MAX_PENDING_def)
  have "c = card (W - snd ` A)" using names by (metis distinct_card)
  also have "\<dots> \<le> card W" using fin by (simp add: card_mono)
  finally have c: "c < 64" using room by (simp add: MAX_PENDING_def)
  have n: "pad8 s \<notin> snd ` A" using find_locate_rep(2) [OF rep A None] .
  define d' where "d' = d\<lparr>sd_pending := (sd_pending d)[c := pad8 s], sd_pending_count := sd_pending_count d + 1\<rparr>"
  have c': "unat (sd_pending_count d + 1) = Suc c" using c by (simp add: unat_word_ariths c_def)
  have app: "names_of d' = names_of d @ [pad8 s]"
    using c names(4) unfolding names_of_def d'_def by (simp add: c' c_def [symmetric] take_Suc_conv_app_nth)
  have "dir_rep d' A (insert (pad8 s) W)"
  proof -
    have "\<not> (k, pad8 s) \<in> A" for k using n by force
    moreover have "sd_pending_count d' = sd_pending_count d + 1" "length (sd_pending d') = 64" by (simp_all add: d'_def names(4))
    moreover have "sd_known d' = sd_known d" "sd_symbols d' = sd_symbols d" "sd_subscribed d' = sd_subscribed d"
      "sd_known_count d' = sd_known_count d" "sd_subscribed_count d' = sd_subscribed_count d" by (simp_all add: d'_def)
    moreover have "insert (pad8 s) W - snd ` A = insert (pad8 s) (W - snd ` A)" using n by auto
    ultimately show ?thesis using app rep names new c c'
      by (simp add: dir_rep_def MAX_PENDING_def)
  qed
  then show ?thesis using None c by (simp add: subscribe_def d'_def c_def MAX_PENDING_def)
qed

definition announced :: "bytes \<Rightarrow> (u16 \<times> bytes) set" where
  "announced data =
     (if length data = 39 \<and> data ! 0 = byte_of CHR ''R'' then {(be16 (drop 1 data), take 8 (drop 11 data))} else {})"

lemma feed_rep:
  assumes rep: "dir_rep d A W" and A: "consistent (A \<union> announced data)" and len: "length data < 2 ^ 32"
  shows "\<exists>d'. feed (Some data) (of_nat (length data)) d = (announced data \<noteq> {}, d') \<and>
     dir_rep d' (A \<union> announced data) W \<and> sd_all d' = sd_all d"
proof (cases "length data = 39 \<and> data ! 0 = byte_of CHR ''R''")
  case False
  have "(of_nat (length data) :: u32) \<noteq> 39 \<or> data ! 0 \<noteq> byte_of CHR ''R''"
    using False len by (auto simp: word_unat_eq_iff unat_of_nat)
  moreover have "announced data = {}" using False by (auto simp: announced_def)
  ultimately show ?thesis using rep by (auto simp: feed_def)
next
  case True
  define l where "l = be16 (drop 1 data)"
  define n where "n = take 8 (drop 11 data)"
  define c where "c = unat (sd_pending_count d)"
  have ann: "announced data = {(l, n)}" using True by (simp add: announced_def l_def n_def)
  have A': "consistent (insert (l, n) A)" using A ann by simp
  have old: "\<And>k m. sd_known d k \<and> sd_symbols d k = m \<longleftrightarrow> (k, m) \<in> A" "\<And>k. sd_subscribed d k \<longleftrightarrow> (\<exists>m \<in> W. (k, m) \<in> A)"
    "unat (sd_known_count d) = card {l. sd_known d l}" "unat (sd_subscribed_count d) = card {l. sd_subscribed d l}"
    "length (sd_pending d) = 64" "c \<le> 64" "distinct (names_of d)" "set (names_of d) = W - snd ` A"
    using rep unfolding dir_rep_def c_def MAX_PENDING_def by blast+
  have cn: "length (names_of d) = c" "\<And>i. i < c \<Longrightarrow> names_of d ! i = sd_pending d ! i"
    using old(5,6) by (simp_all add: names_of_def c_def)
  define e where "e = d\<lparr>sd_known_count := (if sd_known d l then sd_known_count d else sd_known_count d + 1),
    sd_symbols := (sd_symbols d)(l := n), sd_known := (sd_known d)(l := True)\<rparr>"
  have known: "sd_known e k \<and> sd_symbols e k = m \<longleftrightarrow> (k, m) \<in> insert (l, n) A" for k m
  proof (cases "k = l")
    case True
    have "(l, m) \<in> insert (l, n) A \<longleftrightarrow> m = n" using A' unfolding consistent_def by blast
    then show ?thesis using True by (auto simp: e_def)
  next
    case False
    then show ?thesis using old(1) [of k m] by (simp add: e_def)
  qed
  have kcount: "unat (sd_known_count e) = card {l. sd_known e l}" using flag_count [OF old(3), of l] by (simp add: e_def)
  have sub: "(\<exists>m \<in> W. (k, m) \<in> insert (l, n) A) \<longleftrightarrow> sd_subscribed d k \<or> (k = l \<and> n \<in> W)" for k
    using old(2) by auto
  have feed: "feed (Some data) (of_nat (length data)) d =
    (case first_from (\<lambda>i. sd_pending d ! i = n) c 0 of None \<Rightarrow> (True, e)
     | Some i \<Rightarrow> (True, (mark_subscribed l e)\<lparr>sd_pending := (sd_pending d)[i := sd_pending d ! unat (sd_pending_count d - 1)],
                             sd_pending_count := sd_pending_count d - 1\<rparr>))"
    using True unfolding e_def l_def n_def c_def by (simp add: feed_def Let_def tp_frame split: option.split)
  show ?thesis
  proof (cases "first_from (\<lambda>i. sd_pending d ! i = n) c 0")
    case None
    then have "n \<notin> set (names_of d)" using cn by (auto simp: first_from_None in_set_conv_nth)
    then have "n \<in> W \<Longrightarrow> \<exists>k. (k, n) \<in> A" using old(8) by force
    then have "n \<in> W \<Longrightarrow> (l, n) \<in> A" using A' unfolding consistent_def by blast
    then have flags: "sd_subscribed d k \<longleftrightarrow> (\<exists>m \<in> W. (k, m) \<in> insert (l, n) A)" for k using sub [of k] old(2) by blast
    have "W - snd ` insert (l, n) A = W - snd ` A" using \<open>n \<notin> set (names_of d)\<close> old(8) by auto
    moreover have "names_of e = names_of d" by (simp add: e_def names_of_def)
    moreover have "sd_subscribed e = sd_subscribed d" "sd_subscribed_count e = sd_subscribed_count d"
      "sd_pending e = sd_pending d" "sd_pending_count e = sd_pending_count d" "sd_all e = sd_all d" by (simp_all add: e_def)
    ultimately have "dir_rep e (insert (l, n) A) W" and "sd_all e = sd_all d"
      using known kcount flags old(4-8) by (simp_all add: dir_rep_def MAX_PENDING_def c_def)
    then show ?thesis using None feed ann by simp
  next
    case (Some i)
    then have i: "i < c" "sd_pending d ! i = n" using first_from_Some [OF Some] by simp_all
    then have nW: "n \<in> W" "names_of d ! i = n" using cn old(8) by (metis DiffD1 nth_mem, simp)
    define d' where "d' = (mark_subscribed l e)\<lparr>sd_pending := (sd_pending d)[i := sd_pending d ! unat (sd_pending_count d - 1)],
                             sd_pending_count := sd_pending_count d - 1\<rparr>"
    have c': "unat (sd_pending_count d - 1) = c - 1"
      using i(1) by (simp add: c_def unat_sub word_le_nat_alt)
    have names': "names_of d' = take (c - 1) ((names_of d)[i := names_of d ! (c - 1)])"
      using i(1) old(5,6) by (simp add: names_of_def d'_def c' c_def [symmetric] take_update_swap min_absorb1)
    have "W - snd ` insert (l, n) A = set (names_of d) - {n}" using old(8) by auto
    then have "distinct (names_of d')" "set (names_of d') = W - snd ` insert (l, n) A"
      using swap_remove [OF old(7), of i] i(1) cn(1) nW(2) names' by simp_all
    moreover have "((sd_subscribed d)(l := True)) k \<longleftrightarrow> (\<exists>m \<in> W. (k, m) \<in> insert (l, n) A)" for k
      using sub [of k] nW(1) by auto
    moreover have "sd_subscribed e = sd_subscribed d" "sd_subscribed_count e = sd_subscribed_count d" by (simp_all add: e_def)
    moreover note flag_count [OF old(4), of l]
    moreover have "length (sd_pending d') = 64" "unat (sd_pending_count d') \<le> 64" using old(5,6) c' by (simp_all add: d'_def)
    ultimately have "dir_rep d' (insert (l, n) A) W"
      using known kcount by (simp add: dir_rep_def d'_def tp_frame MAX_PENDING_def split: if_splits)
    moreover have "sd_all d' = sd_all d" by (simp add: d'_def tp_frame e_def)
    ultimately show ?thesis using Some feed ann by (simp add: d'_def)
  qed
qed

section \<open>Any order of announcements and subscriptions\<close>

datatype dir_event = Feed_message bytes | Subscribe_name bytes

fun dir_step :: "dir_event \<Rightarrow> SymbolDirectory \<Rightarrow> SymbolDirectory" where
  "dir_step (Feed_message data) d = snd (feed (Some data) (of_nat (length data)) d)"
| "dir_step (Subscribe_name s) d = snd (subscribe (Some s) d)"

fun wanted :: "dir_event list \<Rightarrow> bytes list" where
  "wanted [] = []"
| "wanted (Subscribe_name s # es) = pad8 s # wanted es"
| "wanted (Feed_message data # es) = wanted es"

fun directory :: "dir_event list \<Rightarrow> (u16 \<times> bytes) set" where
  "directory [] = {}"
| "directory (Feed_message data # es) = announced data \<union> directory es"
| "directory (Subscribe_name s # es) = directory es"

fun event_ok :: "dir_event \<Rightarrow> bool" where
  "event_ok (Feed_message data) \<longleftrightarrow> length data < 2 ^ 32"
| "event_ok (Subscribe_name s) \<longleftrightarrow> True"

lemma wanted_append [simp]: "wanted (es @ fs) = wanted es @ wanted fs"
  by (induction es rule: wanted.induct) simp_all

lemma directory_append [simp]: "directory (es @ fs) = directory es \<union> directory fs"
  by (induction es rule: directory.induct) auto

lemma consistent_subset: "consistent A \<Longrightarrow> B \<subseteq> A \<Longrightarrow> consistent B"
  unfolding consistent_def by blast

lemma dir_run_rep:
  "consistent (directory es) \<Longrightarrow> distinct (wanted es) \<Longrightarrow> length (wanted es) \<le> MAX_PENDING \<Longrightarrow> list_all event_ok es \<Longrightarrow>
   dir_rep (fold dir_step es SymbolDirectory_new) (directory es) (set (wanted es)) \<and>
   \<not> sd_all (fold dir_step es SymbolDirectory_new)"
proof (induction es rule: rev_induct)
  case Nil
  then show ?case using dir_rep_new by (simp add: SymbolDirectory_new_def)
next
  case (snoc e es)
  define d where "d = fold dir_step es SymbolDirectory_new"
  have A: "consistent (directory es)" using snoc.prems(1) consistent_subset by fastforce
  have IH: "dir_rep d (directory es) (set (wanted es))" "\<not> sd_all d" using snoc A by (simp_all add: d_def)
  show ?case
  proof (cases e)
    case (Feed_message data)
    then have "length data < 2 ^ 32" "consistent (directory es \<union> announced data)" using snoc.prems by simp_all
    then show ?thesis using feed_rep [OF IH(1)] Feed_message IH(2) by (force simp: d_def [symmetric])
  next
    case (Subscribe_name s)
    then have "card (set (wanted es)) < MAX_PENDING" "pad8 s \<notin> set (wanted es)"
      using snoc.prems(2,3) by (simp_all add: distinct_card)
    then show ?thesis using subscribe_rep [OF IH(1) A, of s] Subscribe_name IH(2) by (force simp: d_def [symmetric])
  qed
qed

lemma locate_of_rep:
  assumes "dir_rep d A W" and "consistent A"
  shows "(l, pad8 s) \<in> A \<Longrightarrow> locate_of (Some s) d = l" and "pad8 s \<notin> snd ` A \<Longrightarrow> locate_of (Some s) d = 0"
proof -
  show "locate_of (Some s) d = l" if "(l, pad8 s) \<in> A"
    using find_locate_rep(3) [OF assms that] by (simp add: locate_of_def)
  show "locate_of (Some s) d = 0" if "pad8 s \<notin> snd ` A"
    using find_locate_rep(1) [OF assms, of "pad8 s"] that by (force simp: locate_of_def split: option.split)
qed

text \<open>
  C27. Order independence: however directory messages and subscriptions are interleaved, when each
  ticker has one locate that day and no name is subscribed twice (at most 64 names), the filter
  passes exactly the locates of subscribed tickers, the names still pending are exactly the
  subscribed ones never announced, each ticker is found at its locate, and the three counts are
  exact.
\<close>

theorem subscriptions_commute_with_directory:
  assumes "consistent (directory es)" and "distinct (wanted es)" and "length (wanted es) \<le> MAX_PENDING"
    and "list_all event_ok es"
  shows "let d = fold dir_step es SymbolDirectory_new in
     (\<forall>l. is_subscribed l d \<longleftrightarrow> (\<exists>n \<in> set (wanted es). (l, n) \<in> directory es))
     \<and> {n. \<exists>i. unmatched i d = Some n} = set (wanted es) - snd ` directory es
     \<and> (\<forall>l s. (l, pad8 s) \<in> directory es \<longrightarrow> locate_of (Some s) d = l)
     \<and> unat (sd_known_count d) = card (fst ` directory es)
     \<and> unat (sd_subscribed_count d) = card {l. \<exists>n \<in> set (wanted es). (l, n) \<in> directory es}
     \<and> unat (sd_pending_count d) = card (set (wanted es) - snd ` directory es)"
proof -
  define d where "d = fold dir_step es SymbolDirectory_new"
  have rep: "dir_rep d (directory es) (set (wanted es))" and all: "\<not> sd_all d"
    using dir_run_rep [OF assms] by (simp_all add: d_def)
  have known: "sd_known d l \<and> sd_symbols d l = n \<longleftrightarrow> (l, n) \<in> directory es" for l n using rep by (simp add: dir_rep_def)
  have kl: "{l. sd_known d l} = fst ` directory es"
  proof (intro set_eqI iffI)
    fix l
    show "l \<in> fst ` directory es" if "l \<in> {l. sd_known d l}"
      using known [of l "sd_symbols d l"] that by (simp add: rev_image_eqI)
    show "l \<in> {l. sd_known d l}" if l: "l \<in> fst ` directory es"
    proof -
      obtain n where "(l, n) \<in> directory es" using l by auto
      then show ?thesis using known [of l n] by simp
    qed
  qed
  have names: "set (names_of d) = set (wanted es) - snd ` directory es" "distinct (names_of d)"
    "length (names_of d) = unat (sd_pending_count d)"
    using rep by (simp_all add: dir_rep_def names_of_def MAX_PENDING_def)
  have pend: "{n. \<exists>i. unmatched i d = Some n} = set (names_of d)"
  proof -
    have "unmatched i d = (if i < length (names_of d) then Some (names_of d ! i) else None)" for i
      using names(3) by (simp add: unmatched_def names_of_def)
    then have "{n. \<exists>i. unmatched i d = Some n} = {n. \<exists>i < length (names_of d). names_of d ! i = n}"
      by (simp cong: if_cong) blast
    then show ?thesis by (auto simp: in_set_conv_nth)
  qed
  have count: "unat (sd_pending_count d) = card (set (names_of d))" using distinct_card [OF names(2)] names(3) by simp
  have sub: "sd_subscribed d l \<longleftrightarrow> (\<exists>n \<in> set (wanted es). (l, n) \<in> directory es)" for l
    using rep unfolding dir_rep_def by (elim conjE) (erule allE)
  have counts: "unat (sd_known_count d) = card {l. sd_known d l}" "unat (sd_subscribed_count d) = card {l. sd_subscribed d l}"
    using rep unfolding dir_rep_def by blast+
  show ?thesis unfolding Let_def d_def [symmetric]
  proof (intro conjI)
    show "\<forall>l. is_subscribed l d \<longleftrightarrow> (\<exists>n \<in> set (wanted es). (l, n) \<in> directory es)"
      using all by (simp add: is_subscribed_def sub)
    show "\<forall>l s. (l, pad8 s) \<in> directory es \<longrightarrow> locate_of (Some s) d = l"
      using locate_of_rep(1) [OF rep assms(1)] by blast
    show "unat (sd_subscribed_count d) = card {l. \<exists>n \<in> set (wanted es). (l, n) \<in> directory es}"
      using counts(2) by (simp add: sub)
  qed (use counts(1) kl names(1) pend count in simp_all)
qed

definition sample_R :: bytes where
  "sample_R = byte_of CHR ''R'' # be_bytes 2 (1 :: u16) @ replicate 8 0 @ pad8 [65, 65, 80, 76] @ replicate 20 0"

theorem subscriptions_commute_with_directory_witness:
  "let d = fold dir_step [Subscribe_name [65, 65, 80, 76], Feed_message sample_R] SymbolDirectory_new in
   let d' = fold dir_step [Feed_message sample_R, Subscribe_name [65, 65, 80, 76]] SymbolDirectory_new in
     is_subscribed 1 d \<and> \<not> is_subscribed 2 d \<and> is_subscribed 1 d' \<and> \<not> is_subscribed 2 d'"
proof -
  have "announced sample_R = {(1, pad8 [65, 65, 80, 76])}" by code_simp
  moreover have "length sample_R = 39" by code_simp
  ultimately show ?thesis
    using subscriptions_commute_with_directory [of "[Subscribe_name [65, 65, 80, 76], Feed_message sample_R]"]
      subscriptions_commute_with_directory [of "[Feed_message sample_R, Subscribe_name [65, 65, 80, 76]]"]
    by (simp add: Let_def consistent_def MAX_PENDING_def)
qed

end
