(* ===== verification/Itch_Replay.thy ===== *)
theory Itch_Replay
  imports Symbol_Directory
begin

text \<open>
  \<^verbatim>\<open>ItchReplay\<close> (\<^verbatim>\<open>include/itch_replay.hpp\<close>, \<^verbatim>\<open>src/itch_replay.cpp\<close>): the replay of a memory-mapped
  file of length-prefixed messages, and the path one message takes (directory, filter, parser, callback)
  which the UDP receiver shares. The mapped file is its bytes, \<^const>\<open>None\<close> when nothing is mapped;
  \<open>Mapped_File\<close> models the object that maps it. The elapsed time is an argument of the reports. The
  callback is a function on the caller's context. Proved: the loop visits exactly the framed messages
  of the file and accounts for each of them once.
\<close>

section \<open>The path of one message\<close>

record Router =
  rt_directory :: "SymbolDirectory option"
  rt_counts :: Counts
  rt_order :: Order

datatype routed = To_directory | Filtered | Parsed Order | Skipped

definition parse_message :: "bytes \<Rightarrow> u16 \<Rightarrow> Router \<Rightarrow> routed \<times> Router" where
  "parse_message p msg_len r =
     (case parse (Some p) (ucast msg_len) (rt_counts r) (rt_order r) of (ok, counts, order) \<Rightarrow>
       (if ok then Parsed order else Skipped, r\<lparr>rt_counts := counts, rt_order := order\<rparr>))"

definition route_message :: "bytes \<Rightarrow> u16 \<Rightarrow> Router \<Rightarrow> routed \<times> Router" where
  "route_message p msg_len r =
     (case rt_directory r of None \<Rightarrow> parse_message p msg_len r
      | Some d \<Rightarrow>
        (case feed (Some p) (ucast msg_len) d of (consumed, d) \<Rightarrow>
           let r = r\<lparr>rt_directory := Some d\<rparr>
           in if consumed then (To_directory, r)
              else if msg_len \<ge> 3 \<and> \<not> is_subscribed (be16 (drop 1 p)) d then (Filtered, r)
              else parse_message p msg_len r))"

section \<open>The replay loop\<close>

record ReplayStats =
  rs_messages_total :: u64
  rs_messages_parsed :: u64
  rs_messages_skipped :: u64
  rs_messages_filtered :: u64
  rs_directory_messages :: u64
  rs_bytes_read :: u64
  rs_parser_ignored :: u64
  rs_parser_malformed :: u64
  rs_parser_unknown :: u64

definition ReplayStats_zero :: ReplayStats where
  "ReplayStats_zero = \<lparr>rs_messages_total = 0, rs_messages_parsed = 0, rs_messages_skipped = 0, rs_messages_filtered = 0,
     rs_directory_messages = 0, rs_bytes_read = 0, rs_parser_ignored = 0, rs_parser_malformed = 0, rs_parser_unknown = 0\<rparr>"

record 'c Replay =
  rp_stats :: ReplayStats
  rp_router :: Router
  rp_ctx :: 'c

fun count_routed :: "routed \<Rightarrow> ReplayStats \<Rightarrow> ReplayStats" where
  "count_routed To_directory st = st\<lparr>rs_directory_messages := rs_directory_messages st + 1\<rparr>"
| "count_routed Filtered st = st\<lparr>rs_messages_filtered := rs_messages_filtered st + 1\<rparr>"
| "count_routed (Parsed order) st = st\<lparr>rs_messages_parsed := rs_messages_parsed st + 1\<rparr>"
| "count_routed Skipped st = st\<lparr>rs_messages_skipped := rs_messages_skipped st + 1\<rparr>"

fun call_back :: "(Order \<Rightarrow> 'c \<Rightarrow> 'c) \<Rightarrow> routed \<Rightarrow> 'c \<Rightarrow> 'c" where
  "call_back callback (Parsed order) ctx = callback order ctx"
| "call_back callback _ ctx = ctx"

definition replay_message :: "(Order \<Rightarrow> 'c \<Rightarrow> 'c) \<Rightarrow> bytes \<Rightarrow> u16 \<Rightarrow> 'c Replay \<Rightarrow> routed \<times> 'c Replay" where
  "replay_message callback p msg_len s =
     (let st = rp_stats s;
          st = st\<lparr>rs_messages_total := rs_messages_total st + 1, rs_bytes_read := rs_bytes_read st + (2 + ucast msg_len)\<rparr>
      in case route_message p msg_len (rp_router s) of (out, r) \<Rightarrow>
           (out, s\<lparr>rp_stats := count_routed out st, rp_router := r, rp_ctx := call_back callback out (rp_ctx s)\<rparr>))"

text \<open>
  The bytes from \<^verbatim>\<open>p\<close> to \<^verbatim>\<open>end\<close>. The limit on the number of messages is tested after a message that
  reached the parser: the two \<^verbatim>\<open>continue\<close> statements pass it by.
\<close>

function replay_loop :: "(Order \<Rightarrow> 'c \<Rightarrow> 'c) \<Rightarrow> u64 \<Rightarrow> bytes \<Rightarrow> 'c Replay \<Rightarrow> 'c Replay" where
  "replay_loop callback max_messages p s =
     (if length p < 2 then s
      else let msg_len = be16 p; p = drop 2 p
      in if msg_len = 0 \<or> length p < unat msg_len then s
         else case replay_message callback p msg_len s of (out, s) \<Rightarrow>
           if out = To_directory \<or> out = Filtered then replay_loop callback max_messages (drop (unat msg_len) p) s
           else if max_messages \<noteq> 0 \<and> rs_messages_total (rp_stats s) \<ge> max_messages then s
           else replay_loop callback max_messages (drop (unat msg_len) p) s)"
  by pat_completeness auto

termination
  by (relation "measure (\<lambda>(callback, max_messages, p, s). length p)") auto

declare replay_loop.simps [simp del]

definition replay_all ::
    "bytes option \<Rightarrow> (Order \<Rightarrow> 'c \<Rightarrow> 'c) \<Rightarrow> 'c \<Rightarrow> SymbolDirectory option \<Rightarrow> u64 \<Rightarrow> ReplayStats \<times> SymbolDirectory option \<times> 'c" where
  "replay_all mapped callback ctx dir max_messages =
     (case mapped of None \<Rightarrow> (ReplayStats_zero, dir, ctx)
      | Some file \<Rightarrow>
        let s = replay_loop callback max_messages file
                  \<lparr>rp_stats = ReplayStats_zero,
                   rp_router = \<lparr>rt_directory = dir, rt_counts = Counts_zero, rt_order = Order_zero\<rparr>, rp_ctx = ctx\<rparr>;
            counts = rt_counts (rp_router s)
        in ((rp_stats s)\<lparr>rs_parser_ignored := c_ignored counts, rs_parser_malformed := c_malformed counts,
              rs_parser_unknown := c_unknown counts\<rparr>, rt_directory (rp_router s), rp_ctx s))"

section \<open>Frames\<close>

text \<open>A frame is the big-endian length and the message. \<open>unframe\<close> is the specification of what a file holds.\<close>

definition frame :: "bytes \<Rightarrow> bytes" where
  "frame m = be_bytes 2 (of_nat (length m) :: u16) @ m"

definition message_ok :: "bytes \<Rightarrow> bool" where
  "message_ok m \<longleftrightarrow> 0 < length m \<and> length m < 65536"

function unframe :: "bytes \<Rightarrow> bytes list" where
  "unframe p =
     (if length p < 2 then []
      else let n = unat (be16 p) in
        if n = 0 \<or> length p - 2 < n then [] else take n (drop 2 p) # unframe (drop (2 + n) p))"
  by pat_completeness auto

termination
  by (relation "measure length") (auto simp: Let_def)

declare unframe.simps [simp del]

lemma be16_frame: "message_ok m \<Longrightarrow> be16 (frame m @ rest) = of_nat (length m)"
  by (simp add: frame_def f16.dec_enc_append)

lemma unat_length: "message_ok m \<Longrightarrow> unat (of_nat (length m) :: u16) = length m"
  by (simp add: message_ok_def unat_of_nat)

lemma length_frame: "length (frame m) = 2 + length m"
  by (simp add: frame_def)

lemma unframe_frames: "list_all message_ok ms \<Longrightarrow> length rest < 2 \<Longrightarrow> unframe (concat (map frame ms) @ rest) = ms"
proof (induction ms)
  case Nil
  then show ?case by (simp add: unframe.simps)
next
  case (Cons m ms)
  then have m: "message_ok m" by simp
  have "unframe (frame m @ concat (map frame ms) @ rest) = m # unframe (concat (map frame ms) @ rest)"
    using be16_frame [OF m, of "concat (map frame ms) @ rest"] unat_length [OF m] m
    by (subst unframe.simps) (auto simp: length_frame Let_def message_ok_def frame_def)
  then show ?case using Cons by simp
qed

lemma unframe_ok: "list_all message_ok (unframe p)"
proof (induction p rule: unframe.induct)
  case (1 p)
  have "unat (be16 p) < 65536" by (rule order_less_le_trans [OF unsigned_less]) simp
  then have "message_ok (take (unat (be16 p)) (drop 2 p))" if "0 < unat (be16 p)" "\<not> length p - 2 < unat (be16 p)"
    using that by (simp add: message_ok_def)
  then show ?case using 1 by (subst unframe.simps) (simp add: Let_def)
qed

section \<open>One message, whatever follows it\<close>

lemma feed_prefix:
  assumes "length xs = unat len"
  shows "feed (Some (xs @ ys)) len d = feed (Some xs) len d"
proof (cases "len = 39")
  case True
  then have "39 \<le> length xs" using assms by simp
  then have "(xs @ ys) ! 0 = xs ! 0" by (cases xs) simp_all
  moreover have "be16 (drop 1 (xs @ ys)) = be16 (drop 1 xs)" "take 8 (drop 11 (xs @ ys)) = take 8 (drop 11 xs)"
    using \<open>39 \<le> length xs\<close> by (simp_all add: f16.dec_prefix)
  ultimately show ?thesis unfolding feed_def by (simp only: option.case)
qed (simp add: feed_def)

lemma route_prefix:
  assumes "length xs = unat len"
  shows "route_message (xs @ ys) len r = route_message xs len r"
proof -
  have len: "length xs = unat (ucast len :: u32)" using assms by (simp add: unat_ucast_up)
  have "parse_message (xs @ ys) len r = parse_message xs len r" for r
    by (simp add: parse_message_def parse_prefix [OF len])
  moreover have "be16 (drop 1 (xs @ ys)) = be16 (drop 1 xs)" if "len \<ge> 3"
    using that assms by (simp add: word_le_nat_alt f16.dec_prefix)
  ultimately show ?thesis using feed_prefix [OF len]
    by (auto simp: route_message_def Let_def split: option.split prod.split)
qed

section \<open>What a replay does\<close>

abbreviation message_step :: "(Order \<Rightarrow> 'c \<Rightarrow> 'c) \<Rightarrow> bytes \<Rightarrow> 'c Replay \<Rightarrow> 'c Replay" where
  "message_step callback m s \<equiv> snd (replay_message callback m (of_nat (length m)) s)"

lemma replay_loop_unframe: "replay_loop callback 0 p s = fold (message_step callback) (unframe p) s"
proof (induction p arbitrary: s rule: unframe.induct)
  case (1 p)
  define n where "n = unat (be16 p)"
  show ?case
  proof (cases "length p < 2 \<or> n = 0 \<or> length p - 2 < n")
    case True
    then have "be16 p = 0 \<or> length p < 2 \<or> length p - 2 < unat (be16 p)" by (auto simp: n_def unat_eq_0)
    then show ?thesis using True unfolding n_def by (subst replay_loop.simps, subst unframe.simps) (auto simp: Let_def)
  next
    case False
    define m where "m = take n (drop 2 p)"
    have "drop 2 p = m @ drop n (drop 2 p)" unfolding m_def by (rule append_take_drop_id [symmetric])
    then have m: "length m = n" "drop 2 p = m @ drop (2 + n) p" "be16 p \<noteq> 0" "of_nat (length m) = be16 p"
      using False by (auto simp: m_def n_def add.commute)
    have "replay_message callback (drop 2 p) (be16 p) s = replay_message callback m (be16 p) s"
      using route_prefix [of m "be16 p" "drop (2 + n) p"] m by (simp add: replay_message_def n_def)
    moreover have "drop n (drop 2 p) = drop (2 + n) p" by simp
    ultimately have "replay_loop callback 0 p s = replay_loop callback 0 (drop (2 + n) p) (message_step callback m s)"
      using False m(3,4) by (subst replay_loop.simps) (auto simp: Let_def n_def split: prod.split)
    moreover have "unframe p = m # unframe (drop (2 + n) p)"
      using False by (subst unframe.simps) (simp add: Let_def n_def m_def)
    moreover have "replay_loop callback 0 (drop (2 + n) p) s' = fold (message_step callback) (unframe (drop (2 + n) p)) s'" for s'
      using "1.IH" [of "n"] False by (simp add: n_def)
    ultimately show ?thesis by simp
  qed
qed

text \<open>The specification: route the messages one after the other and keep the outcomes.\<close>

fun route_all :: "bytes list \<Rightarrow> Router \<Rightarrow> routed list \<times> Router" where
  "route_all [] r = ([], r)"
| "route_all (m # ms) r =
     (case route_message m (of_nat (length m)) r of (out, r) \<Rightarrow> case route_all ms r of (outs, r) \<Rightarrow> (out # outs, r))"

lemma length_route_all: "length (fst (route_all ms r)) = length ms"
  by (induction ms arbitrary: r) (simp_all split: prod.split, metis fst_conv)

definition is_parsed :: "routed \<Rightarrow> bool" where
  "is_parsed out \<longleftrightarrow> (\<exists>order. out = Parsed order)"

definition tally :: "(routed \<Rightarrow> bool) \<Rightarrow> routed list \<Rightarrow> u64" where
  "tally test outs = of_nat (length (filter test outs))"

lemma tally_simps [simp]:
  "tally test [] = 0" "tally test (out # outs) = of_bool (test out) + tally test outs"
  by (simp_all add: tally_def)

lemma messages_run:
  "fold (message_step callback) ms s =
     (case route_all ms (rp_router s) of (outs, r) \<Rightarrow>
       s\<lparr>rp_stats := (rp_stats s)\<lparr>
           rs_messages_total := rs_messages_total (rp_stats s) + of_nat (length ms),
           rs_messages_parsed := rs_messages_parsed (rp_stats s) + tally is_parsed outs,
           rs_messages_skipped := rs_messages_skipped (rp_stats s) + tally (\<lambda>out. out = Skipped) outs,
           rs_messages_filtered := rs_messages_filtered (rp_stats s) + tally (\<lambda>out. out = Filtered) outs,
           rs_directory_messages := rs_directory_messages (rp_stats s) + tally (\<lambda>out. out = To_directory) outs,
           rs_bytes_read := rs_bytes_read (rp_stats s) + (\<Sum>m\<leftarrow>ms. 2 + ucast (of_nat (length m) :: u16))\<rparr>,
         rp_router := r, rp_ctx := fold (call_back callback) outs (rp_ctx s)\<rparr>)"
proof (induction ms arbitrary: s)
  case (Cons m ms)
  obtain out r where 1: "route_message m (of_nat (length m)) (rp_router s) = (out, r)" by fastforce
  obtain outs r' where 2: "route_all ms r = (outs, r')" by fastforce
  define s' where "s' = message_step callback m s"
  have s': "s' = s\<lparr>rp_stats := count_routed out ((rp_stats s)\<lparr>rs_messages_total := rs_messages_total (rp_stats s) + 1,
      rs_bytes_read := rs_bytes_read (rp_stats s) + (2 + ucast (of_nat (length m) :: u16))\<rparr>), rp_router := r,
      rp_ctx := call_back callback out (rp_ctx s)\<rparr>"
    by (simp add: s'_def replay_message_def Let_def 1)
  have "fold (message_step callback) (m # ms) s = fold (message_step callback) ms s'" by (simp add: s'_def)
  also note Cons.IH [of s']
  finally show ?case
    by (cases out) (simp_all add: 1 2 s' is_parsed_def algebra_simps)
qed simp

lemma route_counts:
  assumes "route_message m n r = (out, r')"
  shows "c_parsed (rt_counts r') = c_parsed (rt_counts r) + of_bool (is_parsed out)"
    and "c_ignored (rt_counts r') + c_malformed (rt_counts r') + c_unknown (rt_counts r') =
      c_ignored (rt_counts r) + c_malformed (rt_counts r) + c_unknown (rt_counts r) + of_bool (out = Skipped)"
proof -
  have parse: "c_parsed (rt_counts r') = c_parsed (rt_counts q) + of_bool (is_parsed out) \<and>
      c_ignored (rt_counts r') + c_malformed (rt_counts r') + c_unknown (rt_counts r') =
      c_ignored (rt_counts q) + c_malformed (rt_counts q) + c_unknown (rt_counts q) + of_bool (out = Skipped)"
    if "parse_message m n q = (out, r')" for q
  proof -
    obtain ok cs order where p: "parse (Some m) (ucast n) (rt_counts q) (rt_order q) = (ok, cs, order)" by (metis prod_cases3)
    show ?thesis using that parse_outcome(1,2) [OF p]
      by (cases ok) (auto simp: parse_message_def p is_parsed_def count_total_def algebra_simps)
  qed
  show "c_parsed (rt_counts r') = c_parsed (rt_counts r) + of_bool (is_parsed out)"
    and "c_ignored (rt_counts r') + c_malformed (rt_counts r') + c_unknown (rt_counts r') =
      c_ignored (rt_counts r) + c_malformed (rt_counts r) + c_unknown (rt_counts r) + of_bool (out = Skipped)"
    using assms parse by (fastforce simp: route_message_def Let_def is_parsed_def split: option.splits prod.splits if_splits)+
qed

lemma route_all_counts:
  "route_all ms r = (outs, r') \<Longrightarrow>
   c_parsed (rt_counts r') = c_parsed (rt_counts r) + tally is_parsed outs \<and>
   c_ignored (rt_counts r') + c_malformed (rt_counts r') + c_unknown (rt_counts r') =
     c_ignored (rt_counts r) + c_malformed (rt_counts r) + c_unknown (rt_counts r) + tally (\<lambda>out. out = Skipped) outs"
proof (induction ms arbitrary: r outs)
  case (Cons m ms)
  obtain out q where 1: "route_message m (of_nat (length m)) r = (out, q)" by fastforce
  obtain outs' where 2: "route_all ms q = (outs', r')" "outs = out # outs'"
    using Cons.prems by (auto simp: 1 split: prod.splits)
  show ?case using Cons.IH [OF 2(1)] route_counts [OF 1] by (simp add: 2(2) algebra_simps)
qed simp

lemma tally_partition:
  "tally is_parsed outs + tally (\<lambda>out. out = Skipped) outs + tally (\<lambda>out. out = Filtered) outs
     + tally (\<lambda>out. out = To_directory) outs = of_nat (length outs)"
proof (induction outs)
  case (Cons out outs)
  then show ?case by (cases out) (simp_all add: is_parsed_def algebra_simps)
qed simp

text \<open>
  C32. A replay with no message limit visits exactly the framed messages of the file, up to the first
  empty or truncated frame: the callback sees the orders of the messages that pass directory, filter
  and parser, in file order; every message falls into exactly one of the four counted classes; the
  bytes read are those of the frames; and the skipped messages are those the parser ignored, found
  malformed or did not know.
\<close>

theorem replay_accounts_for_every_message:
  "case route_all (unframe file) \<lparr>rt_directory = dir, rt_counts = Counts_zero, rt_order = Order_zero\<rparr> of (outs, r) \<Rightarrow>
   case replay_all (Some file) callback ctx dir 0 of (st, dir', ctx') \<Rightarrow>
     ctx' = fold (call_back callback) outs ctx \<and> dir' = rt_directory r \<and>
     rs_messages_total st = of_nat (length (unframe file)) \<and> length outs = length (unframe file) \<and>
     rs_messages_parsed st = tally is_parsed outs \<and>
     rs_messages_parsed st + rs_messages_skipped st + rs_messages_filtered st + rs_directory_messages st = rs_messages_total st \<and>
     rs_messages_skipped st = rs_parser_ignored st + rs_parser_malformed st + rs_parser_unknown st \<and>
     rs_bytes_read st = (\<Sum>m\<leftarrow>unframe file. 2 + ucast (of_nat (length m) :: u16))"
proof -
  obtain outs r where run: "route_all (unframe file) \<lparr>rt_directory = dir, rt_counts = Counts_zero, rt_order = Order_zero\<rparr> = (outs, r)"
    by fastforce
  have len: "length outs = length (unframe file)" using length_route_all [of "unframe file"] by (metis fst_conv run)
  have skipped: "tally (\<lambda>out. out = Skipped) outs = c_ignored (rt_counts r) + c_malformed (rt_counts r) + c_unknown (rt_counts r)"
    using route_all_counts [OF run] by (simp add: Counts_zero_def)
  show ?thesis
    using len skipped tally_partition [of outs]
    by (simp add: replay_all_def replay_loop_unframe messages_run run Let_def ReplayStats_zero_def)
qed

end
