(* ===== verification/Analytics.thy ===== *)
theory Analytics
  imports Tick_Prelude "HOL-Library.Signed_Division"
begin

text \<open>
  \<^verbatim>\<open>Microstructure\<close> (\<^verbatim>\<open>include/microstructure.hpp\<close>, \<^verbatim>\<open>src/microstructure.cpp\<close>): the fixed-point
  analytics. Unsigned 128-bit values are words, signed values are integers with the division that
  truncates toward zero; the narrowing casts are written out. Proved: the bit-by-bit square root is
  the floor of the root for every 128-bit value, the microprice is the exact quotient and lies
  between bid and ask, and what a book update and a trade do to the accumulators.
\<close>

section \<open>State\<close>

record Metrics =
  me_microprice_1e8 :: int
  me_mid_1e8 :: int
  me_micro_minus_mid_1e8 :: int
  me_ofi :: int
  me_effective_spread_sum_1e4 :: u64
  me_effective_spread_n :: u64
  me_realized_vol_1e9 :: u64
  me_return_samples :: u64
  me_kyle_lambda_1e12 :: int
  me_book_updates :: u64
  me_trades :: u64
  me_degenerate_books :: u64

definition Metrics_zero :: Metrics where
  "Metrics_zero = \<lparr>me_microprice_1e8 = 0, me_mid_1e8 = 0, me_micro_minus_mid_1e8 = 0, me_ofi = 0,
     me_effective_spread_sum_1e4 = 0, me_effective_spread_n = 0, me_realized_vol_1e9 = 0, me_return_samples = 0,
     me_kyle_lambda_1e12 = 0, me_book_updates = 0, me_trades = 0, me_degenerate_books = 0\<rparr>"

record Microstructure =
  mi_m :: Metrics
  mi_pb :: u32
  mi_qb :: u32
  mi_pa :: u32
  mi_qa :: u32
  mi_have_prev :: bool
  mi_sum_sq_ret_1e18 :: u128
  mi_sum_dp_v :: int
  mi_sum_v_sq :: u128
  mi_prev_mid_1e4_x2 :: int
  mi_prev_trade_mid_x2 :: int

text \<open>The constructor is a \<^verbatim>\<open>reset\<close>.\<close>

definition micro_reset :: "Microstructure" where
  "micro_reset = \<lparr>mi_m = Metrics_zero, mi_pb = 0, mi_qb = 0, mi_pa = 0, mi_qa = 0, mi_have_prev = False,
     mi_sum_sq_ret_1e18 = 0, mi_sum_dp_v = 0, mi_sum_v_sq = 0, mi_prev_mid_1e4_x2 = 0, mi_prev_trade_mid_x2 = 0\<rparr>"

section \<open>Numeric routines\<close>

definition log1p_1e12 :: "int \<Rightarrow> int" where
  "log1p_1e12 x =
     (let s = 1000000000000;
          x2 = (x * x) sdiv s;
          x3 = (x2 * x) sdiv s;
          x4 = (x3 * x) sdiv s
      in to_i64 (x - x2 sdiv 2 + x3 sdiv 3 - x4 sdiv 4))"

text \<open>One iteration of the square root, for bit pair \<open>i\<close>.\<close>

definition isqrt_step :: "u128 \<Rightarrow> nat \<Rightarrow> u128 \<times> u128 \<Rightarrow> u128 \<times> u128" where
  "isqrt_step v i s = (case s of (rem, root) \<Rightarrow>
     let root = push_bit 1 root;
         rem = push_bit 2 rem OR (drop_bit (i * 2) v AND 3)
     in if rem > root then (rem - (root OR 1), root OR 2) else (rem, root))"

definition isqrt128 :: "u128 \<Rightarrow> u64" where
  "isqrt128 v =
     (if v = 0 then 0
      else case fold (isqrt_step v) (rev [0..<64]) (0, 0) of (rem, root) \<Rightarrow> ucast (drop_bit 1 root))"

section \<open>Events\<close>

definition u128_of :: "u32 \<Rightarrow> u128" where
  "u128_of w = ucast w"

definition microprice :: "u32 \<Rightarrow> u32 \<Rightarrow> u32 \<Rightarrow> u32 \<Rightarrow> int" where
  "microprice bid_px bid_qty ask_px ask_qty =
     (let num = (u128_of bid_px * u128_of ask_qty + u128_of ask_px * u128_of bid_qty) * 10000;
          den = u128_of bid_qty + u128_of ask_qty
      in to_i64 (uint (num div den)))"

definition ofi_step :: "Microstructure \<Rightarrow> u32 \<Rightarrow> u32 \<Rightarrow> u32 \<Rightarrow> u32 \<Rightarrow> int" where
  "ofi_step s bid_px bid_qty ask_px ask_qty =
     (if bid_px \<ge> mi_pb s then uint bid_qty else 0) - (if bid_px \<le> mi_pb s then uint (mi_qb s) else 0)
     - (if ask_px \<le> mi_pa s then uint ask_qty else 0) + (if ask_px \<ge> mi_pa s then uint (mi_qa s) else 0)"

definition on_return :: "int \<Rightarrow> Microstructure \<Rightarrow> Microstructure" where
  "on_return mid_x2 s =
     (let d = mid_x2 - mi_prev_mid_1e4_x2 s;
          x = to_i64 ((d * 1000000000000) sdiv mi_prev_mid_1e4_x2 s);
          r = log1p_1e12 x;
          sum = mi_sum_sq_ret_1e18 s + word_of_int (r * r)
      in s\<lparr>mi_sum_sq_ret_1e18 := sum,
           mi_m := (mi_m s)\<lparr>me_return_samples := me_return_samples (mi_m s) + 1,
                            me_realized_vol_1e9 := isqrt128 sum div 1000\<rparr>\<rparr>)"

definition on_book :: "u32 \<Rightarrow> u32 \<Rightarrow> u32 \<Rightarrow> u32 \<Rightarrow> Microstructure \<Rightarrow> Microstructure" where
  "on_book bid_px bid_qty ask_px ask_qty s =
     (if bid_px = 0 \<or> ask_px = 0 \<or> bid_qty = 0 \<or> ask_qty = 0 then s
      else if bid_px \<ge> ask_px
      then s\<lparr>mi_m := (mi_m s)\<lparr>me_degenerate_books := me_degenerate_books (mi_m s) + 1\<rparr>\<rparr>
      else
        let m = mi_m s;
            micro = microprice bid_px bid_qty ask_px ask_qty;
            mid = (uint bid_px + uint ask_px) * 5000;
            s = s\<lparr>mi_m := m\<lparr>me_book_updates := me_book_updates m + 1, me_microprice_1e8 := micro,
                     me_mid_1e8 := mid, me_micro_minus_mid_1e8 := micro - mid\<rparr>\<rparr>;
            mid_x2 = uint bid_px + uint ask_px;
            s = (if mi_have_prev s then
                   let e = ofi_step s bid_px bid_qty ask_px ask_qty;
                       s = s\<lparr>mi_m := (mi_m s)\<lparr>me_ofi := me_ofi (mi_m s) + e\<rparr>\<rparr>;
                       s = (if mi_prev_mid_1e4_x2 s > 0 \<and> mid_x2 \<noteq> mi_prev_mid_1e4_x2 s
                            then on_return mid_x2 s else s)
                   in s\<lparr>mi_prev_mid_1e4_x2 := mid_x2\<rparr>
                 else s\<lparr>mi_prev_mid_1e4_x2 := mid_x2, mi_have_prev := True\<rparr>)
        in s\<lparr>mi_pb := bid_px, mi_qb := bid_qty, mi_pa := ask_px, mi_qa := ask_qty\<rparr>)"

definition on_trade :: "u32 \<Rightarrow> u32 \<Rightarrow> bool \<Rightarrow> Microstructure \<Rightarrow> Microstructure" where
  "on_trade px qty buyer_initiated s =
     (if \<not> mi_have_prev s \<or> mi_pb s = 0 \<or> mi_pa s = 0 then s
      else
        let m = mi_m s;
            mid_x2 = uint (mi_pb s) + uint (mi_pa s);
            d = 2 * uint px - mid_x2;
            s = s\<lparr>mi_m := m\<lparr>me_trades := me_trades m + 1,
                    me_effective_spread_sum_1e4 := me_effective_spread_sum_1e4 m + word_of_int (if d < 0 then - d else d),
                    me_effective_spread_n := me_effective_spread_n m + 1\<rparr>\<rparr>;
            v = (if buyer_initiated then uint qty else - uint qty);
            s = (if mi_prev_trade_mid_x2 s > 0 then
                   let dp_x2 = mid_x2 - mi_prev_trade_mid_x2 s;
                       s = s\<lparr>mi_sum_dp_v := mi_sum_dp_v s + dp_x2 * v,
                             mi_sum_v_sq := mi_sum_v_sq s + word_of_int (v * v)\<rparr>
                   in if mi_sum_v_sq s > 0
                      then s\<lparr>mi_m := (mi_m s)\<lparr>me_kyle_lambda_1e12 :=
                             to_i64 ((mi_sum_dp_v s * 50000000) sdiv sint (mi_sum_v_sq s))\<rparr>\<rparr>
                      else s
                 else s)
        in s\<lparr>mi_prev_trade_mid_x2 := mid_x2\<rparr>)"

section \<open>The square root\<close>

text \<open>
  After the bit pairs from 63 down to \<open>i\<close>, the root is twice the integer square root of the bits
  seen so far, and the remainder is what is left of them.
\<close>

definition root_of :: "nat \<Rightarrow> u128 \<times> u128 \<Rightarrow> nat \<Rightarrow> bool" where
  "root_of V s r \<longleftrightarrow> unat (snd s) = 2 * r \<and> unat (fst s) = V - r * r \<and> r * r \<le> V \<and> V < (r + 1) * (r + 1)"

lemma unat_u128: "unat (v :: u128) < 2 ^ 128"
  by (rule order_less_le_trans [OF unsigned_less]) simp

lemma unat_shift_in:
  assumes "unat (a :: u128) < 2 ^ 100" and "unat b < 4"
  shows "unat (push_bit 2 a OR b) = 4 * unat a + unat b"
proof -
  have bb: "\<not> bit b n" if "2 \<le> n" for n
  proof -
    have "b = take_bit 2 b" using assms(2)
      by (metis (no_types) take_bit_nat_eq_self unsigned_take_bit_eq word_unat_eq_iff power2_eq_square
          numeral_Bit0 mult_2 numeral_One one_add_one)
    then show ?thesis using that by (metis bit_take_bit_iff not_less)
  qed
  have "push_bit 2 a OR b = push_bit 2 a + b"
    by (rule disjunctive_add [symmetric]) (use bb in \<open>auto simp: bit_push_bit_iff\<close>)
  moreover have "unat (push_bit 2 a + b) = 4 * unat a + unat b"
    using assms by (simp add: push_bit_eq_mult unat_word_ariths)
  ultimately show ?thesis by simp
qed

lemma root_bound: "r * r \<le> V \<Longrightarrow> V < 2 ^ 126 \<Longrightarrow> (r :: nat) < 2 ^ 63"
proof (rule ccontr)
  assume a: "r * r \<le> V" "V < 2 ^ 126" "\<not> r < 2 ^ 63"
  then have "(2 ^ 63 :: nat) * 2 ^ 63 \<le> r * r" by (intro mult_le_mono) simp_all
  moreover have "(2 ^ 63 :: nat) * 2 ^ 63 = 2 ^ 126" by simp
  ultimately show False using a by linarith
qed

lemma isqrt_step_law:
  assumes root: "root_of V s r" and V: "V < 2 ^ 126"
    and V': "V' = 4 * V + unat (drop_bit (i * 2) v AND 3)" and p: "unat (drop_bit (i * 2) v AND 3 :: u128) < 4"
  shows "\<exists>r'. root_of V' (isqrt_step v i s) r'"
proof -
  obtain rem0 root0 where s: "s = (rem0, root0)" by (cases s)
  define d where "d = unat (drop_bit (i * 2) v AND 3)"
  have inv: "unat root0 = 2 * r" "unat rem0 = V - r * r" "r * r \<le> V" "V < (r + 1) * (r + 1)"
    using root by (simp_all add: root_of_def s)
  have r: "r < 2 ^ 63" by (rule root_bound [OF inv(3) V])
  have rem_small: "unat rem0 < 2 ^ 100" using inv(2-4) r by (simp add: algebra_simps)
  define a where "a = (of_nat r :: u128)"
  have a: "unat a = r" using r by (simp add: a_def unat_of_nat)
  have "push_bit 1 root0 = push_bit 2 a"
  proof -
    have "root0 = 2 * a" using inv(1) a r by (simp add: word_unat_eq_iff unat_word_ariths)
    then show ?thesis by (simp add: push_bit_eq_mult)
  qed
  moreover have "unat (push_bit 2 a) = 4 * r" "unat (push_bit 2 a OR 1) = 4 * r + 1" "unat (push_bit 2 a OR 2) = 4 * r + 2"
    using unat_shift_in [of a 0] unat_shift_in [of a 1] unat_shift_in [of a 2] a r by simp_all
  ultimately have roots: "unat (push_bit 1 root0) = 4 * r" "unat (push_bit 1 root0 OR 1) = 4 * r + 1"
    "unat (push_bit 1 root0 OR 2) = 4 * r + 2" by simp_all
  define w where "w = push_bit 2 rem0 OR (drop_bit (i * 2) v AND 3)"
  have w: "unat w = 4 * (V - r * r) + d" using unat_shift_in [OF rem_small p] inv(2) by (simp add: w_def d_def)
  have big: "4 * V + d < (2 * r + 2) * (2 * r + 2)"
    using inv(4) p by (simp add: d_def algebra_simps)
  show ?thesis
  proof (cases "w > push_bit 1 root0")
    case True
    then have gt: "4 * r + 1 \<le> unat w" using roots(1) by (simp add: word_less_nat_alt)
    have "isqrt_step v i s = (w - (push_bit 1 root0 OR 1), push_bit 1 root0 OR 2)"
      using True by (simp add: isqrt_step_def s Let_def w_def)
    moreover have "unat (w - (push_bit 1 root0 OR 1)) = unat w - (4 * r + 1)"
      using gt roots(2) by (simp add: unat_sub word_le_nat_alt)
    ultimately have "root_of V' (isqrt_step v i s) (2 * r + 1)"
      using w gt big inv(3) roots(3) V' by (simp add: root_of_def d_def algebra_simps)
    then show ?thesis ..
  next
    case False
    then have le: "unat w \<le> 4 * r" using roots(1) by (simp add: word_less_nat_alt)
    have "isqrt_step v i s = (w, push_bit 1 root0)" using False by (simp add: isqrt_step_def s Let_def w_def)
    then have "root_of V' (isqrt_step v i s) (2 * r)"
      using w le inv(3) roots(1) V' by (simp add: root_of_def d_def algebra_simps)
    then show ?thesis ..
  qed
qed

lemma bit_pair: "unat (drop_bit (i * 2) v AND 3 :: u128) = (unat v div 4 ^ i) mod 4"
proof -
  have "drop_bit (i * 2) v AND 3 = take_bit 2 (drop_bit (i * 2) v)"
    by (simp add: take_bit_eq_mask mask_eq_exp_minus_1)
  then have "unat (drop_bit (i * 2) v AND 3) = take_bit 2 (drop_bit (i * 2) (unat v))"
  proof -
    have "unat v < 2 ^ 128" using unat_u128 [of v] by simp
    then have "take_bit 128 (unat v) = unat v" by (rule take_bit_nat_eq_self)
    then show ?thesis using \<open>drop_bit (i * 2) v AND 3 = take_bit 2 (drop_bit (i * 2) v)\<close>
      by (simp only: unsigned_take_bit_eq unsigned_drop_bit_eq) simp
  qed
  also have "\<dots> = (unat v div 4 ^ i) mod 4"
    by (simp add: take_bit_eq_mod drop_bit_eq_div power_mult mult.commute [of i])
  finally show ?thesis .
qed

lemma isqrt_loop: "i \<le> 64 \<Longrightarrow> \<exists>r. root_of (unat v div 4 ^ i) (fold (isqrt_step v) (rev [i..<64]) (0, 0)) r"
proof (induction "64 - i" arbitrary: i)
  case 0
  have "unat v < 4 ^ 64" using unsigned_less [of v] by simp
  then show ?case using 0 by (simp add: root_of_def) 
next
  case (Suc n)
  then have i: "i < 64" "[i..<64] = i # [Suc i..<64]" by (simp_all add: upt_rec)
  obtain r where r: "root_of (unat v div 4 ^ Suc i) (fold (isqrt_step v) (rev [Suc i..<64]) (0, 0)) r"
  proof -
    have "n = 64 - Suc i" "Suc i \<le> 64" using Suc.hyps(2) i(1) by simp_all
    then show ?thesis using Suc.hyps(1) [of "Suc i"] that by blast
  qed
  have "unat v < 2 ^ 128" using unat_u128 [of v] by simp
  then have "unat v div 4 < 2 ^ 126" by (simp add: less_mult_imp_div_less)
  moreover have "unat v div 4 ^ Suc i \<le> unat v div 4" by (intro div_le_mono2) auto
  ultimately
  have V: "unat v div 4 ^ Suc i < 2 ^ 126" by linarith
  have "unat v div 4 ^ i = 4 * (unat v div 4 ^ i div 4) + unat v div 4 ^ i mod 4" by simp
  also have "unat v div 4 ^ i div 4 = unat v div 4 ^ Suc i" by (metis div_mult2_eq power_Suc2)
  finally have "unat v div 4 ^ i = 4 * (unat v div 4 ^ Suc i) + unat (drop_bit (i * 2) v AND 3)"
    by (simp only: bit_pair)
  from isqrt_step_law [OF r V this] show ?case using i(2) by (simp add: bit_pair)
qed

lemma isqrt_floor:
  "unat (isqrt128 v) * unat (isqrt128 v) \<le> unat v \<and> unat v < (unat (isqrt128 v) + 1) * (unat (isqrt128 v) + 1)"
proof (cases "v = 0")
  case False
  obtain rem root where run: "fold (isqrt_step v) (rev [0..<64]) (0, 0) = (rem, root)" by fastforce
  obtain r where r: "root_of (unat v) (rem, root) r" using isqrt_loop [of 0 v] by (auto simp: run)
  have "r < 2 ^ 64"
  proof (rule ccontr)
    assume "\<not> r < 2 ^ 64"
    then have "(2 ^ 64 :: nat) * 2 ^ 64 \<le> r * r" by (intro mult_le_mono) simp_all
    then show False using r unat_u128 [of v] by (simp add: root_of_def)
  qed
  then have "unat (ucast (drop_bit 1 root) :: u64) = r"
    using r by (simp add: root_of_def unat_drop_bit_eq drop_bit_eq_div unsigned_ucast_eq take_bit_nat_eq_self unat_div)
  then have "unat (isqrt128 v) = r" using False by (simp add: isqrt128_def run)
  then show ?thesis using r by (simp add: root_of_def)
qed (simp add: isqrt128_def)

text \<open>
  C23. \<^verbatim>\<open>isqrt128\<close> returns the floor of the square root of every 128-bit value: its square is at most
  the value and the next square is above it, so the cast to 64 bits loses nothing.
\<close>

theorem isqrt_is_floor_sqrt:
  "unat (isqrt128 v) * unat (isqrt128 v) \<le> unat v \<and> unat v < (unat (isqrt128 v) + 1) * (unat (isqrt128 v) + 1)"
  by (rule isqrt_floor)

section \<open>The microprice\<close>

lemma uint_u32 [simp]: "uint (u128_of w) = uint w"
  using uint_lt2p [of w] by (simp add: u128_of_def unsigned_ucast_eq take_bit_int_eq_self)

lemma u32_bounds: "0 \<le> uint (w :: u32)" "uint (w :: u32) < 2 ^ 32"
  using unsigned_greater_eq uint_lt2p [of w] by simp_all

lemma u32_product: "0 \<le> uint (a :: u32) * uint (b :: u32)" "uint a * uint b < 2 ^ 64"
proof -
  have "uint a * uint b \<le> (2 ^ 32 - 1) * (2 ^ 32 - 1)"
    by (intro mult_mono) (use u32_bounds [of a] u32_bounds [of b] in simp_all)
  then show "uint a * uint b < 2 ^ 64" by simp
qed simp

lemma microprice_quotient:
  assumes "0 < bid_qty" and "0 < ask_qty" and "bid_px \<le> ask_px"
  defines "num \<equiv> (uint bid_px * uint ask_qty + uint ask_px * uint bid_qty) * 10000"
  shows "microprice bid_px bid_qty ask_px ask_qty = num div (uint bid_qty + uint ask_qty)"
    and "uint bid_px * 10000 \<le> num div (uint bid_qty + uint ask_qty)"
    and "num div (uint bid_qty + uint ask_qty) \<le> uint ask_px * 10000"
proof -
  define B where "B = uint bid_px"
  define A where "A = uint ask_px"
  define p where "p = uint bid_qty"
  define q where "q = uint ask_qty"
  have pos: "0 < p" "0 < q" using assms(1,2) by (simp_all add: p_def q_def word_less_def)
  have BA: "0 \<le> B" "B \<le> A" "A < 2 ^ 32" using assms(3) u32_bounds [of ask_px] by (simp_all add: A_def B_def word_le_def)
  have small: "0 \<le> B * q" "B * q < 2 ^ 64" "0 \<le> A * p" "A * p < 2 ^ 64" "p < 2 ^ 32" "q < 2 ^ 32"
    using u32_product [of bid_px ask_qty] u32_product [of ask_px bid_qty] u32_bounds [of bid_qty] u32_bounds [of ask_qty]
    by (simp_all add: A_def B_def p_def q_def)
  have num: "num = (B * q + A * p) * 10000" by (simp add: num_def A_def B_def p_def q_def)
  have "(B * (p + q)) * 10000 \<le> num" "num \<le> (A * (p + q)) * 10000"
    using mult_right_mono [OF BA(2), of q] mult_right_mono [OF BA(2), of p] pos by (simp_all add: num algebra_simps)
  then have "B * 10000 * (p + q) \<le> num" "num \<le> A * 10000 * (p + q)" by (simp_all add: algebra_simps)
  then have lo: "B * 10000 \<le> num div (p + q)" and hi: "num div (p + q) \<le> A * 10000"
    using pos zdiv_mono1 [of "B * 10000 * (p + q)" num "p + q"] zdiv_mono1 [of num "A * 10000 * (p + q)" "p + q"] by simp_all
  show "uint bid_px * 10000 \<le> num div (uint bid_qty + uint ask_qty)"
    and "num div (uint bid_qty + uint ask_qty) \<le> uint ask_px * 10000"
    using lo hi by (simp_all add: A_def B_def p_def q_def)
  have "uint (u128_of bid_px * u128_of ask_qty) = B * q" "uint (u128_of ask_px * u128_of bid_qty) = A * p"
    using small by (simp_all add: uint_word_ariths A_def B_def p_def q_def)
  then have "uint (u128_of bid_px * u128_of ask_qty + u128_of ask_px * u128_of bid_qty) = B * q + A * p"
    using small by (simp add: uint_word_ariths)
  then have "uint ((u128_of bid_px * u128_of ask_qty + u128_of ask_px * u128_of bid_qty) * 10000) = num"
    using small by (simp only: uint_word_ariths num) simp
  moreover have "uint (u128_of bid_qty + u128_of ask_qty) = p + q"
    using small pos by (simp add: uint_word_ariths p_def q_def)
  ultimately have "microprice bid_px bid_qty ask_px ask_qty = to_i64 (num div (p + q))"
    by (simp add: microprice_def Let_def uint_div)
  moreover have "fits_i64 (num div (p + q))" using lo hi BA by (simp add: fits_i64_def)
  ultimately show "microprice bid_px bid_qty ask_px ask_qty = num div (uint bid_qty + uint ask_qty)"
    by (simp add: p_def q_def to_i64_id)
qed

text \<open>With more on the bid the microprice is at or above the mid, with more on the ask at or below it.\<close>

lemma microprice_leans:
  fixes B A p q :: int
  assumes "B \<le> A" and "0 < p" and "0 < q"
  shows "q \<le> p \<Longrightarrow> (A + B) * 5000 \<le> (B * q + A * p) * 10000 div (p + q)"
    and "p \<le> q \<Longrightarrow> (B * q + A * p) * 10000 div (p + q) \<le> (A + B) * 5000"
proof -
  have key: "(B * q + A * p) * 10000 = (A + B) * 5000 * (p + q) + 5000 * ((A - B) * (p - q))"
    by (simp add: algebra_simps)
  show "(A + B) * 5000 \<le> (B * q + A * p) * 10000 div (p + q)" if "q \<le> p"
  proof -
    have "0 \<le> (A - B) * (p - q)" using assms(1) that by simp
    then have "(A + B) * 5000 * (p + q) \<le> (B * q + A * p) * 10000" using key by linarith
    then show ?thesis using zdiv_mono1 [of "(A + B) * 5000 * (p + q)" _ "p + q"] assms by simp
  qed
  show "(B * q + A * p) * 10000 div (p + q) \<le> (A + B) * 5000" if "p \<le> q"
  proof -
    have "(A - B) * (p - q) \<le> 0" using assms(1) that by (simp add: mult_nonneg_nonpos)
    then have "(B * q + A * p) * 10000 \<le> (A + B) * 5000 * (p + q)" using key by linarith
    then show ?thesis using zdiv_mono1 [of _ "(A + B) * 5000 * (p + q)" "p + q"] assms by simp
  qed
qed

lemma on_return_frame [simp]:
  "me_microprice_1e8 (mi_m (on_return x s)) = me_microprice_1e8 (mi_m s)"
  "me_mid_1e8 (mi_m (on_return x s)) = me_mid_1e8 (mi_m s)"
  "me_micro_minus_mid_1e8 (mi_m (on_return x s)) = me_micro_minus_mid_1e8 (mi_m s)"
  "me_ofi (mi_m (on_return x s)) = me_ofi (mi_m s)"
  "me_trades (mi_m (on_return x s)) = me_trades (mi_m s)"
  "me_effective_spread_n (mi_m (on_return x s)) = me_effective_spread_n (mi_m s)"
  "me_effective_spread_sum_1e4 (mi_m (on_return x s)) = me_effective_spread_sum_1e4 (mi_m s)"
  "me_kyle_lambda_1e12 (mi_m (on_return x s)) = me_kyle_lambda_1e12 (mi_m s)"
  "mi_have_prev (on_return x s) = mi_have_prev s"
  "mi_sum_dp_v (on_return x s) = mi_sum_dp_v s"
  "mi_sum_v_sq (on_return x s) = mi_sum_v_sq s"
  "mi_prev_trade_mid_x2 (on_return x s) = mi_prev_trade_mid_x2 s"
  by (simp_all add: on_return_def Let_def)

lemma on_book_metrics:
  assumes "0 < bid_px" and "0 < bid_qty" and "0 < ask_qty" and "bid_px < ask_px"
  shows "me_microprice_1e8 (mi_m (on_book bid_px bid_qty ask_px ask_qty s)) = microprice bid_px bid_qty ask_px ask_qty"
    and "me_mid_1e8 (mi_m (on_book bid_px bid_qty ask_px ask_qty s)) = (uint bid_px + uint ask_px) * 5000"
    and "me_micro_minus_mid_1e8 (mi_m (on_book bid_px bid_qty ask_px ask_qty s)) =
      microprice bid_px bid_qty ask_px ask_qty - (uint bid_px + uint ask_px) * 5000"
  using assms by (auto simp: on_book_def Let_def)

text \<open>
  C34. On a two-sided uncrossed book the published microprice is the floor of the exact
  size-weighted quotient (the 128-bit intermediates and the cast to 64 bits lose nothing), it lies
  between bid and ask, the mid is exact, and the reported difference has the sign of the
  imbalance: with more size on the bid the microprice is at or above the mid, with more on the ask
  at or below it.
\<close>

theorem microprice_is_exact:
  assumes "0 < bid_px" and "0 < bid_qty" and "0 < ask_qty" and "bid_px < ask_px"
  shows "let m = mi_m (on_book bid_px bid_qty ask_px ask_qty s) in
    me_microprice_1e8 m = (uint bid_px * uint ask_qty + uint ask_px * uint bid_qty) * 10000 div (uint bid_qty + uint ask_qty)
    \<and> uint bid_px * 10000 \<le> me_microprice_1e8 m \<and> me_microprice_1e8 m \<le> uint ask_px * 10000
    \<and> me_mid_1e8 m = (uint bid_px + uint ask_px) * 5000
    \<and> (bid_qty \<ge> ask_qty \<longrightarrow> me_micro_minus_mid_1e8 m \<ge> 0) \<and> (bid_qty \<le> ask_qty \<longrightarrow> me_micro_minus_mid_1e8 m \<le> 0)"
proof -
  have "bid_px \<le> ask_px" using assms(4) by simp
  note q = microprice_quotient [OF assms(2,3) this]
  have "uint bid_px \<le> uint ask_px" "0 < uint bid_qty" "0 < uint ask_qty"
    using assms by (simp_all add: word_less_def)
  note lean = microprice_leans [OF this]
  show ?thesis using q lean on_book_metrics [OF assms, of s] by (simp add: Let_def word_le_def add.commute)
qed

theorem microprice_is_exact_witness:
  "let m = mi_m (on_book 1000000 300 1000100 100 micro_reset) in
    me_microprice_1e8 m = 10000750000 \<and> me_mid_1e8 m = 10000500000 \<and> me_micro_minus_mid_1e8 m \<ge> 0"
  using microprice_is_exact [of 1000000 300 100 1000100 micro_reset] by (simp add: Let_def)

section \<open>The trade tape\<close>

datatype MarketEvent = BookEvent u32 u32 u32 u32 | TradeEvent u32 u32 bool

fun micro_event :: "MarketEvent \<Rightarrow> Microstructure \<Rightarrow> Microstructure" where
  "micro_event (BookEvent bid_px bid_qty ask_px ask_qty) s = on_book bid_px bid_qty ask_px ask_qty s"
| "micro_event (TradeEvent px qty buyer_initiated) s = on_trade px qty buyer_initiated s"

text \<open>
  The specification: the tape holds, for each trade printed while a valid book was known, twice the
  mid, the doubled distance of the price from it, and the signed volume.
\<close>

fun mid_after :: "int option \<Rightarrow> MarketEvent \<Rightarrow> int option" where
  "mid_after mid (BookEvent b p a q) = (if b > 0 \<and> p > 0 \<and> q > 0 \<and> b < a then Some (uint b + uint a) else mid)"
| "mid_after mid (TradeEvent px qty buy) = mid"

fun printed :: "int option \<Rightarrow> MarketEvent \<Rightarrow> (int \<times> int \<times> int) list" where
  "printed mid (BookEvent b p a q) = []"
| "printed None (TradeEvent px qty buy) = []"
| "printed (Some m) (TradeEvent px qty buy) = [(m, \<bar>2 * uint px - m\<bar>, if buy then uint qty else - uint qty)]"

primrec trade_tape :: "int option \<Rightarrow> MarketEvent list \<Rightarrow> (int \<times> int \<times> int) list" where
  "trade_tape mid [] = []"
| "trade_tape mid (e # es) = printed mid e @ trade_tape (mid_after mid e) es"

definition spread_sum :: "(int \<times> int \<times> int) list \<Rightarrow> int" where
  "spread_sum t = (\<Sum>(m, d, v) \<leftarrow> t. d)"

fun impact :: "(int \<times> int \<times> int) list \<Rightarrow> int" where
  "impact ((m, d, v) # (m', d', v') # t) = (m' - m) * v' + impact ((m', d', v') # t)"
| "impact t = 0"

definition volume_sq :: "(int \<times> int \<times> int) list \<Rightarrow> int" where
  "volume_sq t = (\<Sum>(m, d, v) \<leftarrow> tl t. v * v)"

lemma trade_tape_snoc: "trade_tape mid (es @ [e]) = trade_tape mid es @ printed (fold (\<lambda>e m. mid_after m e) es mid) e"
  by (induction es arbitrary: mid) simp_all

lemma impact_snoc: "impact (t @ [(m, d, v)]) = impact t + (if t = [] then 0 else (m - fst (last t)) * v)"
  by (induction t rule: impact.induct) auto

lemma volume_sq_snoc: "volume_sq (t @ [(m, d, v)]) = volume_sq t + (if t = [] then 0 else v * v)"
  by (cases t) (simp_all add: volume_sq_def)

lemma spread_sum_snoc: "spread_sum (t @ [(m, d, v)]) = spread_sum t + d"
  by (simp add: spread_sum_def)

text \<open>Every entry of the tape comes from 32-bit prices and volumes.\<close>

definition entry_ok :: "int \<times> int \<times> int \<Rightarrow> bool" where
  "entry_ok x = (case x of (m, d, v) \<Rightarrow> 0 < m \<and> m < 2 ^ 33 \<and> 0 \<le> d \<and> d < 2 ^ 33 \<and> \<bar>v\<bar> < 2 ^ 32)"

lemma printed_ok: "(\<And>m. mid = Some m \<Longrightarrow> 0 < m \<and> m < 2 ^ 33) \<Longrightarrow> list_all entry_ok (printed mid e)"
proof (induction mid e rule: printed.induct)
  case (3 m px qty buy)
  then have m: "0 < m" "m < 8589934592" by simp_all
  moreover have "0 \<le> uint px" "uint px < 4294967296" using u32_bounds [of px] by simp_all
  ultimately have "\<bar>2 * uint px - m\<bar> < 8589934592" by linarith
  then show ?case using m u32_bounds [of qty] by (simp add: entry_ok_def)
qed simp_all

lemma mid_after_ok:
  assumes "\<And>m. mid = Some m \<Longrightarrow> 0 < m \<and> m < 2 ^ 33"
  shows "mid_after mid e = Some m \<Longrightarrow> 0 < m \<and> m < 2 ^ 33"
proof (cases e)
  case (BookEvent b p a q)
  then show "mid_after mid e = Some m \<Longrightarrow> 0 < m \<and> m < 2 ^ 33"
    using assms u32_bounds [of a] u32_bounds [of b] by (auto simp: word_less_def split: if_splits)
qed (use assms in simp)

lemma trade_tape_ok: "(\<And>m. mid = Some m \<Longrightarrow> 0 < m \<and> m < 2 ^ 33) \<Longrightarrow> list_all entry_ok (trade_tape mid es)"
proof (induction es arbitrary: mid)
  case (Cons e es)
  then show ?case using printed_ok [of mid e] mid_after_ok [of mid e] by simp
qed simp

lemma trade_tape_length: "length (trade_tape mid es) \<le> length es"
proof (induction es arbitrary: mid)
  case (Cons e es)
  have "length (printed mid e) \<le> 1" by (cases "(mid, e)" rule: printed.cases) simp_all
  then show ?case using Cons [of "mid_after mid e"] by simp
qed simp

lemma spread_sum_bound: "list_all entry_ok t \<Longrightarrow> 0 \<le> spread_sum t \<and> spread_sum t \<le> int (length t) * 2 ^ 33"
  by (induction t) (auto simp: spread_sum_def entry_ok_def algebra_simps)

lemma square_bound:
  assumes "\<bar>v\<bar> < (2 ^ 32 :: int)"
  shows "0 \<le> v * v \<and> v * v \<le> 2 ^ 64"
proof -
  have "\<bar>v\<bar> * \<bar>v\<bar> \<le> 2 ^ 32 * 2 ^ 32" by (intro mult_mono) (use assms in simp_all)
  then show ?thesis by simp
qed

lemma volume_sq_bound:
  assumes "list_all entry_ok t"
  shows "0 \<le> volume_sq t \<and> volume_sq t \<le> int (length t) * 2 ^ 64"
proof -
  have "0 \<le> (\<Sum>(m, d, v) \<leftarrow> u. v * v) \<and> (\<Sum>(m, d, v) \<leftarrow> u. v * v) \<le> int (length u) * 2 ^ 64"
    if "list_all entry_ok u" for u :: "(int \<times> int \<times> int) list"
    using that
  proof (induction u)
    case (Cons x u)
    obtain m d v where x: "x = (m, d, v)" by (cases x)
    have "\<bar>v\<bar> < 2 ^ 32" using Cons.prems by (simp add: x entry_ok_def)
    then show ?case using Cons square_bound [of v] by (simp add: x algebra_simps)
  qed simp
  moreover have "list_all entry_ok (tl t)" using assms by (cases t) simp_all
  ultimately have "0 \<le> volume_sq t \<and> volume_sq t \<le> int (length (tl t)) * 2 ^ 64" unfolding volume_sq_def by blast
  then show ?thesis by (cases t) simp_all
qed

lemma impact_bound: "list_all entry_ok t \<Longrightarrow> \<bar>impact t\<bar> \<le> int (length t) * 2 ^ 65"
proof (induction t rule: impact.induct)
  case (1 m d v m' d' v' t)
  then have "\<bar>m' - m\<bar> \<le> 2 ^ 33" "\<bar>v'\<bar> \<le> 2 ^ 32" by (auto simp: entry_ok_def)
  then have "\<bar>m' - m\<bar> * \<bar>v'\<bar> \<le> 2 ^ 33 * 2 ^ 32" by (intro mult_mono) simp_all
  then have "\<bar>(m' - m) * v'\<bar> \<le> 2 ^ 65" by (simp add: abs_mult)
  moreover have "\<bar>impact ((m', d', v') # t)\<bar> \<le> int (length ((m', d', v') # t)) * 2 ^ 65" using 1 by simp
  ultimately show ?case by (simp add: algebra_simps)
qed simp_all

text \<open>The state after a session agrees with its tape.\<close>

definition tape_state :: "int option \<Rightarrow> (int \<times> int \<times> int) list \<Rightarrow> Microstructure \<Rightarrow> bool" where
  "tape_state mid t s \<longleftrightarrow>
     (case mid of None \<Rightarrow> \<not> mi_have_prev s
      | Some m \<Rightarrow> mi_have_prev s \<and> mi_pb s \<noteq> 0 \<and> mi_pa s \<noteq> 0 \<and> m = uint (mi_pb s) + uint (mi_pa s))
     \<and> mi_prev_trade_mid_x2 s = (if t = [] then 0 else fst (last t))
     \<and> me_trades (mi_m s) = of_nat (length t) \<and> me_effective_spread_n (mi_m s) = of_nat (length t)
     \<and> me_effective_spread_sum_1e4 (mi_m s) = word_of_int (spread_sum t)
     \<and> mi_sum_dp_v s = impact t \<and> mi_sum_v_sq s = word_of_int (volume_sq t)
     \<and> me_kyle_lambda_1e12 (mi_m s) =
         (if volume_sq t = 0 then 0 else to_i64 ((impact t * 50000000) sdiv volume_sq t))"

lemma tape_state_reset: "tape_state None [] micro_reset"
  by (simp add: tape_state_def micro_reset_def Metrics_zero_def spread_sum_def volume_sq_def)

lemma on_book_frame:
  "me_trades (mi_m (on_book b p a q s)) = me_trades (mi_m s)"
  "me_effective_spread_n (mi_m (on_book b p a q s)) = me_effective_spread_n (mi_m s)"
  "me_effective_spread_sum_1e4 (mi_m (on_book b p a q s)) = me_effective_spread_sum_1e4 (mi_m s)"
  "me_kyle_lambda_1e12 (mi_m (on_book b p a q s)) = me_kyle_lambda_1e12 (mi_m s)"
  "mi_sum_dp_v (on_book b p a q s) = mi_sum_dp_v s"
  "mi_sum_v_sq (on_book b p a q s) = mi_sum_v_sq s"
  "mi_prev_trade_mid_x2 (on_book b p a q s) = mi_prev_trade_mid_x2 s"
  by (simp_all add: on_book_def Let_def)

lemma on_book_tape:
  assumes "tape_state mid t s"
  shows "tape_state (mid_after mid (BookEvent b p a q)) t (on_book b p a q s)"
proof (cases "b > 0 \<and> p > 0 \<and> q > 0 \<and> b < a")
  case True
  then have "mi_have_prev (on_book b p a q s)" "mi_pb (on_book b p a q s) = b" "mi_pa (on_book b p a q s) = a" "a \<noteq> 0" "b \<noteq> 0"
    by (auto simp: on_book_def Let_def)
  then show ?thesis using assms True by (simp add: tape_state_def on_book_frame)
next
  case False
  then have "mi_have_prev (on_book b p a q s) = mi_have_prev s" "mi_pb (on_book b p a q s) = mi_pb s"
    "mi_pa (on_book b p a q s) = mi_pa s"
    by (auto simp: on_book_def Let_def word_neq_0_conv not_less)
  then show ?thesis using assms False by (auto simp: tape_state_def on_book_frame split: option.splits)
qed

lemma volume_sq_word:
  assumes "list_all entry_ok t" and "length t \<le> 2 ^ 30"
  shows "uint (word_of_int (volume_sq t) :: u128) = volume_sq t" and "sint (word_of_int (volume_sq t) :: u128) = volume_sq t"
proof -
  have "int (length t) * 2 ^ 64 \<le> 2 ^ 30 * 2 ^ 64" using assms(2) by (intro mult_right_mono) simp_all
  then have "0 \<le> volume_sq t \<and> volume_sq t < 2 ^ 127" using volume_sq_bound [OF assms(1)] by simp
  then show "uint (word_of_int (volume_sq t) :: u128) = volume_sq t" "sint (word_of_int (volume_sq t) :: u128) = volume_sq t"
    by (simp_all add: uint_word_of_int sint_sbintrunc' signed_take_bit_int_eq_self)
qed

lemma on_trade_tape:
  assumes st: "tape_state mid t s" and ok: "list_all entry_ok (t @ printed mid (TradeEvent px qty buy))"
    and len: "length t < 2 ^ 30"
  shows "tape_state mid (t @ printed mid (TradeEvent px qty buy)) (on_trade px qty buy s)"
proof (cases mid)
  case None
  then show ?thesis using st by (simp add: tape_state_def on_trade_def)
next
  case (Some m)
  define v where "v = (if buy then uint qty else - uint qty)"
  define d where "d = \<bar>2 * uint px - m\<bar>"
  define t' where "t' = t @ [(m, d, v)]"
  have t': "t @ printed mid (TradeEvent px qty buy) = t'" by (simp add: Some t'_def v_def d_def)
  have m: "mi_have_prev s" "mi_pb s \<noteq> 0" "mi_pa s \<noteq> 0" "m = uint (mi_pb s) + uint (mi_pa s)"
    using st by (simp_all add: tape_state_def Some)
  have prev: "0 < mi_prev_trade_mid_x2 s \<longleftrightarrow> t \<noteq> []"
    using st ok by (cases t rule: rev_cases) (auto simp: tape_state_def entry_ok_def)
  note words = volume_sq_word [of t'] volume_sq_snoc [of t m d v] impact_snoc [of t m d v] spread_sum_snoc [of t m d v]
  have okt': "list_all entry_ok t'" "length t' \<le> 2 ^ 30" using ok len unfolding t' by (simp, simp add: t'_def)
  have pos: "0 < (word_of_int (volume_sq t') :: u128) \<longleftrightarrow> volume_sq t' \<noteq> 0"
    using volume_sq_word(1) [OF okt'] by (metis uint_0_iff word_neq_0_conv word_of_int_0)
  have nn: "0 \<le> volume_sq t" using volume_sq_bound [of t] ok by simp
  show ?thesis
  proof (cases "t = []")
    case True
    then show ?thesis using st m prev
      by (simp add: t' t'_def tape_state_def Some on_trade_def Let_def d_def spread_sum_def volume_sq_def abs_if)
  next
    case False
    have sums: "volume_sq t' = volume_sq t + v * v" "impact t' = impact t + (m - fst (last t)) * v"
      "spread_sum t' = spread_sum t + d" "length t' = Suc (length t)" "t' \<noteq> []" "fst (last t') = m"
      using False words by (simp_all add: t'_def)
    have "volume_sq t' = 0 \<Longrightarrow> volume_sq t = 0" using sums(1) nn by (smt (verit) zero_le_square)
    moreover have "mi_have_prev (on_trade px qty buy s) = mi_have_prev s" "mi_pb (on_trade px qty buy s) = mi_pb s"
      "mi_pa (on_trade px qty buy s) = mi_pa s" "mi_prev_trade_mid_x2 (on_trade px qty buy s) = m"
      "me_trades (mi_m (on_trade px qty buy s)) = me_trades (mi_m s) + 1"
      "me_effective_spread_n (mi_m (on_trade px qty buy s)) = me_effective_spread_n (mi_m s) + 1"
      "me_effective_spread_sum_1e4 (mi_m (on_trade px qty buy s)) = me_effective_spread_sum_1e4 (mi_m s) + word_of_int d"
      "mi_sum_dp_v (on_trade px qty buy s) = mi_sum_dp_v s + (m - mi_prev_trade_mid_x2 s) * v"
      "mi_sum_v_sq (on_trade px qty buy s) = mi_sum_v_sq s + word_of_int (v * v)"
      "me_kyle_lambda_1e12 (mi_m (on_trade px qty buy s)) =
         (if 0 < mi_sum_v_sq (on_trade px qty buy s)
          then to_i64 ((mi_sum_dp_v (on_trade px qty buy s) * 50000000) sdiv sint (mi_sum_v_sq (on_trade px qty buy s)))
          else me_kyle_lambda_1e12 (mi_m s))"
      using m(1-3) prev False unfolding m(4) by (simp_all add: on_trade_def Let_def d_def v_def m(4) abs_if del: of_int_mult)
    ultimately show ?thesis using st m(1-3) m(4) [symmetric] False sums pos volume_sq_word [OF okt']
      unfolding t' by (simp add: tape_state_def Some of_int_add [symmetric] del: of_int_add of_int_mult)
  qed
qed

lemma mids_ok: "fold (\<lambda>e m. mid_after m e) es None = Some m \<Longrightarrow> 0 < m \<and> m < 2 ^ 33"
proof (induction es arbitrary: m rule: rev_induct)
  case (snoc e es)
  then show ?case using mid_after_ok [of "fold (\<lambda>e m. mid_after m e) es None" e m] by simp
qed simp

lemma session_tape:
  "length es \<le> 2 ^ 30 \<Longrightarrow>
   tape_state (fold (\<lambda>e m. mid_after m e) es None) (trade_tape None es) (fold micro_event es micro_reset)"
proof (induction es rule: rev_induct)
  case (snoc e es)
  then have IH: "tape_state (fold (\<lambda>e m. mid_after m e) es None) (trade_tape None es) (fold micro_event es micro_reset)"
    and len: "length (trade_tape None es) < 2 ^ 30"
    using trade_tape_length [of None es] by simp_all
  have ok: "list_all entry_ok (trade_tape None es @ printed (fold (\<lambda>e m. mid_after m e) es None) e)"
    using trade_tape_ok [of None es] printed_ok [of "fold (\<lambda>e m. mid_after m e) es None" e] mids_ok [of es] by simp
  show ?case
  proof (cases e)
    case (BookEvent b p a q)
    then show ?thesis using on_book_tape [OF IH, of b p a q] by (simp add: trade_tape_snoc del: mid_after.simps)
  next
    case (TradeEvent px qty buy)
    then show ?thesis using on_trade_tape [OF IH _ len] ok by (simp add: trade_tape_snoc)
  qed
qed (simp add: tape_state_reset)

text \<open>
  C33. Over any session of book updates and trades, up to \<open>2^30\<close> of them, the trade metrics are
  exactly those of the tape of trades printed while a valid book was known: one trade counted per
  entry, the effective spread sum is the sum of \<open>|2P - 2M|\<close> with no rounding, and Kyle's lambda
  is the truncated quotient of the regression sums of mid moves and signed volumes between
  consecutive trades. None of the accumulators wraps and the 128-bit product fits.
\<close>

theorem trade_metrics_are_tape_sums:
  assumes "length evs \<le> 2 ^ 30"
  shows "let s = fold micro_event evs micro_reset; m = mi_m s; t = trade_tape None evs in
     unat (me_trades m) = length t \<and> unat (me_effective_spread_n m) = length t
     \<and> uint (me_effective_spread_sum_1e4 m) = spread_sum t
     \<and> mi_sum_dp_v s = impact t \<and> uint (mi_sum_v_sq s) = volume_sq t
     \<and> me_kyle_lambda_1e12 m = (if volume_sq t = 0 then 0 else to_i64 ((impact t * 50000000) sdiv volume_sq t))
     \<and> fits_i128 (impact t * 50000000)"
proof -
  define t where "t = trade_tape None evs"
  define s where "s = fold micro_event evs micro_reset"
  have st: "tape_state (fold (\<lambda>e m. mid_after m e) evs None) t s" using session_tape [OF assms] by (simp add: t_def s_def)
  have len: "length t \<le> 2 ^ 30" using trade_tape_length [of None evs] assms by (simp add: t_def)
  have ok: "list_all entry_ok t" using trade_tape_ok [of None evs] by (simp add: t_def)
  have "int (length t) * 2 ^ 33 \<le> 2 ^ 30 * 2 ^ 33" "int (length t) * 2 ^ 65 \<le> 2 ^ 30 * 2 ^ 65"
    using len by (intro mult_right_mono; simp)+
  then have bounds: "0 \<le> spread_sum t" "spread_sum t < 2 ^ 64" "\<bar>impact t\<bar> \<le> 2 ^ 95"
    using spread_sum_bound [OF ok] impact_bound [OF ok] by simp_all
  have "fits_i128 (impact t * 50000000)" using bounds(3) by (simp add: fits_i128_def abs_le_iff)
  moreover have "uint (word_of_int (spread_sum t) :: u64) = spread_sum t"
    using bounds(1,2) by (simp add: uint_word_of_int)
  moreover have "unat (of_nat (length t) :: u64) = length t" using len by (simp add: unat_of_nat)
  ultimately show ?thesis using st volume_sq_word(1) [OF ok len]
    by (simp add: t_def [symmetric] s_def [symmetric] tape_state_def Let_def)
qed

theorem trade_metrics_are_tape_sums_witness:
  "let s = fold micro_event [BookEvent 100 5 104 5, TradeEvent 104 7 True, BookEvent 102 5 108 5, TradeEvent 102 2 False]
             micro_reset
   in unat (me_trades (mi_m s)) = 2 \<and> uint (me_effective_spread_sum_1e4 (mi_m s)) = 10 \<and> mi_sum_dp_v s = - 12
      \<and> me_kyle_lambda_1e12 (mi_m s) = - 150000000"
  using trade_metrics_are_tape_sums
    [of "[BookEvent 100 5 104 5, TradeEvent 104 7 True, BookEvent 102 5 108 5, TradeEvent 102 2 False]"]
  by (simp add: Let_def spread_sum_def volume_sq_def to_i64_id fits_i64_def signed_divide_int_def)

end
