(* ===== verification/Day_Replay.thy ===== *)
theory Day_Replay
  imports Itch_Replay Software_Engine Analytics
begin

text \<open>
  The replay of a trading day with analytics (\<^verbatim>\<open>demo_real_data\<close> and its callback \<^verbatim>\<open>on_message\<close> in
  \<^verbatim>\<open>src/main.cpp\<close>): each message is resolved and applied, printed executions feed the trade
  metrics, changes of the top of book feed the book metrics, and the state at the closing bell is
  kept. The report is in \<open>Day_Report\<close>. Proved, from the bytes of the file: the analytics leave the book
  alone, and the closing snapshot is the state just before the first message at or after the bell.
\<close>

section \<open>State\<close>

definition MARKET_CLOSE :: u64 where "MARKET_CLOSE = 57600000000000"

record ReplayCtx =
  ry_book :: BookState
  ry_engine :: SoftwareEngine
  ry_micro :: Microstructure
  ry_close_micro :: Metrics
  ry_last_bp :: u32
  ry_last_bq :: u32
  ry_last_ap :: u32
  ry_last_aq :: u32
  ry_close_taken :: bool
  ry_close_digest :: u64
  ry_close_bid_px :: u32
  ry_close_bid_qty :: u32
  ry_close_ask_px :: u32
  ry_close_ask_qty :: u32
  ry_close_last :: u32
  ry_close_shares :: u64
  ry_close_bid_levels :: nat
  ry_close_ask_levels :: nat

definition ReplayCtx_new :: "BookState \<Rightarrow> ReplayCtx" where
  "ReplayCtx_new book =
     \<lparr>ry_book = book, ry_engine = SoftwareEngine_new, ry_micro = micro_reset, ry_close_micro = Metrics_zero,
      ry_last_bp = 0, ry_last_bq = 0, ry_last_ap = 0, ry_last_aq = 0, ry_close_taken = False, ry_close_digest = 0,
      ry_close_bid_px = 0, ry_close_bid_qty = 0, ry_close_ask_px = 0, ry_close_ask_qty = 0, ry_close_last = 0,
      ry_close_shares = 0, ry_close_bid_levels = 0, ry_close_ask_levels = 0\<rparr>"

section \<open>The callback\<close>

text \<open>The best prices are written only when that side of the book is not empty.\<close>

definition take_close :: "ReplayCtx \<Rightarrow> ReplayCtx" where
  "take_close c =
     (let e = ry_engine c;
          c = c\<lparr>ry_close_taken := True, ry_close_digest := book_digest e\<rparr>;
          c = (case best_bid e of None \<Rightarrow> c | Some (px, qty) \<Rightarrow> c\<lparr>ry_close_bid_px := px, ry_close_bid_qty := qty\<rparr>);
          c = (case best_ask e of None \<Rightarrow> c | Some (px, qty) \<Rightarrow> c\<lparr>ry_close_ask_px := px, ry_close_ask_qty := qty\<rparr>)
      in c\<lparr>ry_close_micro := mi_m (ry_micro c), ry_close_last := se_last_price e, ry_close_shares := se_shares_traded e,
           ry_close_bid_levels := length (se_bids e), ry_close_ask_levels := length (se_asks e)\<rparr>)"

definition day_op :: "ResolvedOp \<Rightarrow> ReplayCtx \<Rightarrow> ReplayCtx" where
  "day_op p c =
     (let c = c\<lparr>ry_engine := apply_op p (ry_engine c)\<rparr>
      in if (op_action p = Execute \<or> op_action p = Trade) \<and> op_match_number p \<noteq> 0
         then c\<lparr>ry_micro := on_trade (op_price p) (op_quantity p) (op_side p = Sell) (ry_micro c)\<rparr> else c)"

definition top_of_book :: "ReplayCtx \<Rightarrow> ReplayCtx" where
  "top_of_book c =
     (case (best_bid (ry_engine c), best_ask (ry_engine c)) of
        (Some (bp, bq), Some (ap, aq)) \<Rightarrow>
          if bp \<noteq> ry_last_bp c \<or> bq \<noteq> ry_last_bq c \<or> ap \<noteq> ry_last_ap c \<or> aq \<noteq> ry_last_aq c
          then c\<lparr>ry_micro := on_book bp bq ap aq (ry_micro c), ry_last_bp := bp, ry_last_bq := bq, ry_last_ap := ap, ry_last_aq := aq\<rparr>
          else c
      | _ \<Rightarrow> c)"

definition on_message :: "Order \<Rightarrow> ReplayCtx \<Rightarrow> ReplayCtx" where
  "on_message msg c =
     (let c = (if \<not> ry_close_taken c \<and> o_timestamp_ns msg \<ge> MARKET_CLOSE then take_close c else c)
      in case resolve msg (ry_book c) of (ok, book, ops) \<Rightarrow>
           let c = c\<lparr>ry_book := book\<rparr> in if \<not> ok then c else top_of_book (fold day_op ops c))"

section \<open>The book goes its own way\<close>

lemma take_close_frame [tp_frame]:
  "ry_book (take_close c) = ry_book c" "ry_engine (take_close c) = ry_engine c" "ry_micro (take_close c) = ry_micro c"
  by (simp_all add: take_close_def Let_def split: option.split prod.split)

lemma top_of_book_frame [tp_frame]: "ry_book (top_of_book c) = ry_book c" "ry_engine (top_of_book c) = ry_engine c"
  by (simp_all add: top_of_book_def split: option.split prod.split)

lemma day_op_frame [tp_frame]: "ry_book (day_op p c) = ry_book c" "ry_engine (day_op p c) = apply_op p (ry_engine c)"
  by (simp_all add: day_op_def Let_def)

lemma day_ops_frame [tp_frame]:
  "ry_book (fold day_op ps c) = ry_book c" "ry_engine (fold day_op ps c) = fold apply_op ps (ry_engine c)"
  by (induction ps arbitrary: c) (simp_all add: tp_frame)

lemma on_message_feed: "(ry_book (on_message msg c), ry_engine (on_message msg c)) = feed_step msg (ry_book c, ry_engine c)"
  by (simp add: on_message_def feed_step_def Let_def tp_frame split: prod.split)

lemma on_messages_feed:
  "(ry_book (fold on_message msgs c), ry_engine (fold on_message msgs c)) = fold feed_step msgs (ry_book c, ry_engine c)"
proof (induction msgs arbitrary: c)
  case (Cons msg msgs)
  then show ?case using on_message_feed [of msg c] by simp
qed simp

section \<open>The closing snapshot\<close>

text \<open>Everything the callback keeps for the close, read off an engine and the metrics.\<close>

definition close_view :: "ReplayCtx \<Rightarrow> u64 \<times> (u32 \<times> u32) \<times> (u32 \<times> u32) \<times> u32 \<times> u64 \<times> nat \<times> nat \<times> Metrics" where
  "close_view c = (ry_close_digest c, (ry_close_bid_px c, ry_close_bid_qty c), (ry_close_ask_px c, ry_close_ask_qty c),
     ry_close_last c, ry_close_shares c, ry_close_bid_levels c, ry_close_ask_levels c, ry_close_micro c)"

definition snapshot :: "SoftwareEngine \<Rightarrow> Metrics \<Rightarrow> u64 \<times> (u32 \<times> u32) \<times> (u32 \<times> u32) \<times> u32 \<times> u64 \<times> nat \<times> nat \<times> Metrics" where
  "snapshot e m = (book_digest e, (case best_bid e of None \<Rightarrow> (0, 0) | Some x \<Rightarrow> x), (case best_ask e of None \<Rightarrow> (0, 0) | Some x \<Rightarrow> x),
     se_last_price e, se_shares_traded e, length (se_bids e), length (se_asks e), m)"

definition close_blank :: "ReplayCtx \<Rightarrow> bool" where
  "close_blank c \<longleftrightarrow> \<not> ry_close_taken c \<and> ry_close_bid_px c = 0 \<and> ry_close_bid_qty c = 0 \<and> ry_close_ask_px c = 0 \<and> ry_close_ask_qty c = 0"

lemma take_close_view:
  "close_blank c \<Longrightarrow> ry_close_taken (take_close c) \<and> close_view (take_close c) = snapshot (ry_engine c) (mi_m (ry_micro c))"
  by (simp add: close_blank_def take_close_def close_view_def snapshot_def Let_def split: option.split prod.split)

lemma top_of_book_close:
  "ry_close_taken (top_of_book c) = ry_close_taken c \<and> close_view (top_of_book c) = close_view c"
  by (simp add: top_of_book_def close_view_def split: option.split prod.split)

lemma day_ops_close: "ry_close_taken (fold day_op ps c) = ry_close_taken c \<and> close_view (fold day_op ps c) = close_view c"
  by (induction ps arbitrary: c) (simp_all add: day_op_def Let_def close_view_def)

lemma on_message_close:
  "ry_close_taken (on_message msg c) = ry_close_taken (if \<not> ry_close_taken c \<and> o_timestamp_ns msg \<ge> MARKET_CLOSE then take_close c else c)"
  "close_view (on_message msg c) = close_view (if \<not> ry_close_taken c \<and> o_timestamp_ns msg \<ge> MARKET_CLOSE then take_close c else c)"
proof -
  have "close_view (c\<lparr>ry_book := b\<rparr>) = close_view c" for b c by (simp add: close_view_def)
  then show "ry_close_taken (on_message msg c) =
      ry_close_taken (if \<not> ry_close_taken c \<and> o_timestamp_ns msg \<ge> MARKET_CLOSE then take_close c else c)"
    "close_view (on_message msg c) = close_view (if \<not> ry_close_taken c \<and> o_timestamp_ns msg \<ge> MARKET_CLOSE then take_close c else c)"
    by (simp_all add: on_message_def Let_def top_of_book_close day_ops_close split: prod.split)
qed

lemma after_close: "ry_close_taken c \<Longrightarrow> ry_close_taken (fold on_message msgs c) \<and> close_view (fold on_message msgs c) = close_view c"
  by (induction msgs arbitrary: c) (simp_all add: on_message_close)

lemma close_blank_view: "close_view c = close_view d \<Longrightarrow> ry_close_taken c = ry_close_taken d \<Longrightarrow> close_blank c = close_blank d"
  by (simp add: close_view_def close_blank_def)

lemma before_close:
  "list_all (\<lambda>msg. o_timestamp_ns msg < MARKET_CLOSE) msgs \<Longrightarrow> close_blank c \<Longrightarrow> close_blank (fold on_message msgs c)"
proof (induction msgs arbitrary: c)
  case (Cons msg msgs)
  then have "\<not> o_timestamp_ns msg \<ge> MARKET_CLOSE" by (simp add: not_le)
  then have "close_blank (on_message msg c)"
    using Cons.prems(2) close_blank_view [of "on_message msg c" c] by (simp add: on_message_close)
  then show ?case using Cons by simp
qed simp

section \<open>From the file to the book\<close>

text \<open>The orders a file delivers: what passes directory, filter and parser.\<close>

definition parsed_orders :: "routed list \<Rightarrow> Order list" where
  "parsed_orders outs = concat (map (\<lambda>out. case out of Parsed order \<Rightarrow> [order] | _ \<Rightarrow> []) outs)"

definition file_orders :: "bytes \<Rightarrow> SymbolDirectory option \<Rightarrow> Order list" where
  "file_orders file dir =
     parsed_orders (fst (route_all (unframe file) \<lparr>rt_directory = dir, rt_counts = Counts_zero, rt_order = Order_zero\<rparr>))"

lemma call_back_orders: "fold (call_back callback) outs ctx = fold callback (parsed_orders outs) ctx"
proof (induction outs arbitrary: ctx)
  case (Cons out outs)
  then show ?case by (cases out) (simp_all add: parsed_orders_def)
qed (simp add: parsed_orders_def)

lemma replay_ctx: "snd (snd (replay_all (Some file) callback ctx dir 0)) = fold callback (file_orders file dir) ctx"
  by (simp add: replay_all_def replay_loop_unframe messages_run Let_def call_back_orders file_orders_def split: prod.split)

lemma day_replay_snapshot:
  "let c0 = ReplayCtx_new book; msgs = file_orders file dir; c = snd (snd (replay_all (Some file) on_message c0 dir 0));
       early = takeWhile (\<lambda>msg. o_timestamp_ns msg < MARKET_CLOSE) msgs;
       bell = fold on_message early c0
   in (ry_book c, ry_engine c) = fold feed_step msgs (book, SoftwareEngine_new) \<and>
      (ry_book bell, ry_engine bell) = fold feed_step early (book, SoftwareEngine_new) \<and>
      ry_close_taken c = (early \<noteq> msgs) \<and>
      (early = msgs \<or> close_view c = snapshot (ry_engine bell) (mi_m (ry_micro bell)))"
proof -
  define msgs where "msgs = file_orders file dir"
  define c0 where "c0 = ReplayCtx_new book"
  define early where "early = takeWhile (\<lambda>msg. o_timestamp_ns msg < MARKET_CLOSE) msgs"
  define bell where "bell = fold on_message early c0"
  have c0: "ry_book c0 = book" "ry_engine c0 = SoftwareEngine_new" "close_blank c0"
    by (simp_all add: c0_def ReplayCtx_new_def close_blank_def)
  have "list_all (\<lambda>msg. o_timestamp_ns msg < MARKET_CLOSE) early"
    unfolding early_def list_all_iff using set_takeWhileD by fastforce
  then have blank: "close_blank bell" using before_close c0(3) by (simp add: bell_def)
  have close: "ry_close_taken (fold on_message msgs c0) = (early \<noteq> msgs) \<and>
      (early = msgs \<or> close_view (fold on_message msgs c0) = snapshot (ry_engine bell) (mi_m (ry_micro bell)))"
  proof (cases "dropWhile (\<lambda>msg. o_timestamp_ns msg < MARKET_CLOSE) msgs")
    case Nil
    then have "early = msgs" unfolding early_def by (metis append_Nil2 takeWhile_dropWhile_id)
    then show ?thesis using blank by (simp add: bell_def close_blank_def)
  next
    case (Cons m rest)
    then have m: "msgs = early @ m # rest" "\<not> o_timestamp_ns m < MARKET_CLOSE"
      unfolding early_def by (metis takeWhile_dropWhile_id) (use Cons in \<open>simp add: dropWhile_eq_Cons_conv\<close>)
    have taken: "ry_close_taken (on_message m bell) \<and> close_view (on_message m bell) = snapshot (ry_engine bell) (mi_m (ry_micro bell))"
      using take_close_view [OF blank] blank m(2) by (simp add: on_message_close close_blank_def not_less)
    have "fold on_message msgs c0 = fold on_message rest (on_message m bell)" by (simp add: m(1) bell_def)
    then show ?thesis using after_close [of "on_message m bell" rest] taken m(1) by simp
  qed
  show ?thesis
    using close on_messages_feed [of msgs c0] on_messages_feed [of early c0]
    unfolding Let_def replay_ctx msgs_def [symmetric] c0_def [symmetric] early_def [symmetric] bell_def [symmetric] c0 by blast
qed

text \<open>
  C28. The day replay, from the bytes of the file. The order table and the engine end as a plain
  replay of the delivered orders leaves them, whatever the analytics computed; if no order reaches
  the closing bell no snapshot is taken; otherwise the snapshot, digest, best prices, last price,
  volume, level counts and metrics, is that of the book after exactly the orders before the first one
  at or past the bell, and later orders do not change it.
\<close>

theorem day_replay_snapshots_the_close:
  "let c0 = ReplayCtx_new book; msgs = file_orders file dir; c = snd (snd (replay_all (Some file) on_message c0 dir 0));
       early = takeWhile (\<lambda>msg. o_timestamp_ns msg < MARKET_CLOSE) msgs;
       bell = fold on_message early c0
   in (ry_book c, ry_engine c) = fold feed_step msgs (book, SoftwareEngine_new) \<and>
      (ry_book bell, ry_engine bell) = fold feed_step early (book, SoftwareEngine_new) \<and>
      ry_close_taken c = (early \<noteq> msgs) \<and>
      (early = msgs \<or> close_view c = snapshot (ry_engine bell) (mi_m (ry_micro bell)))"
  by (rule day_replay_snapshot)

end
