(* ===== verification/Mapped_File.thy ===== *)
theory Mapped_File
  imports Itch_Replay
begin

text \<open>
  The object \<^verbatim>\<open>ItchReplay\<close> around the replay loop (\<^verbatim>\<open>src/itch_replay.cpp\<close>): opening, mapping and
  closing a file. The system's answers are arguments, and what the process holds, descriptors and
  mappings, is state, so that leaks are visible. Shown: an opened object replays its file and keeps no
  descriptor, closing releases the mapping and is idempotent, and what an object that is opened
  twice or whose mapping fails is left with.
\<close>

text \<open>
  \<^verbatim>\<open>mapped_\<close> is the address of a mapping with the bytes there. \<^verbatim>\<open>file_\<close> is never assigned anything but
  a null pointer.
\<close>

record ItchReplay =
  ir_mapped :: "(nat \<times> bytes) option"
  ir_mapped_size :: u64

definition ItchReplay_new :: ItchReplay where
  "ItchReplay_new = \<lparr>ir_mapped = None, ir_mapped_size = 0\<rparr>"

record Process =
  pr_fds :: "int set"
  pr_maps :: "nat set"

text \<open>
  What the system answers: the descriptor, whether \<^verbatim>\<open>fstat\<close> succeeds, and the address of the mapping,
  if there is one. An empty file cannot be mapped: \<^verbatim>\<open>mmap\<close> refuses the length 0.
\<close>

record FileEnv =
  fe_fd :: int
  fe_stat :: bool
  fe_bytes :: bytes
  fe_map :: "nat option"

definition env_ok :: "FileEnv \<Rightarrow> Process \<Rightarrow> bool" where
  "env_ok v pr \<longleftrightarrow> fe_fd v \<notin> pr_fds pr \<and> length (fe_bytes v) < 2 ^ 64 \<and>
     (\<forall>a. fe_map v = Some a \<longrightarrow> a \<notin> pr_maps pr \<and> fe_bytes v \<noteq> [])"

definition file_open :: "FileEnv \<Rightarrow> ItchReplay \<times> Process \<Rightarrow> bool \<times> ItchReplay \<times> Process" where
  "file_open v = (\<lambda>(r, pr).
     if fe_fd v < 0 then (False, r, pr)
     else let pr = pr\<lparr>pr_fds := insert (fe_fd v) (pr_fds pr)\<rparr>
       in if \<not> fe_stat v then (False, r, pr\<lparr>pr_fds := pr_fds pr - {fe_fd v}\<rparr>)
          else let r = r\<lparr>ir_mapped_size := of_nat (length (fe_bytes v))\<rparr>;
                   mapped = map_option (\<lambda>a. (a, fe_bytes v)) (fe_map v);
                   pr = (case fe_map v of None \<Rightarrow> pr | Some a \<Rightarrow> pr\<lparr>pr_maps := insert a (pr_maps pr)\<rparr>);
                   pr = pr\<lparr>pr_fds := pr_fds pr - {fe_fd v}\<rparr>
            in (mapped \<noteq> None, r\<lparr>ir_mapped := mapped\<rparr>, pr))"

definition file_close :: "ItchReplay \<times> Process \<Rightarrow> ItchReplay \<times> Process" where
  "file_close = (\<lambda>(r, pr).
     case ir_mapped r of None \<Rightarrow> (r, pr)
     | Some (a, _) \<Rightarrow> (r\<lparr>ir_mapped := None, ir_mapped_size := 0\<rparr>, pr\<lparr>pr_maps := pr_maps pr - {a}\<rparr>))"

definition is_open :: "ItchReplay \<Rightarrow> bool" where
  "is_open r \<longleftrightarrow> ir_mapped r \<noteq> None"

definition file_size :: "ItchReplay \<Rightarrow> u64" where
  "file_size r = ir_mapped_size r"

text \<open>The replay walks the \<^verbatim>\<open>mapped_size_\<close> bytes from \<^verbatim>\<open>mapped_\<close>.\<close>

definition replay_object ::
    "ItchReplay \<Rightarrow> (Order \<Rightarrow> 'c \<Rightarrow> 'c) \<Rightarrow> 'c \<Rightarrow> SymbolDirectory option \<Rightarrow> u64 \<Rightarrow> ReplayStats \<times> SymbolDirectory option \<times> 'c" where
  "replay_object r = replay_all (map_option (\<lambda>(_, f). take (unat (ir_mapped_size r)) f) (ir_mapped r))"

section \<open>What an object holds\<close>

lemma open_succeeds: "fst (file_open v (r, pr)) \<longleftrightarrow> fe_fd v \<ge> 0 \<and> fe_stat v \<and> fe_map v \<noteq> None"
  by (simp add: file_open_def Let_def split: option.split)

lemma open_keeps_no_descriptor:
  assumes "env_ok v pr" and "file_open v (r, pr) = (ok, r', pr')"
  shows "pr_fds pr' = pr_fds pr"
  using assms by (auto simp: file_open_def env_ok_def Let_def split: if_splits option.splits)

lemma open_replays_its_file:
  assumes "env_ok v pr" and "file_open v (r, pr) = (True, r', pr')"
  shows "is_open r' \<and> unat (file_size r') = length (fe_bytes v) \<and>
     replay_object r' callback ctx dir n = replay_all (Some (fe_bytes v)) callback ctx dir n"
  using assms
  by (auto simp: file_open_def env_ok_def is_open_def file_size_def replay_object_def Let_def unat_of_nat split: if_splits option.splits)

text \<open>A session, from the constructor to the destructor, leaves the process as it found it, whether or not the file opens.\<close>

lemma open_close_balanced:
  assumes "env_ok v pr"
  shows "snd (file_close (snd (file_open v (ItchReplay_new, pr)))) = pr"
  using assms by (auto simp: file_open_def file_close_def ItchReplay_new_def env_ok_def Let_def split: option.split)

lemma close_idempotent: "file_close (file_close s) = file_close s"
  by (cases s) (auto simp: file_close_def split: option.split)

text \<open>
  Opening an object that is open loses the mapping it held: the second \<^verbatim>\<open>close\<close> cannot release it. When
  only the mapping of the second file fails, the object forgets the first file too and keeps a size
  although it is closed; when the file is not found, the object goes on holding the first one.
\<close>

lemma reopening_leaks:
  assumes "env_ok v pr" and "ir_mapped r = Some (a, f)" and "a \<in> pr_maps pr" and "fe_fd v \<ge> 0" and "fe_stat v"
  shows "a \<in> pr_maps (snd (file_close (snd (file_open v (r, pr)))))"
  using assms by (auto simp: file_open_def file_close_def env_ok_def Let_def split: option.split)

lemma failed_mapping_keeps_a_size:
  assumes "fe_fd v \<ge> 0" and "fe_stat v" and "fe_map v = None"
  shows "\<exists>r' pr'. file_open v (r, pr) = (False, r', pr') \<and> \<not> is_open r' \<and> file_size r' = of_nat (length (fe_bytes v)) \<and>
     file_size (fst (file_close (r', pr'))) = of_nat (length (fe_bytes v))"
  using assms by (simp add: file_open_def file_close_def is_open_def file_size_def Let_def)

lemma missing_file_keeps_the_old_one: "fe_fd v < 0 \<Longrightarrow> file_open v (r, pr) = (False, r, pr)"
  by (simp add: file_open_def)

end
