(* ===== verification/Day_Report.thy ===== *)
theory Day_Report
  imports Day_Replay Mapped_File Printf_Format
begin

text \<open>
  The section \<^verbatim>\<open>demo_real_data\<close> of \<^verbatim>\<open>src/main.cpp\<close>: it opens the file, replays the day and prints
  a report. The report is the list of printed texts; a text that would show the quotient of a zero
  elapsed time is \<^const>\<open>None\<close>. Proved: the prices, the digest, the mid and the fixed-point figures the
  report shows read back as exactly the integers the replay computed, although they pass through
  double precision, and the section leaves the process as it found it.
\<close>

section \<open>Figures\<close>

definition hex_char :: "nat \<Rightarrow> char" where
  "hex_char d = char_of (if d < 10 then 48 + d else 87 + d)"

fun hex_text :: "nat \<Rightarrow> string" where
  "hex_text n = (if n < 16 then [hex_char n] else hex_text (n div 16) @ [hex_char (n mod 16)])"

declare hex_text.simps [simp del]

definition digest_text :: "u64 \<Rightarrow> string" where
  "digest_text d = ''0x'' @ zero_pad 16 (hex_text (unat d))"

definition dollars :: "int \<Rightarrow> string" where
  "dollars px = scaled_text False 4 4 px"

definition signed_count :: "int \<Rightarrow> string" where
  "signed_count i = sign_text True i @ dec_text (nat \<bar>i\<bar>)"

text \<open>The average spread over the mid, both scaled, as sign and magnitude: \<^verbatim>\<open>effective_spread_bps\<close> and the lambda \<^verbatim>\<open>bps\<close>.\<close>

definition spread_bps :: "Metrics \<Rightarrow> bool \<times> dyadic" where
  "spread_bps x =
     (if me_effective_spread_n x = 0 \<or> me_mid_1e8 x = 0 then (False, (0, 0))
      else let avg = dbl_quot (dbl_of (unat (me_effective_spread_sum_1e4 x))) (dbl_of (unat (me_effective_spread_n x)));
               mid = dbl_quot (dbl_of (nat \<bar>me_mid_1e8 x\<bar>)) (10 ^ 4, 0)
           in (me_mid_1e8 x < 0, dbl_mul (dbl_quot avg mid) (10000, 0)))"

definition bps_text :: "Metrics \<Rightarrow> string" where
  "bps_text x = (case spread_bps x of (neg, q) \<Rightarrow> (if neg then ''-'' else '''') @ fixed2 q)"

section \<open>The parts of the report\<close>

definition text_line :: "string \<Rightarrow> string \<Rightarrow> string" where
  "text_line label s = ''  '' @ label @ '' : '' @ s @ newline"

definition feed_report :: "ReplayStats \<Rightarrow> SymbolDirectory \<Rightarrow> string list" where
  "feed_report stats dir =
     [newline @ ''  -- feed --'' @ newline,
      stat_line ''Messages total  '' (rs_messages_total stats),
      stat_line ''Symbols in file '' (sd_known_count dir),
      stat_line ''Filtered out    '' (rs_messages_filtered stats),
      stat_line ''Book messages   '' (rs_messages_parsed stats),
      stat_line ''Non-book        '' (rs_parser_ignored stats),
      stat_line ''Malformed       '' (rs_parser_malformed stats),
      stat_line ''Unknown type    '' (rs_parser_unknown stats)]"

definition book_report :: "string \<Rightarrow> Stats \<Rightarrow> string list" where
  "book_report symbol bs =
     [newline @ ''  -- '' @ symbol @ '' book operations --'' @ newline,
      stat_line ''Adds            '' (st_adds bs),
      stat_line ''Executes        '' (st_executes bs),
      stat_line ''Cancels         '' (st_cancels bs),
      stat_line ''Deletes         '' (st_deletes bs),
      stat_line ''Replaces        '' (st_replaces bs),
      stat_line ''Hidden trades   '' (st_trades bs),
      stat_line ''Peak live orders'' (st_peak_live bs),
      stat_line ''Max probe       '' (st_max_probe bs)]"

definition close_report :: "ReplayCtx \<Rightarrow> string list" where
  "close_report c =
     (newline @ ''  -- at the closing bell (16:00:00) --'' @ newline) #
     (if ry_close_taken c then
        [text_line ''Best bid        '' (''$'' @ dollars (uint (ry_close_bid_px c)) @ '' x '' @ dec_text (unat (ry_close_bid_qty c))),
         text_line ''Best ask        '' (''$'' @ dollars (uint (ry_close_ask_px c)) @ '' x '' @ dec_text (unat (ry_close_ask_qty c))),
         text_line ''Spread          '' (''$'' @ dollars (uint (ry_close_ask_px c) - uint (ry_close_bid_px c))),
         text_line ''Levels          '' (dec_text (ry_close_bid_levels c) @ '' bid / '' @ dec_text (ry_close_ask_levels c) @ '' ask''),
         text_line ''Last trade      '' (''$'' @ dollars (uint (ry_close_last c))),
         stat_line ''Shares traded   '' (ry_close_shares c),
         text_line ''Book digest     '' (digest_text (ry_close_digest c))]
      else [''  (file ended before 16:00)'' @ newline])"

definition session_report :: "ReplayCtx \<Rightarrow> string list" where
  "session_report c =
     [newline @ ''  -- full session --'' @ newline,
      text_line ''Last trade      '' (''$'' @ dollars (uint (se_last_price (ry_engine c)))),
      stat_line ''Shares traded   '' (se_shares_traded (ry_engine c)),
      stat_line ''Unresolved refs '' (st_unresolved (bs_stats (ry_book c))),
      stat_line ''Orphan ops      '' (se_orphan_ops (ry_engine c)),
      text_line ''Op digest       '' (digest_text (bs_digest (ry_book c)))]"

definition micro_report :: "Metrics \<Rightarrow> string list" where
  "micro_report mm =
     [newline @ ''  -- microstructure at the bell (integer fixed point) --'' @ newline,
      stat_line ''Book updates    '' (me_book_updates mm),
      stat_line ''Degenerate books'' (me_degenerate_books mm),
      stat_line ''Trades observed '' (me_trades mm),
      text_line ''Microprice      '' (''$'' @ scaled_text False 6 8 (me_microprice_1e8 mm)),
      text_line ''Mid             '' (''$'' @ scaled_text False 6 8 (me_mid_1e8 mm)),
      text_line ''Micro - mid     '' (''$'' @ scaled_text True 6 8 (me_micro_minus_mid_1e8 mm)),
      text_line ''Order flow imbal'' (signed_count (me_ofi mm) @ '' shares''),
      text_line ''Realized vol    '' (scaled_text False 9 9 (uint (me_realized_vol_1e9 mm)) @ '' over ''
        @ dec_text (unat (me_return_samples mm)) @ '' returns''),
      text_line ''Kyle lambda     '' (scaled_text False 12 12 (me_kyle_lambda_1e12 mm) @ '' $/share''),
      text_line ''Effective spread'' (bps_text mm @ '' bps'')]"

text \<open>The figures of the machine, with the elapsed time in nanoseconds.\<close>

definition rate_line :: "string \<Rightarrow> (dyadic \<Rightarrow> string) \<Rightarrow> u64 \<Rightarrow> dyadic \<Rightarrow> string \<Rightarrow> string option" where
  "rate_line label fmt n elapsed_s suffix =
     (if fst elapsed_s = 0 then None
      else Some (text_line label (fmt (dbl_quot (dbl_quot (dbl_of (unat n)) elapsed_s) (10 ^ 6, 0)) @ suffix)))"

definition timing_report :: "u64 \<Rightarrow> ReplayStats \<Rightarrow> string option list" where
  "timing_report elapsed_ns stats =
     (let elapsed_s = dbl_quot (dbl_of (unat elapsed_ns)) (10 ^ 9, 0) in
     [Some (newline @ ''  -- timing (this machine, cache state affects result) --'' @ newline),
      Some (text_line ''Bytes read      '' (fixed1 (dbl_quot (dbl_of (unat (rs_bytes_read stats))) (10 ^ 9, 0)) @ '' GB'')),
      Some (text_line ''Elapsed         '' (fixed2 elapsed_s @ '' s'')),
      rate_line ''Throughput      '' fixed1 (rs_messages_total stats) elapsed_s '' M msg/s'',
      rate_line ''I/O bandwidth   '' fixed0 (rs_bytes_read stats) elapsed_s '' MB/s''])"

section \<open>The section of the program\<close>

definition divider :: string where
  "divider = ''  '' @ replicate 60 CHR ''-'' @ newline"

definition aapl_directory :: SymbolDirectory where
  "aapl_directory = snd (subscribe (Some (map byte_of ''AAPL'')) SymbolDirectory_new)"

definition day_title :: "string list" where
  "day_title = [newline @ ''[ 7 ] Real NASDAQ Market Data Replay'' @ newline, divider]"

definition day_texts :: "u64 \<Rightarrow> ReplayStats \<Rightarrow> SymbolDirectory option \<Rightarrow> ReplayCtx \<Rightarrow> string option list" where
  "day_texts elapsed_ns stats dir c =
     map Some (day_title
       @ [text_line ''File    '' ''07302019.NASDAQ_ITCH50 (July 30 2019)'', text_line ''Symbol  '' ''AAPL'',
          ''  Replaying entire trading day...'' @ newline]
       @ (case dir of None \<Rightarrow> [] | Some d \<Rightarrow> feed_report stats d)
       @ book_report ''AAPL'' (bs_stats (ry_book c))
       @ close_report c @ session_report c @ micro_report (ry_close_micro c))
     @ timing_report elapsed_ns stats"

text \<open>The order table has \<open>2 ^ k\<close> slots, \<open>dir\<close> is the directory with its subscriptions. Returned are the texts and what the process holds after the destructors.\<close>

definition day_section :: "nat \<Rightarrow> SymbolDirectory \<Rightarrow> (nat \<Rightarrow> RestingOrder) \<Rightarrow> FileEnv \<Rightarrow> u64 \<Rightarrow> Process \<Rightarrow> string option list \<times> Process" where
  "day_section k dir mem v elapsed_ns pr =
     (case file_open v (ItchReplay_new, pr) of (ok, r, pr) \<Rightarrow>
        if \<not> ok
        then (map Some (day_title @ [''  itch_data file not found - skipping'' @ newline, ''  download from: emi.nasdaq.com/ITCH'' @ newline]),
              snd (file_close (r, pr)))
        else case replay_object r on_message (ReplayCtx_new (BookState_new mem k)) (Some dir) 0 of (stats, dir, c) \<Rightarrow>
               (day_texts elapsed_ns stats dir c, snd (file_close (r, pr))))"

definition demo_real_data :: "(nat \<Rightarrow> RestingOrder) \<Rightarrow> FileEnv \<Rightarrow> u64 \<Rightarrow> Process \<Rightarrow> string option list \<times> Process" where
  "demo_real_data = day_section 20 aapl_directory"

section \<open>The figures read back\<close>

definition hex_value :: "char \<Rightarrow> nat" where
  "hex_value c = (let b = of_char c in if b < 58 then b - 48 else b - 87)"

definition hex_in :: "string \<Rightarrow> nat" where
  "hex_in s = foldl (\<lambda>v c. 16 * v + hex_value c) 0 s"

lemma hex_value_char: "d < 16 \<Longrightarrow> hex_value (hex_char d) = d"
  by (auto simp: hex_value_def hex_char_def Let_def)

lemma hex_in_text: "hex_in (hex_text n) = n"
proof (induction n rule: hex_text.induct)
  case (1 n)
  then show ?case by (subst hex_text.simps) (auto simp: hex_in_def hex_value_char)
qed

lemma hex_in_zero_pad: "hex_in (zero_pad w s) = hex_in s"
proof -
  have "foldl (\<lambda>v c. 16 * v + hex_value c) 0 (replicate k CHR ''0'' @ s) = hex_in s" for k
    by (induction k) (simp_all add: hex_in_def hex_value_def)
  then show ?thesis by (simp add: hex_in_def zero_pad_def)
qed

lemma digest_reads_back: "hex_in (drop 2 (digest_text d)) = unat d"
  by (simp add: digest_text_def hex_in_zero_pad hex_in_text)

lemma price_reads_back: "signed_units_in (dollars (uint (px :: u32))) = uint px"
  unfolding dollars_def using uint_bounded [of px] by (intro scaled_text_exact) simp_all

lemma spread_reads_back: "signed_units_in (dollars (uint (a :: u32) - uint (b :: u32))) = uint a - uint b"
proof -
  have "uint a < 4294967296" "uint b < 4294967296" "0 \<le> uint a" "0 \<le> uint b"
    using uint_bounded [of a] uint_bounded [of b] by simp_all
  then have "\<bar>uint a - uint b\<bar> < 4503599627370496" by linarith
  then show ?thesis unfolding dollars_def by (intro scaled_text_exact) simp_all
qed

lemma word_below: "unat w < 2 ^ 52 \<Longrightarrow> \<bar>uint w\<bar> < 2 ^ 52"
  by (metis abs_of_nat of_nat_less_iff of_nat_numeral of_nat_power uint_nat)

section \<open>The mid is a whole number of its printed unit\<close>

definition mid_ok :: "Metrics \<Rightarrow> bool" where
  "mid_ok m \<longleftrightarrow> (\<exists>u < 2 ^ 40. me_mid_1e8 m = 100 * int u)"

lemma mid_ok_zero [simp]: "mid_ok Metrics_zero"
  by (auto simp: mid_ok_def Metrics_zero_def)

lemma mid_ok_sum: "\<exists>u < 2 ^ 40. (uint (b :: u32) + uint (a :: u32)) * 5000 = 100 * int u"
proof (intro exI conjI)
  have "unat b < 4294967296" "unat a < 4294967296" using unsigned_less [of b, where ?'a = nat] unsigned_less [of a, where ?'a = nat] by simp_all
  then show "(unat b + unat a) * 50 < 2 ^ 40" by simp
  show "(uint b + uint a) * 5000 = 100 * int ((unat b + unat a) * 50)" by simp
qed

lemma on_return_mid: "me_mid_1e8 (mi_m (on_return x s)) = me_mid_1e8 (mi_m s)"
  by (simp add: on_return_def Let_def)

lemma on_book_mid: "mid_ok (mi_m s) \<Longrightarrow> mid_ok (mi_m (on_book bp bq ap aq s))"
  using mid_ok_sum [of bp ap] by (auto simp: on_book_def Let_def mid_ok_def on_return_mid)

lemma on_trade_mid: "mid_ok (mi_m (on_trade px q b s)) = mid_ok (mi_m s)"
  by (simp add: on_trade_def Let_def mid_ok_def)

lemma day_ops_mid: "mid_ok (mi_m (ry_micro (fold day_op ps c))) = mid_ok (mi_m (ry_micro c))"
  by (induction ps arbitrary: c) (simp_all add: day_op_def Let_def on_trade_mid)

lemma on_message_mid: "mid_ok (mi_m (ry_micro c)) \<Longrightarrow> mid_ok (mi_m (ry_micro (on_message msg c)))"
  by (auto simp: on_message_def Let_def top_of_book_def day_ops_mid on_book_mid tp_frame split: prod.split option.split)

lemma on_messages_mid: "mid_ok (mi_m (ry_micro c)) \<Longrightarrow> mid_ok (mi_m (ry_micro (fold on_message msgs c)))"
  by (induction msgs arbitrary: c) (simp_all add: on_message_mid)

lemma mid_reads_back: "mid_ok m \<Longrightarrow> 100 * signed_units_in (scaled_text False 6 8 (me_mid_1e8 m)) = me_mid_1e8 m"
  using scaled_text_scaled [of _ 2 6 False] by (auto simp: mid_ok_def)

section \<open>The report of a day\<close>

text \<open>The state of the replay just before the first order at or past the bell.\<close>

definition day_orders :: "SymbolDirectory \<Rightarrow> bytes \<Rightarrow> Order list" where
  "day_orders dir f = file_orders f (Some dir)"

definition before_bell :: "SymbolDirectory \<Rightarrow> bytes \<Rightarrow> Order list" where
  "before_bell dir f = takeWhile (\<lambda>msg. o_timestamp_ns msg < MARKET_CLOSE) (day_orders dir f)"

definition bell_state :: "nat \<Rightarrow> SymbolDirectory \<Rightarrow> (nat \<Rightarrow> RestingOrder) \<Rightarrow> bytes \<Rightarrow> ReplayCtx" where
  "bell_state k dir mem f = fold on_message (before_bell dir f) (ReplayCtx_new (BookState_new mem k))"

lemma day_texts_parts:
  "set (map Some (close_report c @ session_report c @ micro_report (ry_close_micro c))) \<subseteq> set (day_texts elapsed stats dir c)"
  by (simp only: day_texts_def map_append set_append) blast

lemma day_section_report:
  assumes "env_ok v pr" and "fst (file_open v (ItchReplay_new, pr))"
  shows "\<exists>lines c. day_section k dir mem v elapsed pr = (lines, pr) \<and>
     set (map Some (close_report c @ session_report c @ micro_report (ry_close_micro c))) \<subseteq> set lines \<and>
     c = snd (snd (replay_all (Some (fe_bytes v)) on_message (ReplayCtx_new (BookState_new mem k)) (Some dir) 0))"
proof -
  obtain r pr' where o: "file_open v (ItchReplay_new, pr) = (True, r, pr')" using assms(2) by (metis prod.collapse prod.sel(1))
  have closed: "snd (file_close (r, pr')) = pr" using open_close_balanced [OF assms(1)] by (simp add: o)
  obtain stats dir' c where c: "replay_object r on_message (ReplayCtx_new (BookState_new mem k)) (Some dir) 0 = (stats, dir', c)"
    by (metis prod_cases3)
  have "day_section k dir mem v elapsed pr = (day_texts elapsed stats dir' c, pr)" by (simp add: day_section_def o c closed)
  moreover have "c = snd (snd (replay_all (Some (fe_bytes v)) on_message (ReplayCtx_new (BookState_new mem k)) (Some dir) 0))"
    using open_replays_its_file [OF assms(1) o, of on_message _ "Some dir" 0] c by (metis snd_conv)
  ultimately show ?thesis using day_texts_parts by blast
qed

text \<open>
  C29. What the day replay prints at the bell is what it computed. For every file that opens and whose
  orders reach the bell, the report shows the best bid and ask of the book just before the bell, the
  digest of that book, its mid, and, below \<open>2^52\<close> units, the realized volatility and Kyle's lambda:
  each printed figure, after division in double precision and rounding to decimals, reads back as
  exactly the integer of the replay. The process is left with the descriptors and mappings it had.
\<close>

theorem day_report_is_exact:
  assumes "env_ok v pr" and "fst (file_open v (ItchReplay_new, pr))" and "before_bell dir (fe_bytes v) \<noteq> day_orders dir (fe_bytes v)"
  shows "let bell = bell_state k dir mem (fe_bytes v); e = ry_engine bell; m = mi_m (ry_micro bell)
    in \<exists>lines. day_section k dir mem v elapsed pr = (lines, pr) \<and>
      (\<forall>px qty. best_bid e = Some (px, qty) \<longrightarrow> (\<exists>s. signed_units_in s = uint px \<and>
         Some (''  Best bid         : $'' @ s @ '' x '' @ dec_text (unat qty) @ newline) \<in> set lines)) \<and>
      (\<forall>px qty. best_ask e = Some (px, qty) \<longrightarrow> (\<exists>s. signed_units_in s = uint px \<and>
         Some (''  Best ask         : $'' @ s @ '' x '' @ dec_text (unat qty) @ newline) \<in> set lines)) \<and>
      (\<exists>s. hex_in s = unat (book_digest e) \<and> Some (''  Book digest      : 0x'' @ s @ newline) \<in> set lines) \<and>
      (\<exists>s. 100 * signed_units_in s = me_mid_1e8 m \<and> Some (''  Mid              : $'' @ s @ newline) \<in> set lines) \<and>
      (unat (me_realized_vol_1e9 m) < 2 ^ 52 \<longrightarrow> (\<exists>s. signed_units_in s = uint (me_realized_vol_1e9 m) \<and>
         Some (''  Realized vol     : '' @ s @ '' over '' @ dec_text (unat (me_return_samples m)) @ '' returns'' @ newline) \<in> set lines)) \<and>
      (\<bar>me_kyle_lambda_1e12 m\<bar> < 2 ^ 52 \<longrightarrow> (\<exists>s. signed_units_in s = me_kyle_lambda_1e12 m \<and>
         Some (''  Kyle lambda      : '' @ s @ '' $/share'' @ newline) \<in> set lines))"
proof -
  define bell where "bell = bell_state k dir mem (fe_bytes v)"
  define e where "e = ry_engine bell"
  define m where "m = mi_m (ry_micro bell)"
  obtain lines c where l: "day_section k dir mem v elapsed pr = (lines, pr)"
    "set (map Some (close_report c @ session_report c @ micro_report (ry_close_micro c))) \<subseteq> set lines"
    "c = snd (snd (replay_all (Some (fe_bytes v)) on_message (ReplayCtx_new (BookState_new mem k)) (Some dir) 0))"
    using day_section_report [OF assms(1,2)] by blast
  have close: "ry_close_taken c" "close_view c = snapshot e m"
    using day_replay_snapshot [of "BookState_new mem k" "fe_bytes v" "Some dir"] assms(3)
    unfolding Let_def l(3) [symmetric] day_orders_def [symmetric] before_bell_def [symmetric] bell_state_def [symmetric]
      bell_def [symmetric] e_def [symmetric] m_def [symmetric] by simp_all
  have mid: "mid_ok m" unfolding m_def bell_def bell_state_def
    by (rule on_messages_mid) (simp add: ReplayCtx_new_def micro_reset_def)
  have view: "ry_close_digest c = book_digest e" "ry_close_micro c = m"
    "best_bid e = Some (px, qty) \<Longrightarrow> ry_close_bid_px c = px \<and> ry_close_bid_qty c = qty"
    "best_ask e = Some (px, qty) \<Longrightarrow> ry_close_ask_px c = px \<and> ry_close_ask_qty c = qty" for px qty
    using close(2) by (auto simp: close_view_def snapshot_def)
  have lines: "x \<in> set (close_report c) \<union> set (micro_report m) \<Longrightarrow> Some x \<in> set lines" for x
    using l(2) view(2) by auto
  have "\<exists>s. signed_units_in s = uint px \<and> Some (''  Best bid         : $'' @ s @ '' x '' @ dec_text (unat qty) @ newline) \<in> set lines"
    if "best_bid e = Some (px, qty)" for px qty
    using view(3) [OF that] close(1) by (intro exI [of _ "dollars (uint px)"] conjI price_reads_back lines) (auto simp: close_report_def text_line_def)
  moreover have "\<exists>s. signed_units_in s = uint px \<and> Some (''  Best ask         : $'' @ s @ '' x '' @ dec_text (unat qty) @ newline) \<in> set lines"
    if "best_ask e = Some (px, qty)" for px qty
    using view(4) [OF that] close(1) by (intro exI [of _ "dollars (uint px)"] conjI price_reads_back lines) (auto simp: close_report_def text_line_def)
  moreover have "\<exists>s. hex_in s = unat (book_digest e) \<and> Some (''  Book digest      : 0x'' @ s @ newline) \<in> set lines"
    using digest_reads_back [of "book_digest e"] view(1) close(1)
    by (intro exI [of _ "drop 2 (digest_text (book_digest e))"] conjI lines) (auto simp: close_report_def text_line_def digest_text_def)
  moreover have "\<exists>s. 100 * signed_units_in s = me_mid_1e8 m \<and> Some (''  Mid              : $'' @ s @ newline) \<in> set lines"
    by (intro exI [of _ "scaled_text False 6 8 (me_mid_1e8 m)"] conjI mid_reads_back mid lines) (simp add: micro_report_def text_line_def)
  moreover have "\<exists>s. signed_units_in s = uint (me_realized_vol_1e9 m) \<and>
      Some (''  Realized vol     : '' @ s @ '' over '' @ dec_text (unat (me_return_samples m)) @ '' returns'' @ newline) \<in> set lines"
    if "unat (me_realized_vol_1e9 m) < 2 ^ 52"
    using word_below [OF that] by (intro exI [of _ "scaled_text False 9 9 (uint (me_realized_vol_1e9 m))"] conjI scaled_text_exact lines)
      (auto simp: micro_report_def text_line_def)
  moreover have "\<exists>s. signed_units_in s = me_kyle_lambda_1e12 m \<and> Some (''  Kyle lambda      : '' @ s @ '' $/share'' @ newline) \<in> set lines"
    if "\<bar>me_kyle_lambda_1e12 m\<bar> < 2 ^ 52"
    using that by (intro exI [of _ "scaled_text False 12 12 (me_kyle_lambda_1e12 m)"] conjI scaled_text_exact lines)
      (auto simp: micro_report_def text_line_def)
  ultimately show ?thesis using l(1) unfolding Let_def bell_def [symmetric] e_def [symmetric] m_def [symmetric] by blast
qed

text \<open>Two adds and a delete at the bell, with every symbol subscribed.\<close>

definition bell_file :: bytes where
  "bell_file =
     frame (wire 7 0 5 (AddOrder 1 True 100 (map byte_of ''AAPL    '') 2100000))
     @ frame (wire 7 0 6 (AddOrder 2 False 50 (map byte_of ''AAPL    '') 2100300))
     @ frame (wire 7 0 MARKET_CLOSE (Deleted 1))"

definition every_symbol :: SymbolDirectory where
  "every_symbol = subscribe_all SymbolDirectory_new"

definition bell_env :: FileEnv where
  "bell_env = \<lparr>fe_fd = 3, fe_stat = True, fe_bytes = bell_file, fe_map = Some 4096\<rparr>"

definition idle_process :: Process where
  "idle_process = \<lparr>pr_fds = {0, 1, 2}, pr_maps = {}\<rparr>"

lemma bell_file_orders: "length (day_orders every_symbol bell_file) = 3" "length (before_bell every_symbol bell_file) = 2"
  by code_simp+

lemma bell_file_book:
  "best_bid (ry_engine (bell_state 2 every_symbol (\<lambda>_. order_to_resting Order_zero) bell_file)) = Some (2100000, 100)"
  by code_simp

lemma bell_env_ok: "env_ok bell_env idle_process"
proof -
  have "length bell_file < 2 ^ 64" "bell_file \<noteq> []" by (simp_all add: bell_file_def frame_def wire_def)
  then show ?thesis by (simp add: env_ok_def bell_env_def idle_process_def)
qed

theorem day_report_is_exact_witness:
  "\<exists>lines s. day_section 2 every_symbol (\<lambda>_. order_to_resting Order_zero) bell_env 0 idle_process = (lines, idle_process) \<and>
     signed_units_in s = 2100000 \<and> Some (''  Best bid         : $'' @ s @ '' x '' @ dec_text 100 @ newline) \<in> set lines"
proof -
  have b: "fe_bytes bell_env = bell_file" by (simp add: bell_env_def)
  have reached: "before_bell every_symbol (fe_bytes bell_env) \<noteq> day_orders every_symbol (fe_bytes bell_env)"
    using bell_file_orders unfolding b by auto
  have opens: "fst (file_open bell_env (ItchReplay_new, idle_process))" by (simp add: open_succeeds bell_env_def)
  obtain lines where l: "day_section 2 every_symbol (\<lambda>_. order_to_resting Order_zero) bell_env 0 idle_process = (lines, idle_process)"
    "\<And>px qty. best_bid (ry_engine (bell_state 2 every_symbol (\<lambda>_. order_to_resting Order_zero) bell_file)) = Some (px, qty) \<Longrightarrow>
       \<exists>s. signed_units_in s = uint px \<and> Some (''  Best bid         : $'' @ s @ '' x '' @ dec_text (unat qty) @ newline) \<in> set lines"
    using day_report_is_exact [OF bell_env_ok opens reached, of 2 "\<lambda>_. order_to_resting Order_zero" 0] unfolding Let_def b by blast
  show ?thesis using l(1) l(2) [OF bell_file_book] by (simp add: exI)
qed

end
