(* ===== verification/Visualizer.thy ===== *)
theory Visualizer
  imports Printf_Format Software_Engine
begin

text \<open>
  The terminal display (\<^verbatim>\<open>src/src/visualizer.cpp\<close>, \<^verbatim>\<open>src/include/visualizer.hpp\<close>): a frame
  is assembled in a buffer of 16384 bytes and written with one \<^verbatim>\<open>fwrite\<close>; it shows the clock of
  the feed, up to ten levels of each side of the engine's book, spread, mid and last trade. Proved:
  no frame leaves the buffer or is cut short, the clock reads back as the time of day and a price as
  its nearest cent. The paced replay that draws the frames is \<^verbatim>\<open>on_paced\<close> in \<^verbatim>\<open>src/src/main.cpp\<close>.
\<close>

section \<open>The frame buffer\<close>

definition FRAME_CAP :: u64 where "FRAME_CAP = 16384"

record Frame =
  fr_buf :: bytes
  fr_len :: u64

text \<open>The buffer is on the stack and not initialised: \<open>mem\<close> is what it happens to hold.\<close>

definition Frame_new :: "(nat \<Rightarrow> u8) \<Rightarrow> Frame" where
  "Frame_new mem = \<lparr>fr_buf = map mem [0..<unat FRAME_CAP], fr_len = 0\<rparr>"

text \<open>
  \<^verbatim>\<open>put\<close> drops a string that does not fit. \<^verbatim>\<open>putf\<close> gives \<^verbatim>\<open>vsnprintf\<close> the room that
  is left, which stores at most one byte less than that and a terminating zero, and adds the length
  of the whole text, stored or not. The argument is the formatted text. \<^const>\<open>None\<close> is a copy that
  leaves the buffer.
\<close>

definition frame_put :: "string \<Rightarrow> Frame \<Rightarrow> Frame option" where
  "frame_put s f =
     (let n = of_nat (length s)
      in if fr_len f + n < FRAME_CAP
         then map_option (\<lambda>buf. f\<lparr>fr_buf := buf, fr_len := fr_len f + n\<rparr>)
                (mem_write (fr_buf f) (unat (fr_len f)) (map byte_of s))
         else Some f)"

definition frame_putf :: "string \<Rightarrow> Frame \<Rightarrow> Frame option" where
  "frame_putf s f =
     (let room = FRAME_CAP - fr_len f;
          stored = (if room = 0 then [] else take (unat room - 1) (map byte_of s) @ [0])
      in map_option (\<lambda>buf. f\<lparr>fr_buf := buf, fr_len := fr_len f + of_nat (length s)\<rparr>)
           (mem_write (fr_buf f) (unat (fr_len f)) stored))"

text \<open>\<^verbatim>\<open>flush\<close>: the bytes written to the terminal.\<close>

definition frame_flush :: "Frame \<Rightarrow> (bytes \<times> Frame) option" where
  "frame_flush f = map_option (\<lambda>out. (out, f\<lparr>fr_len := 0\<rparr>)) (mem_read (fr_buf f) 0 (unat (fr_len f)))"

text \<open>A frame is a sequence of calls of the two.\<close>

datatype frame_call = Put (call_text: string) | Putf (call_text: string)

fun frame_calls :: "frame_call list \<Rightarrow> Frame \<Rightarrow> Frame option" where
  "frame_calls [] f = Some f"
| "frame_calls (c # cs) f =
     (case (case c of Put s \<Rightarrow> frame_put s f | Putf s \<Rightarrow> frame_putf s f) of
        None \<Rightarrow> None
      | Some f \<Rightarrow> frame_calls cs f)"

section \<open>What is drawn\<close>

definition ansi :: "string \<Rightarrow> string" where "ansi code = CHR 0x1B # code"

definition GREEN :: string where "GREEN = ansi ''[32m''"
definition RED :: string where "RED = ansi ''[31m''"
definition YELLOW :: string where "YELLOW = ansi ''[33m''"
definition CYAN :: string where "CYAN = ansi ''[36m''"
definition DIM :: string where "DIM = ansi ''[90m''"
definition WHITE :: string where "WHITE = ansi ''[37m''"
definition RESET :: string where "RESET = ansi ''[0m''"

definition MAX_LEVELS :: nat where "MAX_LEVELS = 10"

text \<open>The replay speed is a \<^verbatim>\<open>double\<close>; anything not positive is 0 here.\<close>

record SessionInfo =
  si_symbol :: string
  si_timestamp_ns :: u64
  si_messages :: u64
  si_trades :: u64
  si_shares :: u64
  si_last_price :: u32
  si_speed :: dyadic

record Visualizer =
  vz_prev_bid_px :: u32
  vz_prev_ask_px :: u32
  vz_prev_last :: u32

definition Visualizer_new :: Visualizer where
  "Visualizer_new = \<lparr>vz_prev_bid_px = 0, vz_prev_ask_px = 0, vz_prev_last = 0\<rparr>"

definition fmt_time :: "u64 \<Rightarrow> string" where
  "fmt_time ns =
     (let total_ms = ns div 1000000;
          ms = ucast (total_ms mod 1000) :: u32;
          secs = total_ms div 1000;
          h = ucast (secs div 3600) :: u32;
          m = ucast ((secs div 60) mod 60) :: u32;
          s = ucast (secs mod 60) :: u32
      in zero_pad 2 (dec_text (unat (h mod 100))) @ '':'' @ zero_pad 2 (dec_text (unat m)) @ '':''
           @ zero_pad 2 (dec_text (unat s)) @ ''.'' @ zero_pad 3 (dec_text (unat ms)))"

definition price_text :: "u32 \<Rightarrow> string" where
  "price_text px = fixed2 (dbl_div (unat px) 10000)"

definition unsigned_text :: "'a::len word \<Rightarrow> string" where
  "unsigned_text w = dec_text (unat w)"

definition render_header :: "SessionInfo \<Rightarrow> frame_call list" where
  "render_header info =
     [Put (ansi ''[H''), Put WHITE,
      Putf (''  tickpipe  '' @ pad_right 6 (si_symbol info) @ ''  '' @ fmt_time (si_timestamp_ns info))]
     @ (if 0 < fst (si_speed info) then [Putf (''   '' @ fixed0 (si_speed info) @ ''x'')] else [])
     @ [Put (replicate 20 CHR '' '' @ newline), Put DIM, Put (''  '' @ replicate 60 CHR ''='' @ newline), Put RESET,
        Putf (''  '' @ pad_left 8 ''ORDERS'' @ '' '' @ pad_left 10 ''BID QTY'' @ '' '' @ pad_left 8 ''BID'' @ '' | ''
              @ pad_right 8 ''ASK'' @ '' '' @ pad_right 10 ''ASK QTY'' @ '' '' @ pad_right 8 ''ORDERS'' @ newline),
        Put DIM, Put (''  '' @ replicate 60 CHR ''-'' @ newline), Put RESET]"

definition bid_cell :: "nat \<Rightarrow> DepthLevel list \<Rightarrow> frame_call list" where
  "bid_cell i bid =
     (if i < length bid
      then [Put (if i = 0 then GREEN else DIM),
            Putf (''  '' @ pad_left 8 (unsigned_text (dl_orders (bid ! i))) @ '' ''
                  @ pad_left 10 (unsigned_text (dl_quantity (bid ! i))) @ '' '' @ pad_left 8 (price_text (dl_price (bid ! i)))),
            Put RESET]
      else [Putf (''  '' @ pad_left 8 '''' @ '' '' @ pad_left 10 '''' @ '' '' @ pad_left 8 '''')])"

definition ask_cell :: "nat \<Rightarrow> DepthLevel list \<Rightarrow> frame_call list" where
  "ask_cell i ask =
     (if i < length ask
      then [Put (if i = 0 then RED else DIM),
            Putf (pad_right 8 (price_text (dl_price (ask ! i))) @ '' '' @ pad_right 10 (unsigned_text (dl_quantity (ask ! i)))
                  @ '' '' @ pad_right 8 (unsigned_text (dl_orders (ask ! i)))),
            Put RESET]
      else [Putf (pad_right 8 '''' @ '' '' @ pad_right 10 '''' @ '' '' @ pad_right 8 '''')])"

definition render_row :: "DepthLevel list \<Rightarrow> DepthLevel list \<Rightarrow> nat \<Rightarrow> frame_call list" where
  "render_row bid ask i = bid_cell i bid @ [Put DIM, Put '' | '', Put RESET] @ ask_cell i ask @ [Put newline]"

definition render_rows :: "DepthLevel list \<Rightarrow> DepthLevel list \<Rightarrow> frame_call list" where
  "render_rows bid ask =
     (let rows = max (length bid) (length ask);
          rows = (if rows = 0 then 1 else rows)
      in concat (map (render_row bid ask) [0..<min rows MAX_LEVELS]))"

text \<open>The spread is signed: of a crossed book it is negative.\<close>

definition render_spread :: "DepthLevel list \<Rightarrow> DepthLevel list \<Rightarrow> frame_call list" where
  "render_spread bid ask =
     (case (bid, ask) of
        (b # _, a # _) \<Rightarrow>
          let diff = uint (dl_price a) - uint (dl_price b);
              spread = (if diff < 0 then ''-'' else '''') @ fixed2 (dbl_div (nat \<bar>diff\<bar>) 10000);
              mid = fixed2 (dbl_div (unat (dl_price a) + unat (dl_price b)) 20000)
          in [Put (if diff < 0 then RED else CYAN),
              Putf (''  spread $'' @ pad_right 7 spread @ '' mid $'' @ pad_right 10 mid), Put RESET]
      | _ \<Rightarrow> [Putf (''  spread '' @ pad_right 8 ''--'' @ '' mid '' @ pad_right 14 ''--'')])"

definition render_last :: "u32 \<Rightarrow> u32 \<Rightarrow> frame_call list" where
  "render_last prev_last last_price =
     (if last_price > 0
      then [Put (if last_price > prev_last \<and> prev_last \<noteq> 0 then GREEN
                 else if last_price < prev_last \<and> prev_last \<noteq> 0 then RED else YELLOW),
            Putf (''last $'' @ price_text last_price @ ''      '' @ newline), Put RESET]
      else [Putf (''last '' @ pad_right 10 ''--'' @ newline)])"

definition render_totals :: "SoftwareEngine \<Rightarrow> SessionInfo \<Rightarrow> frame_call list" where
  "render_totals eng info =
     [Putf (''  msgs '' @ pad_right 12 (unsigned_text (si_messages info)) @ '' trades '' @ pad_right 10 (unsigned_text (si_trades info))
            @ '' shares '' @ pad_right 12 (unsigned_text (si_shares info)) @ newline),
      Putf (''  levels '' @ dec_int (sint (of_nat (length (se_bids eng)) :: u32)) @ '' x ''
            @ dec_int (sint (of_nat (length (se_asks eng)) :: u32)) @ replicate 40 CHR '' '' @ newline)]"

definition render_calls :: "SoftwareEngine \<Rightarrow> SessionInfo \<Rightarrow> Visualizer \<Rightarrow> frame_call list" where
  "render_calls eng info v =
     (let bid = depth Buy (int MAX_LEVELS) eng; ask = depth Sell (int MAX_LEVELS) eng
      in render_header info @ render_rows bid ask
           @ [Put DIM, Put (''  '' @ replicate 60 CHR ''-'' @ newline), Put RESET]
           @ render_spread bid ask @ render_last (vz_prev_last v) (si_last_price info) @ render_totals eng info)"

definition first_price :: "DepthLevel list \<Rightarrow> u32" where
  "first_price levels = (case levels of [] \<Rightarrow> 0 | l # _ \<Rightarrow> dl_price l)"

definition render :: "(nat \<Rightarrow> u8) \<Rightarrow> SoftwareEngine \<Rightarrow> SessionInfo \<Rightarrow> Visualizer \<Rightarrow> (bytes \<times> Visualizer) option" where
  "render mem eng info v =
     (case frame_calls (render_calls eng info v) (Frame_new mem) of
        None \<Rightarrow> None
      | Some f \<Rightarrow>
          let v = \<lparr>vz_prev_bid_px = first_price (depth Buy (int MAX_LEVELS) eng),
                   vz_prev_ask_px = first_price (depth Sell (int MAX_LEVELS) eng), vz_prev_last = si_last_price info\<rparr>
          in map_option (\<lambda>(out, _). (out, v)) (frame_flush f))"

section \<open>Drawing when due\<close>

text \<open>
  The two programs that display a book redraw it on a timer: a frame when the clock has reached
  \<^verbatim>\<open>next_render\<close>, which then moves by the period. Clock readings are in nanoseconds; the frames
  written, each with the reading that found it due, are kept as an observation.
\<close>

record Display =
  dp_viz :: Visualizer
  dp_next_render :: int
  dp_frames :: "(int \<times> bytes) list"

definition draw_due :: "(nat \<Rightarrow> u8) \<Rightarrow> int \<Rightarrow> int \<Rightarrow> SoftwareEngine \<Rightarrow> SessionInfo \<Rightarrow> Display \<Rightarrow> Display option" where
  "draw_due mem period now eng info d =
     (if now \<ge> dp_next_render d
      then case render mem eng info (dp_viz d) of
             None \<Rightarrow> None
           | Some (out, viz) \<Rightarrow> Some \<lparr>dp_viz = viz, dp_next_render = now + period, dp_frames = dp_frames d @ [(now, out)]\<rparr>
      else Some d)"

definition session_info :: "string \<Rightarrow> u64 \<Rightarrow> u64 \<Rightarrow> dyadic \<Rightarrow> SoftwareEngine \<Rightarrow> SessionInfo" where
  "session_info symbol timestamp messages speed e =
     \<lparr>si_symbol = symbol, si_timestamp_ns = timestamp, si_messages = messages, si_trades = se_matches_made e,
      si_shares = se_shares_traded e, si_last_price = se_last_price e, si_speed = speed\<rparr>"

section \<open>Frames that fit\<close>

definition frame_holds :: "string \<Rightarrow> Frame \<Rightarrow> bool" where
  "frame_holds t f \<longleftrightarrow> length (fr_buf f) = 16384 \<and> unat (fr_len f) = length t \<and>
     take (length t) (fr_buf f) = map byte_of t"

lemma frame_holds_new: "frame_holds [] (Frame_new mem)"
  by (simp add: frame_holds_def Frame_new_def FRAME_CAP_def)

lemma frame_advance:
  assumes "frame_holds t f" and "length t + length s < 16384"
  shows "unat (fr_len f + of_nat (length s)) = length t + length s"
proof -
  have "of_nat (unat (fr_len f)) = fr_len f" by simp
  then have "of_nat (length t) = fr_len f" using assms(1) by (simp only: frame_holds_def)
  then have "unat (fr_len f + of_nat (length s)) = unat (of_nat (length t + length s) :: u64)" by simp
  also have "\<dots> = length t + length s" using assms(2) by (simp only: unat_of_nat) simp
  finally show ?thesis .
qed

lemma frame_stored:
  assumes "frame_holds t f" and "length t + length (map byte_of s @ z) \<le> 16384" and "length t + length s < 16384"
  shows "\<exists>buf. mem_write (fr_buf f) (unat (fr_len f)) (map byte_of s @ z) = Some buf \<and>
     frame_holds (t @ s) (f\<lparr>fr_buf := buf, fr_len := fr_len f + of_nat (length s)\<rparr>)"
  using assms frame_advance [OF assms(1,3)] by (simp add: frame_holds_def mem_write_in_range)

lemma frame_put_law:
  assumes "frame_holds t f" and "length t + length s < 16384"
  shows "\<exists>f'. frame_put s f = Some f' \<and> frame_holds (t @ s) f'"
proof -
  have "fr_len f + of_nat (length s) < FRAME_CAP"
    using frame_advance [OF assms] assms(2) by (simp add: word_less_nat_alt FRAME_CAP_def)
  then show ?thesis using frame_stored [OF assms(1), of s "[]"] assms(2) by (auto simp: frame_put_def Let_def)
qed

lemma frame_putf_law:
  assumes "frame_holds t f" and "length t + length s < 16384"
  shows "\<exists>f'. frame_putf s f = Some f' \<and> frame_holds (t @ s) f'"
proof -
  have "unat (fr_len f) = length t" using assms(1) by (simp add: frame_holds_def)
  then have room: "unat (FRAME_CAP - fr_len f) = 16384 - length t"
    using assms(2) by (subst unat_sub) (simp_all add: word_le_nat_alt FRAME_CAP_def)
  then have "FRAME_CAP - fr_len f \<noteq> 0" using assms(2) by (metis unat_0 zero_less_diff add_lessD1 less_numeral_extra(3))
  moreover have "take (unat (FRAME_CAP - fr_len f) - 1) (map byte_of s) = map byte_of s"
    using assms(2) by (simp add: room)
  ultimately show ?thesis
    using frame_stored [OF assms(1), of s "[0]"] assms(2) by (auto simp: frame_putf_def Let_def)
qed

definition calls_text :: "frame_call list \<Rightarrow> string" where
  "calls_text cs = concat (map call_text cs)"

lemma calls_text_simps [simp]:
  "calls_text [] = []" "calls_text (c # cs) = call_text c @ calls_text cs" "calls_text (cs @ ds) = calls_text cs @ calls_text ds"
  by (simp_all add: calls_text_def)

lemma frame_calls_law:
  assumes "frame_holds t f" and "length t + length (calls_text cs) < 16384"
  shows "\<exists>f'. frame_calls cs f = Some f' \<and> frame_holds (t @ calls_text cs) f'"
  using assms
proof (induction cs arbitrary: t f)
  case (Cons c cs)
  have "length t + length (call_text c) < 16384" using Cons.prems(2) by simp
  then obtain f' where f': "(case c of Put s \<Rightarrow> frame_put s f | Putf s \<Rightarrow> frame_putf s f) = Some f'" "frame_holds (t @ call_text c) f'"
    using frame_put_law [OF Cons.prems(1), of "call_text c"] frame_putf_law [OF Cons.prems(1), of "call_text c"]
    by (cases c) auto
  then show ?case using Cons.IH [OF f'(2)] Cons.prems(2) by simp
qed simp

section \<open>How long the texts get\<close>

named_theorems tp_width \<open>lengths of printed fields\<close>

lemma unsigned_width:
  "length (unsigned_text (w :: u32)) \<le> 10" "length (unsigned_text (x :: u64)) \<le> 20"
  using unsigned_less [of w, where ?'a = nat] unsigned_less [of x, where ?'a = nat]
  by (auto simp: unsigned_text_def intro!: dec_text_length)

lemma price_width: "length (price_text px) \<le> 10"
  using fixed2_length [of 10000 "unat px" 6] unsigned_less [of px, where ?'a = nat] by (simp add: price_text_def)

lemma signed_width: "length (dec_int (sint (w :: u32))) \<le> 11"
proof -
  have "sint w < 2 ^ 31" "- (2 ^ 31) \<le> sint w" using sint_less [of w] sint_ge [of w] by simp_all
  then have "nat (sint w) < 10 ^ 10" "nat (- sint w) < 10 ^ 10" by simp_all
  then have "length (dec_text (nat (sint w))) \<le> 10" "length (dec_text (nat (- sint w))) \<le> 10"
    by (auto intro!: dec_text_length simp del: power_numeral)
  then show ?thesis by (simp add: dec_int_def)
qed

lemma fmt_time_width [tp_width]: "length (fmt_time ns) = 12"
proof -
  have "unat (ucast (x mod 60) :: u32) < 10 ^ 2" "unat (ucast (x mod 1000) :: u32) < 10 ^ 3"
    "unat (y mod 100 :: u32) < 10 ^ 2" for x :: u64 and y
    by (simp_all add: unat_mod unsigned_ucast_eq take_bit_eq_mod less_imp_le)
  then show ?thesis by (simp add: fmt_time_def Let_def zero_pad_dec)
qed

lemma ansi_width [tp_width]:
  "length GREEN = 5" "length RED = 5" "length YELLOW = 5" "length CYAN = 5" "length DIM = 5" "length WHITE = 5"
  "length RESET = 4" "length (ansi ''[H'') = 3" "length newline = 1"
  by (simp_all add: ansi_def GREEN_def RED_def YELLOW_def CYAN_def DIM_def WHITE_def RESET_def newline_def)

lemma speed_width:
  assumes "m < 2 ^ 1024 * 2 ^ s"
  shows "length (fixed0 (m, s)) \<le> 309"
proof -
  have "round_div m (2 ^ s) \<le> 2 ^ 1024" using assms by (intro round_div_le) (simp_all add: mult.commute)
  also have "(2 :: nat) ^ 1024 < 10 ^ 309" by simp
  finally show ?thesis unfolding fixed0_def by (auto intro: dec_text_length)
qed

lemma cell_width: "length (calls_text (bid_cell i bid)) \<le> 43" "length (calls_text (ask_cell i ask)) \<le> 41"
  using unsigned_width(1) [of "dl_orders (bid ! i)"] unsigned_width(1) [of "dl_quantity (bid ! i)"] price_width [of "dl_price (bid ! i)"]
    unsigned_width(1) [of "dl_orders (ask ! i)"] unsigned_width(1) [of "dl_quantity (ask ! i)"] price_width [of "dl_price (ask ! i)"]
  by (auto simp: bid_cell_def ask_cell_def pad_length tp_width max_def)

lemma row_width: "length (calls_text (render_row bid ask i)) \<le> 97"
  using cell_width(1) [of i bid] cell_width(2) [of i ask] by (simp add: render_row_def tp_width)

lemma calls_text_concat: "calls_text (concat css) = concat (map calls_text css)"
  by (induction css) simp_all

lemma rows_width: "length (calls_text (render_rows bid ask)) \<le> 970"
proof -
  have "length (concat (map (\<lambda>i. calls_text (render_row bid ask i)) is)) \<le> 97 * length is" for "is"
  proof (induction "is")
    case (Cons i "is")
    then show ?case using row_width [of bid ask i] by simp
  qed simp
  from this [of "[0..<min rows MAX_LEVELS]" for rows]
  have "length (concat (map (\<lambda>i. calls_text (render_row bid ask i)) [0..<min rows MAX_LEVELS])) \<le> 970" for rows
    by (rule le_trans) (simp add: MAX_LEVELS_def)
  then show ?thesis by (simp only: render_rows_def Let_def calls_text_concat map_map o_def)
qed

lemma spread_width: "length (calls_text (render_spread bid ask)) \<le> 60"
proof -
  have "\<bar>uint a - uint b\<bar> < 2 ^ 32" "unat a + unat b < 2 ^ 33" for a b :: u32
    using uint_lt2p [of a] uint_lt2p [of b] unsigned_less [of a, where ?'a = nat] unsigned_less [of b, where ?'a = nat]
      uint_ge_0 [of a] uint_ge_0 [of b] by (linarith | simp)+
  note d = this
  have "length (fixed2 (dbl_div (nat \<bar>uint a - uint b\<bar>) 10000)) \<le> 10"
    "length (fixed2 (dbl_div (unat a + unat b) 20000)) \<le> 10" for a b :: u32
    using d [of a b] fixed2_length [of 10000 "nat \<bar>uint a - uint b\<bar>" 6] fixed2_length [of 20000 "unat a + unat b" 6]
    by (simp_all add: nat_less_iff)
  note w = this
  show ?thesis
  proof (cases bid; cases ask)
    fix b bs a as assume "bid = b # bs" "ask = a # as"
    then show ?thesis
      using w [of "dl_price a" "dl_price b"] by (auto simp: render_spread_def Let_def pad_length tp_width max_def)
  qed (simp_all add: render_spread_def pad_length)
qed

lemma header_width:
  assumes "length (si_symbol info) \<le> 4096" and "fst (si_speed info) < 2 ^ 1024 * 2 ^ snd (si_speed info)"
  shows "length (calls_text (render_header info)) \<le> 5000"
  using speed_width [OF assms(2)] assms(1)
  by (auto simp: render_header_def pad_length tp_width max_def)

lemma totals_width: "length (calls_text (render_totals eng info)) \<le> 200"
  using unsigned_width(2) [of "si_messages info"] unsigned_width(2) [of "si_trades info"] unsigned_width(2) [of "si_shares info"]
    signed_width [of "of_nat (length (se_bids eng))"] signed_width [of "of_nat (length (se_asks eng))"]
  by (auto simp: render_totals_def pad_length tp_width max_def)

lemma last_width: "length (calls_text (render_last prev px)) \<le> 40"
  using price_width [of px] by (auto simp: render_last_def pad_length tp_width max_def)

lemma frame_width:
  assumes "length (si_symbol info) \<le> 4096" and "fst (si_speed info) < 2 ^ 1024 * 2 ^ snd (si_speed info)"
  shows "length (calls_text (render_calls eng info v)) < 16384"
  using header_width [OF assms] totals_width [of eng info] last_width [of "vz_prev_last v" "si_last_price info"]
    rows_width [of "depth Buy (int MAX_LEVELS) eng" "depth Sell (int MAX_LEVELS) eng"]
    spread_width [of "depth Buy (int MAX_LEVELS) eng" "depth Sell (int MAX_LEVELS) eng"]
  by (simp add: render_calls_def Let_def tp_width)

section \<open>What the reader sees\<close>

lemma render_law:
  assumes "length (si_symbol info) \<le> 4096" and "fst (si_speed info) < 2 ^ 1024 * 2 ^ snd (si_speed info)"
  shows "render mem eng info v =
     Some (map byte_of (calls_text (render_calls eng info v)),
           \<lparr>vz_prev_bid_px = first_price (depth Buy (int MAX_LEVELS) eng),
            vz_prev_ask_px = first_price (depth Sell (int MAX_LEVELS) eng), vz_prev_last = si_last_price info\<rparr>)"
proof -
  obtain f where "frame_calls (render_calls eng info v) (Frame_new mem) = Some f" "frame_holds (calls_text (render_calls eng info v)) f"
    using frame_calls_law [OF frame_holds_new] frame_width [OF assms] by fastforce
  then show ?thesis using frame_width [OF assms, of eng v]
    by (simp add: render_def frame_flush_def mem_read_def frame_holds_def)
qed

text \<open>
  C31. Whatever the book, the counters and the replay speed, and for every symbol of up to 4096
  characters, the frame fits its buffer: no call of \<^verbatim>\<open>put\<close> is dropped, none of \<^verbatim>\<open>putf\<close>
  is cut short or writes past the end, and what reaches the terminal is exactly the concatenation
  of the texts.
\<close>

theorem render_draws_the_whole_frame:
  assumes "length (si_symbol info) \<le> 4096" and "fst (si_speed info) < 2 ^ 1024 * 2 ^ snd (si_speed info)"
  shows "map_option fst (render mem eng info v) = Some (map byte_of (concat (map call_text (render_calls eng info v))))"
  using render_law [OF assms] by (simp add: calls_text_def)

definition sample_info :: SessionInfo where
  "sample_info = \<lparr>si_symbol = ''AAPL'', si_timestamp_ns = 34200000000000, si_messages = 12, si_trades = 3, si_shares = 300,
     si_last_price = 2093700, si_speed = (300, 0)\<rparr>"

theorem render_draws_the_whole_frame_witness:
  "length (si_symbol sample_info) \<le> 4096 \<and> fst (si_speed sample_info) < 2 ^ 1024 * 2 ^ snd (si_speed sample_info) \<and>
   map_option fst (render (\<lambda>_. 0) SoftwareEngine_new sample_info Visualizer_new) =
     Some (map byte_of (concat (map call_text (render_calls SoftwareEngine_new sample_info Visualizer_new))))"
  using render_draws_the_whole_frame [of sample_info "\<lambda>_. 0" SoftwareEngine_new Visualizer_new]
  by (simp add: sample_info_def)

text \<open>The frames of a display: apart by the period, each of them as specified.\<close>

definition display_ok :: "int \<Rightarrow> (bytes \<Rightarrow> bool) \<Rightarrow> Display \<Rightarrow> bool" where
  "display_ok period shown d \<longleftrightarrow> sorted_wrt (\<lambda>a b. fst a + period \<le> fst b) (dp_frames d) \<and>
     list_all (\<lambda>frame. fst frame + period \<le> dp_next_render d \<and> shown (snd frame)) (dp_frames d)"

lemma display_ok_mono: "display_ok period shown d \<Longrightarrow> (\<And>out. shown out \<Longrightarrow> shown' out) \<Longrightarrow> display_ok period shown' d"
  by (auto simp: display_ok_def list_all_iff)

lemma draw_due_ok:
  assumes "display_ok period shown d" and "0 \<le> period"
    and "length (si_symbol info) \<le> 4096" and "fst (si_speed info) < 2 ^ 1024 * 2 ^ snd (si_speed info)"
    and "shown (map byte_of (concat (map call_text (render_calls eng info (dp_viz d)))))"
  shows "\<exists>d'. draw_due mem period now eng info d = Some d' \<and> display_ok period shown d'"
  using assms(1,2,5)
  by (fastforce simp: draw_due_def render_law [OF assms(3,4)] display_ok_def sorted_wrt_append list_all_iff calls_text_def)

text \<open>
  Without the bound on the symbol the buffer is not safe: once the text of one \<^verbatim>\<open>putf\<close> has
  been cut short, \<^verbatim>\<open>len\<close> is past the capacity, the room computed for the next one wraps
  around, and that call writes outside the buffer.
\<close>

lemma cut_text_overruns:
  assumes "frame_holds t f" and "length t < 16384" and "16384 < length t + length s" and "length t + length s < 2 ^ 32"
  shows "\<exists>f'. frame_putf s f = Some f' \<and> frame_putf s' f' = None"
proof -
  have t: "unat (fr_len f) = length t" using assms(1) by (simp add: frame_holds_def)
  then have room: "unat (FRAME_CAP - fr_len f) = 16384 - length t"
    using assms(2) by (subst unat_sub) (simp_all add: word_le_nat_alt FRAME_CAP_def)
  then have ne: "FRAME_CAP - fr_len f \<noteq> 0" using assms(2) by (metis unat_0 zero_less_diff less_numeral_extra(3))
  have "unat (fr_len f + of_nat (length s)) = length t + length s"
    using assms(4) t by (simp add: unat_word_ariths unat_of_nat)
  moreover obtain buf where "mem_write (fr_buf f) (unat (fr_len f))
      (take (unat (FRAME_CAP - fr_len f) - 1) (map byte_of s) @ [0]) = Some buf"
    using assms(1-3) by (simp add: mem_write_def t room frame_holds_def)
  moreover from this have "length buf = 16384" using assms(1) by (auto dest: mem_write_length simp: frame_holds_def)
  moreover from this have "mem_write buf (length t + length s) x = None" for x
    using assms(3) by (simp add: mem_write_def)
  ultimately show ?thesis using ne by (simp add: frame_putf_def Let_def)
qed

text \<open>The time of day a clock text shows, in milliseconds.\<close>

definition time_in :: "string \<Rightarrow> nat" where
  "time_in s = ((number_in (take 2 s) * 60 + number_in (take 2 (drop 3 s))) * 60 + number_in (take 2 (drop 6 s))) * 1000
     + number_in (drop 9 s)"

lemma clock_text_reads:
  assumes "h < 100" "m < 60" "s < 60" "ms < 1000"
  shows "time_in (zero_pad 2 (dec_text h) @ '':'' @ zero_pad 2 (dec_text m) @ '':'' @ zero_pad 2 (dec_text s) @ ''.'' @ zero_pad 3 (dec_text ms)) =
     ((h * 60 + m) * 60 + s) * 1000 + ms"
proof -
  have "length (zero_pad 2 (dec_text h)) = 2" "length (zero_pad 2 (dec_text m)) = 2" "length (zero_pad 2 (dec_text s)) = 2"
    using assms by (simp_all add: zero_pad_dec)
  then show ?thesis by (simp add: time_in_def)
qed

text \<open>
  The clock text has the 12 characters of \<^verbatim>\<open>HH:MM:SS.mmm\<close>, so it fits the 24 bytes of its
  buffer, and it reads back as the timestamp in milliseconds, modulo 100 hours, for every 64-bit
  timestamp.
\<close>

lemma fmt_time_reads_back: "length (fmt_time ns) = 12 \<and> time_in (fmt_time ns) = (unat ns div 1000000) mod 360000000"
proof
  define t where "t = unat ns div 1000000"
  have "unat ns < 2 ^ 64" using unsigned_less [of ns, where ?'a = nat] by simp
  then have "t < 2 ^ 64 div 1000000 + 1" unfolding t_def by (simp add: div_le_mono le_imp_less_Suc less_imp_le)
  then have h: "t div 1000 div 3600 < 2 ^ 32" by simp
  have fields: "unat (ucast (ns div 1000000 mod 1000) :: u32) = t mod 1000"
    "unat (ucast (ns div 1000000 div 1000 div 3600) mod 100 :: u32) = t div 1000 div 3600 mod 100"
    "unat (ucast (ns div 1000000 div 1000 div 60 mod 60) :: u32) = t div 1000 div 60 mod 60"
    "unat (ucast (ns div 1000000 div 1000 mod 60) :: u32) = t div 1000 mod 60"
    using h by (simp_all add: unat_mod unat_div unsigned_ucast_eq take_bit_eq_mod t_def)
  have "time_in (fmt_time ns) = ((t div 1000 div 3600 mod 100 * 60 + t div 1000 div 60 mod 60) * 60 + t div 1000 mod 60) * 1000 + t mod 1000"
    unfolding fmt_time_def Let_def fields by (rule clock_text_reads) simp_all
  also have "\<dots> = t mod (1000 * (60 * (60 * 100)))"
    unfolding mod_mult2_eq by (simp add: div_mult2_eq [symmetric] algebra_simps)
  finally show "time_in (fmt_time ns) = (unat ns div 1000000) mod 360000000" by (simp add: t_def)
qed (rule fmt_time_width)

text \<open>
  The price column: a price in ten-thousandths of a dollar is divided in double precision and
  printed with two decimals, and the text reads back as a nearest cent, never more than half a
  cent off, for every 32-bit price.
\<close>

lemma prices_are_nearest_cents: "2 * \<bar>100 * int (units_in (price_text px)) - uint px\<bar> \<le> 100"
proof -
  have "unat px < 2 ^ 45" using unsigned_less [of px, where ?'a = nat] by simp
  then have "2 * \<bar>int (units_in (price_text px)) * 10000 - 100 * int (unat px)\<bar> \<le> 10000"
    using hundredths_nearest [of 10000 "unat px"] by (simp add: price_text_def units_in_fixed2)
  moreover have "int (units_in (price_text px)) * 10000 - 100 * int (unat px) = 100 * (100 * int (units_in (price_text px)) - uint px)"
    by (simp add: algebra_simps)
  ultimately show ?thesis by (simp only: abs_mult)
qed

end
