(* ===== verification/Paced_Replay.thy ===== *)
theory Paced_Replay
  imports Day_Replay Visualizer
begin

text \<open>
  The paced replay (\<^verbatim>\<open>demo_visualizer\<close> and its callback \<^verbatim>\<open>on_paced\<close> in \<^verbatim>\<open>src/src/main.cpp\<close>):
  each order is applied to the book at the pace of the feed's own clock, and when a reading of the wall clock
  finds that 40 milliseconds have passed since the last reading that did, a frame is drawn, after a sleep if
  the order is not due yet. Time is in nanoseconds and passes by arbitrary amounts; the frames written with
  the readings that found them due, the instants they were written at and the times slept until are kept as
  observations. Proved, from the bytes of the file and however time passes: the replay completes, the
  book is that of the unpaced replay, each frame shows the book of a prefix of the feed and comes at most
  a millisecond before its time, and of three frames the last comes 40 milliseconds after the first.
\<close>

section \<open>The callback\<close>

definition MARKET_OPEN :: u64 where "MARKET_OPEN = 34200000000000"

record PacedCtx =
  pc_book :: BookState
  pc_engine :: SoftwareEngine
  pc_symbol :: string
  pc_speed :: dyadic
  pc_itch_t0 :: u64
  pc_msgs :: u64
  pc_wall_t0 :: int
  pc_display :: Display
  pc_started :: bool
  pc_now :: int
  pc_waits :: nat
  pc_slept :: "int list"
  pc_drawn :: "int list"

definition PacedCtx_new :: "BookState \<Rightarrow> string \<Rightarrow> dyadic \<Rightarrow> PacedCtx" where
  "PacedCtx_new book symbol speed =
     \<lparr>pc_book = book, pc_engine = SoftwareEngine_new, pc_symbol = symbol, pc_speed = speed,
      pc_itch_t0 = 0, pc_msgs = 0, pc_wall_t0 = 0,
      pc_display = \<lparr>dp_viz = Visualizer_new, dp_next_render = 0, dp_frames = []\<rparr>, pc_started = False,
      pc_now = 0, pc_waits = 0, pc_slept = [], pc_drawn = []\<rparr>"

text \<open>
  The steady clock never runs backwards, and that is all that is known of it: \<open>delay n\<close> is the time that
  passes before the callback's \<open>n\<close>-th dealing with time, a reading, the end of a sleep, or the writing of a frame.
\<close>

definition time_passes :: "(nat \<Rightarrow> nat) \<Rightarrow> PacedCtx \<Rightarrow> PacedCtx" where
  "time_passes delay x = x\<lparr>pc_now := pc_now x + int (delay (pc_waits x)), pc_waits := pc_waits x + 1\<rparr>"

definition read_clock :: "(nat \<Rightarrow> nat) \<Rightarrow> PacedCtx \<Rightarrow> int \<times> PacedCtx" where
  "read_clock delay x = (pc_now (time_passes delay x), time_passes delay x)"

text \<open>\<^verbatim>\<open>sleep_until\<close> returns at the target or some time after it.\<close>

definition sleep_until :: "(nat \<Rightarrow> nat) \<Rightarrow> int \<Rightarrow> PacedCtx \<Rightarrow> PacedCtx" where
  "sleep_until delay target x = time_passes delay (x\<lparr>pc_now := max (pc_now x) target, pc_slept := pc_slept x @ [target]\<rparr>)"

text \<open>
  The simulated time of a message: a division in double precision, truncated to \<^verbatim>\<open>int64_t\<close>.
  \<^const>\<open>None\<close> is a quotient the conversion does not define, among them that of a speed of zero.
\<close>

definition sim_ns :: "u64 \<Rightarrow> dyadic \<Rightarrow> int option" where
  "sim_ns since speed =
     (if fst speed = 0 then None
      else let q = dbl_trunc (dbl_quot (dbl_of (unat since)) speed) in if q < 2 ^ 63 then Some (int q) else None)"

definition pace_start :: "(nat \<Rightarrow> nat) \<Rightarrow> Order \<Rightarrow> PacedCtx \<Rightarrow> PacedCtx" where
  "pace_start delay msg x =
     (if pc_started x then x
      else case read_clock delay x of (t, x) \<Rightarrow>
        x\<lparr>pc_started := True, pc_itch_t0 := o_timestamp_ns msg, pc_wall_t0 := t, pc_display := (pc_display x)\<lparr>dp_next_render := t\<rparr>\<rparr>)"

text \<open>\<open>now\<close> is the reading before the sleep; a frame found due by it is written afterwards.\<close>

definition pace_draw :: "(nat \<Rightarrow> nat) \<Rightarrow> (nat \<Rightarrow> u8) \<Rightarrow> int \<Rightarrow> Order \<Rightarrow> PacedCtx \<Rightarrow> PacedCtx option" where
  "pace_draw delay mem now msg x =
     map_option (\<lambda>d. if now \<ge> dp_next_render (pc_display x)
         then case read_clock delay x of (t, x) \<Rightarrow> x\<lparr>pc_display := d, pc_drawn := pc_drawn x @ [t]\<rparr>
         else x\<lparr>pc_display := d\<rparr>)
       (draw_due mem 40000000 now (pc_engine x)
          (session_info (pc_symbol x) (o_timestamp_ns msg) (pc_msgs x) (pc_speed x) (pc_engine x)) (pc_display x))"

definition on_paced :: "(nat \<Rightarrow> nat) \<Rightarrow> (nat \<Rightarrow> u8) \<Rightarrow> Order \<Rightarrow> PacedCtx \<Rightarrow> PacedCtx option" where
  "on_paced delay mem msg x =
     (case resolve msg (pc_book x) of (ok, book, ops) \<Rightarrow>
        let x = x\<lparr>pc_book := book, pc_engine := (if ok then fold apply_op ops (pc_engine x) else pc_engine x), pc_msgs := pc_msgs x + 1\<rparr>
        in if o_timestamp_ns msg < MARKET_OPEN then Some x
           else let x = pace_start delay msg x
           in case sim_ns (o_timestamp_ns msg - pc_itch_t0 x) (pc_speed x) of
                None \<Rightarrow> None
              | Some sim \<Rightarrow>
                  let target = pc_wall_t0 x + sim
                  in case read_clock delay x of (now, x) \<Rightarrow>
                       let x = (if target - now > 1000000 then sleep_until delay target x else x)
                       in pace_draw delay mem now msg x)"

definition paced_callback :: "(nat \<Rightarrow> nat) \<Rightarrow> (nat \<Rightarrow> u8) \<Rightarrow> Order \<Rightarrow> PacedCtx option \<Rightarrow> PacedCtx option" where
  "paced_callback delay mem msg x = Option.bind x (on_paced delay mem msg)"

section \<open>The pace is defined\<close>

lemma round_div_bound:
  assumes "0 < d" and "n \<le> d * b"
  shows "round_div n d \<le> b"
proof (cases "n = d * b")
  case True
  then show ?thesis using assms(1) by (simp add: round_div_def)
next
  case False
  then show ?thesis using assms by (intro round_div_le) simp_all
qed

lemma dbl_excess_le: "q \<le> 2 ^ b \<Longrightarrow> dbl_excess q \<le> b"
proof (induction q arbitrary: b rule: dbl_excess.induct)
  case (1 q)
  show ?case
  proof (cases "q < 2 ^ 53")
    case True
    then show ?thesis by (subst dbl_excess.simps) simp
  next
    case False
    with 1(2) obtain a where a: "b = Suc a" by (cases b) auto
    then have "q div 2 \<le> 2 ^ a" using 1(2) by simp
    then show ?thesis using 1(1) [OF False] False a by (subst dbl_excess.simps) simp
  qed
qed

text \<open>A power of two bounds a double quotient when it bounds the exact one.\<close>

lemma dbl_div_bound:
  assumes "0 < d" and "n \<le> d * 2 ^ b"
  shows "fst (dbl_div n d) \<le> 2 ^ b * 2 ^ snd (dbl_div n d)"
proof (cases "n < d * 2 ^ 53")
  case True
  have "n * 2 ^ s \<le> d * (2 ^ b * 2 ^ s)" for s using mult_right_mono [OF assms(2), of "2 ^ s"] by (simp add: mult.assoc)
  then show ?thesis using True round_div_bound [OF assms(1)] by (simp add: dbl_div_def Let_def)
next
  case False
  define k where "k = dbl_excess (n div d)"
  have "n div d \<le> 2 ^ b" using assms by (metis div_le_mono nonzero_mult_div_cancel_left not_gr_zero)
  then have k: "k \<le> b" unfolding k_def by (rule dbl_excess_le)
  have "n \<le> (d * 2 ^ k) * 2 ^ (b - k)" using assms(2) k by (simp add: mult.assoc flip: power_add)
  then have "round_div n (d * 2 ^ k) \<le> 2 ^ (b - k)" using assms(1) by (intro round_div_bound) simp_all
  then have "round_div n (d * 2 ^ k) * 2 ^ k \<le> 2 ^ b"
    using k by (metis mult_right_mono le0 power_add le_add_diff_inverse2)
  then show ?thesis using False by (simp add: dbl_div_def Let_def k_def)
qed

lemma sim_ns_defined:
  assumes "4 * 2 ^ snd speed \<le> fst speed"
  shows "\<exists>sim. sim_ns since speed = Some sim \<and> 0 \<le> sim"
proof -
  obtain num t where speed: "speed = (num, t)" by (cases speed)
  obtain m s where of: "dbl_of (unat since) = (m, s)" by (cases "dbl_of (unat since)")
  obtain q r where quot: "dbl_div (m * 2 ^ t) (num * 2 ^ s) = (q, r)" by (cases "dbl_div (m * 2 ^ t) (num * 2 ^ s)")
  have num: "4 * 2 ^ t \<le> num" "0 < num" using assms by (auto simp: speed intro: less_le_trans [of 0 "4 * 2 ^ t"])
  have "unat since \<le> 1 * 2 ^ 64" using unsigned_less [of since, where ?'a = nat] by simp
  from dbl_div_bound [OF _ this] have m: "m \<le> 2 ^ 64 * 2 ^ s" using of by (simp add: dbl_of_def)
  have "m * 2 ^ t \<le> (2 ^ 64 * 2 ^ s) * 2 ^ t" using m by (rule mult_right_mono) simp
  also have "\<dots> = (4 * 2 ^ t) * 2 ^ s * 2 ^ 62" by (simp add: algebra_simps)
  also have "\<dots> \<le> num * 2 ^ s * 2 ^ 62" using num(1) by (intro mult_right_mono) simp_all
  finally have "m * 2 ^ t \<le> (num * 2 ^ s) * 2 ^ 62" .
  from dbl_div_bound [OF _ this] have "q \<le> 2 ^ 62 * 2 ^ r" using num(2) by (simp add: quot)
  then have "q div 2 ^ r \<le> 2 ^ 62" by (metis div_le_mono nonzero_mult_div_cancel_right power_not_zero zero_neq_numeral)
  then show ?thesis using num(2) by (simp add: sim_ns_def speed of dbl_quot_def quot dbl_trunc_def Let_def)
qed

text \<open>The display's comment reads a speed of 0 as unpaced; here the first order after the open has no defined effect.\<close>

lemma speed_zero_undefined:
  "\<not> o_timestamp_ns msg < MARKET_OPEN \<Longrightarrow> fst (pc_speed x) = 0 \<Longrightarrow> on_paced delay mem msg x = None"
  by (simp add: on_paced_def Let_def sim_ns_def pace_start_def read_clock_def time_passes_def split: prod.split)

section \<open>Frames and the time they take\<close>

text \<open>The frame of the book after the orders \<open>msgs\<close>, the last of them its timestamp.\<close>

definition picture :: "BookState \<Rightarrow> string \<Rightarrow> dyadic \<Rightarrow> Order list \<Rightarrow> Visualizer \<Rightarrow> string" where
  "picture book symbol speed msgs v =
     (let e = snd (fold feed_step msgs (book, SoftwareEngine_new))
      in concat (map call_text (render_calls e
           (session_info symbol (o_timestamp_ns (last msgs)) (of_nat (length msgs)) speed e) v)))"

definition opens :: "Order list \<Rightarrow> Order list" where
  "opens msgs = filter (\<lambda>m. MARKET_OPEN \<le> o_timestamp_ns m) msgs"

text \<open>
  Output \<open>out\<close> written at \<open>drawn\<close>: the picture of a prefix of the feed that ends after the open, not written
  more than a millisecond before the time of its last order on the scaled clock, which started at \<open>wall\<close>.
\<close>

definition shown_on_time :: "BookState \<Rightarrow> string \<Rightarrow> dyadic \<Rightarrow> Order list \<Rightarrow> int \<Rightarrow> bytes \<Rightarrow> int \<Rightarrow> bool" where
  "shown_on_time book symbol speed msgs wall out drawn \<longleftrightarrow>
     (\<exists>early late v sim. msgs = early @ late \<and> early \<noteq> [] \<and> MARKET_OPEN \<le> o_timestamp_ns (last early) \<and>
        out = map byte_of (picture book symbol speed early v) \<and>
        sim_ns (o_timestamp_ns (last early) - o_timestamp_ns (hd (opens msgs))) speed = Some sim \<and> wall + sim \<le> drawn + 1000000)"

lemma shown_on_time_snoc:
  "shown_on_time book symbol speed msgs wall out drawn \<Longrightarrow> shown_on_time book symbol speed (msgs @ [msg]) wall out drawn"
proof -
  have "hd (opens (early @ late @ [msg])) = hd (opens (early @ late))"
    if "early \<noteq> []" "MARKET_OPEN \<le> o_timestamp_ns (last early)" for early late
  proof -
    have "opens early \<noteq> []" using that by (cases early rule: rev_cases) (simp_all add: opens_def)
    then show ?thesis by (simp add: opens_def)
  qed
  then show "shown_on_time book symbol speed msgs wall out drawn \<Longrightarrow> shown_on_time book symbol speed (msgs @ [msg]) wall out drawn"
    unfolding shown_on_time_def by (metis append.assoc)
qed

text \<open>
  Frames with the readings that found them due, and the instants they were written at: the readings are 40
  milliseconds apart, and a reading is taken when the frame before it has been written.
\<close>

definition frames_ok :: "(bytes \<Rightarrow> int \<Rightarrow> bool) \<Rightarrow> (int \<times> bytes) list \<Rightarrow> int list \<Rightarrow> int \<Rightarrow> int \<Rightarrow> bool" where
  "frames_ok shown fs ds next_render now \<longleftrightarrow>
     sorted_wrt (\<lambda>a b. fst a + 40000000 \<le> fst b) fs \<and> list_all (\<lambda>f. fst f + 40000000 \<le> next_render) fs \<and>
     list_all2 (\<lambda>f d. fst f \<le> d \<and> shown (snd f) d) fs ds \<and> list_all (\<lambda>d. d \<le> now) ds \<and>
     (\<forall>i. Suc i < length fs \<longrightarrow> ds ! i \<le> fst (fs ! Suc i))"

lemma frames_ok_Nil [simp]: "frames_ok shown [] [] next_render now"
  by (simp add: frames_ok_def)

lemma frames_ok_mono:
  "frames_ok shown fs ds next_render now \<Longrightarrow> now \<le> now' \<Longrightarrow> (\<And>out d. shown out d \<Longrightarrow> shown' out d) \<Longrightarrow>
     frames_ok shown' fs ds next_render now'"
  by (fastforce simp: frames_ok_def list_all_iff elim: list_all2_mono)

lemma frames_ok_length: "frames_ok shown fs ds next_render now \<Longrightarrow> length ds = length fs"
  by (auto simp: frames_ok_def dest: list_all2_lengthD)

lemma frames_ok_draw:
  assumes "frames_ok shown fs ds next_render now" and "now \<le> reading" and "next_render \<le> reading" and "reading \<le> t" and "shown out t"
  shows "frames_ok shown (fs @ [(reading, out)]) (ds @ [t]) (reading + 40000000) t"
proof -
  note len = frames_ok_length [OF assms(1)]
  have "(ds @ [t]) ! i \<le> fst ((fs @ [(reading, out)]) ! Suc i)" if "Suc i < length (fs @ [(reading, out)])" for i
  proof (cases "Suc i < length fs")
    case True
    then show ?thesis using assms(1) len by (simp add: frames_ok_def nth_append)
  next
    case False
    then have "Suc i = length fs" using that by simp
    moreover have "ds ! i \<le> now" using assms(1) len calculation by (simp add: frames_ok_def list_all_length)
    ultimately show ?thesis using assms(2) len by (simp add: nth_append)
  qed
  then show ?thesis using assms
    by (fastforce simp: frames_ok_def sorted_wrt_append list_all_iff intro: list_all2_appendI)
qed

lemma frames_ok_spaced:
  assumes "frames_ok shown fs ds next_render now" and "i + 2 < length ds"
  shows "ds ! i + 40000000 \<le> ds ! (i + 2)"
proof -
  note len = frames_ok_length [OF assms(1)]
  have "ds ! i \<le> fst (fs ! Suc i)" "fst (fs ! Suc i) + 40000000 \<le> fst (fs ! (i + 2))" "fst (fs ! (i + 2)) \<le> ds ! (i + 2)"
    using assms len by (auto simp: frames_ok_def sorted_wrt_iff_nth_less list_all2_conv_all_nth)
  then show ?thesis by simp
qed

section \<open>The replay, however time passes\<close>

definition book_ok :: "BookState \<Rightarrow> string \<Rightarrow> dyadic \<Rightarrow> Order list \<Rightarrow> PacedCtx \<Rightarrow> bool" where
  "book_ok book symbol speed msgs x \<longleftrightarrow>
     (pc_book x, pc_engine x) = fold feed_step msgs (book, SoftwareEngine_new) \<and> pc_msgs x = of_nat (length msgs) \<and>
     pc_symbol x = symbol \<and> pc_speed x = speed"

definition time_ok :: "(nat \<Rightarrow> nat) \<Rightarrow> BookState \<Rightarrow> string \<Rightarrow> dyadic \<Rightarrow> Order list \<Rightarrow> PacedCtx \<Rightarrow> bool" where
  "time_ok delay book symbol speed msgs x \<longleftrightarrow>
     (if opens msgs = [] then \<not> pc_started x \<and> pc_waits x = 0 \<and> pc_now x = 0 \<and> dp_frames (pc_display x) = [] \<and> pc_drawn x = []
      else pc_started x \<and> pc_itch_t0 x = o_timestamp_ns (hd (opens msgs)) \<and> pc_wall_t0 x = int (delay 0) \<and>
        (dp_frames (pc_display x) = [] \<longrightarrow> dp_next_render (pc_display x) \<le> pc_now x) \<and>
        frames_ok (shown_on_time book symbol speed msgs (int (delay 0))) (dp_frames (pc_display x)) (pc_drawn x)
          (dp_next_render (pc_display x)) (pc_now x))"

definition paced_ok :: "(nat \<Rightarrow> nat) \<Rightarrow> BookState \<Rightarrow> string \<Rightarrow> dyadic \<Rightarrow> Order list \<Rightarrow> PacedCtx \<Rightarrow> bool" where
  "paced_ok delay book symbol speed msgs x \<longleftrightarrow> book_ok book symbol speed msgs x \<and> time_ok delay book symbol speed msgs x \<and>
     (opens msgs \<noteq> [] \<longrightarrow> dp_frames (pc_display x) \<noteq> [])"

lemma pace_start_book: "book_ok book symbol speed msgs (pace_start delay msg x) = book_ok book symbol speed msgs x"
  by (simp add: book_ok_def pace_start_def read_clock_def time_passes_def)

lemma pace_start_time:
  assumes "time_ok delay book symbol speed msgs x" and "MARKET_OPEN \<le> o_timestamp_ns msg"
  shows "time_ok delay book symbol speed (msgs @ [msg]) (pace_start delay msg x)"
proof (cases "opens msgs = []")
  case True
  then show ?thesis using assms
    by (simp add: time_ok_def opens_def pace_start_def read_clock_def time_passes_def)
next
  case False
  moreover have "opens (msgs @ [msg]) = opens msgs @ [msg]" using assms(2) by (simp add: opens_def)
  ultimately show ?thesis using assms(1)
    by (auto simp: time_ok_def pace_start_def intro: frames_ok_mono shown_on_time_snoc)
qed

text \<open>A reading and, when the order is well ahead, a sleep: afterwards it is at most a millisecond early.\<close>

lemma pace_wait:
  assumes "book_ok book symbol speed msgs z" and "time_ok delay book symbol speed msgs z" and "opens msgs \<noteq> []"
    and "read_clock delay z = (now, w)" and "w' = (if target - now > 1000000 then sleep_until delay target w else w)"
  shows "book_ok book symbol speed msgs w'" and "time_ok delay book symbol speed msgs w'"
    and "pc_display w' = pc_display z" and "pc_drawn w' = pc_drawn z" and "pc_now z \<le> now" and "now \<le> pc_now w'" and "target \<le> pc_now w' + 1000000"
proof -
  have w': "w' = z\<lparr>pc_now := pc_now w', pc_waits := pc_waits w', pc_slept := pc_slept w'\<rparr>" and now: "pc_now z \<le> now" "now \<le> pc_now w'"
    and "target \<le> pc_now w' + 1000000"
    using assms(4,5) by (auto simp: read_clock_def sleep_until_def time_passes_def)
  then show "pc_now z \<le> now" "now \<le> pc_now w'" "target \<le> pc_now w' + 1000000" by simp_all
  show "pc_display w' = pc_display z" "pc_drawn w' = pc_drawn z" by (subst w'; simp)+
  show "book_ok book symbol speed msgs w'" using assms(1) by (subst w') (simp add: book_ok_def)
  show "time_ok delay book symbol speed msgs w'"
    using assms(2,3) now by (subst w') (auto simp: time_ok_def intro: frames_ok_mono)
qed

lemma draw_due_law:
  assumes "length (si_symbol info) \<le> 4096" and "fst (si_speed info) < 2 ^ 1024 * 2 ^ snd (si_speed info)"
  shows "\<exists>v. draw_due mem period now eng info d = Some (if now \<ge> dp_next_render d
     then \<lparr>dp_viz = v, dp_next_render = now + period,
       dp_frames = dp_frames d @ [(now, map byte_of (concat (map call_text (render_calls eng info (dp_viz d)))))]\<rparr>
     else d)"
  by (simp add: draw_due_def render_law [OF assms] calls_text_def)

lemma paced_draw:
  assumes "book_ok book symbol speed (msgs @ [msg]) x" and "time_ok delay book symbol speed (msgs @ [msg]) x"
    and "MARKET_OPEN \<le> o_timestamp_ns msg" and "length symbol \<le> 4096" and "fst speed < 2 ^ 1024 * 2 ^ snd speed"
    and "sim_ns (o_timestamp_ns msg - pc_itch_t0 x) speed = Some sim" and "pc_wall_t0 x + sim \<le> pc_now x + 1000000"
    and "frames_ok (shown_on_time book symbol speed (msgs @ [msg]) (int (delay 0))) (dp_frames (pc_display x)) (pc_drawn x)
          (dp_next_render (pc_display x)) now0"
    and "dp_frames (pc_display x) = [] \<Longrightarrow> dp_next_render (pc_display x) \<le> now0" and "now0 \<le> now" and "now \<le> pc_now x"
  shows "\<exists>x'. pace_draw delay mem now msg x = Some x' \<and> paced_ok delay book symbol speed (msgs @ [msg]) x'"
proof -
  let ?d = "pc_display x"
  let ?info = "session_info symbol (o_timestamp_ns msg) (pc_msgs x) speed (pc_engine x)"
  have ok: "snd (fold feed_step (msgs @ [msg]) (book, SoftwareEngine_new)) = pc_engine x" "pc_msgs x = of_nat (length (msgs @ [msg]))"
    "pc_symbol x = symbol" "pc_speed x = speed" using assms(1) unfolding book_ok_def by (metis snd_conv)+
  have open_msg: "opens (msgs @ [msg]) \<noteq> []" using assms(3) by (simp add: opens_def)
  have t0: "pc_itch_t0 x = o_timestamp_ns (hd (opens (msgs @ [msg])))" "pc_wall_t0 x = int (delay 0)"
    using assms(2) open_msg by (simp_all add: time_ok_def)
  define out where "out = map byte_of (concat (map call_text (render_calls (pc_engine x) ?info (dp_viz ?d))))"
  define t where "t = pc_now x + int (delay (pc_waits x))"
  have "picture book symbol speed (msgs @ [msg]) v = concat (map call_text (render_calls (pc_engine x) ?info v))" for v
    unfolding picture_def Let_def ok(1) by (simp add: ok(2))
  then have shown: "shown_on_time book symbol speed (msgs @ [msg]) (int (delay 0)) out t"
    unfolding shown_on_time_def using assms(3,6,7) t0 out_def
    by (intro exI [of _ "msgs @ [msg]"] exI [of _ "[]"] exI [of _ "dp_viz ?d"] exI [of _ sim]) (simp add: t_def)
  have "\<exists>v. draw_due mem 40000000 now (pc_engine x) ?info ?d = Some (if now \<ge> dp_next_render ?d
     then \<lparr>dp_viz = v, dp_next_render = now + 40000000, dp_frames = dp_frames ?d @ [(now, out)]\<rparr> else ?d)"
    unfolding out_def using assms(4,5) by (intro draw_due_law) (simp_all add: session_info_def)
  then obtain v where v: "draw_due mem 40000000 now (pc_engine x) ?info ?d = Some (if now \<ge> dp_next_render ?d
     then \<lparr>dp_viz = v, dp_next_render = now + 40000000, dp_frames = dp_frames ?d @ [(now, out)]\<rparr> else ?d)"
    by blast
  show ?thesis
  proof (cases "now \<ge> dp_next_render ?d")
    case True
    define x' where "x' = x\<lparr>pc_now := t, pc_waits := pc_waits x + 1,
      pc_display := \<lparr>dp_viz = v, dp_next_render = now + 40000000, dp_frames = dp_frames ?d @ [(now, out)]\<rparr>, pc_drawn := pc_drawn x @ [t]\<rparr>"
    have "frames_ok (shown_on_time book symbol speed (msgs @ [msg]) (int (delay 0))) (dp_frames ?d @ [(now, out)]) (pc_drawn x @ [t]) (now + 40000000) t"
      using assms(11) by (intro frames_ok_draw [OF assms(8,10) True _ shown]) (simp add: t_def)
    then have "time_ok delay book symbol speed (msgs @ [msg]) x'" using assms(2) open_msg by (simp add: time_ok_def x'_def)
    moreover have "book_ok book symbol speed (msgs @ [msg]) x'" using assms(1) by (simp add: book_ok_def x'_def)
    moreover have "pace_draw delay mem now msg x = Some x'"
      using True by (simp add: pace_draw_def ok(3,4) v read_clock_def time_passes_def x'_def t_def)
    ultimately show ?thesis by (simp add: paced_ok_def) (simp add: x'_def)
  next
    case False
    then have "pace_draw delay mem now msg x = Some x" by (simp add: pace_draw_def ok(3,4) v)
    moreover have "dp_frames ?d \<noteq> []" using False assms(9,10) by auto
    ultimately show ?thesis using assms(1,2) by (simp add: paced_ok_def)
  qed
qed

lemma paced_step:
  assumes "paced_ok delay book symbol speed msgs x" and "length symbol \<le> 4096" and "fst speed < 2 ^ 1024 * 2 ^ snd speed"
    and "4 * 2 ^ snd speed \<le> fst speed"
  shows "\<exists>x'. on_paced delay mem msg x = Some x' \<and> paced_ok delay book symbol speed (msgs @ [msg]) x'"
proof -
  obtain ok b ops where r: "resolve msg (pc_book x) = (ok, b, ops)" by (cases "resolve msg (pc_book x)")
  define y where "y = x\<lparr>pc_book := b, pc_engine := (if ok then fold apply_op ops (pc_engine x) else pc_engine x), pc_msgs := pc_msgs x + 1\<rparr>"
  have "(pc_book y, pc_engine y) = feed_step msg (pc_book x, pc_engine x)" by (simp add: feed_step_def r y_def)
  then have "book_ok book symbol speed (msgs @ [msg]) y" using assms(1) by (simp add: paced_ok_def book_ok_def) (simp add: y_def)
  moreover have "time_ok delay book symbol speed msgs y" using assms(1) unfolding paced_ok_def time_ok_def by (simp add: y_def)
  ultimately have y: "book_ok book symbol speed (msgs @ [msg]) y" "time_ok delay book symbol speed msgs y" .
  show ?thesis
  proof (cases "o_timestamp_ns msg < MARKET_OPEN")
    case True
    then have "opens (msgs @ [msg]) = opens msgs" by (simp add: opens_def)
    moreover have "dp_frames (pc_display y) = dp_frames (pc_display x)" by (simp add: y_def)
    ultimately have "paced_ok delay book symbol speed (msgs @ [msg]) y"
      using y assms(1) by (auto simp: paced_ok_def time_ok_def intro: frames_ok_mono shown_on_time_snoc)
    then show ?thesis using True by (simp add: on_paced_def r y_def)
  next
    case False
    define z where "z = pace_start delay msg y"
    have z: "book_ok book symbol speed (msgs @ [msg]) z" "time_ok delay book symbol speed (msgs @ [msg]) z"
      using y pace_start_book pace_start_time False by (simp_all add: z_def not_less)
    then have "pc_speed z = speed" by (simp add: book_ok_def)
    then obtain sim where sim: "sim_ns (o_timestamp_ns msg - pc_itch_t0 z) (pc_speed z) = Some sim"
      using sim_ns_defined [OF assms(4)] by auto
    have open_msg: "opens (msgs @ [msg]) \<noteq> []" using False by (simp add: opens_def not_less)
    obtain now w where rd: "read_clock delay z = (now, w)" by (cases "read_clock delay z")
    define w' where "w' = (if pc_wall_t0 z + sim - now > 1000000 then sleep_until delay (pc_wall_t0 z + sim) w else w)"
    note w = pace_wait [OF z open_msg rd w'_def]
    have t0: "pc_itch_t0 w' = pc_itch_t0 z" "pc_wall_t0 w' = pc_wall_t0 z" using z(2) w(2) open_msg by (simp_all add: time_ok_def)
    have f: "frames_ok (shown_on_time book symbol speed (msgs @ [msg]) (int (delay 0))) (dp_frames (pc_display z)) (pc_drawn z)
        (dp_next_render (pc_display z)) (pc_now z)"
      "dp_frames (pc_display z) = [] \<Longrightarrow> dp_next_render (pc_display z) \<le> pc_now z"
      using z(2) open_msg by (simp_all add: time_ok_def)
    have "on_paced delay mem msg x = pace_draw delay mem now msg w'"
      using False sim by (simp add: on_paced_def r y_def [symmetric] z_def [symmetric] rd w'_def Let_def)
    moreover have "\<exists>x'. pace_draw delay mem now msg w' = Some x' \<and> paced_ok delay book symbol speed (msgs @ [msg]) x'"
    proof (rule paced_draw [OF w(1,2) _ assms(2,3)])
      show "sim_ns (o_timestamp_ns msg - pc_itch_t0 w') speed = Some sim" using sim \<open>pc_speed z = speed\<close> t0 by simp
    qed (use w t0 f False in \<open>simp_all add: not_less\<close>)
    ultimately show ?thesis by simp
  qed
qed

lemma paced_run:
  assumes "length symbol \<le> 4096" and "fst speed < 2 ^ 1024 * 2 ^ snd speed" and "4 * 2 ^ snd speed \<le> fst speed"
  shows "\<exists>x. fold (paced_callback delay mem) msgs (Some (PacedCtx_new book symbol speed)) = Some x \<and> paced_ok delay book symbol speed msgs x"
proof (induction msgs rule: rev_induct)
  case Nil
  then show ?case by (simp add: paced_ok_def book_ok_def time_ok_def opens_def PacedCtx_new_def)
next
  case (snoc msg msgs)
  then show ?case using paced_step [OF _ assms] by (fastforce simp: paced_callback_def)
qed

text \<open>What the section writes around its frames.\<close>

definition show_cursor :: bytes where "show_cursor = map byte_of (ansi ''[?25h'')"

definition hide_cursor :: bytes where "hide_cursor = map byte_of (ansi ''[?25l'')"

definition clear_screen :: bytes where "clear_screen = map byte_of (ansi ''[2J'' @ ansi ''[H'')"

text \<open>
  C30. The paced replay of a file, at any finite speed of at least 4 and however time passes, completes: no
  frame overruns its buffer and no conversion is out of range. The order table and the engine are those of
  the unpaced replay of the same file. A frame is drawn if any order comes at or after the open. The readings
  of the clock that found the frames due are at least 40 milliseconds apart, and each frame is written at
  or after its reading: it is the exact picture of the book after a prefix of the delivered orders
  that ends at or after the open, and is written at most a millisecond before the time of that order on the
  scaled clock, which starts with the first reading, \<open>delay 0\<close>. Two frames may be closer to each other than
  40 milliseconds, for a reading is taken before a sleep and its frame drawn after it, but never three: of three
  frames in a row the last is written at least 40 milliseconds after the first.
\<close>

theorem paced_replay_shows_the_book:
  assumes "length symbol \<le> 4096" and "fst speed < 2 ^ 1024 * 2 ^ snd speed" and "4 * 2 ^ snd speed \<le> fst speed"
  shows "\<exists>x. snd (snd (replay_all (Some file) (paced_callback delay mem) (Some (PacedCtx_new book symbol speed)) dir 0)) = Some x \<and>
     (pc_book x, pc_engine x) = fold feed_step (file_orders file dir) (book, SoftwareEngine_new) \<and>
     ((\<exists>msg \<in> set (file_orders file dir). MARKET_OPEN \<le> o_timestamp_ns msg) \<longrightarrow> pc_drawn x \<noteq> []) \<and>
     sorted_wrt (\<lambda>a b. fst a + 40000000 \<le> fst b) (dp_frames (pc_display x)) \<and>
     list_all2 (\<lambda>frame drawn. fst frame \<le> drawn \<and>
         shown_on_time book symbol speed (file_orders file dir) (int (delay 0)) (snd frame) drawn) (dp_frames (pc_display x)) (pc_drawn x) \<and>
     (\<forall>i. i + 2 < length (pc_drawn x) \<longrightarrow> pc_drawn x ! i + 40000000 \<le> pc_drawn x ! (i + 2))"
proof -
  let ?msgs = "file_orders file dir"
  obtain x where x: "fold (paced_callback delay mem) ?msgs (Some (PacedCtx_new book symbol speed)) = Some x"
    "paced_ok delay book symbol speed ?msgs x"
    using paced_run [OF assms] by blast
  have f: "frames_ok (shown_on_time book symbol speed ?msgs (int (delay 0))) (dp_frames (pc_display x)) (pc_drawn x)
      (dp_next_render (pc_display x)) (pc_now x)"
    using x(2) by (cases "opens ?msgs = []") (simp_all add: paced_ok_def time_ok_def)
  have "pc_drawn x \<noteq> []" if "\<exists>msg \<in> set ?msgs. MARKET_OPEN \<le> o_timestamp_ns msg"
  proof -
    have "opens ?msgs \<noteq> []" using that by (simp add: opens_def filter_empty_conv)
    then show ?thesis using x(2) f by (auto simp: paced_ok_def frames_ok_def)
  qed
  then show ?thesis
    unfolding replay_ctx using x frames_ok_spaced [OF f] f by (simp add: paced_ok_def book_ok_def frames_ok_def)
qed

text \<open>A file with one message, the addition of 100 shares at 209.37 at the open.\<close>

definition one_add_file :: bytes where
  "one_add_file = frame (byte_of CHR ''A'' # [0, 1, 0, 0, 0x1F, 0x1A, 0xCE, 0xD9, 0xF0, 0] @ be_bytes 8 (1 :: u64) @ [byte_of CHR ''B'']
     @ be_bytes 4 (100 :: u32) @ map byte_of ''AAPL    '' @ be_bytes 4 (2093700 :: u32))"

theorem paced_replay_shows_the_book_witness:
  "map o_timestamp_ns (file_orders one_add_file None) = [MARKET_OPEN] \<and>
   length ''AAPL'' \<le> 4096 \<and> (300 :: nat) < 2 ^ 1024 * 2 ^ 0 \<and> 4 * 2 ^ 0 \<le> (300 :: nat) \<and>
   (\<exists>x. snd (snd (replay_all (Some one_add_file) (paced_callback (\<lambda>_. 50) (\<lambda>_. 0)) (Some (PacedCtx_new (sample_table 2) ''AAPL'' (300, 0))) None 0)) = Some x \<and>
     (pc_book x, pc_engine x) = fold feed_step (file_orders one_add_file None) (sample_table 2, SoftwareEngine_new) \<and>
     pc_drawn x \<noteq> [] \<and>
     list_all2 (\<lambda>frame drawn. shown_on_time (sample_table 2) ''AAPL'' (300, 0) (file_orders one_add_file None) 50 (snd frame) drawn)
       (dp_frames (pc_display x)) (pc_drawn x))"
proof -
  have cond: "length ''AAPL'' \<le> 4096" "fst (300 :: nat, 0 :: nat) < 2 ^ 1024 * 2 ^ snd (300 :: nat, 0 :: nat)"
    "4 * 2 ^ snd (300 :: nat, 0 :: nat) \<le> fst (300 :: nat, 0 :: nat)" by simp_all
  have stamps: "map o_timestamp_ns (file_orders one_add_file None) = [MARKET_OPEN]" by code_simp
  then have "MARKET_OPEN \<in> o_timestamp_ns ` set (file_orders one_add_file None)" by (metis list.set_map list.set_intros(1))
  then have "\<exists>msg \<in> set (file_orders one_add_file None). MARKET_OPEN \<le> o_timestamp_ns msg"
    by (metis imageE order_refl)
  then show ?thesis
    using paced_replay_shows_the_book [OF cond, of one_add_file "\<lambda>_. 50" "\<lambda>_. 0" "sample_table 2" None] stamps cond
    by (force elim: list_all2_mono)
qed

end
