(* ===== verification/Thread_Pinning.thy ===== *)
theory Thread_Pinning
  imports Printf_Format
begin

text \<open>
  \<^verbatim>\<open>ThreadPinner\<close> (\<^verbatim>\<open>include/numa.hpp\<close>, \<^verbatim>\<open>src/numa.cpp\<close>) and the section of the demonstration that
  uses it. What the system decides is an argument: the number of cores it reports, whether it accepts an
  affinity, and which core a thread is found on. A thread's affinity is the set of cores it may run on.
  Shown: a pin that succeeds leaves the thread exactly the core asked for, and one that fails leaves
  the affinity alone; without a known number of cores no thread can be pinned.
\<close>

type_synonym affinity = "int set"

definition pin_to_core :: "int \<Rightarrow> bool \<Rightarrow> int \<Rightarrow> affinity \<Rightarrow> bool \<times> affinity" where
  "pin_to_core core_count accepted core_id cpuset =
     (if core_id < 0 \<or> core_id \<ge> core_count then (False, cpuset)
      else (accepted, if accepted then {core_id} else cpuset))"

definition pin_to_matching_core :: "int \<Rightarrow> bool \<Rightarrow> affinity \<Rightarrow> bool \<times> affinity" where
  "pin_to_matching_core core_count accepted = pin_to_core core_count accepted 0"

lemma pin_sets_one_core: "pin_to_core n accepted core s = (True, s') \<Longrightarrow> s' = {core} \<and> 0 \<le> core \<and> core < n"
  by (auto simp: pin_to_core_def split: if_splits)

lemma failed_pin_changes_nothing: "pin_to_core n accepted core s = (False, s') \<Longrightarrow> s' = s"
  by (auto simp: pin_to_core_def split: if_splits)

lemma unknown_cores_cannot_be_pinned: "\<not> fst (pin_to_core 0 accepted core s)"
  by (auto simp: pin_to_core_def)

section \<open>The section of the demonstration\<close>

text \<open>
  \<open>core\<close> gives the core of the calling thread for its affinity. The second thread starts with the
  affinity of the first.
\<close>

definition core_line :: "string \<Rightarrow> int \<Rightarrow> string \<Rightarrow> string" where
  "core_line label core suffix = ''  '' @ label @ '' : core '' @ dec_int core @ suffix @ newline"

definition demo_numa :: "int \<Rightarrow> (int \<Rightarrow> bool) \<Rightarrow> (affinity \<Rightarrow> int) \<Rightarrow> affinity \<Rightarrow> string list \<times> affinity" where
  "demo_numa cores accepts core cpuset =
     (let pinned = snd (pin_to_matching_core cores (accepts 0) cpuset);
          worker = snd (pin_to_core cores (accepts 1) 1 pinned)
      in ([newline @ ''[ 6 ] NUMA Thread Pinning'' @ newline,
           ''  '' @ replicate 60 CHR ''-'' @ newline,
           ''  Available cores : '' @ dec_int cores @ newline,
           core_line ''Before pin     '' (core cpuset) '''',
           core_line ''After pin      '' (core pinned) '' (matching engine)'']
          @ (if cores > 1 then [core_line ''I/O thread     '' (core worker) ''''] else [])
          @ [newline @ ''  Dedicated cores eliminate OS scheduler jitter.'' @ newline,
             ''  Core 0: matching engine'' @ newline, ''  Core 1: network I/O'' @ newline],
          pinned))"

text \<open>On a system that runs threads where their affinity allows and accepts both pins, the report names the cores 0 and 1.\<close>

lemma demo_numa_names_its_cores:
  assumes "cores > 1" and "accepts 0" and "accepts 1" and "\<And>s. s \<noteq> {} \<Longrightarrow> core s \<in> s"
  shows "\<exists>texts. demo_numa cores accepts core s = (texts, {0}) \<and>
     core_line ''After pin      '' 0 '' (matching engine)'' \<in> set texts \<and> core_line ''I/O thread     '' 1 '''' \<in> set texts"
proof -
  have "core {0} = 0" "core {1} = 1" using assms(4) [of "{0}"] assms(4) [of "{1}"] by simp_all
  then show ?thesis using assms(1-3) by (simp add: demo_numa_def pin_to_matching_core_def pin_to_core_def Let_def)
qed

end
