(* ===== verification/Demo_Report.thy ===== *)
theory Demo_Report
  imports Demo_Runs Day_Report Paced_Replay Thread_Pinning Batch_Stats
begin

text \<open>
  The program \<^verbatim>\<open>src/main.cpp\<close> as a whole: the texts its sections print and \<^verbatim>\<open>main\<close>, which runs
  them in order. Readings of the clocks, the files, uninitialised memory and the cores of the system are
  arguments. A text that would show a quotient by zero is \<^const>\<open>None\<close>. Proved: on the clocks, files
  and buffers the program can have it returns 0 with the descriptors and mappings it had, and the risk,
  log and OUCH sections print what their labels announce.
\<close>

definition title :: "nat \<Rightarrow> string \<Rightarrow> string list" where
  "title n s = [newline @ ''[ '' @ dec_text n @ '' ] '' @ s @ newline, divider]"

section \<open>Parser\<close>

text \<open>\<open>ns\<close> is the time measured over the calls, which \<^const>\<open>demo_itch_parser\<close> makes.\<close>

definition parser_section :: "u64 \<Rightarrow> string option list" where
  "parser_section ns =
     (let elapsed_s = dbl_quot (dbl_of (unat ns)) (10 ^ 9, 0);
          ns_per_msg = dbl_quot (dbl_of (unat ns)) (dbl_of 1000000)
      in map Some (title 1 ''ITCH Binary Parser'') @
         [Some (''  Parsed '' @ dec_text 1000000 @ '' ITCH messages'' @ newline),
          (if fst elapsed_s = 0 then None
           else let msgs_per_s = dbl_quot (dbl_of 1000000) elapsed_s
             in Some (''  Throughput : '' @ dec_text (dbl_trunc (dbl_quot msgs_per_s (10 ^ 6, 0))) @ '' M messages/sec'' @ newline)),
          Some (''  Latency    : '' @ fixed1 ns_per_msg @ '' ns per message'' @ newline),
          Some (''  Protocol   : NASDAQ ITCH 5.0 binary, big-endian'' @ newline),
          Some (''  Allocation : zero heap - fixed Order struct on stack'' @ newline)])"

section \<open>Latency comparison\<close>

text \<open>
  \<open>ticks\<close> are the readings of the resolution loop, \<open>ns1\<close> and \<open>ns2\<close> those of the two measurements; there is no
  result when the loop never sees the clock move.
\<close>

definition latency_section ::
    "u64 list \<Rightarrow> (nat \<Rightarrow> u64) \<Rightarrow> (nat \<Rightarrow> u64) \<Rightarrow> FpgaPipeline \<Rightarrow> string option list option" where
  "latency_section ticks ns1 ns2 pipe =
     do {
       tick \<leftarrow> timer_resolution 50000 ticks;
       fpga \<leftarrow> snd (demo_pipeline ns1 pipe);
       sw \<leftarrow> snd (demo_software_engine ns2);
       Some (map Some (title 2 ''FPGA Pipeline vs Software Engine - Latency'') @ latency_report tick fpga sw) }"

section \<open>Risk engine\<close>

definition risk_labels :: "string list" where
  "risk_labels =
     [''Buy  100 AAPL @ $150.00 - normal order'',
      ''Buy 50000 AAPL @ $150.00 - fat finger (limit: 10,000)'',
      ''Buy  100 AAPL @ $200.00 - price out of band ($50 from ref)'',
      ''Buy    0 AAPL @ $150.00 - zero quantity'',
      ''Sell 100 AAPL @ $150.00 - normal order'']"

definition verdict_line :: "RiskResult \<Rightarrow> string \<Rightarrow> string" where
  "verdict_line r label = ''  ['' @ (if r = Accepted then ''ACCEPTED'' else ''REJECTED'') @ ''] '' @ label @ newline"

definition risk_section :: "string list" where
  "risk_section =
     (case demo_risk_engine of (rs, risk) \<Rightarrow>
        title 3 ''Risk Engine'' @ map2 verdict_line rs risk_labels @
        [newline @ ''  Accepted: '' @ dec_text (unat (re_accepted risk)) @ ''   Rejected: '' @ dec_text (unat (re_rejected risk)) @ newline])"

section \<open>Write-ahead log\<close>

definition type_name :: "WalEntryType \<Rightarrow> string" where
  "type_name t = (if t = OrderSubmitted then ''submitted'' else if t = OrderMatched then ''matched'' else ''rejected'')"

fun log_row :: "u64 \<times> WalEntryType \<times> u64 \<times> u32 \<Rightarrow> string" where
  "log_row (n, t, ref, qty) =
     ''    seq='' @ pad_right 3 (dec_text (unat n)) @ ''  '' @ pad_right 10 (type_name t) @ ''  ref='' @ pad_right 3 (dec_text (unat ref))
       @ ''  qty='' @ dec_text (unat qty) @ newline"

definition wal_section :: "(nat \<Rightarrow> u64) \<Rightarrow> bool \<Rightarrow> bytes \<Rightarrow> bytes option \<Rightarrow> string list" where
  "wal_section now can_open old found =
     (case demo_wal now can_open old found of (total_written, n, rows) \<Rightarrow>
        title 4 ''Write-Ahead Log - Crash Recovery'' @
        [''  Written '' @ dec_text (unat total_written) @ '' entries to exchange.wal'' @ newline,
         ''  Simulating crash...'' @ newline, ''  Replaying log for recovery:'' @ newline @ newline] @
        map log_row rows @
        [newline @ ''  Replayed '' @ dec_int n @ '' entries - state fully recovered'' @ newline])"

section \<open>Outbound messages\<close>

definition ouch_section :: "bytes \<Rightarrow> u64 \<Rightarrow> string list option" where
  "ouch_section buf ts =
     map_option (\<lambda>(lens, _).
       title 5 ''OUCH Binary Protocol'' @
       [''  OrderAccepted  : '' @ dec_text (unat (lens ! 0)) @ '' bytes  ref='' @ dec_text 42 @ newline,
        ''  OrderRejected  : '' @ dec_text (unat (lens ! 1)) @ '' bytes  reason=fat_finger'' @ newline,
        ''  OrderExecuted  : '' @ dec_text (unat (lens ! 2)) @ '' bytes  qty='' @ dec_text 100 @ ''  price=$''
          @ fixed2 (dbl_quot (dbl_of 1500000) (10 ^ 4, 0)) @ newline,
        newline @ ''  Binary format, big-endian, zero-copy.'' @ newline,
        ''  Clients parse response messages off the wire directly.'' @ newline]) (demo_ouch buf ts)"


section \<open>Live order book\<close>

text \<open>The bytes of the section, if no frame and no conversion goes wrong, and the process after the destructors; \<open>k\<close> as in \<^const>\<open>day_section\<close>.\<close>

definition visualizer_section ::
    "nat \<Rightarrow> (nat \<Rightarrow> nat) \<Rightarrow> (nat \<Rightarrow> u8) \<Rightarrow> (nat \<Rightarrow> RestingOrder) \<Rightarrow> FileEnv \<Rightarrow> Process \<Rightarrow> bytes option \<times> Process" where
  "visualizer_section k delay mem bmem v pr =
     (let heading = concat (title 8 ''Live Order Book - Real Market Data'')
      in case file_open v (ItchReplay_new, pr) of (ok, r, pr) \<Rightarrow>
        if \<not> ok then (Some (map byte_of (heading @ ''  itch_data not found - skipping'' @ newline)), snd (file_close (r, pr)))
        else
          let ctx = PacedCtx_new (BookState_new bmem k) ''AAPL'' (300, 0)
          in ((case replay_object r (paced_callback delay mem) (Some ctx) (Some aapl_directory) 0 of
                 (_, _, None) \<Rightarrow> None
               | (_, _, Some x) \<Rightarrow> Some (map byte_of heading @ clear_screen @ hide_cursor
                   @ concat (map snd (dp_frames (pc_display x))) @ show_cursor @ [10])),
              snd (file_close (r, pr))))"

definition demo_visualizer ::
    "(nat \<Rightarrow> nat) \<Rightarrow> (nat \<Rightarrow> u8) \<Rightarrow> (nat \<Rightarrow> RestingOrder) \<Rightarrow> FileEnv \<Rightarrow> Process \<Rightarrow> bytes option \<times> Process" where
  "demo_visualizer = visualizer_section 20"

section \<open>The program\<close>

record DemoEnv =
  de_parser_ns :: u64
  de_ticks :: "u64 list"
  de_pipe_ns :: "nat \<Rightarrow> u64"
  de_engine_ns :: "nat \<Rightarrow> u64"
  de_buy_levels :: "nat \<Rightarrow> PriceLevel"
  de_sell_levels :: "nat \<Rightarrow> PriceLevel"
  de_wal_now :: "nat \<Rightarrow> u64"
  de_wal_open :: bool
  de_wal_old :: bytes
  de_wal_found :: "bytes option"
  de_ouch_buf :: bytes
  de_ouch_ts :: u64
  de_cores :: int
  de_accepts :: "int \<Rightarrow> bool"
  de_core :: "affinity \<Rightarrow> int"
  de_cpuset :: affinity
  de_file :: FileEnv
  de_slots :: "nat \<Rightarrow> RestingOrder"
  de_elapsed :: u64
  de_viz_file :: FileEnv
  de_viz_clock :: "nat \<Rightarrow> nat"
  de_viz_buf :: "nat \<Rightarrow> u8"
  de_viz_slots :: "nat \<Rightarrow> RestingOrder"

definition banner :: "string list" where
  "banner = [''ExchangeCore'' @ newline, ''Hardware-Accurate Electronic Exchange Simulator'' @ newline,
     replicate 48 CHR ''='' @ newline]"

text \<open>The texts of the first seven sections, the bytes of the last, the affinity and the process at the end, and the exit code.\<close>

definition tickpipe_main :: "DemoEnv \<Rightarrow> Process \<Rightarrow> (string option list \<times> bytes \<times> affinity \<times> Process \<times> int) option" where
  "tickpipe_main v pr =
     do {
       latency \<leftarrow> latency_section (de_ticks v) (de_pipe_ns v) (de_engine_ns v) (FpgaPipeline_new (de_buy_levels v) (de_sell_levels v));
       ouch \<leftarrow> ouch_section (de_ouch_buf v) (de_ouch_ts v);
       let (numa, cpuset) = demo_numa (de_cores v) (de_accepts v) (de_core v) (de_cpuset v);
       let (day, pr) = demo_real_data (de_slots v) (de_file v) (de_elapsed v) pr;
       let (shown, pr) = demo_visualizer (de_viz_clock v) (de_viz_buf v) (de_viz_slots v) (de_viz_file v) pr;
       frames \<leftarrow> shown;
       Some (map Some banner @ parser_section (de_parser_ns v) @ latency @ map Some risk_section
               @ map Some (wal_section (de_wal_now v) (de_wal_open v) (de_wal_old v) (de_wal_found v))
               @ map Some ouch @ map Some numa @ day,
             frames, cpuset, pr, 0) }"

section \<open>What it prints\<close>

lemma digits_text:
  "digit_char 0 = CHR 0x30" "digit_char (Suc 0) = CHR 0x31" "digit_char 2 = CHR 0x32" "digit_char 3 = CHR 0x33"
  "digit_char 4 = CHR 0x34" "digit_char 5 = CHR 0x35" "digit_char 9 = CHR 0x39"
  by (simp_all add: digit_char_def char_of_def bit_0)

lemma numerals_text:
  "dec_text 0 = ''0''" "dec_text (Suc 0) = ''1''" "dec_text 2 = ''2''" "dec_text 3 = ''3''" "dec_text 4 = ''4''" "dec_text 5 = ''5''"
  "dec_text 15 = ''15''" "dec_text 19 = ''19''" "dec_text 32 = ''32''" "dec_text 34 = ''34''" "dec_text 42 = ''42''"
  "dec_text 100 = ''100''" "dec_text 150 = ''150''" "dec_text 200 = ''200''" "dec_text 50000 = ''50000''"
  by (simp_all add: dec_text.simps digits_text)

lemma copies: "replicate 2 x = [x, x]" "replicate 3 x = [x, x, x]"
  by (simp_all add: numeral_eq_Suc)

lemma price_text: "fixed2 (dbl_quot (dbl_of 1500000) (10000, 0)) = ''150.00''"
proof -
  have "fixed_units 2 (dbl_quot (dbl_of 1500000) (10000, 0)) = 15000" using fixed_units_quot [of 15000 2 2] by simp
  then have "hundredths (dbl_quot (dbl_of 1500000) (10000, 0)) = 15000" by (simp add: hundredths_def fixed_units_def)
  then show ?thesis by (simp add: fixed2_def zero_pad_def numerals_text)
qed

text \<open>The verdicts are the ones the labels announce: the three faulty orders are rejected.\<close>

lemma risk_section_text:
  "risk_section = title 3 ''Risk Engine'' @
     [''  [ACCEPTED] Buy  100 AAPL @ $150.00 - normal order'' @ newline,
      ''  [REJECTED] Buy 50000 AAPL @ $150.00 - fat finger (limit: 10,000)'' @ newline,
      ''  [REJECTED] Buy  100 AAPL @ $200.00 - price out of band ($50 from ref)'' @ newline,
      ''  [REJECTED] Buy    0 AAPL @ $150.00 - zero quantity'' @ newline,
      ''  [ACCEPTED] Sell 100 AAPL @ $150.00 - normal order'' @ newline,
      newline @ ''  Accepted: 2   Rejected: 3'' @ newline]"
  using demo_risk_verdicts
  by (simp add: risk_section_def risk_labels_def verdict_line_def split_beta numerals_text)

text \<open>On a fresh log, the five entries come back.\<close>

lemma wal_section_text:
  "wal_section now True [] found = title 4 ''Write-Ahead Log - Crash Recovery'' @
     [''  Written 5 entries to exchange.wal'' @ newline, ''  Simulating crash...'' @ newline, ''  Replaying log for recovery:'' @ newline @ newline,
      ''    seq=1    submitted   ref=1    qty=100'' @ newline,
      ''    seq=2    submitted   ref=2    qty=100'' @ newline,
      ''    seq=3    matched     ref=3    qty=100'' @ newline,
      ''    seq=4    rejected    ref=4    qty=50000'' @ newline,
      ''    seq=5    submitted   ref=5    qty=200'' @ newline,
      newline @ ''  Replayed 5 entries - state fully recovered'' @ newline]"
proof -
  have "demo_wal now True [] found = (5, 5, [(1, OrderSubmitted, 1, 100), (2, OrderSubmitted, 2, 100), (3, OrderMatched, 3, 100),
      (4, OrderRejected, 4, 50000), (5, OrderSubmitted, 5, 200)])"
    using demo_wal_recovers [of "[]" now found] by simp
  then show ?thesis
    by (simp add: wal_section_def type_name_def pad_right_def dec_int_def numerals_text copies)
qed

text \<open>The lengths of the messages, and the price \<open>150.00\<close> through double precision.\<close>

lemma ouch_section_text:
  assumes "length buf = 64"
  shows "ouch_section buf ts = Some (title 5 ''OUCH Binary Protocol'' @
     [''  OrderAccepted  : 32 bytes  ref=42'' @ newline,
      ''  OrderRejected  : 19 bytes  reason=fat_finger'' @ newline,
      ''  OrderExecuted  : 34 bytes  qty=100  price=$150.00'' @ newline,
      newline @ ''  Binary format, big-endian, zero-copy.'' @ newline,
      ''  Clients parse response messages off the wire directly.'' @ newline])"
proof -
  obtain out where "demo_ouch buf ts = Some ([32, 19, 34], out)" using demo_ouch_fits [OF assms] by blast
  then show ?thesis by (simp add: ouch_section_def numerals_text price_text)
qed

section \<open>It runs to the end\<close>

lemma demo_bench_returns: "snd (demo_bench step ns s) \<noteq> None"
proof -
  obtain s' spent per_op where run: "all_batches step ns 10000 1000 1000 (fold step [0..<10000] s) = (s', spent, per_op)"
    by (metis prod_cases3)
  then have "per_op = map (sample ns 1000) [0..<1000]"
    unfolding all_batches_run by (simp only: prod.inject)
  then have "length per_op = 1000" by (simp only: length_map length_upt)
  then have "sort_doubles per_op \<noteq> []" using sort_doubles_length [of per_op] by auto
  then show ?thesis by (simp add: demo_bench_def run Let_def)
qed

lemma latency_section_returns:
  assumes "length ticks \<ge> 100000" and "distinct ticks"
  shows "latency_section ticks ns1 ns2 pipe \<noteq> None"
proof -
  obtain tick where "timer_resolution 50000 ticks = Some tick"
    using tick_rounds_return [of 50000 ticks] assms by (fastforce simp: timer_resolution_def)
  moreover obtain a b where "snd (demo_pipeline ns1 pipe) = Some a" "snd (demo_software_engine ns2) = Some b"
    using demo_bench_returns [of "pipeline_step 1500000" ns1 "(pipe, 999)"]
      demo_bench_returns [of "engine_step 1500000" ns2 "(Some SoftwareEngine_new, 999)"]
    by (auto simp: demo_pipeline_def demo_software_engine_def)
  ultimately show ?thesis by (simp add: latency_section_def)
qed

lemma day_section_balanced: "env_ok v pr \<Longrightarrow> snd (day_section k dir mem v elapsed pr) = pr"
  using open_close_balanced [of v pr] by (auto simp: day_section_def split: prod.split)

lemma visualizer_section_completes:
  assumes "env_ok v pr"
  shows "\<exists>out. visualizer_section k delay mem bmem v pr = (Some out, pr)"
proof -
  obtain ok r pr' where o: "file_open v (ItchReplay_new, pr) = (ok, r, pr')" by (metis prod_cases3)
  have closed: "snd (file_close (r, pr')) = pr" using open_close_balanced [OF assms] by (simp add: o)
  show ?thesis
  proof (cases ok)
    case True
    define ctx where "ctx = PacedCtx_new (BookState_new bmem k) ''AAPL'' (300, 0)"
    have o': "file_open v (ItchReplay_new, pr) = (True, r, pr')" using o True by simp
    have "replay_object r (paced_callback delay mem) (Some ctx) (Some aapl_directory) 0
        = replay_all (Some (fe_bytes v)) (paced_callback delay mem) (Some ctx) (Some aapl_directory) 0"
      using open_replays_its_file [OF assms o', of "paced_callback delay mem" "Some ctx" "Some aapl_directory" 0] by blast
    moreover have "snd (snd (replay_all (Some (fe_bytes v)) (paced_callback delay mem) (Some ctx) (Some aapl_directory) 0)) \<noteq> None"
      using paced_run [of "''AAPL''" "(300, 0)" delay mem _ "BookState_new bmem k"] unfolding ctx_def replay_ctx by fastforce
    then obtain stats dir x where
      "replay_all (Some (fe_bytes v)) (paced_callback delay mem) (Some ctx) (Some aapl_directory) 0 = (stats, dir, Some x)"
      by (metis option.exhaust prod.collapse)
    ultimately show ?thesis
      using True closed by (simp add: visualizer_section_def Let_def o ctx_def [symmetric])
  next
    case False
    then show ?thesis using closed by (simp add: visualizer_section_def Let_def o)
  qed
qed

text \<open>
  The program from start to end: with readings of the timer that advance, a buffer of 64 bytes and files of
  less than \<open>2 ^ 64\<close> bytes, whether or not they are found, it returns 0, holds no descriptor or mapping it
  did not have, and prints the three sections as announced.
\<close>

lemma main_completes:
  assumes "length (de_ticks v) \<ge> 100000" and "distinct (de_ticks v)" and "length (de_ouch_buf v) = 64"
    and "env_ok (de_file v) pr" and "env_ok (de_viz_file v) pr" and "de_wal_open v" and "de_wal_old v = []"
  shows "\<exists>texts frames cpuset. tickpipe_main v pr = Some (texts, frames, cpuset, pr, 0) \<and>
     Some (''  [REJECTED] Buy 50000 AAPL @ $150.00 - fat finger (limit: 10,000)'' @ newline) \<in> set texts \<and>
     Some (newline @ ''  Replayed 5 entries - state fully recovered'' @ newline) \<in> set texts \<and>
     Some (''  OrderExecuted  : 34 bytes  qty=100  price=$150.00'' @ newline) \<in> set texts"
proof -
  obtain latency where latency: "latency_section (de_ticks v) (de_pipe_ns v) (de_engine_ns v) (FpgaPipeline_new (de_buy_levels v) (de_sell_levels v)) = Some latency"
    using latency_section_returns [OF assms(1,2)] by blast
  obtain numa cpuset where numa: "demo_numa (de_cores v) (de_accepts v) (de_core v) (de_cpuset v) = (numa, cpuset)" by fastforce
  obtain day where day: "demo_real_data (de_slots v) (de_file v) (de_elapsed v) pr = (day, pr)"
    using day_section_balanced [OF assms(4)] unfolding demo_real_data_def by (metis prod.collapse)
  obtain frames where frames: "demo_visualizer (de_viz_clock v) (de_viz_buf v) (de_viz_slots v) (de_viz_file v) pr = (Some frames, pr)"
    using visualizer_section_completes [OF assms(5)] unfolding demo_visualizer_def by blast
  show ?thesis
    by (simp add: tickpipe_main_def latency numa day frames assms(6,7) ouch_section_text [OF assms(3)] wal_section_text risk_section_text)
qed

end
