(* ===== verification/Udp_Server.thy ===== *)
theory Udp_Server
  imports Itch_Replay
begin

text \<open>
  \<^verbatim>\<open>UdpServer\<close> (\<^verbatim>\<open>include/udp_server.hpp\<close>, \<^verbatim>\<open>src/udp_server.cpp\<close>): the MoldUDP64 sender, which batches
  messages into sequenced datagrams. The socket is outside: each call that may reach \<^verbatim>\<open>sendto\<close> (at
  most once) takes its outcome as an argument, and \<open>us_wire\<close> records the datagrams handed over.
  \<^verbatim>\<open>replay_file\<close> is its reading loop; when the pacing flushes comes from the clock, an argument.
  Proved: the datagrams of a file carry its messages in order, numbered from 1 without holes, each
  within the packet size; and what a failed send loses.
\<close>

section \<open>State\<close>

text \<open>Descriptors are integers, -1 the invalid one; the target is an address and a port.\<close>

definition INVALID :: int where "INVALID = - 1"

record UdpServer =
  us_sock :: int
  us_target :: "u32 \<times> u16"
  us_packet :: bytes
  us_payload_len :: nat
  us_packet_msgs :: u16
  us_next_seq :: u64
  us_packets_sent :: u64
  us_messages_sent :: u64
  us_bytes_sent :: u64
  us_wire :: "bytes list"

definition MAX_MSG_SIZE :: nat where "MAX_MSG_SIZE = 1024"

definition MAX_PAYLOAD :: nat where "MAX_PAYLOAD = 1400"

definition MOLD_HEADER :: nat where "MOLD_HEADER = 20"

definition SESSION :: bytes where "SESSION = map byte_of ''TICKPIPE01''"

definition UdpServer_new :: UdpServer where
  "UdpServer_new = \<lparr>us_sock = INVALID, us_target = (0, 0), us_packet = replicate MAX_PAYLOAD 0, us_payload_len = 0,
     us_packet_msgs = 0, us_next_seq = 1, us_packets_sent = 0, us_messages_sent = 0, us_bytes_sent = 0, us_wire = []\<rparr>"

definition write_be16 :: "u16 \<Rightarrow> bytes" where
  "write_be16 v = [ucast (drop_bit 8 v), ucast v]"

text \<open>The loop fills the field from its last byte, shifting the value down.\<close>

definition write_be64 :: "u64 \<Rightarrow> bytes" where
  "write_be64 v = fst (foldr (\<lambda>i (p, v). (p[i := ucast (v AND 0xFF)], drop_bit 8 v)) [0..<8] (replicate 8 0, v))"

section \<open>Operations\<close>

text \<open>
  \<^verbatim>\<open>init\<close>, with the descriptor \<^verbatim>\<open>socket\<close> returned, the address \<^verbatim>\<open>inet_pton\<close> read, if any, and the
  open descriptors of the process. An address that cannot be read is not noticed.
\<close>

definition server_init :: "int \<Rightarrow> u32 option \<Rightarrow> u16 \<Rightarrow> UdpServer \<times> int set \<Rightarrow> bool \<times> UdpServer \<times> int set" where
  "server_init fd addr port = (\<lambda>(s, fds).
     let s = s\<lparr>us_sock := fd\<rparr>
     in if fd = INVALID then (False, s, fds)
        else (True, s\<lparr>us_target := (case addr of None \<Rightarrow> fst (us_target s) | Some a \<Rightarrow> a, port)\<rparr>, insert fd fds))"

definition server_flush :: "bool \<Rightarrow> UdpServer \<Rightarrow> bool \<times> UdpServer" where
  "server_flush sent s =
     (if us_packet_msgs s = 0 then (True, s)
      else
        let out = SESSION @ write_be64 (us_next_seq s - ucast (us_packet_msgs s)) @ write_be16 (us_packet_msgs s)
                    @ take (us_payload_len s) (us_packet s);
            total = MOLD_HEADER + us_payload_len s;
            s = s\<lparr>us_payload_len := 0, us_packet_msgs := 0\<rparr>
        in if \<not> sent then (False, s)
           else (True, s\<lparr>us_packets_sent := us_packets_sent s + 1, us_bytes_sent := us_bytes_sent s + of_nat total,
                         us_wire := us_wire s @ [out]\<rparr>))"

definition server_close :: "bool \<Rightarrow> UdpServer \<times> int set \<Rightarrow> UdpServer \<times> int set" where
  "server_close sent = (\<lambda>(s, fds).
     if us_sock s \<noteq> INVALID then ((snd (server_flush sent s))\<lparr>us_sock := INVALID\<rparr>, fds - {us_sock s}) else (s, fds))"

text \<open>\<^verbatim>\<open>send_message\<close>: \<^const>\<open>None\<close> when a copy leaves the packet or the message buffer.\<close>

definition send_message :: "bool \<Rightarrow> bytes \<Rightarrow> u16 \<Rightarrow> UdpServer \<Rightarrow> (bool \<times> UdpServer) option" where
  "send_message sent data len s =
     (let need = 2 + unat len
      in if need > MAX_PAYLOAD then Some (False, s)
         else
           let (room, s) = (if us_payload_len s + need > MAX_PAYLOAD \<or> us_packet_msgs s = 0xFFFF
                            then server_flush sent s else (True, s))
           in if \<not> room then Some (False, s)
              else
                case mem_write (us_packet s) (us_payload_len s) (write_be16 len) of None \<Rightarrow> None
                | Some packet \<Rightarrow>
                  (case mem_read data 0 (unat len) of None \<Rightarrow> None
                   | Some body \<Rightarrow>
                     (case mem_write packet (us_payload_len s + 2) body of None \<Rightarrow> None
                      | Some packet \<Rightarrow>
                          Some (True, s\<lparr>us_packet := packet, us_payload_len := us_payload_len s + need,
                            us_packet_msgs := us_packet_msgs s + 1, us_next_seq := us_next_seq s + 1,
                            us_messages_sent := us_messages_sent s + 1\<rparr>))))"

text \<open>
  The reading loop of \<^verbatim>\<open>replay_file\<close> over the bytes left in the file. For message \<open>i\<close>,
  \<open>env i\<close> says whether the pacing flushes before it (a pause above 2 ms) and how the sends of that
  flush and of \<^verbatim>\<open>send_message\<close> end. A failed \<^verbatim>\<open>send_message\<close> is not retried.
\<close>

function replay_file_loop :: "(nat \<Rightarrow> bool \<times> bool \<times> bool) \<Rightarrow> nat \<Rightarrow> bytes \<Rightarrow> UdpServer \<Rightarrow> UdpServer option" where
  "replay_file_loop env i f s =
     (if length f < 2 then Some s
      else let msg_len = be16 f; f = drop 2 f
      in if msg_len = 0 \<or> unat msg_len > MAX_MSG_SIZE then Some s
         else if length f < unat msg_len then Some s
         else case env i of (pause, flushed, sent) \<Rightarrow>
           let s = (if pause then snd (server_flush flushed s) else s)
           in case send_message sent (take (unat msg_len) f) msg_len s of None \<Rightarrow> None
              | Some (ok, s) \<Rightarrow> replay_file_loop env (Suc i) (drop (unat msg_len) f) s)"
  by pat_completeness auto

termination
  by (relation "measure (\<lambda>(env, i, f, s). length f)") auto

declare replay_file_loop.simps [simp del]

text \<open>The file that \<^verbatim>\<open>fopen\<close> found, \<^const>\<open>None\<close> if it found none; the last argument is the outcome of the final flush.\<close>

definition replay_file :: "(nat \<Rightarrow> bool \<times> bool \<times> bool) \<Rightarrow> bool \<Rightarrow> bytes option \<Rightarrow> UdpServer \<Rightarrow> UdpServer option" where
  "replay_file env last_sent file s =
     (case file of None \<Rightarrow> Some s
      | Some f \<Rightarrow> map_option (\<lambda>s. snd (server_flush last_sent s)) (replay_file_loop env 0 f s))"

section \<open>The wire format, as a specification\<close>

definition datagram :: "u64 \<Rightarrow> bytes list \<Rightarrow> bytes" where
  "datagram seq batch = SESSION @ be_bytes 8 seq @ be_bytes 2 (of_nat (length batch) :: u16) @ concat (map frame batch)"

fun stamped :: "nat \<Rightarrow> bytes list list \<Rightarrow> bytes list" where
  "stamped seq [] = []"
| "stamped seq (batch # batches) = datagram (of_nat seq) batch # stamped (seq + length batch) batches"

definition batch_ok :: "bytes list \<Rightarrow> bool" where
  "batch_ok batch \<longleftrightarrow> batch \<noteq> [] \<and> list_all message_ok batch \<and> length (concat (map frame batch)) \<le> MAX_PAYLOAD"

lemma stamped_append: "stamped seq (bs @ cs) = stamped seq bs @ stamped (seq + length (concat bs)) cs"
  by (induction bs arbitrary: seq) (simp_all add: add.assoc)

lemma mem_write_seq:
  assumes "off + length a + length b \<le> length buf"
  shows "\<exists>p. mem_write buf off a = Some p \<and>
     mem_write p (off + length a) b = Some (take off buf @ (a @ b) @ drop (off + length a + length b) buf)"
proof -
  define pre where "pre = take off buf"
  define post where "post = drop (off + length a) buf"
  have pre: "length pre = off" "length b \<le> length post" "drop (off + length a + length b) buf = drop (length b) post"
    using assms by (simp_all add: pre_def post_def add.commute)
  have "mem_write buf off a = Some (pre @ a @ post)" using assms by (simp add: mem_write_def pre_def post_def)
  moreover have "mem_write (pre @ a @ post) (off + length a) b = Some (pre @ (a @ b) @ drop (length b) post)"
    using pre(1,2) by (simp add: mem_write_def)
  ultimately show ?thesis using pre by (simp add: pre_def)
qed

lemma write_be16_bytes: "write_be16 v = be_bytes 2 v"
  by (simp add: write_be16_def be_bytes_unfold)

lemma write_be64_bytes: "write_be64 v = be_bytes 8 v"
proof -
  have "(ucast (w AND 0xFF) :: u8) = ucast w" for w :: u64
  proof -
    have "w AND 0xFF = take_bit 8 w" by (simp add: take_bit_eq_mask mask_eq_exp_minus_1)
    then show ?thesis by (simp only:) (rule bit_word_eqI, auto simp: bit_simps)
  qed
  moreover have "replicate 8 (0 :: u8) = [0, 0, 0, 0, 0, 0, 0, 0]" by (simp add: numeral_eq_Suc)
  ultimately show ?thesis by (simp add: write_be64_def be_bytes_unfold upt_conv_Cons)
qed

section \<open>What the server has sent and what it still holds\<close>

text \<open>
  The messages so far are those of the batches on the wire, then the open batch, whose frames
  are the payload. With every send succeeding no message is anywhere else.
\<close>

definition server_rep :: "UdpServer \<Rightarrow> bytes list list \<Rightarrow> bytes list \<Rightarrow> bool" where
  "server_rep s batches batch \<longleftrightarrow>
     us_wire s = stamped 1 batches \<and> list_all batch_ok batches \<and> list_all message_ok batch
     \<and> length (us_packet s) = MAX_PAYLOAD \<and> us_payload_len s = length (concat (map frame batch))
     \<and> us_payload_len s \<le> MAX_PAYLOAD \<and> take (us_payload_len s) (us_packet s) = concat (map frame batch)
     \<and> us_packet_msgs s = of_nat (length batch)
     \<and> us_next_seq s = of_nat (1 + length (concat batches) + length batch)
     \<and> us_messages_sent s = of_nat (length (concat batches) + length batch)
     \<and> us_packets_sent s = of_nat (length batches)"

lemma server_rep_new: "server_rep UdpServer_new [] []"
  by (simp add: server_rep_def UdpServer_new_def)

lemma batch_length: "list_all message_ok batch \<Longrightarrow> 3 * length batch \<le> length (concat (map frame batch))"
proof (induction batch)
  case (Cons m batch)
  then have "1 \<le> length m" by (simp add: message_ok_def Suc_le_eq)
  then show ?case using Cons by (simp add: length_frame)
qed simp

lemma open_batch_short:
  assumes "server_rep s batches batch"
  shows "length batch \<le> 466" and "us_packet_msgs s = 0 \<longleftrightarrow> batch = []" and "us_packet_msgs s \<noteq> 0xFFFF"
proof -
  show len: "length batch \<le> 466" using assms batch_length [of batch] by (simp add: server_rep_def MAX_PAYLOAD_def)
  have n: "unat (us_packet_msgs s) = length batch" using assms len by (simp add: server_rep_def unat_of_nat)
  then show "us_packet_msgs s = 0 \<longleftrightarrow> batch = []" by (simp add: unat_eq_0 [symmetric])
  show "us_packet_msgs s \<noteq> 0xFFFF" using n len by auto
qed

lemma flush_rep:
  assumes "server_rep s batches batch"
  shows "fst (server_flush True s)"
    and "server_rep (snd (server_flush True s)) (batches @ (if batch = [] then [] else [batch])) []"
proof -
  note short = open_batch_short [OF assms]
  show "fst (server_flush True s)" by (simp add: server_flush_def Let_def)
  have "ucast (of_nat (length batch) :: u16) = (of_nat (length batch) :: u64)"
    using short(1) by (simp add: word_unat_eq_iff unat_ucast_up unat_of_nat)
  then show "server_rep (snd (server_flush True s)) (batches @ (if batch = [] then [] else [batch])) []"
    using assms short(2)
    by (auto simp: server_rep_def server_flush_def Let_def write_be16_bytes write_be64_bytes stamped_append
        datagram_def batch_ok_def)
qed

lemma send_rep:
  assumes rep: "server_rep s batches batch" and m: "message_ok m" and small: "length m \<le> MAX_MSG_SIZE"
  shows "\<exists>s' batches' batch'. send_message True m (of_nat (length m)) s = Some (True, s') \<and> server_rep s' batches' batch'
     \<and> concat batches' @ batch' = concat batches @ batch @ [m]"
proof -
  define full where "full \<longleftrightarrow> us_payload_len s + (2 + length m) > MAX_PAYLOAD"
  define t where "t = (if full then snd (server_flush True s) else s)"
  define bs where "bs = (if full then batches @ (if batch = [] then [] else [batch]) else batches)"
  define b where "b = (if full then [] else batch)"
  have len: "unat (of_nat (length m) :: u16) = length m" by (rule unat_length [OF m])
  have t: "server_rep t bs b" using rep flush_rep(2) [OF rep] by (simp add: t_def bs_def b_def)
  have room: "us_payload_len t + (2 + length m) \<le> MAX_PAYLOAD"
    using t small by (auto simp: b_def t_def full_def server_rep_def MAX_PAYLOAD_def MAX_MSG_SIZE_def)
  have pack: "length (us_packet t) = MAX_PAYLOAD" "take (us_payload_len t) (us_packet t) = concat (map frame b)"
    "us_payload_len t = length (concat (map frame b))" using t unfolding server_rep_def by blast+
  define L where "L = us_payload_len t"
  define packet where "packet = take L (us_packet t) @ frame m @ drop (L + (2 + length m)) (us_packet t)"
  obtain p1 where p1: "mem_write (us_packet t) L (write_be16 (of_nat (length m))) = Some p1"
    "mem_write p1 (L + 2) m = Some packet"
    using mem_write_seq [of L "write_be16 (of_nat (length m))" m "us_packet t"] room pack(1)
    by (auto simp: write_be16_bytes L_def packet_def frame_def add.assoc)
  define s' where "s' = t\<lparr>us_packet := packet, us_payload_len := L + (2 + length m), us_packet_msgs := us_packet_msgs t + 1,
    us_next_seq := us_next_seq t + 1, us_messages_sent := us_messages_sent t + 1\<rparr>"
  have "send_message True m (of_nat (length m)) s = Some (True, s')"
  proof -
    have "(if us_payload_len s + (2 + length m) > MAX_PAYLOAD \<or> us_packet_msgs s = 0xFFFF then server_flush True s else (True, s))
        = (True, t)"
      using open_batch_short(3) [OF rep] flush_rep(1) [OF rep] by (cases "server_flush True s") (simp add: t_def full_def)
    moreover have "\<not> 2 + length m > MAX_PAYLOAD" using small by (simp add: MAX_PAYLOAD_def MAX_MSG_SIZE_def)
    ultimately show ?thesis using p1 by (simp add: send_message_def len Let_def mem_read_def L_def [symmetric] s'_def)
  qed
  moreover have "server_rep s' bs (b @ [m])"
  proof -
    have "take (L + (2 + length m)) packet = concat (map frame (b @ [m]))"
      using pack room by (simp add: packet_def L_def length_frame)
    moreover have "length packet = MAX_PAYLOAD" using pack room by (simp add: packet_def L_def length_frame)
    ultimately show ?thesis using t m room pack(3) by (simp add: server_rep_def s'_def L_def length_frame algebra_simps)
  qed
  moreover have "concat bs @ b @ [m] = concat batches @ batch @ [m]" by (simp add: bs_def b_def)
  ultimately show ?thesis by (metis append_assoc)
qed

section \<open>A file on the wire\<close>

abbreviation server_messages :: "bytes \<Rightarrow> bytes list" where
  "server_messages f \<equiv> takeWhile (\<lambda>m. length m \<le> MAX_MSG_SIZE) (unframe f)"

lemma replay_file_loop_rep:
  "(\<And>i. snd (env i) = (True, True)) \<Longrightarrow> server_rep s batches batch \<Longrightarrow>
   \<exists>s' batches' batch'. replay_file_loop env i f s = Some s' \<and> server_rep s' batches' batch' \<and>
     concat batches' @ batch' = concat batches @ batch @ server_messages f"
proof (induction f arbitrary: i s batches batch rule: unframe.induct)
  case (1 f)
  define n where "n = unat (be16 f)"
  show ?case
  proof (cases "length f < 2 \<or> n = 0 \<or> length f - 2 < n \<or> n > MAX_MSG_SIZE")
    case True
    then have stop: "replay_file_loop env i f s = Some s"
      unfolding n_def by (subst replay_file_loop.simps) (auto simp: Let_def unat_eq_0)
    have "server_messages f = []" using True unfolding n_def by (subst unframe.simps) (auto simp: Let_def)
    then show ?thesis using stop "1.prems"(2) by auto
  next
    case False
    define m where "m = take n (drop 2 f)"
    have m: "length m = n" "message_ok m" "of_nat (length m) = be16 f" "length m \<le> MAX_MSG_SIZE"
      using False by (auto simp: m_def n_def message_ok_def MAX_MSG_SIZE_def)
    have msgs: "server_messages f = m # server_messages (drop (2 + n) f)"
      using False m(4) by (subst unframe.simps) (simp add: Let_def n_def m_def)
    obtain pause where env: "env i = (pause, True, True)" using "1.prems"(1) by (metis prod.collapse)
    define t where "t = (if pause then snd (server_flush True s) else s)"
    obtain bs b where t: "server_rep t bs b" "concat bs @ b = concat batches @ batch"
      using "1.prems"(2) flush_rep(2) [OF "1.prems"(2)] by (cases pause) (auto simp: t_def split: if_splits)
    obtain s' bs' b' where s': "send_message True m (be16 f) t = Some (True, s')" "server_rep s' bs' b'"
      "concat bs' @ b' = concat bs @ b @ [m]"
      using send_rep [OF t(1) m(2,4)] m(3) by auto
    have loop: "replay_file_loop env i f s = replay_file_loop env (Suc i) (drop (2 + n) f) s'"
    proof -
      have "be16 f \<noteq> 0" "\<not> unat (be16 f) > MAX_MSG_SIZE" "\<not> length f < 2" "\<not> length (drop 2 f) < unat (be16 f)"
        using False by (auto simp: n_def)
      moreover have "take (unat (be16 f)) (drop 2 f) = m" "drop (unat (be16 f)) (drop 2 f) = drop (2 + n) f"
        by (simp_all add: m_def n_def add.commute)
      ultimately show ?thesis using s'(1) by (subst replay_file_loop.simps) (simp add: Let_def env t_def [symmetric])
    qed
    have "\<exists>s'' bs'' b''. replay_file_loop env (Suc i) (drop (2 + n) f) s' = Some s'' \<and> server_rep s'' bs'' b'' \<and>
        concat bs'' @ b'' = concat bs' @ b' @ server_messages (drop (2 + n) f)"
      using False "1.IH" [of n s' bs' b' "Suc i"] s'(2) "1.prems"(1) by (simp add: n_def)
    moreover have "concat bs' @ b' = (concat batches @ batch) @ [m]" using s'(3) by (simp flip: t(2))
    then have "concat bs' @ b' @ server_messages (drop (2 + n) f) = concat batches @ batch @ server_messages f"
      unfolding msgs by (metis append.assoc append_Cons append_Nil)
    ultimately show ?thesis unfolding loop by simp
  qed
qed

lemma replay_file_law:
  assumes "\<And>i. snd (env i) = (True, True)" and "server_rep s0 [] []"
  shows "\<exists>s batches. replay_file env True (Some f) s0 = Some s \<and> us_wire s = stamped 1 batches \<and>
     list_all batch_ok batches \<and> concat batches = server_messages f"
proof -
  obtain s bs b where s: "replay_file_loop env 0 f s0 = Some s" "server_rep s bs b" "concat bs @ b = server_messages f"
    using replay_file_loop_rep [where env = env and i = 0 and f = f, OF assms] by auto
  then show ?thesis using flush_rep(2) [OF s(2)] by (auto simp: replay_file_def server_rep_def split: if_splits)
qed

section \<open>A failed send\<close>

text \<open>
  When the datagram is full and \<^verbatim>\<open>sendto\<close> fails, \<^verbatim>\<open>send_message\<close> discards the open batch, whose
  sequence numbers leave a gap, and refuses the new message without giving it a number: the next
  message sent takes the number it would have had. A receiver counts one message fewer than were
  lost.
\<close>

lemma failed_send_hides_a_message:
  assumes "server_rep s batches batch" and "message_ok m" and "length m \<le> MAX_MSG_SIZE"
    and "us_payload_len s + (2 + length m) > MAX_PAYLOAD"
  shows "\<exists>s'. send_message False m (of_nat (length m)) s = Some (False, s') \<and> us_wire s' = stamped 1 batches \<and>
     us_payload_len s' = 0 \<and> us_packet_msgs s' = 0 \<and>
     us_next_seq s' = of_nat (1 + length (concat batches) + length batch)"
proof -
  have "batch \<noteq> []" using assms(1,3,4) by (auto simp: server_rep_def MAX_PAYLOAD_def MAX_MSG_SIZE_def)
  then have "us_packet_msgs s \<noteq> 0" using open_batch_short(2) [OF assms(1)] by simp
  moreover have "us_wire s = stamped 1 batches" "us_next_seq s = of_nat (1 + length (concat batches) + length batch)"
    using assms(1) unfolding server_rep_def by blast+
  moreover have "\<not> 2 + length m > MAX_PAYLOAD" using assms(3) by (simp add: MAX_PAYLOAD_def MAX_MSG_SIZE_def)
  ultimately show ?thesis using assms(4) unat_length [OF assms(2)]
    by (simp add: send_message_def server_flush_def Let_def)
qed

definition full_server :: UdpServer where
  "full_server = UdpServer_new\<lparr>us_packet := frame (replicate 1000 7) @ replicate 398 0, us_payload_len := 1002, us_packet_msgs := 1,
     us_next_seq := 2, us_messages_sent := 1\<rparr>"

lemma full_server_rep: "server_rep full_server [] [replicate 1000 7]"
  by (simp add: server_rep_def full_server_def UdpServer_new_def message_ok_def length_frame MAX_PAYLOAD_def)

end
