(* ===== verification/Spsc_Ring.thy ===== *)
theory Spsc_Ring
  imports Tick_Prelude "HOL-Library.Sublist"
begin

text \<open>
  \<^verbatim>\<open>SpscRing\<close> (\<^verbatim>\<open>include/spsc_ring.hpp\<close>): the byte ring between the receive thread and the book
  thread. Proved: called one at a time, \<open>push\<close> and \<open>pop\<close> are a bounded FIFO of records; and when
  the two threads run concurrently, a memory operation at a time, what comes out is in order and
  untorn, and is everything that went in up to what the ring still holds unless a record is one the
  reader gives up; neither call ever waits for the other thread. Cursors are 64-bit and may wrap.
\<close>

section \<open>The ring\<close>

record SpscRing =
  sr_capacity :: u64
  sr_mask :: u64
  sr_buf :: bytes
  sr_head :: u64
  sr_tail :: u64
  sr_dropped :: u64
  sr_high_water :: u64

text \<open>The buffer is not initialised: \<open>mem\<close> is what it held.\<close>

definition SpscRing_new :: "(nat \<Rightarrow> u8) \<Rightarrow> nat \<Rightarrow> SpscRing" where
  "SpscRing_new mem k =
     \<lparr>sr_capacity = push_bit k 1, sr_mask = push_bit k 1 - 1,
      sr_buf = map mem [0..<unat (push_bit k 1 :: u64)],
      sr_head = 0, sr_tail = 0, sr_dropped = 0, sr_high_water = 0\<rparr>"

text \<open>The four bytes of a \<^verbatim>\<open>uint32_t\<close> in memory, least significant first.\<close>

definition le32_bytes :: "u32 \<Rightarrow> bytes" where
  "le32_bytes v = rev (be_bytes 4 v)"

definition le32 :: "bytes \<Rightarrow> u32" where
  "le32 bs = be_word (rev (take 4 bs))"

definition ring_write :: "u64 \<Rightarrow> bytes \<Rightarrow> u32 \<Rightarrow> SpscRing \<Rightarrow> SpscRing option" where
  "ring_write at src n r =
     (let off = at AND sr_mask r;
          first = (if off + ucast n \<le> sr_capacity r then ucast n else sr_capacity r - off)
      in case mem_write (sr_buf r) (unat off) (take (unat first) src) of
           None \<Rightarrow> None
         | Some buf \<Rightarrow>
             if first < ucast n
             then map_option (\<lambda>buf. r\<lparr>sr_buf := buf\<rparr>)
                    (mem_write buf 0 (take (unat (ucast n - first)) (drop (unat first) src)))
             else Some (r\<lparr>sr_buf := buf\<rparr>))"

definition ring_read :: "u64 \<Rightarrow> u32 \<Rightarrow> SpscRing \<Rightarrow> bytes option" where
  "ring_read at n r =
     (let off = at AND sr_mask r;
          first = (if off + ucast n \<le> sr_capacity r then ucast n else sr_capacity r - off)
      in case mem_read (sr_buf r) (unat off) (unat first) of
           None \<Rightarrow> None
         | Some dst \<Rightarrow>
             if first < ucast n
             then map_option (\<lambda>rest. dst @ rest) (mem_read (sr_buf r) 0 (unat (ucast n - first)))
             else Some dst)"

text \<open>
  \<^verbatim>\<open>push\<close>: the sum \<^verbatim>\<open>4 + len\<close> is computed in 32 bits before it is widened. The result is
  \<^const>\<open>None\<close> when a copy leaves the buffer.
\<close>

definition push :: "bytes \<Rightarrow> u32 \<Rightarrow> SpscRing \<Rightarrow> (bool \<times> SpscRing) option" where
  "push data len r =
     (let head = sr_head r; tail = sr_tail r; used = head - tail; need = ucast (4 + len)
      in if used + need > sr_capacity r then Some (False, r\<lparr>sr_dropped := sr_dropped r + 1\<rparr>)
         else
           let r = (if used > sr_high_water r then r\<lparr>sr_high_water := used\<rparr> else r)
           in case ring_write head (le32_bytes len) 4 r of None \<Rightarrow> None
              | Some r \<Rightarrow>
                  (case ring_write (head + 4) data len r of None \<Rightarrow> None
                   | Some r \<Rightarrow> Some (True, r\<lparr>sr_head := head + need\<rparr>)))"

text \<open>\<^verbatim>\<open>pop\<close>: the bytes copied out, none when it returns 0.\<close>

definition pop :: "u32 \<Rightarrow> SpscRing \<Rightarrow> (bytes \<times> SpscRing) option" where
  "pop out_cap r =
     (let tail = sr_tail r; head = sr_head r
      in if head = tail then Some ([], r)
         else case ring_read tail 4 r of None \<Rightarrow> None
         | Some hdr \<Rightarrow>
             let len = le32 hdr
             in if len = 0 \<or> len > out_cap then Some ([], r\<lparr>sr_tail := head\<rparr>)
                else case ring_read (tail + 4) len r of None \<Rightarrow> None
                | Some out \<Rightarrow> Some (out, r\<lparr>sr_tail := tail + 4 + ucast len\<rparr>))"

definition ring_used :: "SpscRing \<Rightarrow> u64" where
  "ring_used r = sr_head r - sr_tail r"

section \<open>The queue a ring holds\<close>

text \<open>
  Positions are counted without wrapping, as natural numbers: \<open>at k t\<close> is the cursor value of
  position \<open>t\<close>, and the byte at position \<open>t\<close> lives in cell \<open>t mod 2 ^ k\<close>.
\<close>

definition ring_shape :: "nat \<Rightarrow> SpscRing \<Rightarrow> bool" where
  "ring_shape k r \<longleftrightarrow> k < 64 \<and> sr_capacity r = 2 ^ k \<and> sr_mask r = mask k \<and> length (sr_buf r) = 2 ^ k"

definition cell :: "SpscRing \<Rightarrow> nat \<Rightarrow> u8" where
  "cell r t = sr_buf r ! (t mod length (sr_buf r))"

definition record_bytes :: "bytes \<Rightarrow> bytes" where
  "record_bytes d = le32_bytes (of_nat (length d)) @ d"

definition stream :: "bytes list \<Rightarrow> bytes" where
  "stream q = concat (map record_bytes q)"

definition holds_at :: "SpscRing \<Rightarrow> nat \<Rightarrow> bytes \<Rightarrow> bool" where
  "holds_at r t bs \<longleftrightarrow> (\<forall>i < length bs. cell r (t + i) = bs ! i)"

definition record_ok :: "u32 \<Rightarrow> bytes \<Rightarrow> bool" where
  "record_ok out_cap d \<longleftrightarrow> d \<noteq> [] \<and> length d \<le> unat out_cap \<and> length d + 4 < 2 ^ 32"

definition ring_rep :: "nat \<Rightarrow> SpscRing \<Rightarrow> nat \<Rightarrow> bytes list \<Rightarrow> bool" where
  "ring_rep k r t q \<longleftrightarrow> ring_shape k r \<and> sr_tail r = of_nat t \<and>
     sr_head r = of_nat (t + length (stream q)) \<and> length (stream q) \<le> 2 ^ k \<and> holds_at r t (stream q)"

section \<open>Copies\<close>

lemma le32_roundtrip: "le32 (le32_bytes v @ rest) = v"
  by (simp add: le32_def le32_bytes_def be_word_be_bytes)

lemma le32_bytes_length [simp, tp_layout]: "length (le32_bytes v) = 4"
  by (simp add: le32_bytes_def)

lemma offset:
  assumes "ring_shape k r"
  shows "unat ((of_nat t :: u64) AND sr_mask r) = t mod 2 ^ k"
proof -
  have k: "k < 64" and m: "sr_mask r = mask k" using assms by (simp_all add: ring_shape_def)
  have "unat ((of_nat t :: u64) AND mask k) = unat (take_bit k (of_nat t :: u64))"
    by (simp add: take_bit_eq_mask)
  also have "\<dots> = take_bit k (take_bit 64 t)"
    by (simp add: unsigned_take_bit_eq unsigned_of_nat)
  also have "\<dots> = take_bit k t" using k by (simp only: take_bit_take_bit min_def) simp
  also have "\<dots> = t mod 2 ^ k" by (rule take_bit_eq_mod)
  finally show ?thesis by (simp add: m)
qed

lemma unat_exp64:
  assumes "k < 64" shows "unat (2 ^ k :: u64) = 2 ^ k"
proof -
  have "(2 :: nat) ^ k < 2 ^ 64" using assms by (intro power_strict_increasing) auto
  then show ?thesis using unat_of_nat [of "2 ^ k", where 'a = 64] by simp
qed

lemma mem_write_nth:
  assumes "mem_write buf off src = Some buf'" and "j < length buf"
  shows "buf' ! j = (if off \<le> j \<and> j < off + length src then src ! (j - off) else buf ! j)"
  using assms by (auto simp: mem_write_def nth_append split: if_splits)

lemma split_point:
  assumes sh: "ring_shape k r" and n: "unat (n :: u32) \<le> 2 ^ k"
    and first: "first = (if (of_nat t AND sr_mask r) + ucast n \<le> sr_capacity r then ucast n
                         else sr_capacity r - (of_nat t AND sr_mask r))"
  shows "unat (first :: u64) = min (unat n) (2 ^ k - t mod 2 ^ k)"
    and "first < ucast n \<longleftrightarrow> 2 ^ k - t mod 2 ^ k < unat n"
    and "unat (ucast n - first) = unat n - unat first"
proof -
  let ?off = "of_nat t AND sr_mask r :: u64"
  have off: "unat ?off = t mod 2 ^ k" by (rule offset [OF sh])
  have k: "k < 64" "sr_capacity r = 2 ^ k" using sh by (simp_all add: ring_shape_def)
  have cap: "unat (2 ^ k :: u64) = 2 ^ k" by (rule unat_exp64 [OF k(1)])
  have lt: "t mod 2 ^ k < 2 ^ k" by simp
  have un: "unat (ucast n :: u64) = unat n" by (rule unat_ucast_up) simp
  have "(2 :: nat) ^ k \<le> 2 ^ 63" using k(1) by (intro power_increasing) auto
  moreover have "(2 :: nat) ^ 64 = 2 ^ 63 + 2 ^ 63" by simp
  ultimately have "t mod 2 ^ k + unat n < 2 ^ 64" using lt n by linarith
  then have sum: "unat (?off + ucast n) = t mod 2 ^ k + unat n"
    by (simp add: unat_word_ariths off un)
  have dif: "unat (2 ^ k - ?off) = 2 ^ k - t mod 2 ^ k"
    using lt off cap by (simp add: unat_sub word_le_nat_alt)
  show f: "unat first = min (unat n) (2 ^ k - t mod 2 ^ k)"
    using lt by (auto simp: first k(2) word_le_nat_alt sum cap un dif)
  then show "first < ucast n \<longleftrightarrow> 2 ^ k - t mod 2 ^ k < unat n"
    by (auto simp: word_less_nat_alt un)
  have "first \<le> ucast n" using f by (simp add: word_le_nat_alt un)
  then show "unat (ucast n - first) = unat n - unat first" by (simp add: unat_sub un)
qed

text \<open>\<open>ahead C off j\<close>: how far cell \<open>j\<close> lies ahead of cell \<open>off\<close>, going round.\<close>

definition ahead :: "nat \<Rightarrow> nat \<Rightarrow> nat \<Rightarrow> nat" where
  "ahead C off j = (if off \<le> j then j - off else j + C - off)"

lemma mod_step:
  assumes "i < (C :: nat)"
  shows "(t + i) mod C = (if t mod C + i < C then t mod C + i else t mod C + i - C)"
proof -
  have eq: "(t + i) mod C = (t mod C + i) mod C" by (rule mod_add_left_eq [symmetric])
  have o: "t mod C < C" using assms by simp
  show ?thesis
  proof (cases "t mod C + i < C")
    case False
    then have "(t mod C + i) mod C = (t mod C + i - C) mod C" by (intro le_mod_geq) simp
    also have "\<dots> = t mod C + i - C" using o assms by (intro mod_less) linarith
    finally show ?thesis using False eq by simp
  qed (simp add: eq)
qed

lemma ahead_mod:
  assumes "0 < C"
  shows "i < C \<Longrightarrow> ahead C (t mod C) ((t + i) mod C) = i"
    and "j < C \<Longrightarrow> (t + ahead C (t mod C) j) mod C = j" and "j < C \<Longrightarrow> ahead C (t mod C) j < C"
proof -
  have o: "t mod C < C" using assms by simp
  show "ahead C (t mod C) ((t + i) mod C) = i" if "i < C"
    unfolding mod_step [OF that] ahead_def using o that by (simp split: if_split) linarith
  show lt: "ahead C (t mod C) j < C" if "j < C" for j
    unfolding ahead_def using o that by (simp split: if_split) linarith
  show "(t + ahead C (t mod C) j) mod C = j" if "j < C"
  proof -
    have "t mod C + (j + C - t mod C) = j + C" using o by simp
    then show ?thesis
      unfolding mod_step [OF lt [OF that]] unfolding ahead_def using that by (cases "t mod C \<le> j") simp_all
  qed
qed

lemma ring_write_buf:
  assumes sh: "ring_shape k r" and n: "unat n \<le> 2 ^ k" "unat n \<le> length src"
  shows "\<exists>buf'. ring_write (of_nat t) src n r = Some (r\<lparr>sr_buf := buf'\<rparr>) \<and> length buf' = 2 ^ k \<and>
    (\<forall>j < 2 ^ k. buf' ! j = (let d = ahead (2 ^ k) (t mod 2 ^ k) j in if d < unat n then src ! d else sr_buf r ! j))"
proof -
  let ?off = "of_nat t AND sr_mask r :: u64"
  define first :: u64 where "first = (if ?off + ucast n \<le> sr_capacity r then ucast n else sr_capacity r - ?off)"
  define C where "C = (2 :: nat) ^ k"
  define z where "z = t mod C"
  note sp = split_point [OF sh n(1) first_def, folded C_def, folded z_def]
  have off: "unat ?off = z" unfolding z_def C_def by (rule offset [OF sh])
  have len: "length (sr_buf r) = C" using sh by (simp add: ring_shape_def C_def)
  have lt: "z < C" by (simp add: z_def C_def)
  have n': "unat n \<le> C" using n(1) by (simp add: C_def)
  let ?f = "unat first"
  have lf: "length (take ?f src) = ?f" using sp(1) n(2) by simp
  have "z + length (take ?f src) \<le> length (sr_buf r)" unfolding lf len using sp(1) lt by linarith
  then obtain buf1 where b1: "mem_write (sr_buf r) z (take ?f src) = Some buf1"
    by (simp add: mem_write_def)
  have l1: "length buf1 = C" using mem_write_length [OF b1] len by simp
  note n1 = mem_write_nth [OF b1, unfolded lf len]
  show ?thesis
  proof (cases "first < ucast n")
    case True
    then have f: "?f = C - z" "C - z < unat n" using sp(1,2) by auto
    have l2: "length (take (unat n - ?f) (drop ?f src)) = unat n - ?f" using n(2) by simp
    have "0 + length (take (unat n - ?f) (drop ?f src)) \<le> length buf1" unfolding l1 l2 using n' by linarith
    then obtain buf2 where b2: "mem_write buf1 0 (take (unat n - ?f) (drop ?f src)) = Some buf2"
      by (simp add: mem_write_def)
    note n2 = mem_write_nth [OF b2, unfolded l1 l2]
    have "buf2 ! j = (let d = ahead C z j in if d < unat n then src ! d else sr_buf r ! j)"
      if "j < C" for j
    proof (cases "z \<le> j")
      case True
      then have "\<not> j < unat n - ?f" "j - z < unat n" "j < z + ?f" using f n' lt that by linarith+
      then show ?thesis using True that n1 [OF that] n2 [OF that] f(1) by (simp add: ahead_def Let_def)
    next
      case False
      then have "j + C - z = ?f + j" using f(1) lt by simp
      then show ?thesis using False n1 [OF that] n2 [OF that] that f(1) n(2) lt
        by (auto simp: ahead_def Let_def)
    qed
    then show ?thesis
      unfolding C_def [symmetric] z_def [symmetric]
      using True b1 b2 mem_write_length [OF b2] l1 sp(3)
      by (intro exI [of _ buf2]) (simp add: ring_write_def Let_def off flip: first_def)
  next
    case False
    then have f: "?f = unat n" "unat n \<le> C - z" using sp(1,2) by auto
    have "buf1 ! j = (let d = ahead C z j in if d < unat n then src ! d else sr_buf r ! j)"
      if "j < C" for j
      using n1 [OF that] that f lt by (auto simp: ahead_def Let_def)
    then show ?thesis
      unfolding C_def [symmetric] z_def [symmetric]
      using False b1 l1 by (intro exI [of _ buf1]) (simp add: ring_write_def Let_def off flip: first_def)
  qed
qed

text \<open>A write lands on the cells of its positions and leaves every other cell alone.\<close>

lemma ring_write_law:
  assumes sh: "ring_shape k r" and n: "unat n \<le> 2 ^ k" "unat n \<le> length src"
  shows "\<exists>buf'. ring_write (of_nat t) src n r = Some (r\<lparr>sr_buf := buf'\<rparr>) \<and>
    ring_shape k (r\<lparr>sr_buf := buf'\<rparr>) \<and> holds_at (r\<lparr>sr_buf := buf'\<rparr>) t (take (unat n) src) \<and>
    (\<forall>c. t + unat n \<le> c + 2 ^ k \<longrightarrow> c < t \<longrightarrow> cell (r\<lparr>sr_buf := buf'\<rparr>) c = cell r c)"
proof -
  let ?C = "2 ^ k :: nat"
  obtain buf' where w: "ring_write (of_nat t) src n r = Some (r\<lparr>sr_buf := buf'\<rparr>)" "length buf' = ?C"
    and nth: "\<And>j. j < ?C \<Longrightarrow> buf' ! j = (let d = ahead ?C (t mod ?C) j in if d < unat n then src ! d else sr_buf r ! j)"
    using ring_write_buf [OF assms] by blast
  have pos: "0 < ?C" by simp
  have lb: "length (sr_buf r) = ?C" using sh by (simp add: ring_shape_def)
  have "holds_at (r\<lparr>sr_buf := buf'\<rparr>) t (take (unat n) src)"
    using nth ahead_mod(1) [OF pos] n w(2) by (auto simp: holds_at_def cell_def Let_def)
  moreover have "cell (r\<lparr>sr_buf := buf'\<rparr>) c = cell r c" if c: "t + unat n \<le> c + ?C" "c < t" for c
  proof -
    have "t + (c + ?C - t) = c + ?C" using c by simp
    then have "c mod ?C = (t + (c + ?C - t)) mod ?C" by simp
    moreover have "c + ?C - t < ?C" using c by simp
    ultimately have "ahead ?C (t mod ?C) (c mod ?C) = c + ?C - t" using ahead_mod(1) [OF pos] by metis
    then have "\<not> ahead ?C (t mod ?C) (c mod ?C) < unat n" using c by simp
    then show ?thesis using nth [of "c mod ?C"] w(2) lb by (simp add: cell_def)
  qed
  ultimately show ?thesis using w sh by (auto simp: ring_shape_def)
qed

lemma ring_read_law:
  assumes sh: "ring_shape k r" and n: "unat n \<le> 2 ^ k"
  shows "ring_read (of_nat t) n r = Some (map (cell r) [t..<t + unat n])"
proof -
  let ?off = "of_nat t AND sr_mask r :: u64"
  define first :: u64 where "first = (if ?off + ucast n \<le> sr_capacity r then ucast n else sr_capacity r - ?off)"
  define C where "C = (2 :: nat) ^ k"
  define z where "z = t mod C"
  note sp = split_point [OF sh n first_def, folded C_def, folded z_def]
  have off: "unat ?off = z" unfolding z_def C_def by (rule offset [OF sh])
  have len: "length (sr_buf r) = C" using sh by (simp add: ring_shape_def C_def)
  have lt: "z < C" by (simp add: z_def C_def)
  have n': "unat n \<le> C" using n by (simp add: C_def)
  have step: "(t + i) mod C = (if z + i < C then z + i else z + i - C)" if "i < C" for i
    using mod_step [OF that] by (simp add: z_def)
  let ?f = "unat first"
  have r1: "mem_read (sr_buf r) z ?f = Some (take ?f (drop z (sr_buf r)))"
    using sp(1) lt len by (simp add: mem_read_def)
  show ?thesis
  proof (cases "first < ucast n")
    case True
    then have f: "?f = C - z" "C - z < unat n" using sp(1,2) by auto
    have "mem_read (sr_buf r) 0 (unat n - ?f) = Some (take (unat n - ?f) (sr_buf r))"
      using f n' lt len by (simp add: mem_read_def)
    moreover have "take ?f (drop z (sr_buf r)) @ take (unat n - ?f) (sr_buf r) = map (cell r) [t..<t + unat n]"
    proof (rule nth_equalityI)
      fix i assume "i < length (take ?f (drop z (sr_buf r)) @ take (unat n - ?f) (sr_buf r))"
      then have i: "i < unat n" using f n' lt len by simp
      then have "map (cell r) [t..<t + unat n] ! i = sr_buf r ! (if z + i < C then z + i else z + i - C)"
        using step [of i] n' len by (simp add: cell_def)
      moreover have "i - ?f = z + i - C" if "\<not> z + i < C" using f(1) that lt by linarith
      ultimately show "(take ?f (drop z (sr_buf r)) @ take (unat n - ?f) (sr_buf r)) ! i =
          map (cell r) [t..<t + unat n] ! i"
        using i f lt len by (auto simp: nth_append)
    qed (use f n' lt len in simp)
    ultimately show ?thesis using True r1 sp(3) by (simp add: ring_read_def Let_def off flip: first_def)
  next
    case False
    then have f: "?f = unat n" "unat n \<le> C - z" using sp(1,2) by auto
    have "take ?f (drop z (sr_buf r)) = map (cell r) [t..<t + unat n]"
    proof (rule nth_equalityI)
      fix i assume "i < length (take ?f (drop z (sr_buf r)))"
      then have i: "i < unat n" using f lt len by simp
      moreover have "z + i < C" using i f(2) lt by linarith
      ultimately show "take ?f (drop z (sr_buf r)) ! i = map (cell r) [t..<t + unat n] ! i"
        using step [of i] n' f(1) len by (simp add: cell_def)
    qed (use f lt len in simp)
    then show ?thesis using False r1 by (simp add: ring_read_def Let_def off flip: first_def)
  qed
qed

section \<open>One operation at a time\<close>

lemma stream_simps [simp]:
  "stream [] = []" "stream (d # q) = record_bytes d @ stream q" "stream (q @ q') = stream q @ stream q'"
  by (simp_all add: stream_def)

lemma length_record [simp, tp_layout]: "length (record_bytes d) = 4 + length d"
  by (simp add: record_bytes_def)

lemma holds_at_append:
  "holds_at r t (xs @ ys) \<longleftrightarrow> holds_at r t xs \<and> holds_at r (t + length xs) ys"
proof -
  have split: "i < length (xs @ ys) \<Longrightarrow> i < length xs \<or> (\<exists>j < length ys. i = length xs + j)" for i
    by (metis add_diff_inverse_nat length_append nat_add_left_cancel_less)
  show ?thesis
  proof
    assume a: "holds_at r t (xs @ ys)"
    have "cell r (t + i) = xs ! i" if "i < length xs" for i
      using a that by (metis holds_at_def length_append nth_append trans_less_add1)
    moreover have "cell r (t + length xs + j) = ys ! j" if "j < length ys" for j
      using a that unfolding holds_at_def
      by (metis add.assoc length_append nat_add_left_cancel_less nth_append_length_plus)
    ultimately show "holds_at r t xs \<and> holds_at r (t + length xs) ys" by (simp add: holds_at_def)
  next
    assume a: "holds_at r t xs \<and> holds_at r (t + length xs) ys"
    show "holds_at r t (xs @ ys)" unfolding holds_at_def
    proof (intro allI impI)
      fix i assume "i < length (xs @ ys)"
      from split [OF this] a show "cell r (t + i) = (xs @ ys) ! i"
        by (auto simp: holds_at_def nth_append add.assoc)
    qed
  qed
qed

lemma holds_at_map: "holds_at r t bs \<Longrightarrow> n = length bs \<Longrightarrow> map (cell r) [t..<t + n] = bs"
  by (rule nth_equalityI) (auto simp: holds_at_def)

lemma holds_at_keep:
  "holds_at r t bs \<Longrightarrow> (\<And>i. i < length bs \<Longrightarrow> cell r' (t + i) = cell r (t + i)) \<Longrightarrow> holds_at r' t bs"
  by (simp add: holds_at_def)

lemma small_len:
  assumes "length d + 4 < 2 ^ 32"
  shows "unat (of_nat (length d) :: u32) = length d" and "unat (ucast (4 + of_nat (length d) :: u32) :: u64) = 4 + length d"
proof -
  show l: "unat (of_nat (length d) :: u32) = length d" using assms by (simp add: unat_of_nat)
  have "unat (4 + of_nat (length d) :: u32) = 4 + length d"
    using assms l by (simp add: unat_word_ariths)
  then show "unat (ucast (4 + of_nat (length d) :: u32) :: u64) = 4 + length d"
    using unat_ucast_up [where 'a = 32 and 'b = 64, of "4 + of_nat (length d)"] by simp
qed

lemma word_unat_of_nat: "(of_nat (unat w) :: 'a::len word) = w"
  by simp

lemma ring_rep_used:
  assumes "ring_rep k r t q"
  shows "unat (sr_head r - sr_tail r) = length (stream q)" and "unat (sr_capacity r) = 2 ^ k"
    and "sr_head r = sr_tail r \<longleftrightarrow> q = []"
proof -
  have k: "k < 64" "length (stream q) \<le> 2 ^ k" "sr_capacity r = 2 ^ k"
    using assms by (simp_all add: ring_rep_def ring_shape_def)
  have "(2 :: nat) ^ k < 2 ^ 64" using k(1) by (intro power_strict_increasing) auto
  then have "unat (of_nat (length (stream q)) :: u64) = length (stream q)"
    using k(2) by (simp add: unat_of_nat)
  then show u: "unat (sr_head r - sr_tail r) = length (stream q)"
    using assms by (simp add: ring_rep_def)
  show "unat (sr_capacity r) = 2 ^ k" using k(3) unat_exp64 [OF k(1)] by simp
  have "sr_head r = sr_tail r \<longleftrightarrow> unat (sr_head r - sr_tail r) = 0" by (simp add: unat_eq_0)
  then show "sr_head r = sr_tail r \<longleftrightarrow> q = []" using u by (cases q) auto
qed

lemma full_test:
  assumes "ring_rep k r t q" and "length d + 4 < 2 ^ 32"
  shows "(sr_head r - sr_tail r) + ucast (4 + of_nat (length d) :: u32) > sr_capacity r \<longleftrightarrow>
    \<not> length (stream q) + length d + 4 \<le> 2 ^ k"
proof -
  have k: "k < 64" "length (stream q) \<le> 2 ^ k" using assms(1) by (simp_all add: ring_rep_def ring_shape_def)
  have "(2 :: nat) ^ k \<le> 2 ^ 63" using k(1) by (intro power_increasing) auto
  moreover have "(2 :: nat) ^ 64 = 2 ^ 63 + 2 ^ 63" "(2 :: nat) ^ 32 \<le> 2 ^ 63" by simp_all
  ultimately have "length (stream q) + (4 + length d) < 2 ^ 64" using k(2) assms(2) by linarith
  then have "unat ((sr_head r - sr_tail r) + ucast (4 + of_nat (length d) :: u32)) = length (stream q) + (4 + length d)"
    using ring_rep_used(1) [OF assms(1)] small_len(2) [OF assms(2)] by (simp add: unat_word_ariths)
  then show ?thesis using ring_rep_used(2) [OF assms(1)] by (simp add: word_less_nat_alt not_le ac_simps)
qed

lemma ring_rep_frame [tp_frame, simp]:
  "ring_rep k (r\<lparr>sr_high_water := a\<rparr>) t q = ring_rep k r t q"
  "ring_rep k (r\<lparr>sr_dropped := b\<rparr>) t q = ring_rep k r t q"
  "holds_at (r\<lparr>sr_high_water := a\<rparr>) p bs = holds_at r p bs"
  "holds_at (r\<lparr>sr_dropped := b\<rparr>) p bs = holds_at r p bs"
  "holds_at (r\<lparr>sr_head := c\<rparr>) p bs = holds_at r p bs"
  "holds_at (r\<lparr>sr_tail := c\<rparr>) p bs = holds_at r p bs"
  by (simp_all add: ring_rep_def ring_shape_def holds_at_def cell_def)

text \<open>A write past the head that stays clear of the tail keeps the queue.\<close>

lemma write_past_head:
  assumes rep: "ring_rep k r t q" and pos: "p = t + length (stream q) + off"
    and room: "length (stream q) + off + unat n \<le> 2 ^ k" and len: "unat n \<le> length src"
  shows "\<exists>r'. ring_write (of_nat p) src n r = Some r' \<and> ring_rep k r' t q \<and> holds_at r' p (take (unat n) src) \<and>
    sr_head r' = sr_head r \<and> sr_tail r' = sr_tail r \<and> sr_capacity r' = sr_capacity r \<and>
    (\<forall>bs. holds_at r (t + length (stream q)) bs \<longrightarrow> length bs \<le> off \<longrightarrow> holds_at r' (t + length (stream q)) bs)"
proof -
  have sh: "ring_shape k r" using rep by (simp add: ring_rep_def)
  have "unat n \<le> 2 ^ k" using room by linarith
  from ring_write_law [OF sh this len, of p] obtain buf' where
    w: "ring_write (of_nat p) src n r = Some (r\<lparr>sr_buf := buf'\<rparr>)"
      "ring_shape k (r\<lparr>sr_buf := buf'\<rparr>)" "holds_at (r\<lparr>sr_buf := buf'\<rparr>) p (take (unat n) src)"
    and keep: "\<And>c. p + unat n \<le> c + 2 ^ k \<Longrightarrow> c < p \<Longrightarrow> cell (r\<lparr>sr_buf := buf'\<rparr>) c = cell r c"
    by blast
  have same: "cell (r\<lparr>sr_buf := buf'\<rparr>) c = cell r c" if "t \<le> c" "c < p" for c
    by (rule keep) (use that pos room in linarith)+
  have "holds_at r t (stream q)" using rep by (simp add: ring_rep_def)
  then have "holds_at (r\<lparr>sr_buf := buf'\<rparr>) t (stream q)"
    by (rule holds_at_keep) (rule same; use pos in linarith)
  then have "ring_rep k (r\<lparr>sr_buf := buf'\<rparr>) t q" using rep w(2) by (simp add: ring_rep_def)
  moreover have "holds_at (r\<lparr>sr_buf := buf'\<rparr>) (t + length (stream q)) bs"
    if "holds_at r (t + length (stream q)) bs" "length bs \<le> off" for bs
    by (rule holds_at_keep [OF that(1)]) (rule same; use pos that(2) in linarith)
  ultimately show ?thesis using w(1,3) by (intro exI [of _ "r\<lparr>sr_buf := buf'\<rparr>"]) simp
qed

lemma publish:
  assumes "ring_rep k r t q" and "holds_at r (t + length (stream q)) (record_bytes d)"
    and "length (stream q) + length d + 4 \<le> 2 ^ k" and "length d + 4 < 2 ^ 32"
  shows "ring_rep k (r\<lparr>sr_head := sr_head r + ucast (4 + of_nat (length d) :: u32)\<rparr>) t (q @ [d])"
proof -
  have "ucast (4 + of_nat (length d) :: u32) = (of_nat (4 + length d) :: u64)"
    using small_len(2) [OF assms(4)] by (metis word_unat_of_nat)
  then show ?thesis using assms by (simp add: ring_rep_def ring_shape_def holds_at_append add.assoc)
qed

lemma consume:
  assumes "ring_rep k r t (d # q)" and "length d + 4 < 2 ^ 32"
  shows "ring_rep k (r\<lparr>sr_tail := sr_tail r + 4 + ucast (of_nat (length d) :: u32)\<rparr>) (t + 4 + length d) q"
proof -
  have "unat (ucast (of_nat (length d) :: u32) :: u64) = length d"
    using small_len(1) [OF assms(2)] unat_ucast_up [where 'a = 32 and 'b = 64, of "of_nat (length d)"] by simp
  then have "ucast (of_nat (length d) :: u32) = (of_nat (length d) :: u64)"
    by (metis word_unat_of_nat)
  then show ?thesis using assms by (simp add: ring_rep_def ring_shape_def holds_at_append add.assoc)
qed

lemma read_record:
  assumes "ring_rep k r t (d # q)" and "length d + 4 < 2 ^ 32"
  shows "ring_read (sr_tail r) 4 r = Some (le32_bytes (of_nat (length d)))"
    and "ring_read (sr_tail r + 4) (of_nat (length d)) r = Some d"
proof -
  have sh: "ring_shape k r" and tail: "sr_tail r = of_nat t" and cap: "4 + length d + length (stream q) \<le> 2 ^ k"
    and h: "holds_at r t (le32_bytes (of_nat (length d)))" "holds_at r (t + 4) d"
    using assms(1) by (simp_all add: ring_rep_def holds_at_append record_bytes_def add.assoc)
  show "ring_read (sr_tail r) 4 r = Some (le32_bytes (of_nat (length d)))"
    using ring_read_law [OF sh, of 4 t] cap holds_at_map [OF h(1), of 4] tail by simp
  have "sr_tail r + 4 = of_nat (t + 4)" by (simp add: tail)
  then show "ring_read (sr_tail r + 4) (of_nat (length d)) r = Some d"
    using ring_read_law [OF sh, of "of_nat (length d)" "t + 4"] cap small_len(1) [OF assms(2)]
      holds_at_map [OF h(2), of "length d"] by simp
qed

lemma push_room:
  assumes rep: "ring_rep k r t q" and len: "length d + 4 < 2 ^ 32"
    and room: "length (stream q) + length d + 4 \<le> 2 ^ k"
  shows "\<exists>r'. push d (of_nat (length d)) r = Some (True, r') \<and> ring_rep k r' t (q @ [d])"
proof -
  let ?n = "of_nat (length d) :: u32" and ?used = "sr_head r - sr_tail r"
  have n: "unat ?n = length d" by (rule small_len(1) [OF len])
  define r0 where "r0 = (if ?used > sr_high_water r then r\<lparr>sr_high_water := ?used\<rparr> else r)"
  have rep0: "ring_rep k r0 t q" and hd0: "sr_head r0 = sr_head r" using rep by (auto simp: r0_def)
  have head: "sr_head r = of_nat (t + length (stream q))" using rep by (simp add: ring_rep_def)
  obtain r1 where w1: "ring_write (sr_head r) (le32_bytes ?n) 4 r0 = Some r1" and rep1: "ring_rep k r1 t q"
    and h1: "holds_at r1 (t + length (stream q)) (le32_bytes ?n)" and hd1: "sr_head r1 = sr_head r0"
    using write_past_head [OF rep0, of "t + length (stream q)" 0 4 "le32_bytes ?n"] room head by auto
  have head4: "sr_head r + 4 = of_nat (t + length (stream q) + 4)" by (simp add: head)
  obtain r2 where w2: "ring_write (sr_head r + 4) d ?n r1 = Some r2" and rep2: "ring_rep k r2 t q"
    and h2: "holds_at r2 (t + length (stream q) + 4) d" and hd2: "sr_head r2 = sr_head r1"
    and k2: "holds_at r2 (t + length (stream q)) (le32_bytes ?n)"
    using write_past_head [OF rep1, of "t + length (stream q) + 4" 4 ?n d] room h1 n by (auto simp: head4)
  have "holds_at r2 (t + length (stream q)) (record_bytes d)"
    using h2 k2 by (simp add: record_bytes_def holds_at_append)
  note pub = publish [OF rep2 this room len]
  have "push d ?n r = Some (True, r2\<lparr>sr_head := sr_head r + ucast (4 + ?n)\<rparr>)"
    using w1 w2 full_test [OF rep len] room by (simp add: push_def Let_def flip: r0_def)
  then show ?thesis using pub hd0 hd1 hd2 by auto
qed

lemma push_full:
  assumes "ring_rep k r t q" and "length d + 4 < 2 ^ 32" and "\<not> length (stream q) + length d + 4 \<le> 2 ^ k"
  shows "push d (of_nat (length d)) r = Some (False, r\<lparr>sr_dropped := sr_dropped r + 1\<rparr>)"
  using full_test [OF assms(1,2)] assms(3) by (simp add: push_def Let_def)

lemma pop_empty:
  assumes "ring_rep k r t []" shows "pop out_cap r = Some ([], r)"
  using ring_rep_used(3) [OF assms] by (simp add: pop_def Let_def)

lemma pop_front:
  assumes rep: "ring_rep k r t (d # q)" and ok: "record_ok out_cap d"
  shows "\<exists>r'. pop out_cap r = Some (d, r') \<and> ring_rep k r' (t + 4 + length d) q"
proof -
  have len: "length d + 4 < 2 ^ 32" using ok by (simp add: record_ok_def)
  note rd = read_record [OF rep len] and n = small_len(1) [OF len]
  have "le32 (le32_bytes (of_nat (length d))) = of_nat (length d)" using le32_roundtrip [of _ "[]"] by simp
  moreover have "(of_nat (length d) :: u32) \<noteq> 0" "\<not> of_nat (length d) > out_cap"
    using ok n by (auto simp: record_ok_def word_less_nat_alt)
  ultimately show ?thesis
    using rd consume [OF rep len] ring_rep_used(3) [OF rep] by (auto simp: pop_def Let_def)
qed

text \<open>The branch the code calls impossible: a record whose length is zero or over the caller's buffer.\<close>

lemma pop_bails:
  assumes rep: "ring_rep k r t (d # q)" and len: "length d + 4 < 2 ^ 32" and bad: "\<not> record_ok out_cap d"
  shows "\<exists>r'. pop out_cap r = Some ([], r') \<and> ring_rep k r' (t + length (stream (d # q))) []"
proof -
  note rd = read_record [OF rep len] and n = small_len(1) [OF len]
  have "le32 (le32_bytes (of_nat (length d))) = of_nat (length d)" using le32_roundtrip [of _ "[]"] by simp
  moreover have "(of_nat (length d) :: u32) = 0 \<or> of_nat (length d) > out_cap"
    using bad len n by (auto simp: record_ok_def word_less_nat_alt)
  moreover have "ring_rep k (r\<lparr>sr_tail := sr_head r\<rparr>) (t + length (stream (d # q))) []"
    using rep by (simp add: ring_rep_def ring_shape_def holds_at_def)
  ultimately show ?thesis
    using rd(1) ring_rep_used(3) [OF rep] by (auto simp: pop_def Let_def)
qed

section \<open>Interface: a bounded queue of records\<close>

datatype ring_op = Push_op bytes | Pop_op

datatype ring_out = Pushed bool | Popped bytes

definition ring_op_step :: "u32 \<Rightarrow> ring_op \<Rightarrow> SpscRing \<Rightarrow> (ring_out \<times> SpscRing) option" where
  "ring_op_step out_cap c r =
     (case c of Push_op d \<Rightarrow> map_option (\<lambda>(ok, r). (Pushed ok, r)) (push d (of_nat (length d)) r)
      | Pop_op \<Rightarrow> map_option (\<lambda>(out, r). (Popped out, r)) (pop out_cap r))"

abbreviation ring_run :: "u32 \<Rightarrow> ring_op list \<Rightarrow> SpscRing \<Rightarrow> (ring_out list \<times> SpscRing) option" where
  "ring_run out_cap \<equiv> run_steps (ring_op_step out_cap)"

text \<open>The specification: a list of records that may take up at most \<open>room\<close> bytes.\<close>

fun queue_step :: "nat \<Rightarrow> ring_op \<Rightarrow> bytes list \<Rightarrow> ring_out \<times> bytes list" where
  "queue_step room (Push_op d) q =
     (if length (stream q) + length d + 4 \<le> room then (Pushed True, q @ [d]) else (Pushed False, q))"
| "queue_step room Pop_op q = (case q of [] \<Rightarrow> (Popped [], []) | d # q \<Rightarrow> (Popped d, q))"

fun queue_run :: "nat \<Rightarrow> ring_op list \<Rightarrow> bytes list \<Rightarrow> ring_out list \<times> bytes list" where
  "queue_run room [] q = ([], q)"
| "queue_run room (c # cs) q =
     (case queue_step room c q of (x, q) \<Rightarrow> case queue_run room cs q of (xs, q) \<Rightarrow> (x # xs, q))"

locale record_queue =
  fixes rep :: "'r \<Rightarrow> bytes list \<Rightarrow> bool"
    and good :: "bytes \<Rightarrow> bool"
    and room :: "'r \<Rightarrow> nat"
    and step :: "ring_op \<Rightarrow> 'r \<Rightarrow> (ring_out \<times> 'r) option"
  assumes push_law: "rep r q \<Longrightarrow> good d \<Longrightarrow> list_all good q \<Longrightarrow>
      \<exists>r'. step (Push_op d) r = Some (fst (queue_step (room r) (Push_op d) q), r') \<and>
        rep r' (snd (queue_step (room r) (Push_op d) q)) \<and> room r' = room r"
    and pop_law: "rep r q \<Longrightarrow> list_all good q \<Longrightarrow>
      \<exists>r'. step Pop_op r = Some (fst (queue_step (room r) Pop_op q), r') \<and>
        rep r' (snd (queue_step (room r) Pop_op q)) \<and> room r' = room r"
begin

lemma step_refines:
  assumes "rep r q" and "list_all good q" and "\<And>d. c = Push_op d \<Longrightarrow> good d"
  shows "\<exists>r'. step c r = Some (fst (queue_step (room r) c q), r') \<and> rep r' (snd (queue_step (room r) c q)) \<and>
     room r' = room r \<and> list_all good (snd (queue_step (room r) c q))"
proof (cases c)
  case (Push_op d)
  have "list_all good (snd (queue_step (room r) (Push_op d) q))" using assms Push_op by simp
  then show ?thesis using push_law [OF assms(1) assms(3) [OF Push_op] assms(2)] Push_op by blast
next
  case Pop_op
  have "list_all good (snd (queue_step (room r) Pop_op q))" using assms(2) by (cases q) simp_all
  then show ?thesis using pop_law [OF assms(1,2)] Pop_op by blast
qed

lemma run_refines:
  assumes "rep r q" and "list_all good q" and "\<And>d. Push_op d \<in> set cs \<Longrightarrow> good d"
  shows "\<exists>r'. run_steps step cs r = Some (fst (queue_run (room r) cs q), r') \<and> rep r' (snd (queue_run (room r) cs q))"
  using assms
proof (induction cs arbitrary: r q)
  case (Cons c cs)
  obtain r1 where s: "step c r = Some (fst (queue_step (room r) c q), r1)"
    "rep r1 (snd (queue_step (room r) c q))" "room r1 = room r" "list_all good (snd (queue_step (room r) c q))"
    using step_refines [OF Cons.prems(1,2), of c] Cons.prems(3) by auto
  obtain r2 where "run_steps step cs r1 = Some (fst (queue_run (room r1) cs (snd (queue_step (room r) c q))), r2)"
    "rep r2 (snd (queue_run (room r1) cs (snd (queue_step (room r) c q))))"
    using Cons.IH [OF s(2,4)] Cons.prems(3) by auto
  then show ?case using s by (simp add: split_def)
qed simp

end

definition ring_holds :: "SpscRing \<Rightarrow> bytes list \<Rightarrow> bool" where
  "ring_holds r q \<longleftrightarrow> (\<exists>k t. ring_rep k r t q)"

lemma ring_push_law:
  assumes "ring_holds r q" and "record_ok out_cap d"
  shows "\<exists>r'. ring_op_step out_cap (Push_op d) r = Some (fst (queue_step (unat (sr_capacity r)) (Push_op d) q), r') \<and>
     ring_holds r' (snd (queue_step (unat (sr_capacity r)) (Push_op d) q)) \<and> unat (sr_capacity r') = unat (sr_capacity r)"
proof -
  obtain k t where rep: "ring_rep k r t q" using assms(1) by (auto simp: ring_holds_def)
  have len: "length d + 4 < 2 ^ 32" using assms(2) by (simp add: record_ok_def)
  have cap: "unat (sr_capacity r) = 2 ^ k" by (rule ring_rep_used(2) [OF rep])
  show ?thesis
  proof (cases "length (stream q) + length d + 4 \<le> 2 ^ k")
    case True
    obtain r' where p: "push d (of_nat (length d)) r = Some (True, r')" "ring_rep k r' t (q @ [d])"
      using push_room [OF rep len True] by blast
    then show ?thesis using True cap ring_rep_used(2) [OF p(2)]
      by (auto simp: ring_op_step_def ring_holds_def simp del: stream_simps)
  next
    case False
    then show ?thesis using push_full [OF rep len False] cap rep
      by (auto simp: ring_op_step_def ring_holds_def)
  qed
qed

lemma ring_pop_law:
  assumes "ring_holds r q" and "list_all (record_ok out_cap) q"
  shows "\<exists>r'. ring_op_step out_cap Pop_op r = Some (fst (queue_step (unat (sr_capacity r)) Pop_op q), r') \<and>
     ring_holds r' (snd (queue_step (unat (sr_capacity r)) Pop_op q)) \<and> unat (sr_capacity r') = unat (sr_capacity r)"
proof -
  obtain k t where rep: "ring_rep k r t q" using assms(1) by (auto simp: ring_holds_def)
  have cap: "unat (sr_capacity r) = 2 ^ k" by (rule ring_rep_used(2) [OF rep])
  show ?thesis
  proof (cases q)
    case Nil
    then show ?thesis using pop_empty [of k r t out_cap] rep assms(1) by (simp add: ring_op_step_def)
  next
    case (Cons d q')
    then obtain r' where p: "pop out_cap r = Some (d, r')" "ring_rep k r' (t + 4 + length d) q'"
      using pop_front [of k r t d q' out_cap] rep assms(2) by auto
    then show ?thesis using Cons cap ring_rep_used(2) [OF p(2)] by (auto simp: ring_op_step_def ring_holds_def)
  qed
qed

interpretation ring_fifo: record_queue ring_holds "record_ok out_cap" "\<lambda>r. unat (sr_capacity r)" "ring_op_step out_cap"
  for out_cap
  using ring_push_law ring_pop_law by unfold_locales auto

lemma new_ring:
  assumes "k < 64"
  shows "ring_rep k (SpscRing_new mem k) 0 []" and "unat (sr_capacity (SpscRing_new mem k)) = 2 ^ k"
proof -
  have "ring_shape k (SpscRing_new mem k)"
    using assms unat_exp64 [OF assms] by (simp add: ring_shape_def SpscRing_new_def mask_eq_exp_minus_1)
  then show rep: "ring_rep k (SpscRing_new mem k) 0 []"
    by (simp add: ring_rep_def holds_at_def) (simp add: SpscRing_new_def)
  show "unat (sr_capacity (SpscRing_new mem k)) = 2 ^ k" by (rule ring_rep_used(2) [OF rep])
qed

section \<open>Two threads\<close>

text \<open>
  The threads of the live path, one memory operation per turn. The producer loads the cursors and decides,
  copies the length, copies the payload, publishes the head; the consumer loads the cursors, copies
  the length and decides, copies the payload, publishes the tail. \<open>push\<close> is called with any record whose
  length a \<^verbatim>\<open>uint32_t\<close> can hold; the calls that returned are kept as an observation, with what they
  returned. A turn is \<^const>\<open>None\<close> when its copy leaves the buffer.
\<close>

datatype producer = P_idle | P_header bytes u64 | P_payload bytes u64 | P_publish bytes u64

datatype consumer = C_idle | C_header u64 u64 | C_payload u64 u32 | C_store bytes u64

record ring_sys =
  sys_ring :: SpscRing
  sys_p :: producer
  sys_c :: consumer
  sys_pushes :: "(bytes \<times> bool) list"
  sys_pops :: "bytes list"

definition ring_need :: "bytes \<Rightarrow> u64" where
  "ring_need d = ucast (4 + of_nat (length d) :: u32)"

text \<open>\<open>d\<close> is the record of the next \<open>push\<close>, which a producer in the middle of one does not look at.\<close>

definition producer_turn :: "bytes \<Rightarrow> ring_sys \<Rightarrow> ring_sys option" where
  "producer_turn d s =
     (let r = sys_ring s
      in case sys_p s of
        P_idle \<Rightarrow>
          let head = sr_head r; tail = sr_tail r; used = head - tail
          in Some (if used + ring_need d > sr_capacity r
                   then s\<lparr>sys_ring := r\<lparr>sr_dropped := sr_dropped r + 1\<rparr>, sys_pushes := sys_pushes s @ [(d, False)]\<rparr>
                   else s\<lparr>sys_ring := (if used > sr_high_water r then r\<lparr>sr_high_water := used\<rparr> else r), sys_p := P_header d head\<rparr>)
      | P_header d head \<Rightarrow>
          map_option (\<lambda>r. s\<lparr>sys_ring := r, sys_p := P_payload d head\<rparr>) (ring_write head (le32_bytes (of_nat (length d))) 4 r)
      | P_payload d head \<Rightarrow>
          map_option (\<lambda>r. s\<lparr>sys_ring := r, sys_p := P_publish d head\<rparr>) (ring_write (head + 4) d (of_nat (length d)) r)
      | P_publish d head \<Rightarrow>
          Some (s\<lparr>sys_ring := r\<lparr>sr_head := head + ring_need d\<rparr>, sys_p := P_idle, sys_pushes := sys_pushes s @ [(d, True)]\<rparr>))"

definition consumer_turn :: "u32 \<Rightarrow> ring_sys \<Rightarrow> ring_sys option" where
  "consumer_turn out_cap s =
     (let r = sys_ring s
      in case sys_c s of
        C_idle \<Rightarrow>
          let tail = sr_tail r; head = sr_head r
          in Some (if head = tail then s\<lparr>sys_pops := sys_pops s @ [[]]\<rparr> else s\<lparr>sys_c := C_header tail head\<rparr>)
      | C_header tail head \<Rightarrow>
          map_option (\<lambda>hdr. let len = le32 hdr
            in s\<lparr>sys_c := (if len = 0 \<or> len > out_cap then C_store [] head else C_payload tail len)\<rparr>) (ring_read tail 4 r)
      | C_payload tail len \<Rightarrow>
          map_option (\<lambda>out. s\<lparr>sys_c := C_store out (tail + 4 + ucast len)\<rparr>) (ring_read (tail + 4) len r)
      | C_store out tail \<Rightarrow>
          Some (s\<lparr>sys_ring := r\<lparr>sr_tail := tail\<rparr>, sys_c := C_idle, sys_pops := sys_pops s @ [out]\<rparr>))"

datatype ring_event = Producer bytes | Consumer

definition ring_turn :: "u32 \<Rightarrow> ring_event \<Rightarrow> ring_sys \<Rightarrow> ring_sys option" where
  "ring_turn out_cap e s = (case e of Producer d \<Rightarrow> producer_turn d s | Consumer \<Rightarrow> consumer_turn out_cap s)"

fun ring_sched :: "u32 \<Rightarrow> ring_event list \<Rightarrow> ring_sys \<Rightarrow> ring_sys option" where
  "ring_sched out_cap [] s = Some s"
| "ring_sched out_cap (e # es) s = Option.bind (ring_turn out_cap e s) (ring_sched out_cap es)"

definition sys_start :: "(nat \<Rightarrow> u8) \<Rightarrow> nat \<Rightarrow> ring_sys" where
  "sys_start mem k = \<lparr>sys_ring = SpscRing_new mem k, sys_p = P_idle, sys_c = C_idle, sys_pushes = [], sys_pops = []\<rparr>"

text \<open>The records \<open>push\<close> accepted and published, and those \<open>pop\<close> returned.\<close>

definition published :: "ring_sys \<Rightarrow> bytes list" where
  "published s = map fst (filter snd (sys_pushes s))"

definition delivered :: "ring_sys \<Rightarrow> bytes list" where
  "delivered s = filter (\<lambda>d. d \<noteq> []) (sys_pops s)"

text \<open>Without the other thread in between, the turns of a thread are the call.\<close>

lemma producer_alone:
  assumes "sys_p s = P_idle" and "push d (of_nat (length d)) (sys_ring s) = Some (ok, r)"
  shows "ring_sched out_cap (replicate (if ok then 4 else 1) (Producer d)) s =
    Some (s\<lparr>sys_ring := r, sys_pushes := sys_pushes s @ [(d, ok)]\<rparr>)"
  using assms
  by (auto simp: push_def Let_def ring_turn_def producer_turn_def ring_need_def numeral_eq_Suc split: if_splits option.splits)

lemma consumer_alone:
  assumes "sys_c s = C_idle" and "pop out_cap (sys_ring s) = Some (out, r)"
  shows "\<exists>n \<le> 4. ring_sched out_cap (replicate n Consumer) s = Some (s\<lparr>sys_ring := r, sys_pops := sys_pops s @ [out]\<rparr>)"
proof -
  consider (empty) "sr_head (sys_ring s) = sr_tail (sys_ring s)"
    | (bail) hdr where "sr_head (sys_ring s) \<noteq> sr_tail (sys_ring s)" "ring_read (sr_tail (sys_ring s)) 4 (sys_ring s) = Some hdr"
        "le32 hdr = 0 \<or> le32 hdr > out_cap"
    | (whole) hdr where "sr_head (sys_ring s) \<noteq> sr_tail (sys_ring s)" "ring_read (sr_tail (sys_ring s)) 4 (sys_ring s) = Some hdr"
        "\<not> (le32 hdr = 0 \<or> le32 hdr > out_cap)"
    using assms(2) by (fastforce simp: pop_def Let_def split: if_splits option.splits)
  then show ?thesis
  proof cases
    case empty
    then show ?thesis using assms by (intro exI [of _ 1]) (auto simp: pop_def ring_turn_def consumer_turn_def)
  next
    case bail
    then show ?thesis using assms
      by (intro exI [of _ 3]) (auto simp: pop_def Let_def ring_turn_def consumer_turn_def numeral_eq_Suc)
  next
    case whole
    then show ?thesis using assms
      by (intro exI [of _ 4]) (auto simp: pop_def Let_def ring_turn_def consumer_turn_def numeral_eq_Suc split: option.splits)
  qed
qed

section \<open>What holds between the turns\<close>

text \<open>
  The producer writes only past the published head, the consumer reads only before it. A consumer that gives
  up on a record skips everything up to the head it had loaded: \<open>q1\<close>.
\<close>

definition short :: "bytes \<Rightarrow> bool" where
  "short d \<longleftrightarrow> length d + 4 < 2 ^ 32"

definition producer_ok :: "nat \<Rightarrow> SpscRing \<Rightarrow> nat \<Rightarrow> bytes list \<Rightarrow> producer \<Rightarrow> bool" where
  "producer_ok k r t q p \<longleftrightarrow>
     (let fits = (\<lambda>d h. h = sr_head r \<and> short d \<and> length (stream q) + length d + 4 \<le> 2 ^ k);
          pos = t + length (stream q)
      in case p of P_idle \<Rightarrow> True
         | P_header d h \<Rightarrow> fits d h
         | P_payload d h \<Rightarrow> fits d h \<and> holds_at r pos (le32_bytes (of_nat (length d)))
         | P_publish d h \<Rightarrow> fits d h \<and> holds_at r pos (record_bytes d))"

definition ahead_of :: "SpscRing \<Rightarrow> bytes list \<Rightarrow> u64 \<Rightarrow> bool" where
  "ahead_of r q h \<longleftrightarrow> (\<exists>q1 q2. q = q1 @ q2 \<and> q1 \<noteq> [] \<and> h = sr_tail r + of_nat (length (stream q1)))"

definition consumer_ok :: "u32 \<Rightarrow> SpscRing \<Rightarrow> bytes list \<Rightarrow> consumer \<Rightarrow> bool" where
  "consumer_ok out_cap r q c \<longleftrightarrow>
     (case c of C_idle \<Rightarrow> True
      | C_header t h \<Rightarrow> t = sr_tail r \<and> ahead_of r q h
      | C_payload t n \<Rightarrow> t = sr_tail r \<and> q \<noteq> [] \<and> n = of_nat (length (hd q)) \<and> record_ok out_cap (hd q)
      | C_store out t \<Rightarrow> if out = [] then ahead_of r q t \<and> \<not> record_ok out_cap (hd q)
          else q \<noteq> [] \<and> out = hd q \<and> t = sr_tail r + of_nat (length (record_bytes (hd q))))"

definition sys_rep :: "u32 \<Rightarrow> ring_sys \<Rightarrow> nat \<Rightarrow> nat \<Rightarrow> bytes list \<Rightarrow> bytes list \<Rightarrow> bool" where
  "sys_rep out_cap s k t past q \<longleftrightarrow> ring_rep k (sys_ring s) t q \<and> list_all short q \<and> published s = past @ q
     \<and> subseq (delivered s) past \<and> (list_all (record_ok out_cap) (published s) \<longrightarrow> delivered s = past)
     \<and> producer_ok k (sys_ring s) t q (sys_p s) \<and> consumer_ok out_cap (sys_ring s) q (sys_c s)"

lemma sys_parts:
  assumes "sys_rep out_cap s k t past q"
  shows "ring_rep k (sys_ring s) t q" and "list_all short q" and "published s = past @ q" and "subseq (delivered s) past"
    and "list_all (record_ok out_cap) (published s) \<Longrightarrow> delivered s = past"
    and "producer_ok k (sys_ring s) t q (sys_p s)" and "consumer_ok out_cap (sys_ring s) q (sys_c s)"
  using assms by (simp_all add: sys_rep_def)

lemma short_len: "short d \<Longrightarrow> length d + 4 < 2 ^ 32"
  by (simp add: short_def)

lemma record_ok_bounds:
  assumes "short d"
  shows "(of_nat (length d) = (0 :: u32) \<or> of_nat (length d) > out_cap) \<longleftrightarrow> \<not> record_ok out_cap d"
  using assms small_len(1) [OF short_len [OF assms]] by (auto simp: record_ok_def short_def word_less_nat_alt simp flip: unat_eq_0)

text \<open>Either thread leaves what the other one relies on.\<close>

lemma consumer_ok_keeps:
  "consumer_ok out_cap r q c \<Longrightarrow> sr_tail r' = sr_tail r \<Longrightarrow> consumer_ok out_cap r' q c"
  by (auto simp: consumer_ok_def ahead_of_def split: consumer.splits)

lemma consumer_ok_grows: "consumer_ok out_cap r q c \<Longrightarrow> consumer_ok out_cap r (q @ [d]) c"
proof -
  have "ahead_of r q h \<Longrightarrow> ahead_of r (q @ [d]) h" for h unfolding ahead_of_def by (metis append_assoc)
  moreover have "ahead_of r q h \<Longrightarrow> q \<noteq> []" for h by (auto simp: ahead_of_def)
  ultimately show "consumer_ok out_cap r q c \<Longrightarrow> consumer_ok out_cap r (q @ [d]) c"
    by (fastforce simp: consumer_ok_def split: consumer.splits if_splits)
qed

lemma producer_ok_shrinks:
  "producer_ok k r t (q1 @ q2) p \<Longrightarrow> producer_ok k (r\<lparr>sr_tail := x\<rparr>) (t + length (stream q1)) q2 p"
  by (auto simp: producer_ok_def Let_def add.assoc split: producer.splits)

lemma consume_many:
  "ring_rep k r t (q1 @ q2) \<Longrightarrow> ring_rep k (r\<lparr>sr_tail := sr_tail r + of_nat (length (stream q1))\<rparr>) (t + length (stream q1)) q2"
  by (simp add: ring_rep_def ring_shape_def holds_at_append add.assoc)

text \<open>The producer's writes, as steps over a queue the consumer may be reading.\<close>

lemma header_step:
  assumes rep: "ring_rep k r t q" and room: "length (stream q) + length d + 4 \<le> 2 ^ k"
  shows "\<exists>r'. ring_write (sr_head r) (le32_bytes (of_nat (length d))) 4 r = Some r' \<and> ring_rep k r' t q \<and>
     holds_at r' (t + length (stream q)) (le32_bytes (of_nat (length d))) \<and> sr_head r' = sr_head r \<and> sr_tail r' = sr_tail r"
proof -
  have "sr_head r = of_nat (t + length (stream q))" using rep by (simp add: ring_rep_def)
  then show ?thesis
    using write_past_head [OF rep, of "t + length (stream q)" 0 4 "le32_bytes (of_nat (length d))"] room by auto
qed

lemma payload_step:
  assumes rep: "ring_rep k r t q" and ok: "short d" "length (stream q) + length d + 4 \<le> 2 ^ k"
    and h: "holds_at r (t + length (stream q)) (le32_bytes (of_nat (length d)))"
  shows "\<exists>r'. ring_write (sr_head r + 4) d (of_nat (length d)) r = Some r' \<and> ring_rep k r' t q \<and>
     holds_at r' (t + length (stream q)) (record_bytes d) \<and> sr_head r' = sr_head r \<and> sr_tail r' = sr_tail r"
proof -
  have head: "sr_head r + 4 = of_nat (t + length (stream q) + 4)" using rep by (simp add: ring_rep_def)
  note n = small_len(1) [OF short_len [OF ok(1)]]
  obtain r' where "ring_write (of_nat (t + length (stream q) + 4)) d (of_nat (length d)) r = Some r'"
    "ring_rep k r' t q" "holds_at r' (t + length (stream q) + 4) d"
    "sr_head r' = sr_head r" "sr_tail r' = sr_tail r"
    "holds_at r' (t + length (stream q)) (le32_bytes (of_nat (length d)))"
    using write_past_head [OF rep, of "t + length (stream q) + 4" 4 "of_nat (length d)" d] ok(2) h n by auto
  then show ?thesis unfolding head by (auto simp: record_bytes_def holds_at_append)
qed

lemma producer_turn_keeps:
  assumes inv: "sys_rep out_cap s k t past q" and "short d"
  shows "\<exists>s' q'. producer_turn d s = Some s' \<and> sys_rep out_cap s' k t past q'"
proof (cases "sys_p s")
  case P_idle
  have "sr_head (sys_ring s) - sr_tail (sys_ring s) + ring_need d > sr_capacity (sys_ring s) \<longleftrightarrow> \<not> length (stream q) + length d + 4 \<le> 2 ^ k"
    using full_test [OF sys_parts(1) [OF inv] short_len [OF assms(2)]] by (simp add: ring_need_def)
  then show ?thesis using inv P_idle assms(2)
    by (intro exI conjI, unfold producer_turn_def Let_def, simp)
      (auto simp: sys_rep_def producer_ok_def published_def delivered_def Let_def intro: consumer_ok_keeps)
next
  case (P_header d h)
  have f: "h = sr_head (sys_ring s)" "short d" "length (stream q) + length d + 4 \<le> 2 ^ k"
    using sys_parts(6) [OF inv] P_header by (simp_all add: producer_ok_def)
  show ?thesis using header_step [OF sys_parts(1) [OF inv] f(3)] inv f P_header
    by (auto simp: producer_turn_def Let_def sys_rep_def producer_ok_def published_def delivered_def intro: consumer_ok_keeps)
next
  case (P_payload d h)
  have f: "h = sr_head (sys_ring s)" "short d" "length (stream q) + length d + 4 \<le> 2 ^ k"
    "holds_at (sys_ring s) (t + length (stream q)) (le32_bytes (of_nat (length d)))"
    using sys_parts(6) [OF inv] P_payload by (simp_all add: producer_ok_def)
  show ?thesis using payload_step [OF sys_parts(1) [OF inv] f(2-4)] inv f P_payload
    by (auto simp: producer_turn_def Let_def sys_rep_def producer_ok_def published_def delivered_def intro: consumer_ok_keeps)
next
  case (P_publish d h)
  have f: "h = sr_head (sys_ring s)" "short d" "length (stream q) + length d + 4 \<le> 2 ^ k"
    "holds_at (sys_ring s) (t + length (stream q)) (record_bytes d)"
    using sys_parts(6) [OF inv] P_publish by (simp_all add: producer_ok_def)
  define s' where "s' = s\<lparr>sys_ring := (sys_ring s)\<lparr>sr_head := h + ring_need d\<rparr>, sys_p := P_idle, sys_pushes := sys_pushes s @ [(d, True)]\<rparr>"
  have "published s' = published s @ [d]" "delivered s' = delivered s" by (simp_all add: s'_def published_def delivered_def)
  moreover have "ring_rep k (sys_ring s') t (q @ [d])"
    using publish [OF sys_parts(1) [OF inv] f(4,3) short_len [OF f(2)]] by (simp add: s'_def f(1) ring_need_def)
  moreover have "consumer_ok out_cap (sys_ring s') (q @ [d]) (sys_c s')"
    by (rule consumer_ok_keeps [of _ "sys_ring s"]) (simp_all add: s'_def consumer_ok_grows [OF sys_parts(7) [OF inv]])
  ultimately have "sys_rep out_cap s' k t past (q @ [d])"
    using inv f(2) by (simp add: sys_rep_def) (simp add: s'_def producer_ok_def)
  then show ?thesis using P_publish by (auto simp: producer_turn_def s'_def)
qed

lemma sys_rep_consumer:
  "sys_rep out_cap s k t past q \<Longrightarrow> consumer_ok out_cap (sys_ring s) q c \<Longrightarrow> sys_rep out_cap (s\<lparr>sys_c := c\<rparr>) k t past q"
  by (simp add: sys_rep_def published_def delivered_def)

lemma consumer_turn_keeps:
  assumes inv: "sys_rep out_cap s k t past q"
  shows "\<exists>s' t' past' q'. consumer_turn out_cap s = Some s' \<and> sys_rep out_cap s' k t' past' q'"
proof (cases "sys_c s")
  case C_idle
  show ?thesis
  proof (cases "q = []")
    case True
    then have "consumer_turn out_cap s = Some (s\<lparr>sys_pops := sys_pops s @ [[]]\<rparr>)"
      using ring_rep_used(3) [OF sys_parts(1) [OF inv]] C_idle by (simp add: consumer_turn_def)
    then show ?thesis using inv by (auto simp: sys_rep_def published_def delivered_def)
  next
    case False
    have "sr_head (sys_ring s) = sr_tail (sys_ring s) + of_nat (length (stream q))"
      using sys_parts(1) [OF inv] by (simp add: ring_rep_def)
    then have "ahead_of (sys_ring s) q (sr_head (sys_ring s))" using False by (force simp: ahead_of_def)
    then have "consumer_ok out_cap (sys_ring s) q (C_header (sr_tail (sys_ring s)) (sr_head (sys_ring s)))"
      by (simp add: consumer_ok_def)
    moreover have "consumer_turn out_cap s = Some (s\<lparr>sys_c := C_header (sr_tail (sys_ring s)) (sr_head (sys_ring s))\<rparr>)"
      using False ring_rep_used(3) [OF sys_parts(1) [OF inv]] C_idle by (simp add: consumer_turn_def Let_def)
    ultimately show ?thesis using sys_rep_consumer [OF inv] by blast
  qed
next
  case (C_header tail head)
  then have c: "tail = sr_tail (sys_ring s)" "ahead_of (sys_ring s) q head"
    using sys_parts(7) [OF inv] by (simp_all add: consumer_ok_def)
  then obtain d q' where q: "q = d # q'" unfolding ahead_of_def by (metis append_Cons list.exhaust)
  have d: "short d" using sys_parts(2) [OF inv] q by simp
  note rd = read_record [OF sys_parts(1) [OF inv, unfolded q] short_len [OF d]]
  have "le32 (le32_bytes (of_nat (length d))) = of_nat (length d)" using le32_roundtrip [of _ "[]"] by simp
  then have "consumer_turn out_cap s = Some (s\<lparr>sys_c := (if record_ok out_cap d then C_payload tail (of_nat (length d)) else C_store [] head)\<rparr>)"
    using C_header rd(1) c(1) record_ok_bounds [OF d] by (simp add: consumer_turn_def Let_def)
  moreover have "consumer_ok out_cap (sys_ring s) q (if record_ok out_cap d then C_payload tail (of_nat (length d)) else C_store [] head)"
    using c q by (simp add: consumer_ok_def)
  ultimately show ?thesis using sys_rep_consumer [OF inv] by blast
next
  case (C_payload tail n)
  then have c: "tail = sr_tail (sys_ring s)" "q \<noteq> []" "n = of_nat (length (hd q))" "record_ok out_cap (hd q)"
    using sys_parts(7) [OF inv] by (simp_all add: consumer_ok_def)
  then obtain d q' where q: "q = d # q'" by (cases q) auto
  have d: "short d" "d \<noteq> []" using sys_parts(2) [OF inv] c(4) q by (auto simp: record_ok_def)
  note rd = read_record [OF sys_parts(1) [OF inv, unfolded q] short_len [OF d(1)]]
  have "unat (ucast (of_nat (length d) :: u32) :: u64) = length d"
    using small_len(1) [OF short_len [OF d(1)]] unat_ucast_up [where 'a = 32 and 'b = 64, of "of_nat (length d)"] by simp
  then have "ucast (of_nat (length d) :: u32) = (of_nat (length d) :: u64)" by (metis word_unat_of_nat)
  then have "consumer_turn out_cap s = Some (s\<lparr>sys_c := C_store d (sr_tail (sys_ring s) + of_nat (length (record_bytes d)))\<rparr>)"
    using C_payload rd(2) c(1,3) q by (simp add: consumer_turn_def Let_def add.assoc)
  moreover have "consumer_ok out_cap (sys_ring s) q (C_store d (sr_tail (sys_ring s) + of_nat (length (record_bytes d))))"
    using q d(2) by (simp add: consumer_ok_def)
  ultimately show ?thesis using sys_rep_consumer [OF inv] by blast
next
  case (C_store out tail)
  define s' where "s' = s\<lparr>sys_ring := (sys_ring s)\<lparr>sr_tail := tail\<rparr>, sys_c := C_idle, sys_pops := sys_pops s @ [out]\<rparr>"
  have c: "if out = [] then ahead_of (sys_ring s) q tail \<and> \<not> record_ok out_cap (hd q)
      else q \<noteq> [] \<and> out = hd q \<and> tail = sr_tail (sys_ring s) + of_nat (length (record_bytes (hd q)))"
    using sys_parts(7) [OF inv] C_store by (simp add: consumer_ok_def)
  obtain q1 q2 where q: "q = q1 @ q2" "q1 \<noteq> []" "tail = sr_tail (sys_ring s) + of_nat (length (stream q1))"
    and out: "if out = [] then \<not> record_ok out_cap (hd q1) else q1 = [out]"
  proof (cases "out = []")
    case True
    then show ?thesis using c that by (auto simp: ahead_of_def)
  next
    case False
    then show ?thesis using c that [of "[hd q]" "tl q"] by simp
  qed
  have pubs: "published s' = past @ q1 @ q2" "delivered s' = delivered s @ (if out = [] then [] else [out])"
    using sys_parts(3) [OF inv] q(1) by (simp_all add: s'_def published_def delivered_def)
  have "subseq (delivered s') (past @ q1)"
    using sys_parts(4) [OF inv] out by (auto simp: pubs(2) intro: list_emb_append_mono [where ys = past] list_emb_append2 split: if_splits)
  moreover have "delivered s' = past @ q1" if "list_all (record_ok out_cap) (published s')"
  proof -
    have "record_ok out_cap (hd q1)" using that q(2) by (cases q1) (simp_all add: pubs(1))
    then show ?thesis using that out sys_parts(5) [OF inv] q(1) sys_parts(3) [OF inv] by (simp add: pubs split: if_splits)
  qed
  moreover have "ring_rep k (sys_ring s') (t + length (stream q1)) q2"
    using consume_many [of k "sys_ring s" t q1 q2] sys_parts(1) [OF inv] q by (simp add: s'_def)
  moreover have "producer_ok k (sys_ring s') (t + length (stream q1)) q2 (sys_p s')"
    using producer_ok_shrinks [of k "sys_ring s" t q1 q2 "sys_p s" tail] sys_parts(6) [OF inv] q(1) by (simp add: s'_def)
  ultimately have "sys_rep out_cap s' k (t + length (stream q1)) (past @ q1) q2"
    using sys_parts(2) [OF inv] q(1) by (simp add: sys_rep_def pubs) (simp add: s'_def consumer_ok_def)
  then show ?thesis using C_store by (auto simp: consumer_turn_def s'_def)
qed

section \<open>Every interleaving\<close>

definition short_event :: "ring_event \<Rightarrow> bool" where
  "short_event e = (case e of Producer d \<Rightarrow> short d | Consumer \<Rightarrow> True)"

lemma ring_sched_append: "ring_sched out_cap (es @ fs) s = Option.bind (ring_sched out_cap es s) (ring_sched out_cap fs)"
  by (induction es arbitrary: s) (simp_all split: bind_splits)

lemma ring_turn_keeps:
  assumes "sys_rep out_cap s k t past q" and "short_event e"
  shows "\<exists>s' t' past' q'. ring_turn out_cap e s = Some s' \<and> sys_rep out_cap s' k t' past' q'"
  using assms producer_turn_keeps consumer_turn_keeps by (fastforce simp: ring_turn_def short_event_def split: ring_event.splits)

lemma ring_sched_keeps:
  "sys_rep out_cap s k t past q \<Longrightarrow> list_all short_event es \<Longrightarrow>
     \<exists>s' t' past' q'. ring_sched out_cap es s = Some s' \<and> sys_rep out_cap s' k t' past' q'"
proof (induction es arbitrary: s t past q)
  case (Cons e es)
  then obtain s' t' past' q' where "ring_turn out_cap e s = Some s'" "sys_rep out_cap s' k t' past' q'"
    using ring_turn_keeps [of out_cap s k t past q e] by auto
  then show ?case using Cons.IH Cons.prems(2) by simp
qed auto

lemma sys_start_rep: "k < 64 \<Longrightarrow> sys_rep out_cap (sys_start mem k) k 0 [] []"
  using new_ring(1) [of k mem] by (simp add: sys_rep_def sys_start_def producer_ok_def consumer_ok_def published_def delivered_def)

text \<open>How many turns of its current call a thread has had; every turn is one more, or ends a call of at most four.\<close>

fun producer_spent :: "producer \<Rightarrow> nat" where
  "producer_spent P_idle = 0"
| "producer_spent (P_header _ _) = 1"
| "producer_spent (P_payload _ _) = 2"
| "producer_spent (P_publish _ _) = 3"

fun consumer_spent :: "consumer \<Rightarrow> nat" where
  "consumer_spent C_idle = 0"
| "consumer_spent (C_header _ _) = 1"
| "consumer_spent (C_payload _ _) = 2"
| "consumer_spent (C_store _ _) = 3"

definition producer_work :: "ring_sys \<Rightarrow> nat" where
  "producer_work s = 4 * length (sys_pushes s) + producer_spent (sys_p s)"

definition consumer_work :: "ring_sys \<Rightarrow> nat" where
  "consumer_work s = 4 * length (sys_pops s) + consumer_spent (sys_c s)"

definition turns_of :: "bool \<Rightarrow> ring_event list \<Rightarrow> nat" where
  "turns_of producer es = length (filter (\<lambda>e. (e \<noteq> Consumer) = producer) es)"

lemma producer_turn_works: "producer_turn d s = Some s' \<Longrightarrow> producer_work s < producer_work s' \<and> consumer_work s' = consumer_work s"
  by (auto simp: producer_turn_def producer_work_def consumer_work_def Let_def split: producer.splits if_splits)

lemma consumer_turn_works: "consumer_turn out_cap s = Some s' \<Longrightarrow> consumer_work s < consumer_work s' \<and> producer_work s' = producer_work s"
  by (auto simp: consumer_turn_def producer_work_def consumer_work_def Let_def split: consumer.splits if_splits)

lemma ring_sched_works:
  "ring_sched out_cap es s = Some s' \<Longrightarrow>
     producer_work s + turns_of True es \<le> producer_work s' \<and> consumer_work s + turns_of False es \<le> consumer_work s'"
proof (induction es arbitrary: s)
  case (Cons e es)
  then obtain s1 where s1: "ring_turn out_cap e s = Some s1" "ring_sched out_cap es s1 = Some s'"
    by (auto split: bind_splits)
  show ?case
    using Cons.IH [OF s1(2)] s1(1) producer_turn_works consumer_turn_works
    by (cases e) (fastforce simp: ring_turn_def turns_of_def)+
qed (simp add: turns_of_def)

lemma calls_of_work:
  "4 * length (sys_pushes s) \<le> producer_work s" "producer_work s \<le> 4 * length (sys_pushes s) + 3"
  "4 * length (sys_pops s) \<le> consumer_work s" "consumer_work s \<le> 4 * length (sys_pops s) + 3"
proof -
  have "producer_spent p \<le> 3" for p by (cases p) simp_all
  moreover have "consumer_spent c \<le> 3" for c by (cases c) simp_all
  ultimately show "4 * length (sys_pushes s) \<le> producer_work s" "producer_work s \<le> 4 * length (sys_pushes s) + 3"
    "4 * length (sys_pops s) \<le> consumer_work s" "consumer_work s \<le> 4 * length (sys_pops s) + 3"
    by (simp_all add: producer_work_def consumer_work_def)
qed

section \<open>Properties\<close>

text \<open>
  The ring is a bounded FIFO. Whatever sequence of pushes and pops is made on a new ring of
  \<^verbatim>\<open>1 << k\<close> bytes, with records that are not empty and fit the reader's buffer, every call
  returns and answers as a list of records would: a push is accepted exactly when its length
  prefix and payload still fit, a pop returns the oldest record whole, and the cursors may wrap.
\<close>

lemma ring_is_fifo:
  assumes "k < 64" and "\<And>d. Push_op d \<in> set cs \<Longrightarrow> record_ok out_cap d"
  shows "map_option fst (ring_run out_cap cs (SpscRing_new mem k)) = Some (fst (queue_run (2 ^ k) cs []))"
proof -
  have "ring_holds (SpscRing_new mem k) []" using new_ring(1) [OF assms(1)] by (auto simp: ring_holds_def)
  from ring_fifo.run_refines [OF this, of out_cap cs] show ?thesis
    using assms(2) new_ring(2) [OF assms(1), of mem] by auto
qed

text \<open>What a thread in no call gets of the next one, if the other thread leaves it alone.\<close>

lemma next_push:
  assumes "sys_rep out_cap s k t past q" and "sys_p s = P_idle" and "length d + 4 < 2 ^ 32"
  shows "\<exists>n \<le> 4. \<exists>s'. ring_sched out_cap (replicate n (Producer d)) s = Some s' \<and>
     sys_pushes s' = sys_pushes s @ [(d, length (stream q) + length d + 4 \<le> 2 ^ k)]"
proof -
  obtain r where "push d (of_nat (length d)) (sys_ring s) = Some (length (stream q) + length d + 4 \<le> 2 ^ k, r)"
    using push_room push_full sys_parts(1) [OF assms(1)] assms(3)
    by (cases "length (stream q) + length d + 4 \<le> 2 ^ k") fastforce+
  from producer_alone [OF assms(2) this, of out_cap] show ?thesis
    by (intro exI [of _ "if length (stream q) + length d + 4 \<le> 2 ^ k then 4 else 1"]) (auto split: if_splits)
qed

lemma next_pop:
  assumes "sys_rep out_cap s k t past q" and "sys_c s = C_idle" and "list_all (record_ok out_cap) q"
  shows "\<exists>n \<le> 4. \<exists>s'. ring_sched out_cap (replicate n Consumer) s = Some s' \<and>
     sys_pops s' = sys_pops s @ [case q of [] \<Rightarrow> [] | d # _ \<Rightarrow> d]"
proof -
  obtain r where "pop out_cap (sys_ring s) = Some (case q of [] \<Rightarrow> [] | d # _ \<Rightarrow> d, r)"
    using pop_empty pop_front sys_parts(1) [OF assms(1)] assms(3) by (cases q) fastforce+
  from consumer_alone [OF assms(2) this] show ?thesis by fastforce
qed

text \<open>
  C9. Concurrency of the ring on the live path: two threads on one ring, one memory operation per turn, in any
  interleaving, for any records shorter than what the 32-bit size of a record can count. No turn leaves the
  buffer. The records that came out are some of the records that were published, in order and byte for byte,
  and when every published record is one the reader takes (not empty, not larger than its buffer) they are a
  prefix of them, the rest being what is in the ring. A \<^verbatim>\<open>push\<close> that starts now is accepted, if the reader is
  still, exactly when its record fits next to that; a \<^verbatim>\<open>pop\<close> that starts now returns, if every record is one the
  reader takes, the first record of the ring, and nothing only from an empty one.
\<close>

theorem concurrent_ring_is_fifo:
  assumes "k < 64" and "\<And>d. Producer d \<in> set es \<Longrightarrow> length d + 4 < 2 ^ 32"
  shows "\<exists>s t q. ring_sched out_cap es (sys_start mem k) = Some s \<and> subseq (delivered s) (published s) \<and> ring_rep k (sys_ring s) t q
     \<and> (list_all (record_ok out_cap) (published s) \<longrightarrow> published s = delivered s @ q)
     \<and> (\<forall>d. sys_p s = P_idle \<and> length d + 4 < 2 ^ 32 \<longrightarrow> (\<exists>n \<le> 4. \<exists>s'. ring_sched out_cap (replicate n (Producer d)) s = Some s'
          \<and> sys_pushes s' = sys_pushes s @ [(d, length (stream q) + length d + 4 \<le> 2 ^ k)]))
     \<and> (sys_c s = C_idle \<and> list_all (record_ok out_cap) (published s) \<longrightarrow> (\<exists>n \<le> 4. \<exists>s'. ring_sched out_cap (replicate n Consumer) s = Some s'
          \<and> sys_pops s' = sys_pops s @ [case q of [] \<Rightarrow> [] | d # _ \<Rightarrow> d]))"
proof -
  have "list_all short_event es" using assms(2) by (auto simp: list_all_iff short_event_def short_def split: ring_event.split)
  then obtain s t past q where s: "ring_sched out_cap es (sys_start mem k) = Some s" "sys_rep out_cap s k t past q"
    using ring_sched_keeps [OF sys_start_rep [OF assms(1)]] by blast
  have "subseq (delivered s) (published s)"
    unfolding sys_parts(3) [OF s(2)] by (rule list_emb_prefix [OF sys_parts(4) [OF s(2)]])
  moreover have "list_all (record_ok out_cap) q" if "list_all (record_ok out_cap) (published s)"
    using that by (simp add: sys_parts(3) [OF s(2)])
  ultimately show ?thesis
    using s(1) sys_parts(1,3,5) [OF s(2)] next_push [OF s(2)] next_pop [OF s(2)] by (intro exI [of _ s] exI [of _ t] exI [of _ q]) simp
qed

text \<open>Two records published, one of them handed on, the consumer in the middle of the other one.\<close>

definition sample_events :: "ring_event list" where
  "sample_events = replicate 4 (Producer [1, 2, 3]) @ [Consumer, Producer [9], Consumer, Producer [9], Consumer, Producer [9],
     Consumer, Producer [9], Consumer]"

lemma sample_events_run:
  "map_option (\<lambda>s. (published s, delivered s, sys_c s)) (ring_sched 64 sample_events (sys_start (\<lambda>_. 0) 4)) =
     Some ([[1, 2, 3], [9]], [[1, 2, 3]], C_header 7 12)"
  by code_simp

lemma sample_events_short: "Producer d \<in> set sample_events \<Longrightarrow> length d + 4 < 2 ^ 32"
  by (auto simp: sample_events_def)

theorem concurrent_ring_is_fifo_witness:
  "\<exists>s. ring_sched 64 sample_events (sys_start (\<lambda>_. 0) 4) = Some s \<and> published s = [[1, 2, 3], [9]] \<and> delivered s = [[1, 2, 3]]
     \<and> (\<exists>t. ring_rep 4 (sys_ring s) t [[9]])"
  using concurrent_ring_is_fifo [of 4 sample_events 64 "\<lambda>_. 0"] sample_events_run sample_events_short
  by (force simp: record_ok_def)

text \<open>
  C36. Progress, of each thread by itself: from whatever point two threads have reached, and whatever the other
  one then does or leaves undone, every four turns of the producer complete a \<^verbatim>\<open>push\<close> and every four turns of the
  consumer complete a \<^verbatim>\<open>pop\<close>. Neither call waits for the other thread, on a full ring, on an empty one or on a
  record the reader gives up.
\<close>

theorem threads_never_stuck:
  assumes "k < 64" and "\<And>d. Producer d \<in> set (es @ fs) \<Longrightarrow> length d + 4 < 2 ^ 32"
  shows "\<exists>s s'. ring_sched out_cap es (sys_start mem k) = Some s \<and> ring_sched out_cap fs s = Some s'
     \<and> length (sys_pushes s') \<ge> length (sys_pushes s) + turns_of True fs div 4
     \<and> length (sys_pops s') \<ge> length (sys_pops s) + turns_of False fs div 4"
proof -
  have "list_all short_event (es @ fs)"
    using assms(2) by (auto simp: list_all_iff short_event_def short_def split: ring_event.split)
  then obtain s t past q where s: "ring_sched out_cap es (sys_start mem k) = Some s" "sys_rep out_cap s k t past q"
    using ring_sched_keeps [OF sys_start_rep [OF assms(1)], of es out_cap mem] by auto
  then obtain s' where s': "ring_sched out_cap fs s = Some s'"
    using ring_sched_keeps [OF s(2), of fs] \<open>list_all short_event (es @ fs)\<close> by auto
  have "length (sys_pushes s) + turns_of True fs div 4 \<le> length (sys_pushes s')"
    "length (sys_pops s) + turns_of False fs div 4 \<le> length (sys_pops s')"
    using ring_sched_works [OF s'] calls_of_work [of s] calls_of_work [of s'] by linarith+
  then show ?thesis using s(1) s' by blast
qed

text \<open>A full ring, then a producer that does nothing but try, and a consumer with four turns of its own.\<close>

lemma full_ring_run:
  "map_option sys_pushes (ring_sched 64 (replicate 8 (Producer [1, 2, 3, 4])) (sys_start (\<lambda>_. 0) 4)) =
     Some [([1, 2, 3, 4], True), ([1, 2, 3, 4], True)]"
  by code_simp

theorem threads_never_stuck_witness:
  "\<exists>s s'. ring_sched 64 (replicate 8 (Producer [1, 2, 3, 4])) (sys_start (\<lambda>_. 0) 4) = Some s \<and> length (sys_pushes s) = 2
     \<and> ring_sched 64 (replicate 4 (Producer [5]) @ replicate 4 Consumer) s = Some s'
     \<and> length (sys_pushes s') \<ge> 3 \<and> length (sys_pops s') \<ge> 1"
proof -
  have turns: "turns_of True (replicate 4 (Producer [5]) @ replicate 4 Consumer) = 4"
    "turns_of False (replicate 4 (Producer [5]) @ replicate 4 Consumer) = 4"
    by (simp_all add: turns_of_def)
  have short: "length d + 4 < 2 ^ 32"
    if "Producer d \<in> set (replicate 8 (Producer [1, 2, 3, 4]) @ replicate 4 (Producer [5]) @ replicate 4 Consumer)" for d
    using that by (auto simp: set_replicate_conv_if)
  obtain s s' where s: "ring_sched 64 (replicate 8 (Producer [1, 2, 3, 4])) (sys_start (\<lambda>_. 0) 4) = Some s"
    "ring_sched 64 (replicate 4 (Producer [5]) @ replicate 4 Consumer) s = Some s'"
    "length (sys_pushes s') \<ge> length (sys_pushes s) + 4 div 4" "length (sys_pops s') \<ge> length (sys_pops s) + 4 div 4"
    using threads_never_stuck [of 4 "replicate 8 (Producer [1, 2, 3, 4])" "replicate 4 (Producer [5]) @ replicate 4 Consumer" 64 "\<lambda>_. 0",
        OF _ short] unfolding turns by auto
  have "length (sys_pushes s) = 2" using full_ring_run s(1) by simp
  then show ?thesis using s by (intro exI [of _ s] exI [of _ s']) simp
qed

text \<open>
  The branch \<^verbatim>\<open>pop\<close> marks as impossible is not: an empty record, which \<^verbatim>\<open>push\<close> accepts, or one
  larger than the reader's buffer makes the next pop return 0 and throw away every record in
  the ring.
\<close>

lemma bad_record_discards_ring:
  assumes "ring_rep k r t (d # q)" and "d = [] \<or> length d > unat out_cap" and "length d + 4 < 2 ^ 32"
  shows "\<exists>r'. pop out_cap r = Some ([], r') \<and> ring_rep k r' (t + length (stream (d # q))) []"
  using pop_bails [OF assms(1,3)] assms(2) by (auto simp: record_ok_def)

end
