(* ===== verification/Udp_Receiver.thy ===== *)
theory Udp_Receiver
  imports Udp_Server Spsc_Ring "HOL-Library.Signed_Division"
begin

text \<open>
  \<^verbatim>\<open>UdpReceiver\<close> (\<^verbatim>\<open>include/udp_receiver.hpp\<close>, \<^verbatim>\<open>src/udp_receiver.cpp\<close>): its state, its socket, and what
  the two threads do with one datagram; the threads themselves are in \<^verbatim>\<open>Receive_Loop\<close>. A datagram that
  \<^verbatim>\<open>recv\<close> returned and the outcomes of \<^verbatim>\<open>socket\<close> and \<^verbatim>\<open>bind\<close> are arguments. Proved: a datagram of the
  wire format is unpacked into exactly its messages, and gaps are counted exactly when datagrams are
  lost.
\<close>

section \<open>State\<close>

record UdpReceiver =
  ur_sock :: int
  ur_packets_received :: u64
  ur_orders_parsed :: u64
  ur_messages_filtered :: u64
  ur_directory_messages :: u64
  ur_bytes_received :: u64
  ur_short_packets :: u64
  ur_gaps :: u64
  ur_messages_lost :: u64
  ur_out_of_order :: u64
  ur_expected_seq :: u64
  ur_ring_dropped :: u64
  ur_ring_high_water :: u64
  ur_process_ns :: u64
  ur_idle_ns :: u64
  ur_render_ns :: u64

definition UdpReceiver_new :: UdpReceiver where
  "UdpReceiver_new = \<lparr>ur_sock = INVALID, ur_packets_received = 0, ur_orders_parsed = 0, ur_messages_filtered = 0, ur_directory_messages = 0,
     ur_bytes_received = 0, ur_short_packets = 0, ur_gaps = 0, ur_messages_lost = 0, ur_out_of_order = 0,
     ur_expected_seq = 0, ur_ring_dropped = 0, ur_ring_high_water = 0,
     ur_process_ns = 0, ur_idle_ns = 0, ur_render_ns = 0\<rparr>"

definition MAX_PACKET_SIZE :: u32 where "MAX_PACKET_SIZE = 2048"

text \<open>The receiver with the locals of \<^verbatim>\<open>receive_loop\<close>: the ring, the parser and its order, the caller's context.\<close>

record 'c Receiver =
  rc_rx :: UdpReceiver
  rc_ring :: SpscRing
  rc_router :: Router
  rc_ctx :: 'c

definition Receiver_new :: "(nat \<Rightarrow> u8) \<Rightarrow> nat \<Rightarrow> SymbolDirectory option \<Rightarrow> 'c \<Rightarrow> 'c Receiver" where
  "Receiver_new mem ring_pow2 dir ctx =
     \<lparr>rc_rx = UdpReceiver_new, rc_ring = SpscRing_new mem ring_pow2,
      rc_router = \<lparr>rt_directory = dir, rt_counts = Counts_zero, rt_order = Order_zero\<rparr>, rc_ctx = ctx\<rparr>"

section \<open>The socket\<close>

text \<open>
  The open descriptors of the process are a set; \<^verbatim>\<open>socket\<close> returned \<open>fd\<close> and \<^verbatim>\<open>bind\<close> succeeded when
  \<open>bound\<close>. The timeout is stored as seconds and microseconds, both 0 for none.
\<close>

definition set_timeout :: "int \<Rightarrow> int \<times> int" where
  "set_timeout ms = (ms sdiv 1000, (ms smod 1000) * 1000)"

definition receiver_close :: "UdpReceiver \<times> int set \<Rightarrow> UdpReceiver \<times> int set" where
  "receiver_close = (\<lambda>(rx, fds).
     if ur_sock rx \<noteq> INVALID then (rx\<lparr>ur_sock := INVALID\<rparr>, fds - {ur_sock rx}) else (rx, fds))"

definition receiver_init :: "int \<Rightarrow> bool \<Rightarrow> UdpReceiver \<times> int set \<Rightarrow> bool \<times> UdpReceiver \<times> int set" where
  "receiver_init fd bound = (\<lambda>(rx, fds).
     let rx = rx\<lparr>ur_sock := fd\<rparr>
     in if fd = INVALID then (False, rx, fds)
        else let fds = insert fd fds
        in if \<not> bound then (False, receiver_close (rx, fds)) else (True, rx, fds))"

lemma set_timeout_exact:
  assumes "0 \<le> ms"
  shows "fst (set_timeout ms) * 1000000 + snd (set_timeout ms) = ms * 1000"
    and "0 \<le> snd (set_timeout ms)" and "snd (set_timeout ms) < 1000000"
proof -
  have eq: "set_timeout ms = (ms div 1000, (ms mod 1000) * 1000)"
    using assms by (cases "ms = 0") (simp_all add: set_timeout_def signed_divide_int_def signed_modulo_int_def)
  have "ms div 1000 * 1000 + ms mod 1000 = ms" by (rule div_mult_mod_eq)
  then show "fst (set_timeout ms) * 1000000 + snd (set_timeout ms) = ms * 1000" unfolding eq fst_conv snd_conv by linarith
  show "0 \<le> snd (set_timeout ms)" "snd (set_timeout ms) < 1000000" by (simp_all add: eq)
qed

text \<open>A session opens one socket and gives it back, whether \<^verbatim>\<open>init\<close> succeeds or not.\<close>

lemma socket_returned:
  assumes "fd \<notin> fds" and "ur_sock rx = INVALID"
  shows "snd (receiver_close (snd (receiver_init fd bound (rx, fds)))) = fds"
    and "\<not> fst (receiver_init fd bound (rx, fds)) \<Longrightarrow> snd (receiver_init fd bound (rx, fds)) = (rx, fds)"
  using assms by (cases rx; auto simp: receiver_init_def receiver_close_def Let_def split: if_splits)+

text \<open>A second \<^verbatim>\<open>init\<close> forgets the first socket, which no call closes any more.\<close>

lemma second_init_leaks:
  assumes "fd \<notin> fds" and "fd' \<notin> insert fd fds" and "fd \<noteq> INVALID" and "fd' \<noteq> INVALID"
  shows "snd (receiver_close (snd (receiver_init fd' True (snd (receiver_init fd True (rx, fds)))))) = insert fd fds"
  using assms by (auto simp: receiver_init_def receiver_close_def Let_def)

section \<open>The socket thread\<close>

text \<open>One datagram that \<^verbatim>\<open>recv\<close> returned; a full ring drops it, which the ring counts.\<close>

definition recv_datagram :: "bytes \<Rightarrow> 'c Receiver \<Rightarrow> 'c Receiver option" where
  "recv_datagram buf s =
     (let n = of_nat (length buf) :: u32; rx = rc_rx s;
          rx = rx\<lparr>ur_packets_received := ur_packets_received rx + 1, ur_bytes_received := ur_bytes_received rx + ucast n\<rparr>
      in map_option (\<lambda>(ok, ring). s\<lparr>rc_rx := rx, rc_ring := ring\<rparr>) (push buf n (rc_ring s)))"

section \<open>The book thread\<close>

fun count_received :: "routed \<Rightarrow> UdpReceiver \<Rightarrow> UdpReceiver" where
  "count_received To_directory rx = rx\<lparr>ur_directory_messages := ur_directory_messages rx + 1\<rparr>"
| "count_received Filtered rx = rx\<lparr>ur_messages_filtered := ur_messages_filtered rx + 1\<rparr>"
| "count_received (Parsed order) rx = rx\<lparr>ur_orders_parsed := ur_orders_parsed rx + 1\<rparr>"
| "count_received Skipped rx = rx"

definition receive_message :: "(Order \<Rightarrow> 'c \<Rightarrow> 'c) \<Rightarrow> bytes \<Rightarrow> u16 \<Rightarrow> 'c Receiver \<Rightarrow> 'c Receiver" where
  "receive_message callback msg msg_len s =
     (case route_message msg msg_len (rc_router s) of (out, r) \<Rightarrow>
        s\<lparr>rc_rx := count_received out (rc_rx s), rc_router := r, rc_ctx := call_back callback out (rc_ctx s)\<rparr>)"

definition short_packet :: "'c Receiver \<Rightarrow> 'c Receiver" where
  "short_packet s = s\<lparr>rc_rx := (rc_rx s)\<lparr>ur_short_packets := ur_short_packets (rc_rx s) + 1\<rparr>\<rparr>"

text \<open>The loop over the bodies: \<open>k\<close> messages are still announced, \<open>off\<close> is the read position.\<close>

fun receive_messages :: "(Order \<Rightarrow> 'c \<Rightarrow> 'c) \<Rightarrow> bytes \<Rightarrow> u32 \<Rightarrow> nat \<Rightarrow> u32 \<Rightarrow> 'c Receiver \<Rightarrow> 'c Receiver" where
  "receive_messages callback buf n 0 off s = s"
| "receive_messages callback buf n (Suc k) off s =
     (if off + 2 > n then short_packet s
      else let msg_len = be16 (drop (unat off) buf); off = off + 2
      in if msg_len = 0 \<or> off + ucast msg_len > n then short_packet s
         else receive_messages callback buf n k (off + ucast msg_len)
                (receive_message callback (drop (unat off) buf) msg_len s))"

definition track_sequence :: "u64 \<Rightarrow> u16 \<Rightarrow> UdpReceiver \<Rightarrow> UdpReceiver" where
  "track_sequence seq count rx =
     (let expected = ur_expected_seq rx;
          rx = (if expected = 0 then rx\<lparr>ur_expected_seq := seq\<rparr>
                else if seq > expected
                then rx\<lparr>ur_gaps := ur_gaps rx + 1, ur_messages_lost := ur_messages_lost rx + (seq - expected)\<rparr>
                else if seq < expected then rx\<lparr>ur_out_of_order := ur_out_of_order rx + 1\<rparr>
                else rx)
      in rx\<lparr>ur_expected_seq := seq + ucast count\<rparr>)"

definition receive_packet :: "(Order \<Rightarrow> 'c \<Rightarrow> 'c) \<Rightarrow> bytes \<Rightarrow> u32 \<Rightarrow> 'c Receiver \<Rightarrow> 'c Receiver" where
  "receive_packet callback buf n s =
     (if n < of_nat MOLD_HEADER then short_packet s
      else
        let seq = be64 (drop 10 buf); count = be16 (drop 18 buf);
            s = s\<lparr>rc_rx := track_sequence seq count (rc_rx s)\<rparr>
        in receive_messages callback buf n (unat count) (of_nat MOLD_HEADER) s)"

text \<open>After the loop the ring's counters are copied out.\<close>

definition finish_loop :: "'c Receiver \<Rightarrow> 'c Receiver" where
  "finish_loop s = s\<lparr>rc_rx := (rc_rx s)\<lparr>ur_ring_dropped := sr_dropped (rc_ring s), ur_ring_high_water := sr_high_water (rc_ring s)\<rparr>\<rparr>"

section \<open>Unpacking a datagram\<close>

abbreviation deliver :: "(Order \<Rightarrow> 'c \<Rightarrow> 'c) \<Rightarrow> bytes \<Rightarrow> 'c Receiver \<Rightarrow> 'c Receiver" where
  "deliver callback m s \<equiv> receive_message callback m (of_nat (length m)) s"

lemma receive_messages_frames:
  "list_all message_ok batch \<Longrightarrow> length pre + length (concat (map frame batch)) \<le> 65536 \<Longrightarrow>
   receive_messages callback (pre @ concat (map frame batch)) (of_nat (length pre + length (concat (map frame batch))))
     (length batch) (of_nat (length pre)) s = fold (deliver callback) batch s"
proof (induction batch arbitrary: pre s)
  case (Cons m batch)
  define N where "N = length pre + length (concat (map frame (m # batch)))"
  define rest where "rest = concat (map frame batch)"
  have m: "message_ok m" using Cons.prems(1) by simp
  have N: "N = length pre + 2 + length m + length rest" "N \<le> 65536" using Cons.prems(2) by (simp_all add: N_def rest_def length_frame)
  have len: "unat (of_nat (length m) :: u16) = length m" "(of_nat (length m) :: u16) \<noteq> 0"
    using unat_length [OF m] m by (auto simp: message_ok_def unat_eq_0)
  have wide: "(ucast (of_nat (length m) :: u16) :: u32) = of_nat (length m)"
    using len(1) N by (simp add: word_unat_eq_iff unat_ucast_up unat_of_nat)
  note be = be16_frame [OF m, of rest]
  have "deliver callback m s = receive_message callback (m @ rest) (of_nat (length m)) s"
    by (simp add: receive_message_def route_prefix [OF len(1) [symmetric]])
  moreover have "drop (length pre + 2) (pre @ frame m @ rest) = m @ rest" by (simp add: frame_def)
  moreover have "unat (of_nat (length pre) :: u32) = length pre" "unat (of_nat (length pre) + 2 :: u32) = length pre + 2"
    "unat (of_nat (length pre) + 2 + of_nat (length m) :: u32) = length pre + 2 + length m" "unat (of_nat N :: u32) = N"
    using N by (simp_all add: unat_word_ariths unat_of_nat)
  ultimately have "receive_messages callback (pre @ frame m @ rest) (of_nat N) (Suc (length batch)) (of_nat (length pre)) s =
      receive_messages callback (pre @ frame m @ rest) (of_nat N) (length batch) (of_nat (length (pre @ frame m)))
        (deliver callback m s)"
    using N(1) len(2) by (simp add: Let_def be wide word_less_nat_alt length_frame algebra_simps)
  then show ?case using Cons.IH [of "pre @ frame m" "deliver callback m s"] Cons.prems
    by (simp add: N_def rest_def length_frame add.assoc)
qed simp

lemma length_SESSION [simp, tp_layout]: "length SESSION = 10"
  by (simp add: SESSION_def)

lemma length_datagram: "length (datagram seq batch) = 20 + length (concat (map frame batch))"
  by (simp add: datagram_def)

lemma receive_packet_datagram:
  assumes "batch_ok batch"
  shows "receive_packet callback (datagram seq batch) (of_nat (length (datagram seq batch))) s =
    fold (deliver callback) batch (s\<lparr>rc_rx := track_sequence seq (of_nat (length batch)) (rc_rx s)\<rparr>)"
proof -
  define pre where "pre = SESSION @ be_bytes 8 seq @ be_bytes 2 (of_nat (length batch) :: u16)"
  define body where "body = concat (map frame batch)"
  have d: "datagram seq batch = pre @ body" by (simp add: datagram_def pre_def body_def)
  have body: "length body \<le> 1400" "list_all message_ok batch" using assms by (simp_all add: batch_ok_def MAX_PAYLOAD_def body_def)
  have pre: "length pre = 20" by (simp add: pre_def)
  have seq: "be64 (drop 10 (datagram seq batch)) = seq" by (simp add: datagram_def f64.dec_enc_append)
  have "drop 18 (datagram seq batch) = be_bytes 2 (of_nat (length batch) :: u16) @ body" by (simp add: datagram_def body_def)
  then have count: "be16 (drop 18 (datagram seq batch)) = of_nat (length batch)" by (simp add: f16.dec_enc_append)
  have "length batch \<le> 1400" using batch_length [OF body(2)] body(1) by (simp add: body_def)
  then have n: "unat (of_nat (length batch) :: u16) = length batch" by (simp add: unat_of_nat)
  have "\<not> of_nat (length (datagram seq batch)) < (of_nat MOLD_HEADER :: u32)"
  proof -
    have "unat (of_nat (20 + length body) :: u32) = 20 + length body" using body(1) by (simp add: unat_word_ariths unat_of_nat)
    then show ?thesis using body(1) by (simp add: d pre word_less_nat_alt MOLD_HEADER_def)
  qed
  then have "receive_packet callback (datagram seq batch) (of_nat (length (datagram seq batch))) s =
      receive_messages callback (datagram seq batch) (of_nat (length (datagram seq batch))) (length batch) (of_nat (length pre))
        (s\<lparr>rc_rx := track_sequence seq (of_nat (length batch)) (rc_rx s)\<rparr>)"
    by (simp only: receive_packet_def seq count n Let_def if_False) (simp add: MOLD_HEADER_def pre)
  then show ?thesis using receive_messages_frames [OF body(2), of pre] body(1) pre by (simp add: d body_def)
qed

section \<open>Delivered messages\<close>

definition same_sequence :: "UdpReceiver \<Rightarrow> UdpReceiver \<Rightarrow> bool" where
  "same_sequence rx rx' \<longleftrightarrow> ur_gaps rx' = ur_gaps rx \<and> ur_messages_lost rx' = ur_messages_lost rx \<and>
     ur_out_of_order rx' = ur_out_of_order rx \<and> ur_expected_seq rx' = ur_expected_seq rx \<and>
     ur_short_packets rx' = ur_short_packets rx"

lemma deliver_all:
  "fold (deliver callback) ms s = (case route_all ms (rc_router s) of (outs, r) \<Rightarrow>
     s\<lparr>rc_rx := fold count_received outs (rc_rx s), rc_router := r, rc_ctx := fold (call_back callback) outs (rc_ctx s)\<rparr>)"
proof (induction ms arbitrary: s)
  case (Cons m ms)
  obtain out r where 1: "route_message m (of_nat (length m)) (rc_router s) = (out, r)" by fastforce
  obtain outs r' where 2: "route_all ms r = (outs, r')" by fastforce
  have "deliver callback m s = s\<lparr>rc_rx := count_received out (rc_rx s), rc_router := r, rc_ctx := call_back callback out (rc_ctx s)\<rparr>"
    by (simp add: receive_message_def 1)
  then show ?case by (simp add: Cons.IH 1 2)
qed simp

lemma count_received_sequence: "same_sequence rx (fold count_received outs rx)"
proof (induction outs arbitrary: rx)
  case (Cons out outs)
  have "same_sequence rx (count_received out rx)" by (cases out) (simp_all add: same_sequence_def)
  then show ?case using Cons [of "count_received out rx"] by (simp add: same_sequence_def)
qed (simp add: same_sequence_def)

lemma deliver_frame:
  "rc_ring (fold (deliver callback) ms s) = rc_ring s"
  "same_sequence (rc_rx s) (rc_rx (fold (deliver callback) ms s))"
  using count_received_sequence by (simp_all add: deliver_all split: prod.split)

lemma route_all_append:
  "route_all (ms @ ns) r = (case route_all ms r of (outs, r) \<Rightarrow> case route_all ns r of (outs', r) \<Rightarrow> (outs @ outs', r))"
  by (induction ms arbitrary: r) (simp_all split: prod.split)

section \<open>Sequence tracking\<close>

text \<open>Numbered batches: each with the number of its first message.\<close>

fun numbered :: "nat \<Rightarrow> bytes list list \<Rightarrow> (nat \<times> bytes list) list" where
  "numbered seq [] = []"
| "numbered seq (batch # batches) = (seq, batch) # numbered (seq + length batch) batches"

definition packet_of :: "nat \<times> bytes list \<Rightarrow> bytes" where
  "packet_of x = datagram (of_nat (fst x)) (snd x)"

lemma stamped_numbered: "stamped seq batches = map packet_of (numbered seq batches)"
  by (induction batches arbitrary: seq) (simp_all add: packet_of_def)

text \<open>Datagrams in order, whose numbers never overlap and fit 64 bits.\<close>

fun in_order :: "nat \<Rightarrow> (nat \<times> bytes list) list \<Rightarrow> bool" where
  "in_order seq [] \<longleftrightarrow> True"
| "in_order seq ((first, batch) # ps) \<longleftrightarrow> seq \<le> first \<and> batch_ok batch \<and> first + length batch < 2 ^ 64 \<and> in_order (first + length batch) ps"

lemma in_order_mono: "in_order seq ps \<Longrightarrow> seq' \<le> seq \<Longrightarrow> in_order seq' ps"
  by (cases ps) auto

lemma numbered_in_order:
  "list_all batch_ok batches \<Longrightarrow> seq + length (concat batches) < 2 ^ 64 \<Longrightarrow> in_order seq (numbered seq batches)"
  by (induction batches arbitrary: seq) auto

lemma subseq_in_order: "subseq ps qs \<Longrightarrow> in_order seq qs \<Longrightarrow> in_order seq ps"
proof (induction arbitrary: seq rule: list_emb.induct)
  case (list_emb_Nil ys)
  then show ?case by simp
next
  case (list_emb_Cons xs ys y)
  obtain first batch where y: "y = (first, batch)" by (cases y)
  then have "in_order (first + length batch) xs" "seq \<le> first + length batch" using list_emb_Cons by auto
  then show ?case by (rule in_order_mono)
next
  case (list_emb_Cons2 x y xs ys)
  then show ?case by (cases y) auto
qed

fun jumps :: "nat \<Rightarrow> (nat \<times> bytes list) list \<Rightarrow> nat" where
  "jumps seq [] = 0"
| "jumps seq ((first, batch) # ps) = of_bool (seq < first) + jumps (first + length batch) ps"

fun end_of :: "nat \<Rightarrow> (nat \<times> bytes list) list \<Rightarrow> nat" where
  "end_of seq [] = seq"
| "end_of seq ((first, batch) # ps) = end_of (first + length batch) ps"

abbreviation receive_all :: "(Order \<Rightarrow> 'c \<Rightarrow> 'c) \<Rightarrow> bytes list \<Rightarrow> 'c Receiver \<Rightarrow> 'c Receiver" where
  "receive_all callback ds s \<equiv> fold (\<lambda>d. receive_packet callback d (of_nat (length d))) ds s"

definition tracked :: "nat \<Rightarrow> nat \<Rightarrow> nat \<Rightarrow> UdpReceiver \<Rightarrow> bool" where
  "tracked expected gaps lost rx \<longleftrightarrow> unat (ur_expected_seq rx) = expected \<and> unat (ur_gaps rx) = gaps \<and>
     unat (ur_messages_lost rx) = lost \<and> ur_out_of_order rx = 0 \<and> ur_short_packets rx = 0"

lemma tracked_same: "same_sequence rx rx' \<Longrightarrow> tracked e g l rx' = tracked e g l rx"
  by (simp add: same_sequence_def tracked_def)

lemma track_step:
  assumes "tracked e g l rx" and "0 < e" and "e \<le> first" and "batch_ok batch" and "first + length batch < 2 ^ 64"
    and "g \<le> l" and "l \<le> e"
  shows "tracked (first + length batch) (g + of_bool (e < first)) (l + (first - e))
     (track_sequence (of_nat first) (of_nat (length batch)) rx)"
proof -
  have "length batch \<le> 1400" using assms(4) batch_length [of batch] by (simp add: batch_ok_def MAX_PAYLOAD_def)
  then have c: "(ucast (of_nat (length batch) :: u16) :: u64) = of_nat (length batch)"
    by (simp add: word_unat_eq_iff unat_ucast_up unat_of_nat)
  have f: "unat (of_nat first :: u64) = first" using assms(5) by (simp add: unat_of_nat)
  have s: "unat (of_nat first + of_nat (length batch) :: u64) = first + length batch"
    using assms(5) by (simp add: unat_word_ariths unat_of_nat)
  have e: "unat (ur_expected_seq rx) = e" "ur_expected_seq rx \<noteq> 0" using assms(1,2) by (auto simp: tracked_def)
  show ?thesis
  proof (cases "e < first")
    case True
    have "unat (of_nat first - ur_expected_seq rx) = first - e" using e f True by (simp add: unat_sub word_le_nat_alt)
    then show ?thesis using assms True e f s c
      by (simp add: tracked_def track_sequence_def Let_def word_less_nat_alt unat_word_ariths)
  next
    case False
    then have "of_nat first = ur_expected_seq rx" using assms(3) e f by (simp add: word_unat_eq_iff)
    then show ?thesis using assms(1,3) False s c e f by (simp add: tracked_def track_sequence_def Let_def word_less_nat_alt)
  qed
qed

lemma receive_in_order:
  assumes "in_order e ps" and "tracked e g l (rc_rx s)" and "0 < e" and "g \<le> l" and "l \<le> e"
  shows "tracked (end_of e ps) (g + jumps e ps) (l + (end_of e ps - e - length (concat (map snd ps))))
      (rc_rx (receive_all callback (map packet_of ps) s)) \<and> e + length (concat (map snd ps)) \<le> end_of e ps
    \<and> rc_router (receive_all callback (map packet_of ps) s) = snd (route_all (concat (map snd ps)) (rc_router s))
    \<and> rc_ctx (receive_all callback (map packet_of ps) s) =
        fold (call_back callback) (fst (route_all (concat (map snd ps)) (rc_router s))) (rc_ctx s)
    \<and> rc_ring (receive_all callback (map packet_of ps) s) = rc_ring s"
  using assms
proof (induction ps arbitrary: e g l s)
  case Nil
  then show ?case by simp
next
  case (Cons p ps)
  obtain first batch where p: "p = (first, batch)" by (cases p)
  have o: "e \<le> first" "batch_ok batch" "first + length batch < 2 ^ 64" "in_order (first + length batch) ps"
    using Cons.prems(1) by (simp_all add: p)
  define s1 where "s1 = s\<lparr>rc_rx := track_sequence (of_nat first) (of_nat (length batch)) (rc_rx s)\<rparr>"
  define s' where "s' = fold (deliver callback) batch s1"
  have step: "receive_all callback (map packet_of (p # ps)) s = receive_all callback (map packet_of ps) s'"
    by (simp add: p packet_of_def receive_packet_datagram [OF o(2)] s'_def s1_def)
  have "tracked (first + length batch) (g + of_bool (e < first)) (l + (first - e)) (rc_rx s')"
    using track_step [OF Cons.prems(2,3) o(1-3) Cons.prems(4,5)] tracked_same [OF deliver_frame(2), of _ _ _ callback batch s1]
    by (simp add: s'_def s1_def)
  moreover have "0 < first + length batch" "g + of_bool (e < first) \<le> l + (first - e)" "l + (first - e) \<le> first + length batch"
    using Cons.prems(3-5) o(1) by (auto simp: of_bool_def)
  ultimately have IH: "tracked (end_of (first + length batch) ps) (g + of_bool (e < first) + jumps (first + length batch) ps)
      (l + (first - e) + (end_of (first + length batch) ps - (first + length batch) - length (concat (map snd ps))))
      (rc_rx (receive_all callback (map packet_of ps) s'))" "first + length batch + length (concat (map snd ps)) \<le> end_of (first + length batch) ps"
    "rc_router (receive_all callback (map packet_of ps) s') = snd (route_all (concat (map snd ps)) (rc_router s'))"
    "rc_ctx (receive_all callback (map packet_of ps) s') =
        fold (call_back callback) (fst (route_all (concat (map snd ps)) (rc_router s'))) (rc_ctx s')"
    "rc_ring (receive_all callback (map packet_of ps) s') = rc_ring s'"
    using Cons.IH [OF o(4)] by blast+
  have "l + (first - e) + (end_of (first + length batch) ps - (first + length batch) - length (concat (map snd ps))) =
      l + (end_of e (p # ps) - e - length (concat (map snd (p # ps))))"
    using IH(2) o(1) by (simp add: p)
  moreover have "rc_router s' = snd (route_all batch (rc_router s))" "rc_ring s' = rc_ring s"
    "rc_ctx s' = fold (call_back callback) (fst (route_all batch (rc_router s))) (rc_ctx s)"
    by (simp_all add: s'_def s1_def deliver_all split: prod.split)
  ultimately show ?case using IH o(1) unfolding step by (simp add: p route_all_append split_def add.assoc)
qed

lemma join_stream:
  assumes "ur_expected_seq (rc_rx s) = 0" and "batch_ok batch"
  shows "receive_all callback (map packet_of ((first, batch) # ps)) s =
    receive_all callback (map packet_of ((first, batch) # ps)) (s\<lparr>rc_rx := (rc_rx s)\<lparr>ur_expected_seq := of_nat first\<rparr>\<rparr>)"
proof -
  have "track_sequence (of_nat first) c (rc_rx s) = track_sequence (of_nat first) c ((rc_rx s)\<lparr>ur_expected_seq := of_nat first\<rparr>)" for c
    using assms by (simp add: track_sequence_def Let_def)
  then show ?thesis by (simp add: packet_of_def receive_packet_datagram [OF assms(2)])
qed

lemma end_of_last: "ps \<noteq> [] \<Longrightarrow> end_of e ps = fst (last ps) + length (snd (last ps))"
proof (induction e ps rule: end_of.induct)
  case (2 e first batch ps)
  then show ?case by (cases ps) simp_all
qed simp

lemma receive_stream:
  assumes "in_order 1 ps" and "ps \<noteq> []" and "tracked 0 0 0 (rc_rx s)"
  shows "tracked (fst (last ps) + length (snd (last ps))) (jumps (fst (hd ps)) ps)
       (fst (last ps) + length (snd (last ps)) - fst (hd ps) - length (concat (map snd ps)))
       (rc_rx (receive_all callback (map packet_of ps) s))
    \<and> fst (hd ps) + length (concat (map snd ps)) \<le> fst (last ps) + length (snd (last ps))
    \<and> rc_router (receive_all callback (map packet_of ps) s) = snd (route_all (concat (map snd ps)) (rc_router s))
    \<and> rc_ctx (receive_all callback (map packet_of ps) s) =
        fold (call_back callback) (fst (route_all (concat (map snd ps)) (rc_router s))) (rc_ctx s)"
proof -
  obtain first batch ps' where ps: "ps = (first, batch) # ps'" using assms(2) by (cases ps) auto
  have o: "1 \<le> first" "batch_ok batch" "first + length batch < 2 ^ 64" "in_order first ps" using assms(1) by (simp_all add: ps)
  define s0 where "s0 = s\<lparr>rc_rx := (rc_rx s)\<lparr>ur_expected_seq := of_nat first\<rparr>\<rparr>"
  have "unat (of_nat first :: u64) = first" using o(3) by (simp add: unat_of_nat)
  then have "tracked first 0 0 (rc_rx s0)" using assms(3) by (simp add: s0_def tracked_def)
  note run = receive_in_order [OF o(4) this, of callback]
  have "receive_all callback (map packet_of ps) s = receive_all callback (map packet_of ps) s0"
    using join_stream [of s batch callback first ps'] o(2) assms(3) by (simp add: ps s0_def tracked_def unat_eq_0)
  moreover have "rc_router s0 = rc_router s" "rc_ctx s0 = rc_ctx s" by (simp_all add: s0_def)
  moreover have "fst (hd ps) = first" by (simp add: ps)
  ultimately show ?thesis using run o(1) end_of_last [OF assms(2), of first] by simp
qed

text \<open>
  C22. Lost datagrams are counted exactly. Of the datagrams a server sent, let any selection arrive,
  in order. Then the callback sees the messages of those that arrived, in order; the messages
  reported lost are exactly those sent between the first and the last datagram that arrived and not
  delivered; one gap is counted for each break in the numbering; and no datagram is reported short
  or out of order.
\<close>

theorem losses_are_counted:
  assumes "list_all batch_ok batches" and "1 + length (concat batches) < 2 ^ 64"
    and "subseq ps (numbered 1 batches)" and "ps \<noteq> []"
  shows "let s = receive_all callback (map packet_of ps) (Receiver_new mem k dir ctx); rx = rc_rx s;
       ms = concat (map snd ps);
       outs = fst (route_all ms \<lparr>rt_directory = dir, rt_counts = Counts_zero, rt_order = Order_zero\<rparr>);
       sent = fst (last ps) + length (snd (last ps)) - fst (hd ps)
     in rc_ctx s = fold (call_back callback) outs ctx \<and> unat (ur_messages_lost rx) + length ms = sent
        \<and> unat (ur_gaps rx) = jumps (fst (hd ps)) ps \<and> ur_out_of_order rx = 0 \<and> ur_short_packets rx = 0"
proof -
  have "in_order 1 ps" using numbered_in_order [of batches 1] subseq_in_order [OF assms(3)] assms(1,2) by simp
  from receive_stream [OF this assms(4), of "Receiver_new mem k dir ctx" callback] show ?thesis
    by (auto simp: Let_def tracked_def Receiver_new_def UdpReceiver_new_def)
qed

definition sample_batches :: "bytes list list" where
  "sample_batches = [[[1], [2]], [[3]], [[4], [5]]]"

theorem losses_are_counted_witness:
  "let rx = rc_rx (receive_all (\<lambda>order ctx. ctx) (map packet_of [(1, [[1], [2]]), (4, [[4], [5]])])
              (Receiver_new (\<lambda>i. 0) 4 None ()))
   in unat (ur_messages_lost rx) = 1 \<and> unat (ur_gaps rx) = 1"
proof -
  have "list_all batch_ok sample_batches" by (simp add: sample_batches_def batch_ok_def message_ok_def MAX_PAYLOAD_def length_frame)
  moreover have "subseq [(1, [[1], [2]]), (4, [[4], [5]])] (numbered 1 sample_batches)"
    by (simp add: sample_batches_def)
  ultimately show ?thesis
    using losses_are_counted [of sample_batches "[(1, [[1], [2]]), (4, [[4], [5]])]" "\<lambda>order ctx. ctx" "\<lambda>i. 0" 4 None "()"]
    by (simp add: Let_def sample_batches_def)
qed

end
