(* ===== verification/Receive_Loop.thy ===== *)
theory Receive_Loop
  imports Udp_Receiver
begin

text \<open>
  \<^verbatim>\<open>UdpReceiver::receive_loop\<close> and \<^verbatim>\<open>recv_thread\<close> (\<^verbatim>\<open>src/udp_receiver.cpp\<close>) as two threads: the socket
  thread pushes datagrams into the ring until the idle window elapses and then clears \<^verbatim>\<open>running\<close>; the
  book thread pops, unpacks, accounts for its time, and leaves when \<^verbatim>\<open>running\<close> is false and the ring is
  empty. Each thread is a program counter; a schedule is any list of their steps, and a step of a
  thread that waits or has ended changes nothing. What \<^verbatim>\<open>recv\<close> returns and what the clock reads come
  with the steps. A push or a pop is one step here: \<^verbatim>\<open>Spsc_Ring\<close> interleaves
  their memory operations. Proved: the shutdown loses no datagram, the book thread ends, every nanosecond
  is accounted for, and over a lossless network the path from the server's file to the callback does
  what a direct replay of the file does.
\<close>

section \<open>Configuration and state\<close>

record ReceiverConfig =
  rg_directory :: "SymbolDirectory option"
  rg_idle_timeout_ms :: int
  rg_recv_buffer_bytes :: int
  rg_ring_pow2 :: nat
  rg_recv_core :: int

definition ReceiverConfig_new :: ReceiverConfig where
  "ReceiverConfig_new = \<lparr>rg_directory = None, rg_idle_timeout_ms = 5000, rg_recv_buffer_bytes = 8 * 1024 * 1024,
     rg_ring_pow2 = 27, rg_recv_core = 1\<rparr>"

text \<open>A call of \<^verbatim>\<open>recv\<close>: a datagram, cut to the buffer it is read into, or a timeout or an error.\<close>

datatype recv_outcome = Arrived bytes | Recv_failed

fun received :: "recv_outcome \<Rightarrow> bytes" where
  "received (Arrived d) = take (unat MAX_PACKET_SIZE) d"
| "received Recv_failed = []"

datatype io_pc = Receiving | Stopping | Io_ended

datatype book_pc = Popping | Checking_running | Checking_used | Joining | Book_ended

record 'c Loop =
  lp_rcv :: "'c Receiver"
  lp_armed :: bool
  lp_timeout :: "int \<times> int"
  lp_running :: bool
  lp_io :: io_pc
  lp_book :: book_pc
  lp_t_prev :: u64

definition loop_start :: "(nat \<Rightarrow> u8) \<Rightarrow> ReceiverConfig \<Rightarrow> u64 \<Rightarrow> UdpReceiver \<Rightarrow> 'c \<Rightarrow> 'c Loop" where
  "loop_start mem cfg now rx ctx =
     \<lparr>lp_rcv = (Receiver_new mem (rg_ring_pow2 cfg) (rg_directory cfg) ctx)\<lparr>rc_rx := rx\<rparr>, lp_armed = False,
      lp_timeout = set_timeout 0, lp_running = True, lp_io = Receiving, lp_book = Popping, lp_t_prev = now\<rparr>"

section \<open>The socket thread\<close>

text \<open>
  \<^verbatim>\<open>recv_thread\<close>. Before the first datagram a failure is ignored; afterwards it ends the loop. \<^const>\<open>None\<close>
  when a copy leaves the ring's buffer.
\<close>

definition recv_turn :: "ReceiverConfig \<Rightarrow> recv_outcome \<Rightarrow> 'c Loop \<Rightarrow> 'c Loop option" where
  "recv_turn cfg out l =
     (let buf = received out
      in if buf = [] then Some (if lp_armed l then l\<lparr>lp_io := Stopping\<rparr> else l)
         else
           let l = (if lp_armed l then l else l\<lparr>lp_armed := True, lp_timeout := set_timeout (rg_idle_timeout_ms cfg)\<rparr>)
           in map_option (\<lambda>r. l\<lparr>lp_rcv := r\<rparr>) (recv_datagram buf (lp_rcv l)))"

section \<open>The book thread\<close>

definition account_time :: "bytes \<Rightarrow> u64 \<Rightarrow> UdpReceiver \<Rightarrow> UdpReceiver" where
  "account_time buf dt rx =
     (if buf = [] then rx\<lparr>ur_idle_ns := ur_idle_ns rx + dt\<rparr> else rx\<lparr>ur_process_ns := ur_process_ns rx + dt\<rparr>)"

text \<open>The head of the loop: pop, read the clock, and unpack what came.\<close>

definition pop_turn :: "(Order \<Rightarrow> 'c \<Rightarrow> 'c) \<Rightarrow> u64 \<Rightarrow> 'c Loop \<Rightarrow> 'c Loop option" where
  "pop_turn callback now l =
     (case pop MAX_PACKET_SIZE (rc_ring (lp_rcv l)) of None \<Rightarrow> None
      | Some (buf, ring) \<Rightarrow>
          let dt = now - lp_t_prev l;
              r = (lp_rcv l)\<lparr>rc_ring := ring, rc_rx := account_time buf dt (rc_rx (lp_rcv l))\<rparr>;
              l = l\<lparr>lp_t_prev := now\<rparr>
          in Some (if buf = [] then l\<lparr>lp_rcv := r, lp_book := Checking_running\<rparr>
                   else l\<lparr>lp_rcv := receive_packet callback buf (of_nat (length buf)) r\<rparr>))"

definition book_turn :: "(Order \<Rightarrow> 'c \<Rightarrow> 'c) \<Rightarrow> u64 \<Rightarrow> 'c Loop \<Rightarrow> 'c Loop option" where
  "book_turn callback now l =
     (case lp_book l of
        Popping \<Rightarrow> pop_turn callback now l
      | Checking_running \<Rightarrow> Some (l\<lparr>lp_book := (if lp_running l then Popping else Checking_used)\<rparr>)
      | Checking_used \<Rightarrow> Some (l\<lparr>lp_book := (if ring_used (rc_ring (lp_rcv l)) = 0 then Joining else Popping)\<rparr>)
      | Joining \<Rightarrow> Some (if lp_io l = Io_ended then l\<lparr>lp_rcv := finish_loop (lp_rcv l), lp_book := Book_ended\<rparr> else l)
      | Book_ended \<Rightarrow> Some l)"

section \<open>Schedules\<close>

text \<open>A step of the socket thread while it receives, its last store, or a step of the book thread at a clock reading.\<close>

datatype loop_event = Recv recv_outcome | Stop | Turn u64

fun loop_step :: "(Order \<Rightarrow> 'c \<Rightarrow> 'c) \<Rightarrow> ReceiverConfig \<Rightarrow> loop_event \<Rightarrow> 'c Loop \<Rightarrow> 'c Loop option" where
  "loop_step callback cfg (Recv out) l = (if lp_io l = Receiving then recv_turn cfg out l else Some l)"
| "loop_step callback cfg Stop l = Some (if lp_io l = Stopping then l\<lparr>lp_running := False, lp_io := Io_ended\<rparr> else l)"
| "loop_step callback cfg (Turn now) l = book_turn callback now l"

primrec loop_run :: "(Order \<Rightarrow> 'c \<Rightarrow> 'c) \<Rightarrow> ReceiverConfig \<Rightarrow> loop_event list \<Rightarrow> 'c Loop \<Rightarrow> 'c Loop option" where
  "loop_run callback cfg [] l = Some l"
| "loop_run callback cfg (e # es) l =
     (case loop_step callback cfg e l of None \<Rightarrow> None | Some l \<Rightarrow> loop_run callback cfg es l)"

text \<open>The datagrams \<^verbatim>\<open>recv\<close> hands over in a schedule, until a failure after the first of them.\<close>

fun taken :: "bool \<Rightarrow> loop_event list \<Rightarrow> bytes list" where
  "taken armed [] = []"
| "taken armed (Recv out # es) =
     (if received out \<noteq> [] then received out # taken True es else if armed then [] else taken False es)"
| "taken armed (Stop # es) = taken armed es"
| "taken armed (Turn now # es) = taken armed es"

section \<open>What the book thread sees\<close>

text \<open>Not the ring, nor the counters of the socket thread, the ring and the clock.\<close>

definition book_view :: "'c Receiver \<Rightarrow> 'c Receiver" where
  "book_view s = s\<lparr>rc_ring := rc_ring (Receiver_new (\<lambda>i. 0) 0 None (rc_ctx s)),
     rc_rx := (rc_rx s)\<lparr>ur_packets_received := 0, ur_bytes_received := 0, ur_ring_dropped := 0, ur_ring_high_water := 0,
       ur_process_ns := 0, ur_idle_ns := 0\<rparr>\<rparr>"

lemma view_receive_message: "book_view (receive_message callback m n s) = receive_message callback m n (book_view s)"
proof -
  obtain out r where "route_message m n (rc_router s) = (out, r)" by fastforce
  then show ?thesis by (cases out) (simp_all add: receive_message_def book_view_def Receiver_new_def)
qed

lemma view_short_packet: "book_view (short_packet s) = short_packet (book_view s)"
  by (simp add: short_packet_def book_view_def Receiver_new_def)

lemma view_receive_messages:
  "book_view (receive_messages callback buf n k off s) = receive_messages callback buf n k off (book_view s)"
  by (induction k arbitrary: off s) (simp_all add: Let_def view_receive_message view_short_packet)

lemma view_receive_packet: "book_view (receive_packet callback buf n s) = receive_packet callback buf n (book_view s)"
proof -
  have "book_view (s\<lparr>rc_rx := track_sequence seq c (rc_rx s)\<rparr>) =
      (book_view s)\<lparr>rc_rx := track_sequence seq c (rc_rx (book_view s))\<rparr>" for seq c
    by (simp add: book_view_def track_sequence_def Let_def Receiver_new_def)
  then show ?thesis by (simp add: receive_packet_def Let_def view_receive_messages view_short_packet)
qed

lemma view_others:
  "book_view (s\<lparr>rc_ring := ring\<rparr>) = book_view s" "book_view (finish_loop s) = book_view s"
  "book_view (s\<lparr>rc_ring := ring, rc_rx := account_time buf dt (rc_rx s)\<rparr>) = book_view s"
  by (simp_all add: book_view_def finish_loop_def account_time_def Receiver_new_def)

text \<open>Unpacking leaves alone what belongs to the socket thread and to the clock.\<close>

definition io_part :: "'c Receiver \<Rightarrow> SpscRing \<times> u64 \<times> u64 \<times> u64 \<times> u64" where
  "io_part s = (rc_ring s, ur_packets_received (rc_rx s), ur_bytes_received (rc_rx s), ur_process_ns (rc_rx s), ur_idle_ns (rc_rx s))"

lemma io_part_receive_message: "io_part (receive_message callback m n s) = io_part s"
proof -
  obtain out r where "route_message m n (rc_router s) = (out, r)" by fastforce
  then show ?thesis by (cases out) (simp_all add: receive_message_def io_part_def)
qed

lemma io_part_receive_messages: "io_part (receive_messages callback buf n k off s) = io_part s"
proof (induction k arbitrary: off s)
  case (Suc k)
  then show ?case by (simp add: Let_def io_part_receive_message) (simp add: io_part_def short_packet_def)
qed simp

lemma io_part_receive_packet: "io_part (receive_packet callback buf n s) = io_part s"
  by (simp add: receive_packet_def Let_def io_part_receive_messages)
     (simp add: io_part_def short_packet_def track_sequence_def Let_def)

lemmas io_part_kept = io_part_receive_packet [unfolded io_part_def prod.inject]

section \<open>The ring between the threads\<close>

lemma ring_write_dropped: "ring_write at src n r = Some r' \<Longrightarrow> sr_dropped r' = sr_dropped r"
  by (auto simp: ring_write_def Let_def split: option.splits if_splits)

lemma push_dropped: "push d n r = Some (ok, r') \<Longrightarrow> sr_dropped r' = sr_dropped r + of_bool (\<not> ok)"
  by (auto simp: push_def Let_def dest!: ring_write_dropped split: option.splits if_splits)

lemma pop_dropped: "pop n r = Some (out, r') \<Longrightarrow> sr_dropped r' = sr_dropped r"
  by (auto simp: pop_def Let_def split: option.splits if_splits)

lemma used_length:
  assumes "ring_holds r q"
  shows "unat (ring_used r) = length (stream q)"
proof -
  obtain k t where "ring_rep k r t q" using assms by (auto simp: ring_holds_def)
  then show ?thesis using ring_rep_used(1) by (auto simp: ring_used_def)
qed

lemma records_short: "list_all (record_ok cap) q \<Longrightarrow> 5 * length q \<le> length (stream q)"
proof (induction q)
  case (Cons d q)
  then have "1 \<le> length d" by (simp add: record_ok_def Suc_le_eq)
  then show ?case using Cons by simp
qed simp

lemma drained_ring: "ring_holds r q \<Longrightarrow> ring_used r = 0 \<longleftrightarrow> q = []"
  using used_length [of r q] by (cases q) (auto simp: unat_eq_0 [symmetric])

lemma finish_fields:
  "rc_ring (finish_loop s) = rc_ring s" "ur_packets_received (rc_rx (finish_loop s)) = ur_packets_received (rc_rx s)"
  "ur_process_ns (rc_rx (finish_loop s)) = ur_process_ns (rc_rx s)" "ur_idle_ns (rc_rx (finish_loop s)) = ur_idle_ns (rc_rx s)"
  "ur_ring_dropped (rc_rx (finish_loop s)) = sr_dropped (rc_ring s)"
  "ur_ring_high_water (rc_rx (finish_loop s)) = sr_high_water (rc_ring s)"
  by (simp_all add: finish_loop_def)

section \<open>The invariant of the two threads\<close>

text \<open>
  \<open>q\<close> is what the ring holds. The book thread looks at the ring only after it saw \<^verbatim>\<open>running\<close> false, so
  nothing is pushed any more, and it joins only with an empty ring.
\<close>

definition loop_inv :: "'c Loop \<Rightarrow> bytes list \<Rightarrow> bool" where
  "loop_inv l q \<longleftrightarrow>
     ring_holds (rc_ring (lp_rcv l)) q \<and> list_all (record_ok MAX_PACKET_SIZE) q
     \<and> (lp_running l \<longleftrightarrow> lp_io l \<noteq> Io_ended)
     \<and> (lp_book l \<in> {Checking_used, Joining, Book_ended} \<longrightarrow> lp_io l = Io_ended)
     \<and> (lp_book l \<in> {Joining, Book_ended} \<longrightarrow> q = [])
     \<and> (lp_book l = Book_ended \<longrightarrow> ur_ring_dropped (rc_rx (lp_rcv l)) = sr_dropped (rc_ring (lp_rcv l)) \<and>
           ur_ring_high_water (rc_rx (lp_rcv l)) = sr_high_water (rc_ring (lp_rcv l)))"

definition accepted :: "'c Loop \<Rightarrow> loop_event list \<Rightarrow> bytes list" where
  "accepted l es = (if lp_io l = Receiving then taken (lp_armed l) es else [])"

text \<open>
  From \<open>l\<close> holding \<open>q\<close> to \<open>l'\<close> holding \<open>q'\<close>: \<open>new\<close> came in, \<open>gone\<close> was unpacked in order, and what is
  neither unpacked nor held was dropped by the ring and counted.
\<close>

definition loop_moves :: "(Order \<Rightarrow> 'c \<Rightarrow> 'c) \<Rightarrow> 'c Loop \<Rightarrow> bytes list \<Rightarrow> bytes list \<Rightarrow> 'c Loop \<Rightarrow> bytes list \<Rightarrow> bool" where
  "loop_moves callback l q new l' q' \<longleftrightarrow>
     (\<exists>gone n. book_view (lp_rcv l') = receive_all callback gone (book_view (lp_rcv l)) \<and>
        subseq (gone @ q') (q @ new) \<and> length (gone @ q') + n = length (q @ new) \<and>
        sr_dropped (rc_ring (lp_rcv l')) = sr_dropped (rc_ring (lp_rcv l)) + of_nat n \<and>
        ur_packets_received (rc_rx (lp_rcv l')) = ur_packets_received (rc_rx (lp_rcv l)) + of_nat (length new))"

lemma moves_refl: "loop_moves callback l q [] l q"
  unfolding loop_moves_def by (intro exI [of _ "[]"] exI [of _ 0]) simp

lemma moves_trans:
  assumes "loop_moves callback l q new l' q'" and "loop_moves callback l' q' new' l'' q''"
  shows "loop_moves callback l q (new @ new') l'' q''"
proof -
  obtain gone n where 1: "book_view (lp_rcv l') = receive_all callback gone (book_view (lp_rcv l))"
    "subseq (gone @ q') (q @ new)" "length (gone @ q') + n = length (q @ new)"
    "sr_dropped (rc_ring (lp_rcv l')) = sr_dropped (rc_ring (lp_rcv l)) + of_nat n"
    "ur_packets_received (rc_rx (lp_rcv l')) = ur_packets_received (rc_rx (lp_rcv l)) + of_nat (length new)"
    using assms(1) unfolding loop_moves_def by blast
  obtain gone' n' where 2: "book_view (lp_rcv l'') = receive_all callback gone' (book_view (lp_rcv l'))"
    "subseq (gone' @ q'') (q' @ new')" "length (gone' @ q'') + n' = length (q' @ new')"
    "sr_dropped (rc_ring (lp_rcv l'')) = sr_dropped (rc_ring (lp_rcv l')) + of_nat n'"
    "ur_packets_received (rc_rx (lp_rcv l'')) = ur_packets_received (rc_rx (lp_rcv l')) + of_nat (length new')"
    using assms(2) unfolding loop_moves_def by blast
  have "subseq ((gone @ gone') @ q'') (gone @ q' @ new')" using 2(2) by (simp add: list_emb_append_mono)
  also have "subseq (gone @ q' @ new') (q @ new @ new')"
    using list_emb_append_mono [OF 1(2), of new' new'] by simp
  finally show ?thesis
    unfolding loop_moves_def using 1 2 by (intro exI [of _ "gone @ gone'"] exI [of _ "n + n'"]) simp
qed

lemma recv_moves:
  assumes "loop_inv l q" and "lp_io l = Receiving"
  shows "\<exists>l' q' new. recv_turn cfg out l = Some l' \<and> loop_inv l' q' \<and> loop_moves callback l q new l' q' \<and>
     accepted l (Recv out # es) = new @ accepted l' es"
proof (cases "received out = []")
  case True
  then show ?thesis using assms moves_refl [of callback l q]
    by (intro exI [of _ "if lp_armed l then l\<lparr>lp_io := Stopping\<rparr> else l"] exI [of _ q] exI [of _ "[]"])
       (auto simp: recv_turn_def loop_inv_def accepted_def loop_moves_def)
next
  case False
  define d where "d = received out"
  have d: "record_ok MAX_PACKET_SIZE d" using False by (cases out) (auto simp: d_def record_ok_def MAX_PACKET_SIZE_def)
  have held: "ring_holds (rc_ring (lp_rcv l)) q" "list_all (record_ok MAX_PACKET_SIZE) q" using assms(1) by (simp_all add: loop_inv_def)
  obtain ok ring' where p: "push d (of_nat (length d)) (rc_ring (lp_rcv l)) = Some (ok, ring')"
    "ring_holds ring' (if ok then q @ [d] else q)"
    using ring_fifo.push_law [OF held(1) d held(2)] by (auto simp: ring_op_step_def split: if_splits)
  define a where "a = (if lp_armed l then l else l\<lparr>lp_armed := True, lp_timeout := set_timeout (rg_idle_timeout_ms cfg)\<rparr>)"
  define r where "r = (lp_rcv l)\<lparr>rc_rx := (rc_rx (lp_rcv l))\<lparr>ur_packets_received := ur_packets_received (rc_rx (lp_rcv l)) + 1,
      ur_bytes_received := ur_bytes_received (rc_rx (lp_rcv l)) + ucast (of_nat (length d) :: u32)\<rparr>, rc_ring := ring'\<rparr>"
  have "recv_turn cfg out l = Some (a\<lparr>lp_rcv := r\<rparr>)" using False p(1)
    by (simp add: recv_turn_def d_def [symmetric] recv_datagram_def r_def a_def Let_def)
  moreover have "loop_inv (a\<lparr>lp_rcv := r\<rparr>) (if ok then q @ [d] else q)"
    using assms p(2) d by (auto simp: loop_inv_def a_def r_def)
  moreover have "book_view r = book_view (lp_rcv l)" by (simp add: r_def book_view_def Receiver_new_def)
  then have "loop_moves callback l q [d] (a\<lparr>lp_rcv := r\<rparr>) (if ok then q @ [d] else q)"
    unfolding loop_moves_def using push_dropped [OF p(1)] prefix_imp_subseq [of q "q @ [d]"]
    by (intro exI [of _ "[]"] exI [of _ "of_bool (\<not> ok)"]) (simp add: r_def)
  moreover have "accepted l (Recv out # es) = [d] @ accepted (a\<lparr>lp_rcv := r\<rparr>) es"
    using False assms(2) by (simp add: accepted_def a_def d_def)
  ultimately show ?thesis by blast
qed

lemma pop_moves:
  assumes "loop_inv l q" and "lp_book l = Popping"
  shows "\<exists>l'. pop_turn callback now l = Some l' \<and> loop_inv l' (tl q) \<and> loop_moves callback l q [] l' (tl q) \<and>
     lp_io l' = lp_io l \<and> lp_armed l' = lp_armed l \<and> lp_book l' = (if q = [] then Checking_running else Popping)"
proof -
  have good: "list_all (record_ok MAX_PACKET_SIZE) (tl q)" using assms(1) by (cases q) (simp_all add: loop_inv_def)
  have held: "ring_holds (rc_ring (lp_rcv l)) q" "list_all (record_ok MAX_PACKET_SIZE) q" using assms(1) by (simp_all add: loop_inv_def)
  obtain ring' where p: "pop MAX_PACKET_SIZE (rc_ring (lp_rcv l)) = Some ((case q of [] \<Rightarrow> [] | d # q \<Rightarrow> d), ring')"
    "ring_holds ring' (tl q)"
    using ring_fifo.pop_law [OF held] by (cases q) (auto simp: ring_op_step_def)
  define r where "r = (lp_rcv l)\<lparr>rc_ring := ring', rc_rx := account_time (hd (q @ [[]])) (now - lp_t_prev l) (rc_rx (lp_rcv l))\<rparr>"
  have view: "book_view r = book_view (lp_rcv l)" by (simp add: r_def view_others(3))
  have rx: "ur_packets_received (rc_rx r) = ur_packets_received (rc_rx (lp_rcv l))" "rc_ring r = ring'"
    by (simp_all add: r_def account_time_def)
  show ?thesis
  proof (cases q)
    case Nil
    then have "pop_turn callback now l = Some (l\<lparr>lp_t_prev := now, lp_rcv := r, lp_book := Checking_running\<rparr>)"
      by (simp add: pop_turn_def p(1) Let_def r_def)
    then show ?thesis using assms p(2) view rx pop_dropped [OF p(1)] Nil
      by (simp add: loop_inv_def loop_moves_def)
  next
    case (Cons d q')
    then have "d \<noteq> []" using assms(1) by (simp add: loop_inv_def record_ok_def)
    then have "pop_turn callback now l = Some (l\<lparr>lp_t_prev := now, lp_rcv := receive_packet callback d (of_nat (length d)) r\<rparr>)"
      by (simp add: pop_turn_def p(1) Let_def r_def Cons)
    moreover have "loop_moves callback l q [] (l\<lparr>lp_t_prev := now, lp_rcv := receive_packet callback d (of_nat (length d)) r\<rparr>) (tl q)"
      unfolding loop_moves_def using view rx pop_dropped [OF p(1)]
      by (intro exI [of _ "[d]"] exI [of _ 0]) (simp add: Cons view_receive_packet io_part_kept)
    ultimately show ?thesis using assms p(2) rx(2) good Cons by (simp add: loop_inv_def io_part_kept)
  qed
qed

lemma step_moves:
  assumes "loop_inv l q"
  shows "\<exists>l' q' new. loop_step callback cfg e l = Some l' \<and> loop_inv l' q' \<and> loop_moves callback l q new l' q' \<and>
     accepted l (e # es) = new @ accepted l' es"
proof (cases e)
  case (Recv out)
  show ?thesis
  proof (cases "lp_io l = Receiving")
    case True
    then show ?thesis using recv_moves [OF assms True, of cfg out callback es] by (simp add: Recv)
  next
    case False
    then show ?thesis using assms moves_refl [of callback l q]
      by (intro exI [of _ l] exI [of _ q] exI [of _ "[]"]) (simp add: Recv accepted_def)
  qed
next
  case Stop
  have "loop_inv (l\<lparr>lp_running := False, lp_io := Io_ended\<rparr>) q" using assms by (auto simp: loop_inv_def)
  then show ?thesis using assms moves_refl [of callback l q]
    by (intro exI [of _ "if lp_io l = Stopping then l\<lparr>lp_running := False, lp_io := Io_ended\<rparr> else l"] exI [of _ q] exI [of _ "[]"])
       (auto simp: Stop accepted_def loop_moves_def)
next
  case (Turn now)
  have stay: ?thesis if "book_turn callback now l = Some l'" "loop_inv l' q" "book_view (lp_rcv l') = book_view (lp_rcv l)"
    "rc_ring (lp_rcv l') = rc_ring (lp_rcv l)" "ur_packets_received (rc_rx (lp_rcv l')) = ur_packets_received (rc_rx (lp_rcv l))"
    "lp_io l' = lp_io l" "lp_armed l' = lp_armed l" for l'
    using that moves_refl [of callback l q]
    by (intro exI [of _ l'] exI [of _ q] exI [of _ "[]"]) (simp add: Turn accepted_def loop_moves_def)
  show ?thesis
  proof (cases "lp_book l")
    case Popping
    obtain l' where "pop_turn callback now l = Some l'" "loop_inv l' (tl q)" "loop_moves callback l q [] l' (tl q)"
      "lp_io l' = lp_io l" "lp_armed l' = lp_armed l" using pop_moves [OF assms Popping] by blast
    then show ?thesis
      by (intro exI [of _ l'] exI [of _ "tl q"] exI [of _ "[]"]) (simp add: Turn Popping book_turn_def accepted_def)
  next
    case Checking_running
    then show ?thesis using assms
      by (intro stay [of "l\<lparr>lp_book := (if lp_running l then Popping else Checking_used)\<rparr>"]) (auto simp: book_turn_def loop_inv_def)
  next
    case Checking_used
    then show ?thesis using assms drained_ring [of "rc_ring (lp_rcv l)" q]
      by (intro stay [of "l\<lparr>lp_book := (if ring_used (rc_ring (lp_rcv l)) = 0 then Joining else Popping)\<rparr>"])
         (auto simp: book_turn_def loop_inv_def)
  next
    case Joining
    then show ?thesis using assms
      by (intro stay [of "l\<lparr>lp_rcv := finish_loop (lp_rcv l), lp_book := Book_ended\<rparr>"])
         (auto simp: book_turn_def loop_inv_def view_others finish_fields)
  next
    case Book_ended
    then show ?thesis using assms by (intro stay [of l]) (auto simp: book_turn_def)
  qed
qed

lemma loop_run_moves:
  "loop_inv l q \<Longrightarrow> \<exists>l' q'. loop_run callback cfg es l = Some l' \<and> loop_inv l' q' \<and> loop_moves callback l q (accepted l es) l' q'"
proof (induction es arbitrary: l q)
  case Nil
  then show ?case using moves_refl [of callback l q] by (auto simp: accepted_def)
next
  case (Cons e es)
  obtain l1 q1 new where 1: "loop_step callback cfg e l = Some l1" "loop_inv l1 q1" "loop_moves callback l q new l1 q1"
    "accepted l (e # es) = new @ accepted l1 es" using step_moves [OF Cons.prems] by blast
  moreover obtain l' q' where "loop_run callback cfg es l1 = Some l'" "loop_inv l' q'" "loop_moves callback l1 q1 (accepted l1 es) l' q'"
    using Cons.IH [OF 1(2)] by blast
  ultimately show ?case using moves_trans [OF 1(3)] by (intro exI [of _ l'] exI [of _ q']) simp
qed

lemma loop_run_append:
  "loop_run callback cfg (es @ es') l =
     (case loop_run callback cfg es l of None \<Rightarrow> None | Some l \<Rightarrow> loop_run callback cfg es' l)"
  by (induction es arbitrary: l) (simp_all split: option.splits)

lemma loop_start_inv:
  assumes "rg_ring_pow2 cfg < 64"
  shows "loop_inv (loop_start mem cfg now rx ctx) []"
  using new_ring(1) [OF assms] by (auto simp: loop_inv_def loop_start_def Receiver_new_def ring_holds_def)

lemma view_fields:
  assumes "book_view s = book_view s'"
  shows "rc_router s = rc_router s'" and "rc_ctx s = rc_ctx s'" and "ur_gaps (rc_rx s) = ur_gaps (rc_rx s')"
    and "ur_messages_lost (rc_rx s) = ur_messages_lost (rc_rx s')" and "ur_out_of_order (rc_rx s) = ur_out_of_order (rc_rx s')"
    and "ur_short_packets (rc_rx s) = ur_short_packets (rc_rx s')"
proof -
  have view: "rc_router (book_view s) = rc_router s" "rc_ctx (book_view s) = rc_ctx s" "ur_gaps (rc_rx (book_view s)) = ur_gaps (rc_rx s)"
    "ur_messages_lost (rc_rx (book_view s)) = ur_messages_lost (rc_rx s)" "ur_out_of_order (rc_rx (book_view s)) = ur_out_of_order (rc_rx s)"
    "ur_short_packets (rc_rx (book_view s)) = ur_short_packets (rc_rx s)" for s :: "'a Receiver" by (simp_all add: book_view_def)
  show "rc_router s = rc_router s'" "rc_ctx s = rc_ctx s'" "ur_gaps (rc_rx s) = ur_gaps (rc_rx s')"
    "ur_messages_lost (rc_rx s) = ur_messages_lost (rc_rx s')" "ur_out_of_order (rc_rx s) = ur_out_of_order (rc_rx s')"
    "ur_short_packets (rc_rx s) = ur_short_packets (rc_rx s')"
    using view [of s] view [of s'] unfolding assms by simp_all
qed

section \<open>Shutdown\<close>

lemma view_receive_all: "book_view (receive_all callback ds s) = receive_all callback ds (book_view s)"
  by (induction ds arbitrary: s) (simp_all add: view_receive_packet)

lemma loop_start_fields [simp]:
  "lp_io (loop_start mem cfg now rx ctx) = Receiving" "lp_armed (loop_start mem cfg now rx ctx) = False"
  "lp_book (loop_start mem cfg now rx ctx) = Popping" "lp_t_prev (loop_start mem cfg now rx ctx) = now"
  "rc_rx (lp_rcv (loop_start mem cfg now rx ctx)) = rx" "rc_ctx (lp_rcv (loop_start mem cfg now rx ctx)) = ctx"
  "sr_dropped (rc_ring (lp_rcv (loop_start mem cfg now rx ctx))) = 0"
  by (simp_all add: loop_start_def Receiver_new_def SpscRing_new_def)

text \<open>Every schedule runs without a fault; of the datagrams received, the accepted ones are unpacked in order.\<close>

lemma loop_law:
  assumes "rg_ring_pow2 cfg < 64"
  shows "\<exists>l gone held n. loop_run callback cfg es (loop_start mem cfg now rx ctx) = Some l \<and> loop_inv l held \<and>
     book_view (lp_rcv l) = book_view (receive_all callback gone (lp_rcv (loop_start mem cfg now rx ctx))) \<and>
     subseq (gone @ held) (taken False es) \<and> length (gone @ held) + n = length (taken False es) \<and>
     sr_dropped (rc_ring (lp_rcv l)) = of_nat n \<and>
     ur_packets_received (rc_rx (lp_rcv l)) = ur_packets_received rx + of_nat (length (taken False es))"
proof -
  obtain l held where "loop_run callback cfg es (loop_start mem cfg now rx ctx) = Some l" "loop_inv l held"
    "loop_moves callback (loop_start mem cfg now rx ctx) [] (taken False es) l held"
    using loop_run_moves [OF loop_start_inv [OF assms, of mem now rx ctx], of callback cfg es] by (auto simp: accepted_def)
  then show ?thesis unfolding loop_moves_def by (auto simp: view_receive_all)
qed

text \<open>A short session on a ring of 64 bytes: one datagram, then silence.\<close>

definition sample_config :: ReceiverConfig where
  "sample_config = ReceiverConfig_new\<lparr>rg_ring_pow2 := 6\<rparr>"

definition sample_events :: "loop_event list" where
  "sample_events = map (\<lambda>d. Recv (Arrived d)) (stamped 1 [[wire 7 0 5 (Deleted 9)]]) @
     [Turn 10, Recv Recv_failed, Turn 20, Stop, Turn 30, Turn 40, Turn 50]"

definition sample_start :: "Order list Loop" where
  "sample_start = loop_start (\<lambda>i. 0) sample_config 3 UdpReceiver_new []"

definition keep :: "Order \<Rightarrow> Order list \<Rightarrow> Order list" where
  "keep order ctx = ctx @ [order]"

lemma sample_session:
  "map_option (\<lambda>l. (lp_book l, ur_ring_dropped (rc_rx (lp_rcv l)), map o_order_ref (rc_ctx (lp_rcv l)),
       ur_process_ns (rc_rx (lp_rcv l)), ur_idle_ns (rc_rx (lp_rcv l))))
     (loop_run keep sample_config sample_events sample_start) = Some (Book_ended, 0, [9], 7, 10)"
  by code_simp

lemma sample_pow2: "rg_ring_pow2 sample_config < 64"
  by (simp add: sample_config_def ReceiverConfig_new_def)

text \<open>
  C7. The shutdown of \<^verbatim>\<open>receive_loop\<close> loses nothing. Whatever the schedule of the two threads, what
  \<^verbatim>\<open>recv\<close> returns, and what the clock reads, no copy leaves the ring; and once the loop has returned,
  every datagram the socket thread took is either unpacked, in order, or counted in \<^verbatim>\<open>ring_dropped\<close>:
  the receiver is what unpacking those datagrams directly gives, and none is left in the ring.
\<close>

theorem shutdown_loses_nothing:
  assumes "rg_ring_pow2 cfg < 64"
  shows "\<exists>l. loop_run callback cfg es (loop_start mem cfg now rx ctx) = Some l \<and>
     (lp_book l = Book_ended \<longrightarrow>
       (\<exists>gone. subseq gone (taken False es) \<and>
          ur_ring_dropped (rc_rx (lp_rcv l)) = of_nat (length (taken False es) - length gone) \<and>
          book_view (lp_rcv l) = book_view (receive_all callback gone (lp_rcv (loop_start mem cfg now rx ctx)))))"
proof -
  obtain l gone held n where l: "loop_run callback cfg es (loop_start mem cfg now rx ctx) = Some l" "loop_inv l held"
    "book_view (lp_rcv l) = book_view (receive_all callback gone (lp_rcv (loop_start mem cfg now rx ctx)))"
    "subseq (gone @ held) (taken False es)" "length (gone @ held) + n = length (taken False es)"
    "sr_dropped (rc_ring (lp_rcv l)) = of_nat n"
    using loop_law [OF assms, of callback es mem now rx ctx] by blast
  moreover have "held = []" "ur_ring_dropped (rc_rx (lp_rcv l)) = of_nat n" if "lp_book l = Book_ended"
    using l(2,6) that by (simp_all add: loop_inv_def)
  moreover have "length (taken False es) - length gone = n" if "held = []" using l(5) that by simp
  ultimately show ?thesis by (intro exI [of _ l]) auto
qed

theorem shutdown_loses_nothing_witness:
  "\<exists>l gone. loop_run keep sample_config sample_events sample_start = Some l \<and> subseq gone (taken False sample_events) \<and>
     ur_ring_dropped (rc_rx (lp_rcv l)) = of_nat (length (taken False sample_events) - length gone) \<and>
     map o_order_ref (rc_ctx (lp_rcv l)) = [9]"
  using shutdown_loses_nothing [OF sample_pow2, of keep sample_events "\<lambda>i. 0" 3 UdpReceiver_new "[]"] sample_session
  by (auto simp: sample_start_def)

section \<open>The loop ends\<close>

text \<open>The socket thread on its own: its program counter and whether the idle timer is armed.\<close>

fun io_next :: "loop_event \<Rightarrow> io_pc \<times> bool \<Rightarrow> io_pc \<times> bool" where
  "io_next (Recv out) (Receiving, armed) = (if received out \<noteq> [] then (Receiving, True) else (if armed then Stopping else Receiving, armed))"
| "io_next Stop (Stopping, armed) = (Io_ended, armed)"
| "io_next e s = s"

lemma book_turn_io: "book_turn callback now l = Some l' \<Longrightarrow> (lp_io l', lp_armed l') = (lp_io l, lp_armed l)"
  by (auto simp: book_turn_def pop_turn_def Let_def split: book_pc.splits option.splits if_splits prod.splits)

lemma loop_step_io: "loop_step callback cfg e l = Some l' \<Longrightarrow> (lp_io l', lp_armed l') = io_next e (lp_io l, lp_armed l)"
  by (cases e; cases "lp_io l") (auto simp: recv_turn_def Let_def dest: book_turn_io split: if_splits)

lemma loop_run_io: "loop_run callback cfg es l = Some l' \<Longrightarrow> (lp_io l', lp_armed l') = fold io_next es (lp_io l, lp_armed l)"
proof (induction es arbitrary: l)
  case (Cons e es)
  then obtain l1 where "loop_step callback cfg e l = Some l1" "loop_run callback cfg es l1 = Some l'" by (auto split: option.splits)
  then show ?case using Cons.IH loop_step_io by (metis fold_simps(2))
qed simp

lemma io_ended_stays: "fst s \<noteq> Receiving \<Longrightarrow> fst (fold io_next es s) \<noteq> Receiving"
  "fst s = Io_ended \<Longrightarrow> fst (fold io_next es s) = Io_ended"
proof (induction es arbitrary: s)
  case (Cons e es)
  { case 1 then show ?case using Cons(1) [of "io_next e s"] by (cases "(e, s)" rule: io_next.cases) auto
  next case 2 then show ?case using Cons(2) [of "io_next e s"] by (cases "(e, s)" rule: io_next.cases) auto }
qed simp_all

lemma io_taken:
  "taken False es = [] \<Longrightarrow> fold io_next es (Receiving, False) = (Receiving, False)"
  "taken False es \<noteq> [] \<Longrightarrow> snd (fold io_next es (Receiving, False))"
proof -
  have armed: "snd (fold io_next es (pc, True))" for es pc
  proof (induction es arbitrary: pc)
    case (Cons e es)
    have "snd (io_next e (pc, True))" by (cases "(e, (pc, True))" rule: io_next.cases) auto
    then show ?case using Cons [of "fst (io_next e (pc, True))"] by (metis (full_types) fold_simps(2) prod.collapse)
  qed simp
  have "(taken False es = [] \<longrightarrow> fold io_next es (Receiving, False) = (Receiving, False)) \<and>
      (taken False es \<noteq> [] \<longrightarrow> snd (fold io_next es (Receiving, False)))"
  proof (induction es)
    case (Cons e es)
    then show ?case using armed by (cases e) auto
  qed simp
  then show "taken False es = [] \<Longrightarrow> fold io_next es (Receiving, False) = (Receiving, False)"
    "taken False es \<noteq> [] \<Longrightarrow> snd (fold io_next es (Receiving, False))" by blast+
qed

text \<open>How many turns the book thread still needs once the socket thread has ended, with \<open>n\<close> datagrams in the ring.\<close>

fun turns_left :: "book_pc \<Rightarrow> nat \<Rightarrow> nat" where
  "turns_left Popping n = n + 4"
| "turns_left Checking_running n = (if n = 0 then 3 else n + 6)"
| "turns_left Checking_used n = (if n = 0 then 2 else n + 5)"
| "turns_left Joining n = 1"
| "turns_left Book_ended n = 0"

primrec turns :: "loop_event list \<Rightarrow> nat" where
  "turns [] = 0"
| "turns (e # es) = (case e of Turn now \<Rightarrow> 1 | _ \<Rightarrow> 0) + turns es"

lemma turns_replicate [simp]: "turns (replicate n (Turn now)) = n"
  by (induction n) simp_all

lemma turn_progress:
  assumes "loop_inv l q" and "lp_io l = Io_ended"
  shows "\<exists>l' q'. book_turn callback now l = Some l' \<and> loop_inv l' q' \<and> lp_io l' = Io_ended \<and>
     turns_left (lp_book l') (length q') \<le> turns_left (lp_book l) (length q) - 1"
proof (cases "lp_book l")
  case Popping
  then show ?thesis using pop_moves [OF assms(1) Popping, of callback now] assms(2)
    by (cases q) (auto simp: book_turn_def)
next
  case Checking_running
  then show ?thesis using assms
    by (intro exI [of _ "l\<lparr>lp_book := Checking_used\<rparr>"] exI [of _ q]) (auto simp: book_turn_def loop_inv_def)
next
  case Checking_used
  then show ?thesis using assms drained_ring [of "rc_ring (lp_rcv l)" q]
    by (intro exI [of _ "l\<lparr>lp_book := (if q = [] then Joining else Popping)\<rparr>"] exI [of _ q]) (auto simp: book_turn_def loop_inv_def)
next
  case Joining
  then show ?thesis using assms
    by (intro exI [of _ "l\<lparr>lp_rcv := finish_loop (lp_rcv l), lp_book := Book_ended\<rparr>"] exI [of _ q])
       (auto simp: book_turn_def loop_inv_def finish_fields)
next
  case Book_ended
  then show ?thesis using assms by (auto simp: book_turn_def)
qed

lemma run_progress:
  "loop_inv l q \<Longrightarrow> lp_io l = Io_ended \<Longrightarrow>
   \<exists>l' q'. loop_run callback cfg es l = Some l' \<and> loop_inv l' q' \<and>
     turns_left (lp_book l') (length q') \<le> turns_left (lp_book l) (length q) - turns es"
proof (induction es arbitrary: l q)
  case Nil
  then show ?case by auto
next
  case (Cons e es)
  show ?case
  proof (cases e)
    case (Turn now)
    obtain l1 q1 where 1: "book_turn callback now l = Some l1" "loop_inv l1 q1" "lp_io l1 = Io_ended"
      "turns_left (lp_book l1) (length q1) \<le> turns_left (lp_book l) (length q) - 1"
      using turn_progress [OF Cons.prems, of callback now] by blast
    obtain l' q' where "loop_run callback cfg es l1 = Some l'" "loop_inv l' q'"
      "turns_left (lp_book l') (length q') \<le> turns_left (lp_book l1) (length q1) - turns es"
      using Cons.IH [OF 1(2,3)] by blast
    then show ?thesis using 1 by (intro exI [of _ l'] exI [of _ q']) (simp add: Turn)
  qed (use Cons in simp_all)
qed

lemma taken_idle: "taken armed es \<noteq> [] \<or> armed \<Longrightarrow> taken armed (es @ Recv Recv_failed # es') = taken armed es"
  by (induction armed es rule: taken.induct) auto

lemma taken_failed: "received out = [] \<Longrightarrow> taken armed (es @ Recv out # es') = taken armed (es @ Recv Recv_failed # es')"
  by (induction armed es rule: taken.induct) simp_all

lemma io_idle:
  assumes "taken False before \<noteq> []"
  shows "fst (fold io_next (before @ Recv Recv_failed # between @ [Stop]) (Receiving, False)) = Io_ended"
proof -
  obtain pc where b: "fold io_next before (Receiving, False) = (pc, True)"
    using io_taken(2) [OF assms] by (metis prod.collapse)
  have "fst (io_next (Recv Recv_failed) (pc, True)) \<noteq> Receiving" by (cases pc) simp_all
  then have *: "fst (fold io_next between (io_next (Recv Recv_failed) (pc, True))) \<noteq> Receiving" by (rule io_ended_stays)
  have "fst (io_next Stop s) = Io_ended" if "fst s \<noteq> Receiving" for s using that by (cases s; cases "fst s") simp_all
  from this [OF *] show ?thesis by (simp add: b)
qed

lemma receive_loop_ends:
  assumes "rg_ring_pow2 cfg < 64" and "taken False before \<noteq> []"
    and "turns rest \<ge> length (taken False before) + 6"
  shows "\<exists>l. loop_run callback cfg (before @ Recv Recv_failed # between @ Stop # rest) (loop_start mem cfg now rx ctx) = Some l \<and>
     lp_book l = Book_ended"
proof -
  define first where "first = before @ Recv Recv_failed # between @ [Stop]"
  define l0 where "l0 = loop_start mem cfg now rx ctx"
  obtain l q where l: "loop_run callback cfg first l0 = Some l" "loop_inv l q" "length q \<le> length (taken False first)"
    using loop_law [OF assms(1), of callback first mem now rx ctx] by (auto simp: l0_def)
  have "(lp_io l, lp_armed l) = fold io_next first (Receiving, False)" using loop_run_io [OF l(1)] by (simp add: l0_def)
  then have ended: "lp_io l = Io_ended" using io_idle [OF assms(2), of between] by (metis first_def fst_conv)
  obtain l' and q' :: "bytes list" where l': "loop_run callback cfg rest l = Some l'" "turns_left (lp_book l') (length q') \<le> turns_left (lp_book l) (length q) - turns rest"
    using run_progress [OF l(2) ended, of callback cfg rest] by blast
  have "taken False first = taken False before" by (simp add: first_def taken_idle assms(2))
  then have "turns_left (lp_book l) (length q) \<le> turns rest" using assms(3) l(3) by (cases "lp_book l") auto
  then have "turns_left (lp_book l') (length q') = 0" using l'(2) by simp
  then have "lp_book l' = Book_ended" by (cases "lp_book l'") (auto split: if_splits)
  moreover have "loop_run callback cfg (first @ rest) l0 = Some l'" using l(1) l'(1) by (simp add: loop_run_append)
  ultimately show ?thesis by (simp add: first_def l0_def)
qed

text \<open>
  C8. \<^verbatim>\<open>receive_loop\<close> returns. In any schedule, after some datagram has arrived, a \<^verbatim>\<open>recv\<close> that times
  out makes the socket thread leave its loop; once it has cleared \<^verbatim>\<open>running\<close>, the book thread returns
  within as many of its own turns as datagrams were received, plus six, whatever is left in the ring
  and however the threads are scheduled.
\<close>

theorem receive_loop_returns:
  assumes "rg_ring_pow2 cfg < 64" and "taken False before \<noteq> []"
    and "turns rest \<ge> length (taken False before) + 6"
  shows "\<exists>l. loop_run callback cfg (before @ Recv Recv_failed # between @ Stop # rest) (loop_start mem cfg now rx ctx) = Some l \<and>
     lp_book l = Book_ended"
  using assms by (rule receive_loop_ends)

theorem receive_loop_returns_witness:
  "\<exists>l. loop_run keep sample_config ([Recv (Arrived [1])] @ Recv Recv_failed # [] @ Stop # replicate 7 (Turn 0)) sample_start = Some l \<and>
     lp_book l = Book_ended"
  using receive_loop_returns [OF sample_pow2, of "[Recv (Arrived [1])]" "replicate 7 (Turn 0)" keep "[]" "\<lambda>i. 0" 3 UdpReceiver_new "[]"]
  by (simp add: sample_start_def MAX_PACKET_SIZE_def)

section \<open>Time\<close>

definition time_balance :: "'c Loop \<Rightarrow> u64" where
  "time_balance l = ur_process_ns (rc_rx (lp_rcv l)) + ur_idle_ns (rc_rx (lp_rcv l)) - lp_t_prev l"

lemma step_balance: "loop_step callback cfg e l = Some l' \<Longrightarrow> time_balance l' = time_balance l"
  by (cases e)
     (auto simp: recv_turn_def recv_datagram_def book_turn_def pop_turn_def Let_def time_balance_def account_time_def finish_fields io_part_kept
       split: if_splits option.splits prod.splits book_pc.splits)

lemma run_balance: "loop_run callback cfg es l = Some l' \<Longrightarrow> time_balance l' = time_balance l"
proof (induction es arbitrary: l)
  case (Cons e es)
  then obtain l1 where "loop_step callback cfg e l = Some l1" "loop_run callback cfg es l1 = Some l'" by (auto split: option.splits)
  then show ?case using Cons.IH step_balance by metis
qed simp

text \<open>
  Every nanosecond of the book thread is accounted for: in any schedule, whatever the clock reads,
  \<^verbatim>\<open>process_ns\<close> and \<^verbatim>\<open>idle_ns\<close> have together grown by the time from the start to the last reading.
\<close>

lemma time_is_accounted:
  assumes "loop_run callback cfg es (loop_start mem cfg now rx ctx) = Some l"
  shows "(ur_process_ns (rc_rx (lp_rcv l)) + ur_idle_ns (rc_rx (lp_rcv l))) - (ur_process_ns rx + ur_idle_ns rx) = lp_t_prev l - now"
  using run_balance [OF assms] by (simp add: time_balance_def algebra_simps)

section \<open>What ends a session, and what does not\<close>

text \<open>
  A receiver whose \<^verbatim>\<open>recv\<close> only ever fails, such as one whose \<^verbatim>\<open>init\<close> failed, never returns:
  whatever the schedule, both threads keep looping and nothing is received.
\<close>

lemma failing_socket_never_returns:
  assumes "rg_ring_pow2 cfg < 64" and "taken False es = []"
  shows "\<exists>l. loop_run callback cfg es (loop_start mem cfg now rx ctx) = Some l \<and> lp_running l \<and> lp_io l = Receiving \<and>
     lp_book l \<in> {Popping, Checking_running} \<and> ur_packets_received (rc_rx (lp_rcv l)) = ur_packets_received rx"
proof -
  obtain l q where l: "loop_run callback cfg es (loop_start mem cfg now rx ctx) = Some l" "loop_inv l q"
    "ur_packets_received (rc_rx (lp_rcv l)) = ur_packets_received rx"
    using loop_law [OF assms(1), of callback es mem now rx ctx] assms(2) by auto
  have "lp_io l = Receiving" using loop_run_io [OF l(1)] io_taken(1) [OF assms(2)] by simp
  then show ?thesis using l by (cases "lp_book l") (auto simp: loop_inv_def)
qed

text \<open>
  C40. An empty datagram ends the session. UDP allows one, \<^verbatim>\<open>recv\<close> returns 0 for it, and once the first
  packet has arrived the socket thread takes that for the idle timeout: whatever arrives afterwards,
  in any schedule, is not received.
\<close>

theorem empty_datagram_ends_session:
  assumes "rg_ring_pow2 cfg < 64" and "taken False es \<noteq> []"
  shows "\<exists>l. loop_run callback cfg (es @ Recv (Arrived []) # es') (loop_start mem cfg now rx ctx) = Some l \<and>
     lp_io l \<noteq> Receiving \<and> ur_packets_received (rc_rx (lp_rcv l)) = ur_packets_received rx + of_nat (length (taken False es))"
proof -
  have t: "taken False (es @ Recv (Arrived []) # es') = taken False es"
    using taken_idle [of False es es'] taken_failed [of "Arrived []" False es es'] assms(2) by simp
  obtain l where l: "loop_run callback cfg (es @ Recv (Arrived []) # es') (loop_start mem cfg now rx ctx) = Some l"
    "ur_packets_received (rc_rx (lp_rcv l)) = ur_packets_received rx + of_nat (length (taken False es))"
    using loop_law [OF assms(1), of callback "es @ Recv (Arrived []) # es'" mem now rx ctx] t by auto
  obtain pc where b: "fold io_next es (Receiving, False) = (pc, True)"
    using io_taken(2) [OF assms(2)] by (metis prod.collapse)
  have "fst (io_next (Recv (Arrived [])) (pc, True)) \<noteq> Receiving" by (cases pc) simp_all
  then have "fst (fold io_next es' (io_next (Recv (Arrived [])) (pc, True))) \<noteq> Receiving" by (rule io_ended_stays)
  then have "lp_io l \<noteq> Receiving" using loop_run_io [OF l(1)] by (simp add: b) (metis fst_conv)
  then show ?thesis using l by blast
qed

theorem empty_datagram_ends_session_witness:
  "\<exists>l. loop_run keep sample_config ([Recv (Arrived [1])] @ Recv (Arrived []) # [Recv (Arrived [2]), Recv (Arrived [3])]) sample_start = Some l \<and>
     lp_io l \<noteq> Receiving \<and> ur_packets_received (rc_rx (lp_rcv l)) = 1"
  using empty_datagram_ends_session [OF sample_pow2, of "[Recv (Arrived [1])]" keep "[Recv (Arrived [2]), Recv (Arrived [3])]" "\<lambda>i. 0" 3 UdpReceiver_new "[]"]
  by (simp add: sample_start_def MAX_PACKET_SIZE_def UdpReceiver_new_def)

section \<open>From the file to the callback\<close>

text \<open>Whatever is unpacked, the context is reached by calls of the callback.\<close>

lemma ctx_receive_messages: "\<exists>orders. rc_ctx (receive_messages callback buf n k off s) = fold callback orders (rc_ctx s)"
proof (induction k arbitrary: off s)
  case 0
  show ?case by (intro exI [of _ "[]"]) simp
next
  case (Suc k)
  have short: "\<exists>orders. rc_ctx (short_packet s) = fold callback orders (rc_ctx s)"
    by (intro exI [of _ "[]"]) (simp add: short_packet_def)
  have msg: "\<exists>orders. rc_ctx (receive_message callback m len s) = fold callback orders (rc_ctx s)" for m len
  proof -
    obtain out r where "route_message m len (rc_router s) = (out, r)" by fastforce
    then show ?thesis
      by (intro exI [of _ "case out of Parsed order \<Rightarrow> [order] | _ \<Rightarrow> []"]) (cases out; simp add: receive_message_def)
  qed
  have "\<exists>orders. rc_ctx (receive_messages callback buf n k off' (receive_message callback m len s)) = fold callback orders (rc_ctx s)" for off' m len
    using msg [of m len] Suc.IH [of off' "receive_message callback m len s"] by (metis fold_append o_apply)
  then show ?case using short by (simp add: Let_def)
qed

lemma ctx_receive_all: "\<exists>orders. rc_ctx (receive_all callback ds s) = fold callback orders (rc_ctx s)"
proof (induction ds arbitrary: s)
  case Nil
  show ?case by (intro exI [of _ "[]"]) simp
next
  case (Cons d ds)
  define n :: u32 where "n = of_nat (length d)"
  have "\<exists>orders. rc_ctx (receive_packet callback d n s) = fold callback orders (rc_ctx s)"
  proof (cases "n < of_nat MOLD_HEADER")
    case True
    then show ?thesis by (intro exI [of _ "[]"]) (simp add: receive_packet_def short_packet_def)
  next
    case False
    then show ?thesis
      using ctx_receive_messages [of callback d n "unat (be16 (drop 18 d))" "of_nat MOLD_HEADER"
          "s\<lparr>rc_rx := track_sequence (be64 (drop 10 d)) (be16 (drop 18 d)) (rc_rx s)\<rparr>"]
      by (simp add: receive_packet_def Let_def)
  qed
  then obtain orders where "rc_ctx (receive_packet callback d n s) = fold callback orders (rc_ctx s)" by blast
  moreover obtain orders' where "rc_ctx (receive_all callback ds (receive_packet callback d n s)) =
      fold callback orders' (rc_ctx (receive_packet callback d n s))"
    using Cons.IH by blast
  ultimately show ?case by (intro exI [of _ "orders @ orders'"]) (simp add: n_def)
qed

lemma loop_ctx:
  assumes "rg_ring_pow2 cfg < 64" and "loop_run callback cfg es (loop_start mem cfg now rx ctx) = Some l"
  shows "\<exists>orders. rc_ctx (lp_rcv l) = fold callback orders ctx"
proof -
  obtain gone where "book_view (lp_rcv l) = book_view (receive_all callback gone (lp_rcv (loop_start mem cfg now rx ctx)))"
    using loop_law [OF assms(1), of callback es mem now rx ctx] assms(2) by auto
  from view_fields(2) [OF this] show ?thesis using ctx_receive_all by (metis loop_start_fields(6))
qed

lemma numbered_concat: "concat (map snd (numbered seq batches)) = concat batches"
  by (induction batches arbitrary: seq) simp_all

lemma numbered_jumps: "jumps seq (numbered seq batches) = 0"
  by (induction batches arbitrary: seq) simp_all

lemma numbered_end: "end_of seq (numbered seq batches) = seq + length (concat batches)"
  by (induction batches arbitrary: seq) simp_all

text \<open>All the datagrams of a server, in order: nothing is reported lost and the outcome is that of routing the messages.\<close>

lemma receive_stamped:
  assumes "list_all batch_ok batches" and "1 + length (concat batches) < 2 ^ 64" and "tracked 0 0 0 (rc_rx s)"
  shows "ur_gaps (rc_rx (receive_all callback (stamped 1 batches) s)) = 0
    \<and> ur_messages_lost (rc_rx (receive_all callback (stamped 1 batches) s)) = 0
    \<and> ur_out_of_order (rc_rx (receive_all callback (stamped 1 batches) s)) = 0
    \<and> ur_short_packets (rc_rx (receive_all callback (stamped 1 batches) s)) = 0
    \<and> rc_router (receive_all callback (stamped 1 batches) s) = snd (route_all (concat batches) (rc_router s))
    \<and> rc_ctx (receive_all callback (stamped 1 batches) s) =
        fold (call_back callback) (fst (route_all (concat batches) (rc_router s))) (rc_ctx s)"
proof (cases batches)
  case Nil
  then show ?thesis using assms(3) by (simp add: tracked_def unat_eq_0)
next
  case (Cons batch rest)
  define ps where "ps = numbered 1 batches"
  have "in_order 1 ps" using numbered_in_order [OF assms(1), of 1] assms(2) by (simp add: ps_def)
  moreover have ps: "ps \<noteq> []" "fst (hd ps) = 1" "concat (map snd ps) = concat batches" "jumps 1 ps = 0"
    "fst (last ps) + length (snd (last ps)) = 1 + length (concat batches)"
    using numbered_end [of 1 batches] end_of_last [of ps 1] numbered_concat [of 1 batches] numbered_jumps [of 1 batches]
    by (simp_all add: ps_def Cons)
  moreover have "stamped 1 batches = map packet_of ps" by (simp add: stamped_numbered ps_def)
  ultimately show ?thesis
    using receive_stream [of ps s callback] assms(3) by (simp add: tracked_def unat_eq_0)
qed

lemma batches_length: "list_all batch_ok batches \<Longrightarrow> length (stamped seq batches) \<le> length (concat batches)"
proof (induction batches arbitrary: seq)
  case (Cons batch batches)
  then have "1 \<le> length batch" by (simp add: batch_ok_def Suc_le_eq)
  then show ?case using Cons.IH [of "seq + length batch"] Cons.prems by simp
qed simp

lemma udp_path_law:
  assumes "\<And>i. snd (env i) = (True, True)" and "list_all (\<lambda>m. length m \<le> MAX_MSG_SIZE) (unframe f)"
    and "1 + length (unframe f) < 2 ^ 64" and "replay_file env True (Some f) s0 = Some server" and "server_rep s0 [] []"
    and "rg_ring_pow2 cfg < 64" and "tracked 0 0 0 rx" and "taken False es = us_wire server"
  shows "\<exists>l. loop_run callback cfg es (loop_start mem cfg now rx ctx) = Some l \<and>
     (lp_book l = Book_ended \<and> ur_ring_dropped (rc_rx (lp_rcv l)) = 0 \<longrightarrow>
        (rt_directory (rc_router (lp_rcv l)), rc_ctx (lp_rcv l)) = snd (replay_all (Some f) callback ctx (rg_directory cfg) 0) \<and>
        ur_gaps (rc_rx (lp_rcv l)) = 0 \<and> ur_messages_lost (rc_rx (lp_rcv l)) = 0 \<and>
        ur_out_of_order (rc_rx (lp_rcv l)) = 0 \<and> ur_short_packets (rc_rx (lp_rcv l)) = 0)"
proof -
  have "takeWhile (\<lambda>m. length m \<le> MAX_MSG_SIZE) (unframe f) = unframe f"
    using assms(2) by (simp add: takeWhile_eq_all_conv list_all_iff)
  then obtain batches where b: "us_wire server = stamped 1 batches" "list_all batch_ok batches" "concat batches = unframe f"
    using replay_file_law [of env s0 f] assms(1,4,5) by auto
  define l0 where "l0 = loop_start mem cfg now rx ctx"
  obtain l gone held n where run: "loop_run callback cfg es l0 = Some l" "loop_inv l held"
    "book_view (lp_rcv l) = book_view (receive_all callback gone (lp_rcv l0))" "subseq (gone @ held) (taken False es)"
    "length (gone @ held) + n = length (taken False es)" "sr_dropped (rc_ring (lp_rcv l)) = of_nat n"
    using loop_law [OF assms(6), of callback es mem now rx ctx] unfolding l0_def by blast
  define s where "s = receive_all callback gone (lp_rcv l0)"
  have start: "rc_rx (lp_rcv l0) = rx" "rc_ctx (lp_rcv l0) = ctx"
    "rc_router (lp_rcv l0) = \<lparr>rt_directory = rg_directory cfg, rt_counts = Counts_zero, rt_order = Order_zero\<rparr>"
    by (simp_all add: l0_def loop_start_def Receiver_new_def)
  have seen: "rc_router (lp_rcv l) = rc_router s" "rc_ctx (lp_rcv l) = rc_ctx s" "ur_gaps (rc_rx (lp_rcv l)) = ur_gaps (rc_rx s)"
    "ur_messages_lost (rc_rx (lp_rcv l)) = ur_messages_lost (rc_rx s)" "ur_out_of_order (rc_rx (lp_rcv l)) = ur_out_of_order (rc_rx s)"
    "ur_short_packets (rc_rx (lp_rcv l)) = ur_short_packets (rc_rx s)"
    using view_fields [OF run(3)] unfolding s_def by blast+
  have all_gone: "gone = stamped 1 batches" if "lp_book l = Book_ended" "ur_ring_dropped (rc_rx (lp_rcv l)) = 0"
  proof -
    have "held = []" "sr_dropped (rc_ring (lp_rcv l)) = 0" using run(2) that by (simp_all add: loop_inv_def)
    moreover have n: "n < 2 ^ 64" using run(5) assms(3,8) b batches_length [OF b(2), of 1] by simp
    have "unat (of_nat n :: u64) = n" using n by (simp add: unat_of_nat)
    then have "n = 0" using run(6) calculation by simp
    ultimately show ?thesis using run(4,5) assms(8) b(1) by (simp add: subseq_same_length)
  qed
  have replay: "snd (replay_all (Some f) callback ctx (rg_directory cfg) 0) =
      (rt_directory (snd (route_all (unframe f) (rc_router (lp_rcv l0)))),
       fold (call_back callback) (fst (route_all (unframe f) (rc_router (lp_rcv l0)))) ctx)"
    by (simp add: replay_all_def replay_loop_unframe messages_run Let_def start(3) split: prod.split)
  show ?thesis
    using run(1) all_gone receive_stamped [OF b(2), of "lp_rcv l0" callback] assms(3,7) b(3) seen replay start
    by (auto simp: l0_def [symmetric] s_def)
qed

text \<open>
  C4. The UDP path does what the direct replay does. A file of messages of at most 1024 bytes is sent
  by a server that has sent nothing yet, the pacing flushing when it likes, and its datagrams reach the receiver in order,
  in any schedule of its two threads. No step faults; and when \<^verbatim>\<open>receive_loop\<close> has returned with no
  datagram dropped by the ring, the callback has seen exactly the orders, and the directory is exactly
  the one, of \<^verbatim>\<open>ItchReplay::replay_all\<close> on the file, with no gap, loss, reordering or short packet
  reported.
\<close>

theorem udp_path_replays_the_file:
  assumes "\<And>i. snd (env i) = (True, True)" and "list_all (\<lambda>m. length m \<le> MAX_MSG_SIZE) (unframe f)"
    and "1 + length (unframe f) < 2 ^ 64" and "replay_file env True (Some f) s0 = Some server" and "server_rep s0 [] []"
    and "rg_ring_pow2 cfg < 64" and "tracked 0 0 0 rx" and "taken False es = us_wire server"
  shows "\<exists>l. loop_run callback cfg es (loop_start mem cfg now rx ctx) = Some l \<and>
     (lp_book l = Book_ended \<and> ur_ring_dropped (rc_rx (lp_rcv l)) = 0 \<longrightarrow>
        (rt_directory (rc_router (lp_rcv l)), rc_ctx (lp_rcv l)) = snd (replay_all (Some f) callback ctx (rg_directory cfg) 0) \<and>
        ur_gaps (rc_rx (lp_rcv l)) = 0 \<and> ur_messages_lost (rc_rx (lp_rcv l)) = 0 \<and>
        ur_out_of_order (rc_rx (lp_rcv l)) = 0 \<and> ur_short_packets (rc_rx (lp_rcv l)) = 0)"
  using assms by (rule udp_path_law)

definition sample_file :: bytes where
  "sample_file = frame (wire 7 0 5 (Deleted 9))"

lemma sample_server: "map_option us_wire (replay_file (\<lambda>i. (False, True, True)) True (Some sample_file) UdpServer_new) =
    Some (stamped 1 [[wire 7 0 5 (Deleted 9)]])"
  by code_simp

lemma sample_taken: "taken False sample_events = stamped 1 [[wire 7 0 5 (Deleted 9)]]"
  by code_simp

lemma new_tracked: "tracked 0 0 0 UdpReceiver_new"
  by (simp add: tracked_def UdpReceiver_new_def)

theorem udp_path_replays_the_file_witness:
  "\<exists>l. loop_run keep sample_config sample_events sample_start = Some l \<and>
     (rt_directory (rc_router (lp_rcv l)), rc_ctx (lp_rcv l)) = snd (replay_all (Some sample_file) keep [] None 0) \<and>
     map o_order_ref (rc_ctx (lp_rcv l)) = [9] \<and> ur_gaps (rc_rx (lp_rcv l)) = 0"
proof -
  obtain server where server: "replay_file (\<lambda>i. (False, True, True)) True (Some sample_file) UdpServer_new = Some server"
    "us_wire server = stamped 1 [[wire 7 0 5 (Deleted 9)]]" using sample_server by auto
  obtain l where l: "loop_run keep sample_config sample_events sample_start = Some l"
    "lp_book l = Book_ended" "ur_ring_dropped (rc_rx (lp_rcv l)) = 0" "map o_order_ref (rc_ctx (lp_rcv l)) = [9]" using sample_session by auto
  have msgs: "unframe sample_file = [wire 7 0 5 (Deleted 9)]" by code_simp
  have dir: "rg_directory sample_config = None" by (simp add: sample_config_def ReceiverConfig_new_def)
  show ?thesis
    using udp_path_replays_the_file [OF _ _ _ server(1) server_rep_new sample_pow2 new_tracked, of sample_events keep "\<lambda>i. 0" 3 "[]"] l msgs
    by (simp add: wire_def MAX_MSG_SIZE_def sample_taken server(2) sample_start_def [symmetric] dir)
qed

end
