(* ===== verification/Live_Exchange.thy ===== *)
theory Live_Exchange
  imports Risk_Engine Wal Symbol_Directory
begin

text \<open>
  The consumer of the live feed (\<^verbatim>\<open>src/live_exchange_main.cpp\<close>): for every message, resolve it against the
  order table, screen the orders it adds with the risk engine, log the decision, and apply what
  passed to the matching engine. The redraw at the end of the handler is in \<open>Live_Display\<close>; the
  statistics printed at the end are not modelled.
  Proved: risk rejection changes nothing but what reaches the engine; each added order is logged
  exactly once, with its verdict; and with no rejection the session is the plain replay.
\<close>

section \<open>State\<close>

record ExchangeState =
  ex_book :: BookState
  ex_engine :: SoftwareEngine
  ex_risk :: RiskEngine
  ex_wal :: "WriteAheadLog \<times> bytes"
  ex_messages :: u64
  ex_rejected :: u64
  ex_last_ts :: u64

section \<open>The handler\<close>

definition probe_of :: "ResolvedOp \<Rightarrow> Order" where
  "probe_of p = Order_zero\<lparr>o_order_ref := op_order_ref p, o_price := op_price p, o_quantity := op_quantity p,
     o_side := op_side p, o_timestamp_ns := op_timestamp_ns p, o_valid := 1, o_stock := take 8 (op_stock p)\<rparr>"

text \<open>
  \<open>io n\<close> is what the outside gives to the append that follows sequence number \<open>n\<close>: the time, and
  how many bytes of the entry reached the file. The handler ignores what the append returns, so what
  the append reports of its \<^verbatim>\<open>fwrite\<close> is of no consequence here.
\<close>

definition log_probe :: "(u64 \<Rightarrow> u64 \<times> nat) \<Rightarrow> WalEntryType \<Rightarrow> Order \<Rightarrow> ExchangeState \<Rightarrow> ExchangeState" where
  "log_probe io type probe s =
     (case io (wl_sequence (fst (ex_wal s))) of (now, written) \<Rightarrow>
        s\<lparr>ex_wal := snd (wal_append now True written type probe MatchResult_zero (ex_wal s))\<rparr>)"

definition live_op :: "(u64 \<Rightarrow> u64 \<times> nat) \<Rightarrow> ResolvedOp \<Rightarrow> ExchangeState \<Rightarrow> ExchangeState" where
  "live_op io p s =
     (if op_action p = Add then
        (case check (probe_of p) (ex_risk s) of (verdict, risk) \<Rightarrow>
           let s = s\<lparr>ex_risk := risk\<rparr>
           in if verdict \<noteq> Accepted
              then let s = log_probe io OrderRejected (probe_of p) s in s\<lparr>ex_rejected := ex_rejected s + 1\<rparr>
              else let s = log_probe io OrderSubmitted (probe_of p) s in s\<lparr>ex_engine := apply_op p (ex_engine s)\<rparr>)
      else s\<lparr>ex_engine := apply_op p (ex_engine s)\<rparr>)"

definition on_order :: "(u64 \<Rightarrow> u64 \<times> nat) \<Rightarrow> Order \<Rightarrow> ExchangeState \<Rightarrow> ExchangeState" where
  "on_order io msg s =
     (let s = s\<lparr>ex_messages := ex_messages s + 1, ex_last_ts := o_timestamp_ns msg\<rparr>
      in case resolve msg (ex_book s) of (ok, book, ops) \<Rightarrow>
           let s = s\<lparr>ex_book := book\<rparr> in if ok then fold (live_op io) ops s else s)"

section \<open>Start-up\<close>

text \<open>The reference prices set by \<^verbatim>\<open>main\<close>, with the ticker padded with blanks to eight characters. The book
  has \<^verbatim>\<open>2^22\<close> slots there; the capacity is an argument here. The log is what the file held when it was opened.\<close>

definition set_ref :: "string \<Rightarrow> u32 \<Rightarrow> RiskEngine \<Rightarrow> RiskEngine" where
  "set_ref ticker price r = set_reference_price (pad8 (map byte_of ticker)) price r"

definition live_risk :: RiskEngine where
  "live_risk = set_ref ''META'' 1900000 (set_ref ''GOOG'' 12000000 (set_ref ''AMZN'' 18000000
     (set_ref ''MSFT'' 1400000 (set_ref ''AAPL'' 2100000 RiskEngine_new))))"

definition live_start :: "(nat \<Rightarrow> RestingOrder) \<Rightarrow> nat \<Rightarrow> bytes \<Rightarrow> ExchangeState" where
  "live_start mem capacity_pow2 old_log =
     \<lparr>ex_book = BookState_new mem capacity_pow2, ex_engine = SoftwareEngine_new, ex_risk = live_risk,
      ex_wal = (snd (wal_open True old_log WriteAheadLog_new), old_log), ex_messages = 0, ex_rejected = 0, ex_last_ts = 0\<rparr>"

section \<open>The screening, as a specification\<close>

text \<open>Operations with the verdict on each: what is not an addition passes unseen.\<close>

fun screen :: "ResolvedOp list \<Rightarrow> RiskEngine \<Rightarrow> (ResolvedOp \<times> bool) list \<times> RiskEngine" where
  "screen [] r = ([], r)"
| "screen (p # ps) r =
     (if op_action p = Add then
        (case check (probe_of p) r of (verdict, r) \<Rightarrow> case screen ps r of (marks, r) \<Rightarrow> ((p, verdict = Accepted) # marks, r))
      else (case screen ps r of (marks, r) \<Rightarrow> ((p, True) # marks, r)))"

definition verdict_of :: "ResolvedOp \<times> bool \<Rightarrow> WalEntryType \<times> Order" where
  "verdict_of x = (if snd x then OrderSubmitted else OrderRejected, probe_of (fst x))"

definition decisions :: "(ResolvedOp \<times> bool) list \<Rightarrow> (WalEntryType \<times> Order) list" where
  "decisions marks = map verdict_of (filter (\<lambda>x. op_action (fst x) = Add) marks)"

definition rejections :: "(ResolvedOp \<times> bool) list \<Rightarrow> u64" where
  "rejections marks = of_nat (length (filter (\<lambda>x. \<not> snd x) marks))"

lemma rejections_simps [simp]:
  "rejections [] = 0" "rejections (x # xs) = of_bool (\<not> snd x) + rejections xs" "rejections (xs @ ys) = rejections xs + rejections ys"
  by (simp_all add: rejections_def)

definition log_of :: "WriteAheadLog \<times> bytes \<Rightarrow> (WalEntryType \<times> Order) list" where
  "log_of s = map (\<lambda>e. (we_type e, we_order e)) (wal_entries (snd s))"

lemma screen_append:
  "screen (ps @ qs) r = (case screen ps r of (marks, r) \<Rightarrow> case screen qs r of (marks', r) \<Rightarrow> (marks @ marks', r))"
  by (induction ps arbitrary: r) (simp_all split: prod.split)

section \<open>One operation\<close>

lemma append_log:
  assumes "log_rep s es" and "length (o_stock order) = 8" and "written \<ge> WAL_ENTRY_SIZE"
  shows "\<exists>es'. log_rep (snd (wal_append now True written type order result s)) es' \<and>
     map (\<lambda>e. (we_type e, we_order e)) es' = map (\<lambda>e. (we_type e, we_order e)) es @ [(type, order)]"
proof -
  obtain w f where s: "s = (w, f)" by (cases s)
  define e where "e = \<lparr>we_sequence = wl_sequence w + 1, we_timestamp_ns = now, we_type = type, we_order = order, we_result = result\<rparr>"
  have "take written (entry_image e) = entry_image e" using length_entry_image [of e] assms(2,3) by (simp add: e_def)
  then have "log_rep (snd (wal_append now True written type order result s)) (es @ [e])"
    using assms by (simp add: s wal_append_def log_rep_def Let_def e_def algebra_simps)
  then show ?thesis by (intro exI [of _ "es @ [e]"]) (simp add: e_def)
qed

lemma ops_run:
  assumes "list_all (\<lambda>p. length (op_stock p) = 8) ps" and "\<And>n. snd (io n) \<ge> WAL_ENTRY_SIZE" and "log_rep (ex_wal s) es"
    and "screen ps (ex_risk s) = (marks, risk)"
  shows "\<exists>w es'. fold (live_op io) ps s =
       s\<lparr>ex_risk := risk, ex_engine := fold apply_op (map fst (filter snd marks)) (ex_engine s), ex_wal := w,
         ex_rejected := ex_rejected s + rejections marks\<rparr>
     \<and> log_rep w es' \<and> map (\<lambda>e. (we_type e, we_order e)) es' = map (\<lambda>e. (we_type e, we_order e)) es @ decisions marks"
  using assms(1,3,4)
proof (induction ps arbitrary: s es marks)
  case Nil
  then show ?case by (intro exI [of _ "ex_wal s"] exI [of _ es]) (simp add: decisions_def)
next
  case (Cons p ps)
  show ?case
  proof (cases "op_action p = Add")
    case False
    obtain marks' where m: "screen ps (ex_risk s) = (marks', risk)" "marks = (p, True) # marks'"
      using Cons.prems(3) False by (auto split: prod.splits)
    define s1 where "s1 = s\<lparr>ex_engine := apply_op p (ex_engine s)\<rparr>"
    have "live_op io p s = s1" using False by (simp add: live_op_def s1_def)
    then show ?thesis using Cons.IH [of s1 es marks'] Cons.prems(1,2) m False
      by (simp add: s1_def decisions_def)
  next
    case True
    obtain verdict r1 where v: "check (probe_of p) (ex_risk s) = (verdict, r1)" by fastforce
    obtain marks' where m: "screen ps r1 = (marks', risk)" "marks = (p, verdict = Accepted) # marks'"
      using Cons.prems(3) True v by (auto split: prod.splits)
    obtain now written where io: "io (wl_sequence (fst (ex_wal s))) = (now, written)" by fastforce
    define type where "type = (if verdict = Accepted then OrderSubmitted else OrderRejected)"
    define w where "w = snd (wal_append now True written type (probe_of p) MatchResult_zero (ex_wal s))"
    obtain es1 where es1: "log_rep w es1"
      "map (\<lambda>e. (we_type e, we_order e)) es1 = map (\<lambda>e. (we_type e, we_order e)) es @ [(type, probe_of p)]"
    proof -
      have "WAL_ENTRY_SIZE \<le> written" using assms(2) [of "wl_sequence (fst (ex_wal s))"] io by simp
      moreover have "length (o_stock (probe_of p)) = 8" using Cons.prems(1) by (simp add: probe_of_def)
      ultimately show ?thesis
        using append_log [OF Cons.prems(2), of "probe_of p" written now type MatchResult_zero] that by (auto simp: w_def)
    qed
    define s1 where "s1 = (if verdict = Accepted
      then s\<lparr>ex_risk := r1, ex_wal := w, ex_engine := apply_op p (ex_engine s)\<rparr>
      else s\<lparr>ex_risk := r1, ex_wal := w, ex_rejected := ex_rejected s + 1\<rparr>)"
    have "live_op io p s = s1" using True by (simp add: live_op_def v log_probe_def io s1_def w_def type_def Let_def)
    moreover have "ex_risk s1 = r1" "ex_wal s1 = w" by (simp_all add: s1_def)
    ultimately obtain w' es' where IH: "fold (live_op io) (p # ps) s =
       s1\<lparr>ex_risk := risk, ex_engine := fold apply_op (map fst (filter snd marks')) (ex_engine s1), ex_wal := w',
         ex_rejected := ex_rejected s1 + rejections marks'\<rparr>" "log_rep w' es'"
      "map (\<lambda>e. (we_type e, we_order e)) es' = map (\<lambda>e. (we_type e, we_order e)) es1 @ decisions marks'"
      using Cons.IH [of s1 es1 marks'] Cons.prems(1) es1(1) m(1) by auto
    have "decisions marks = (type, probe_of p) # decisions marks'"
      using True by (simp add: m(2) decisions_def verdict_of_def type_def)
    then show ?thesis using IH es1(2) unfolding IH(1)
      by (intro exI [of _ w'] exI [of _ es']) (simp add: s1_def m(2))
  qed
qed

section \<open>Stock symbols keep their eight characters\<close>

definition stocks_ok :: "resting_map \<Rightarrow> bool" where
  "stocks_ok m \<longleftrightarrow> (\<forall>r ro. m r = Some ro \<longrightarrow> length (ro_stock ro) = 8)"

lemma abs_resolve_stocks:
  assumes "stocks_ok m" and "length (o_stock msg) = 8" and "abs_resolve room msg m = (ok, m', ops)"
  shows "stocks_ok m' \<and> list_all (\<lambda>p. length (op_stock p) = 8) ops"
proof -
  have upd: "stocks_ok (m(r := x))" if "stocks_ok m" "\<And>ro. x = Some ro \<Longrightarrow> length (ro_stock ro) = 8" for m r x
    using that by (auto simp: stocks_ok_def)
  have old: "m (o_order_ref msg) = Some ro \<Longrightarrow> length (ro_stock ro) = 8" for ro using assms(1) by (simp add: stocks_ok_def)
  show ?thesis using assms old
    by (cases "o_action msg")
       (auto simp: abs_resolve_def Let_def add_op_def resting_op_def order_to_resting_def replacement_def after_fill_def
          simp del: fun_upd_apply intro!: upd split: if_splits option.splits)
qed

lemma resolve_stocks:
  assumes "table_inv b" and "stocks_ok (table_map b)" and "length (o_stock msg) = 8" and "resolve msg b = (ok, b', ops)"
  shows "stocks_ok (table_map b') \<and> list_all (\<lambda>p. length (op_stock p) = 8) ops"
  by (rule abs_resolve_stocks [OF assms(2,3) resolve_law(2) [OF assms(1,4)]])

section \<open>A session\<close>

lemma on_order_run:
  assumes "list_all (\<lambda>p. length (op_stock p) = 8) ops" and "\<And>n. snd (io n) \<ge> WAL_ENTRY_SIZE" and "log_rep (ex_wal s) es"
    and "resolve msg (ex_book s) = (ok, book, ops)" and "screen ops (ex_risk s) = (marks, risk)"
  shows "\<exists>w es'. on_order io msg s =
       s\<lparr>ex_book := book, ex_risk := risk, ex_engine := fold apply_op (map fst (filter snd marks)) (ex_engine s), ex_wal := w,
         ex_messages := ex_messages s + 1, ex_last_ts := o_timestamp_ns msg,
         ex_rejected := ex_rejected s + rejections marks\<rparr>
     \<and> log_rep w es' \<and> map (\<lambda>e. (we_type e, we_order e)) es' = map (\<lambda>e. (we_type e, we_order e)) es @ decisions marks"
proof -
  define s1 where "s1 = s\<lparr>ex_messages := ex_messages s + 1, ex_last_ts := o_timestamp_ns msg, ex_book := book\<rparr>"
  have "ok \<or> ops = []" using resolve_frame(3) [OF assms(4)] by blast
  then have "on_order io msg s = fold (live_op io) ops s1" by (auto simp: on_order_def Let_def assms(4) s1_def)
  moreover obtain w es' where "fold (live_op io) ops s1 =
       s1\<lparr>ex_risk := risk, ex_engine := fold apply_op (map fst (filter snd marks)) (ex_engine s1), ex_wal := w,
         ex_rejected := ex_rejected s1 + rejections marks\<rparr>"
     "log_rep w es'" "map (\<lambda>e. (we_type e, we_order e)) es' = map (\<lambda>e. (we_type e, we_order e)) es @ decisions marks"
    using ops_run [where io = io and s = s1, OF assms(1,2), of es marks risk] assms(3,5) by (fastforce simp: s1_def)
  ultimately show ?thesis by (intro exI [of _ w] exI [of _ es']) (simp add: s1_def)
qed

lemma live_run:
  assumes "table_inv (ex_book s)" and "stocks_ok (table_map (ex_book s))" and "list_all (\<lambda>msg. length (o_stock msg) = 8) msgs"
    and "\<And>n. snd (io n) \<ge> WAL_ENTRY_SIZE" and "log_rep (ex_wal s) es"
    and "resolve_run msgs (ex_book s) = (book, ops)" and "screen ops (ex_risk s) = (marks, risk)"
  shows "\<exists>w es' ts. fold (on_order io) msgs s =
       s\<lparr>ex_book := book, ex_risk := risk, ex_engine := fold apply_op (map fst (filter snd marks)) (ex_engine s), ex_wal := w,
         ex_messages := ex_messages s + of_nat (length msgs), ex_last_ts := ts,
         ex_rejected := ex_rejected s + rejections marks\<rparr>
     \<and> log_rep w es' \<and> map (\<lambda>e. (we_type e, we_order e)) es' = map (\<lambda>e. (we_type e, we_order e)) es @ decisions marks"
  using assms(1-3,5-7)
proof (induction msgs arbitrary: s es ops marks)
  case Nil
  then show ?case
    by (intro exI [of _ "ex_wal s"] exI [of _ es] exI [of _ "ex_last_ts s"]) (simp add: decisions_def)
next
  case (Cons msg msgs)
  obtain ok b1 ops1 where r: "resolve msg (ex_book s) = (ok, b1, ops1)" by (metis prod_cases3)
  obtain ops2 where run: "resolve_run msgs b1 = (book, ops2)" "ops = ops1 @ ops2"
    using Cons.prems(5) resolve_frame(3) [OF r] by (auto simp: r split: prod.splits if_splits)
  obtain marks1 risk1 where sc1: "screen ops1 (ex_risk s) = (marks1, risk1)" by fastforce
  obtain marks2 where sc2: "screen ops2 risk1 = (marks2, risk)" "marks = marks1 @ marks2"
    using Cons.prems(6) by (auto simp: run(2) screen_append sc1 split: prod.splits)
  have len: "length (o_stock msg) = 8" "list_all (\<lambda>msg. length (o_stock msg) = 8) msgs" using Cons.prems(3) by simp_all
  note ok1 = resolve_stocks [OF Cons.prems(1,2) len(1) r]
  obtain w es1 where s1: "on_order io msg s =
       s\<lparr>ex_book := b1, ex_risk := risk1, ex_engine := fold apply_op (map fst (filter snd marks1)) (ex_engine s), ex_wal := w,
         ex_messages := ex_messages s + 1, ex_last_ts := o_timestamp_ns msg,
         ex_rejected := ex_rejected s + rejections marks1\<rparr>" "log_rep w es1"
     "map (\<lambda>e. (we_type e, we_order e)) es1 = map (\<lambda>e. (we_type e, we_order e)) es @ decisions marks1"
    using on_order_run [where io = io, OF _ assms(4) Cons.prems(4) r sc1] ok1 by blast
  define t where "t = on_order io msg s"
  have t: "ex_book t = b1" "ex_risk t = risk1" "ex_wal t = w" by (simp_all add: t_def s1(1))
  obtain w' es' ts where "fold (on_order io) msgs t =
       t\<lparr>ex_book := book, ex_risk := risk, ex_engine := fold apply_op (map fst (filter snd marks2)) (ex_engine t), ex_wal := w',
         ex_messages := ex_messages t + of_nat (length msgs), ex_last_ts := ts,
         ex_rejected := ex_rejected t + rejections marks2\<rparr>" "log_rep w' es'"
     "map (\<lambda>e. (we_type e, we_order e)) es' = map (\<lambda>e. (we_type e, we_order e)) es1 @ decisions marks2"
  proof -
    have "table_inv (ex_book t)" "stocks_ok (table_map (ex_book t))" "log_rep (ex_wal t) es1"
      "resolve_run msgs (ex_book t) = (book, ops2)" "screen ops2 (ex_risk t) = (marks2, risk)"
      using t resolve_law(1) [OF Cons.prems(1) r] ok1 s1(2) run(1) sc2(1) by simp_all
    from Cons.IH [OF this(1,2) len(2) this(3-5)] show ?thesis using that by blast
  qed
  then show ?case using s1(3) unfolding fold_Cons o_apply t_def [symmetric]
    by (intro exI [of _ w'] exI [of _ es'] exI [of _ ts]) (simp add: t_def s1(1) sc2(2) decisions_def algebra_simps)
qed

lemma feed_resolve_run:
  "fold feed_step msgs (b, e) = (fst (resolve_run msgs b), fold apply_op (snd (resolve_run msgs b)) e)"
  by (induction msgs arbitrary: b e) (auto simp: feed_step_def split: prod.split)

lemma screen_ops: "map fst (fst (screen ps r)) = ps"
  by (induction ps arbitrary: r) (simp_all split: prod.split, metis fst_conv)

lemma all_passed: "list_all snd marks \<Longrightarrow> filter snd marks = marks"
  by (induction marks) simp_all

lemma live_session_law:
  assumes "k \<le> 63" and "list_all (\<lambda>msg. length (o_stock msg) = 8) msgs" and "\<And>n. snd (io n) \<ge> WAL_ENTRY_SIZE"
  shows "case resolve_run msgs (BookState_new mem k) of (book, ops) \<Rightarrow> case screen ops live_risk of (marks, risk) \<Rightarrow>
     let s = fold (on_order io) msgs (live_start mem k []) in
       ex_book s = book \<and> ex_risk s = risk \<and> ex_engine s = fold apply_op (map fst (filter snd marks)) SoftwareEngine_new \<and>
       log_of (ex_wal s) = decisions marks \<and> ex_rejected s = rejections marks \<and> ex_messages s = of_nat (length msgs) \<and>
       (list_all snd marks \<longrightarrow> (ex_book s, ex_engine s) = fold feed_step msgs (BookState_new mem k, SoftwareEngine_new))"
proof -
  define s0 where "s0 = live_start mem k []"
  obtain book ops where run: "resolve_run msgs (BookState_new mem k) = (book, ops)" by fastforce
  obtain marks risk where sc: "screen ops live_risk = (marks, risk)" by fastforce
  have s0: "ex_book s0 = BookState_new mem k" "ex_risk s0 = live_risk" "ex_engine s0 = SoftwareEngine_new"
    "log_rep (ex_wal s0) []" "ex_rejected s0 = 0" "ex_messages s0 = 0"
    by (simp_all add: s0_def live_start_def log_rep_def wal_open_def WriteAheadLog_new_def)
  have "stocks_ok (table_map (ex_book s0))" "table_inv (ex_book s0)"
    using table_inv_new [OF assms(1), of mem] by (simp_all add: s0(1) stocks_ok_def)
  then obtain w es ts where s: "fold (on_order io) msgs s0 =
       s0\<lparr>ex_book := book, ex_risk := risk, ex_engine := fold apply_op (map fst (filter snd marks)) (ex_engine s0), ex_wal := w,
         ex_messages := ex_messages s0 + of_nat (length msgs), ex_last_ts := ts, ex_rejected := ex_rejected s0 + rejections marks\<rparr>"
     "log_rep w es" "map (\<lambda>e. (we_type e, we_order e)) es = decisions marks"
    using live_run [where io = io and s = s0, OF _ _ assms(2,3) s0(4), of book ops marks risk] run sc s0(1,2) by auto
  have "wal_entries (snd w) = es" using wal_entries_images [of es "[]"] s(2) by (simp add: log_rep_def WAL_ENTRY_SIZE_def)
  moreover have "list_all snd marks \<Longrightarrow> map fst (filter snd marks) = ops" using all_passed [of marks] screen_ops [of ops live_risk] sc by simp
  ultimately show ?thesis
    using s by (simp add: run sc Let_def s0_def [symmetric] s0 log_of_def feed_resolve_run)
qed

text \<open>
  C14. The live session: from start-up with an empty log and complete writes, on any messages off the
  parser, the order table is the one of the resolver alone; the engine holds exactly the operations
  whose additions the risk engine accepted, applied in order; the log reads back as one entry per
  addition, in order, submitted or rejected as decided; and the rejections are counted. If nothing
  is rejected, table and engine are those of the plain replay.
\<close>

theorem live_session_screens_additions:
  assumes "k \<le> 63" and "list_all (\<lambda>msg. length (o_stock msg) = 8) msgs" and "\<And>n. snd (io n) \<ge> WAL_ENTRY_SIZE"
  shows "case resolve_run msgs (BookState_new mem k) of (book, ops) \<Rightarrow> case screen ops live_risk of (marks, risk) \<Rightarrow>
     let s = fold (on_order io) msgs (live_start mem k []) in
       ex_book s = book \<and> ex_risk s = risk \<and> ex_engine s = fold apply_op (map fst (filter snd marks)) SoftwareEngine_new \<and>
       log_of (ex_wal s) = decisions marks \<and> ex_rejected s = rejections marks \<and> ex_messages s = of_nat (length msgs) \<and>
       (list_all snd marks \<longrightarrow> (ex_book s, ex_engine s) = fold feed_step msgs (BookState_new mem k, SoftwareEngine_new))"
  using assms by (rule live_session_law)

theorem live_session_screens_additions_witness:
  "let s = fold (on_order (\<lambda>n. (n, 192))) [sample_msg Add 1 100, sample_msg Add 2 50000, sample_msg Execute 1 30]
             (live_start (\<lambda>_. sample_order 0 0) 2 [])
   in ex_rejected s = 1 \<and> map fst (log_of (ex_wal s)) = [OrderSubmitted, OrderRejected] \<and> book_map (se_bids (ex_engine s)) 2 = None"
proof -
  let ?ms = "[sample_msg Add 1 100, sample_msg Add 2 50000, sample_msg Execute 1 30]"
  obtain book ops where run: "resolve_run ?ms (sample_table 2) = (book, ops)" by fastforce
  obtain marks risk where sc: "screen ops live_risk = (marks, risk)" by fastforce
  have "(let marks = fst (screen (snd (resolve_run ?ms (sample_table 2))) live_risk) in
      rejections marks = 1 \<and> map fst (decisions marks) = [OrderSubmitted, OrderRejected] \<and>
      book_map (se_bids (fold apply_op (map fst (filter snd marks)) SoftwareEngine_new)) 2 = None)"
    by code_simp
  then show ?thesis
    using live_session_screens_additions [of 2 ?ms "\<lambda>n. (n, 192)" "\<lambda>_. sample_order 0 0"] run sc
    by (simp add: sample_table_def Let_def WAL_ENTRY_SIZE_def sample_msg_def Order_zero_def)
qed

end
