(* ===== verification/Live_Display.thy ===== *)
theory Live_Display
  imports Live_Exchange Visualizer
begin

text \<open>
  The display of the live exchange (the second half of \<^verbatim>\<open>on_order\<close> in
  \<^verbatim>\<open>src/src/live_exchange_main.cpp\<close>): after every message the clock is read and, at most every 100
  milliseconds, the engine's book is drawn. The clock is a parameter. Shown: the complete handler
  always returns, drawing changes nothing of the exchange, and each frame is a picture of the book
  after some message.
\<close>

record LiveCtx =
  lx_state :: ExchangeState
  lx_display :: Display
  lx_reads :: nat

definition LiveCtx_new :: "(nat \<Rightarrow> int) \<Rightarrow> ExchangeState \<Rightarrow> LiveCtx" where
  "LiveCtx_new clock s =
     \<lparr>lx_state = s, lx_display = \<lparr>dp_viz = Visualizer_new, dp_next_render = clock 0, dp_frames = []\<rparr>, lx_reads = 1\<rparr>"

definition live_info :: "ExchangeState \<Rightarrow> SessionInfo" where
  "live_info s = session_info ''LIVE'' (ex_last_ts s) (ex_messages s) (0, 0) (ex_engine s)"

definition live_handler :: "(nat \<Rightarrow> int) \<Rightarrow> (nat \<Rightarrow> u8) \<Rightarrow> (u64 \<Rightarrow> u64 \<times> nat) \<Rightarrow> Order \<Rightarrow> LiveCtx \<Rightarrow> LiveCtx option" where
  "live_handler clock mem io msg x =
     (let s = on_order io msg (lx_state x); now = clock (lx_reads x)
      in map_option (\<lambda>d. \<lparr>lx_state = s, lx_display = d, lx_reads = lx_reads x + 1\<rparr>)
           (draw_due mem 100000000 now (ex_engine s) (live_info s) (lx_display x)))"

definition live_callback :: "(nat \<Rightarrow> int) \<Rightarrow> (nat \<Rightarrow> u8) \<Rightarrow> (u64 \<Rightarrow> u64 \<times> nat) \<Rightarrow> Order \<Rightarrow> LiveCtx option \<Rightarrow> LiveCtx option" where
  "live_callback clock mem io msg x = Option.bind x (live_handler clock mem io msg)"

section \<open>The handler returns\<close>

definition shows_session :: "(u64 \<Rightarrow> u64 \<times> nat) \<Rightarrow> ExchangeState \<Rightarrow> Order list \<Rightarrow> bytes \<Rightarrow> bool" where
  "shows_session io s0 msgs out \<longleftrightarrow>
     (\<exists>early late v. msgs = early @ late \<and> early \<noteq> [] \<and>
        (let s = fold (on_order io) early s0 in out = map byte_of (concat (map call_text (render_calls (ex_engine s) (live_info s) v)))))"

lemma shows_session_snoc: "shows_session io s0 msgs out \<Longrightarrow> shows_session io s0 (msgs @ [msg]) out"
  unfolding shows_session_def by (metis append.assoc)

lemma shows_session_now:
  "shows_session io s0 (msgs @ [msg]) (map byte_of (concat (map call_text
     (render_calls (ex_engine (fold (on_order io) (msgs @ [msg]) s0)) (live_info (fold (on_order io) (msgs @ [msg]) s0)) v))))"
  unfolding shows_session_def Let_def by (metis append_Nil2 snoc_eq_iff_butlast)

lemma live_handler_run:
  "\<exists>x. fold (live_callback clock mem io) msgs (Some (LiveCtx_new clock s0)) = Some x \<and> lx_state x = fold (on_order io) msgs s0 \<and>
     display_ok 100000000 (shows_session io s0 msgs) (lx_display x)"
proof (induction msgs rule: rev_induct)
  case Nil
  then show ?case by (simp add: LiveCtx_new_def display_ok_def)
next
  case (snoc msg msgs)
  then obtain x where x: "fold (live_callback clock mem io) msgs (Some (LiveCtx_new clock s0)) = Some x"
    "lx_state x = fold (on_order io) msgs s0" "display_ok 100000000 (shows_session io s0 (msgs @ [msg])) (lx_display x)"
    using display_ok_mono shows_session_snoc by blast
  define s where "s = fold (on_order io) (msgs @ [msg]) s0"
  have info: "length (si_symbol (live_info s)) \<le> 4096" "fst (si_speed (live_info s)) < 2 ^ 1024 * 2 ^ snd (si_speed (live_info s))"
    by (simp_all add: live_info_def session_info_def)
  obtain d where "draw_due mem 100000000 (clock (lx_reads x)) (ex_engine s) (live_info s) (lx_display x) = Some d"
    "display_ok 100000000 (shows_session io s0 (msgs @ [msg])) d"
    using draw_due_ok [OF x(3) _ info, of "ex_engine s"] shows_session_now [of io s0 msgs msg, folded s_def] by fastforce
  moreover have "live_callback clock mem io msg (Some x) = live_handler clock mem io msg x" by (simp add: live_callback_def)
  ultimately show ?case using x(1,2) by (simp add: live_handler_def Let_def s_def)
qed

end
