(* ===== verification/Live_Main.thy ===== *)
theory Live_Main
  imports Receive_Loop Live_Display
begin

text \<open>
  The program \<^verbatim>\<open>live_exchange\<close> (\<^verbatim>\<open>main\<close> of \<^verbatim>\<open>src/live_exchange_main.cpp\<close>): it opens the log, sets the
  reference prices, binds the port, runs the receive loop over the handler and prints the session's
  statistics. What the outside gives, from uninitialised memory to the schedule of the two threads, is
  one record. Shown: a failed \<^verbatim>\<open>init\<close> ends the program before anything is received. The end to end theorem is in the root theory.
\<close>

section \<open>The outside\<close>

text \<open>
  The memory \<^verbatim>\<open>new\<close> returns for the book and the ring and that of a frame on the stack, the clocks,
  the writes to the log, the log that is there at the start, what \<^verbatim>\<open>socket\<close> and \<^verbatim>\<open>bind\<close> return, and
  the schedule.
\<close>

record LiveEnv =
  lv_book_mem :: "nat \<Rightarrow> RestingOrder"
  lv_ring_mem :: "nat \<Rightarrow> u8"
  lv_frame_mem :: "nat \<Rightarrow> u8"
  lv_wall :: "nat \<Rightarrow> int"
  lv_io :: "u64 \<Rightarrow> u64 \<times> nat"
  lv_old_log :: bytes
  lv_fd :: int
  lv_bound :: bool
  lv_now :: u64
  lv_schedule :: "loop_event list"

section \<open>The program\<close>

definition live_directory :: SymbolDirectory where
  "live_directory = snd (subscribe (Some (map byte_of ''AAPL'')) SymbolDirectory_new)"

definition live_config :: ReceiverConfig where
  "live_config = ReceiverConfig_new\<lparr>rg_directory := Some live_directory, rg_idle_timeout_ms := 30000\<rparr>"

text \<open>
  How far the program is: \<^verbatim>\<open>init\<close> failed and it returned 1, it is in the receive loop, or it returned
  0 after the loop. The last component is the log file at that point; a session removes it.
\<close>

datatype live_status =
    Init_failed "bytes option"
  | Receiving_on "LiveCtx option Loop"
  | Session_over LiveCtx UdpReceiver "SymbolDirectory option" "bytes option"

definition close_log :: "LiveCtx \<Rightarrow> LiveCtx" where
  "close_log x = x\<lparr>lx_state := (lx_state x)\<lparr>ex_wal := (wal_close (fst (ex_wal (lx_state x))), snd (ex_wal (lx_state x)))\<rparr>\<rparr>"

text \<open>The capacity of the book and the configuration are arguments; \<^const>\<open>None\<close> is a fault.\<close>

definition live_main :: "nat \<Rightarrow> ReceiverConfig \<Rightarrow> LiveEnv \<Rightarrow> live_status option" where
  "live_main book_pow2 cfg v =
     (let s = live_start (lv_book_mem v) book_pow2 (lv_old_log v);
          x = LiveCtx_new (lv_wall v) s;
          (ok, rx, fds) = receiver_init (lv_fd v) (lv_bound v) (UdpReceiver_new, {})
      in if \<not> ok then Some (Init_failed (Some (lv_old_log v)))
         else
           case loop_run (live_callback (lv_wall v) (lv_frame_mem v) (lv_io v)) cfg (lv_schedule v)
                  (loop_start (lv_ring_mem v) cfg (lv_now v) rx (Some x)) of None \<Rightarrow> None
           | Some l \<Rightarrow>
               if lp_book l \<noteq> Book_ended then Some (Receiving_on l)
               else case rc_ctx (lp_rcv l) of None \<Rightarrow> None
                    | Some x \<Rightarrow> Some (Session_over (close_log x) (rc_rx (lp_rcv l)) (rt_directory (rc_router (lp_rcv l))) None))"

definition live_exchange_main :: "LiveEnv \<Rightarrow> live_status option" where
  "live_exchange_main = live_main 22 live_config"

section \<open>The report\<close>

definition directory_lines :: "SymbolDirectory \<Rightarrow> string list" where
  "directory_lines d =
     [newline @ stat_line ''Symbols known   '' (sd_known_count d),
      stat_line ''Subscribed      '' (sd_subscribed_count d),
      stat_line ''Unmatched names '' (sd_pending_count d)]"

definition session_lines :: "ExchangeState \<Rightarrow> UdpReceiver \<Rightarrow> string list" where
  "session_lines s rx =
     (let bs = bs_stats (ex_book s) in
     [newline @ newline @ ''Live Exchange Stats'' @ newline,
      replicate 19 CHR ''='' @ newline,
      stat_line ''Packets received'' (ur_packets_received rx),
      stat_line ''Orders parsed   '' (ur_orders_parsed rx),
      stat_line ''Book messages   '' (ex_messages s),
      stat_line ''Adds            '' (st_adds bs),
      stat_line ''Executes        '' (st_executes bs),
      stat_line ''Cancels         '' (st_cancels bs),
      stat_line ''Deletes         '' (st_deletes bs),
      stat_line ''Replaces        '' (st_replaces bs),
      stat_line ''Filtered out    '' (ur_messages_filtered rx),
      stat_line ''Directory msgs  '' (ur_directory_messages rx),
      stat_line ''Short packets   '' (ur_short_packets rx),
      stat_line ''Unresolved refs '' (st_unresolved bs),
      stat_line ''Peak live orders'' (st_peak_live bs),
      stat_line ''Orphan ops      '' (se_orphan_ops (ex_engine s)),
      stat_line ''Risk rejected   '' (ex_rejected s),
      stat_line ''Shares traded   '' (se_shares_traded (ex_engine s)),
      stat_line ''WAL entries     '' (wl_sequence (fst (ex_wal s))),
      stat_line ''Gaps detected   '' (ur_gaps rx),
      stat_line ''Messages lost   '' (ur_messages_lost rx),
      stat_line ''Out of order    '' (ur_out_of_order rx),
      stat_line ''Ring drops      '' (ur_ring_dropped rx)])"

text \<open>
  The lines in floating point. \<open>elapsed_ns\<close> is the difference of two clock readings. Without any
  accounted time the shares are 0 / 0, and what is printed is not a number: \<^const>\<open>None\<close>.
\<close>

definition seconds :: "nat \<Rightarrow> dyadic" where
  "seconds ns = dbl_quot (dbl_of ns) (10 ^ 9, 0)"

definition share_of :: "dyadic \<Rightarrow> dyadic \<Rightarrow> string option" where
  "share_of p whole = (if fst whole = 0 then None else Some (fixed0 (dbl_quot (dbl_mul (100, 0) p) whole)))"

definition time_line :: "string \<Rightarrow> dyadic \<Rightarrow> dyadic \<Rightarrow> string option" where
  "time_line label t whole =
     map_option (\<lambda>share. ''  '' @ label @ '' : '' @ fixed1 t @ '' s ('' @ share @ ''%)'' @ newline) (share_of t whole)"

definition timing_lines :: "nat \<Rightarrow> ExchangeState \<Rightarrow> UdpReceiver \<Rightarrow> string option list" where
  "timing_lines elapsed_ns s rx =
     (let elapsed = seconds elapsed_ns; p = seconds (unat (ur_process_ns rx)); i = seconds (unat (ur_idle_ns rx))
      in [Some (''  Ring high water  : '' @ fixed1 (dbl_quot (dbl_of (unat (ur_ring_high_water rx))) (1048576, 0)) @ '' MB'' @ newline),
          Some (''  Elapsed          : '' @ fixed2 elapsed @ '' sec'' @ newline),
          time_line ''Book processing '' p (dbl_add p i),
          time_line ''Book idle       '' i (dbl_add p i)]
         @ (if fst elapsed > 0
            then [Some (''  Throughput       : '' @ fixed2 (dbl_quot (dbl_quot (dbl_of (unat (ex_messages s))) elapsed) (10 ^ 6, 0))
                        @ ''M msg/sec'' @ newline)]
            else []))"

section \<open>What the program does first and last\<close>

text \<open>A socket that cannot be opened or bound ends the program; no descriptor stays open and no message is handled.\<close>

lemma init_failure_ends:
  assumes "lv_fd v = INVALID \<or> \<not> lv_bound v"
  shows "live_main k cfg v = Some (Init_failed (Some (lv_old_log v)))"
  using assms by (auto simp: live_main_def receiver_init_def receiver_close_def Let_def)

end
