(* ===== verification/Ouch_Layout.thy ===== *)
theory Ouch_Layout
  imports Ouch Wal
begin

text \<open>
  The packed structs of \<^verbatim>\<open>include/ouch.hpp\<close>, which declare the outbound messages, as they lie in memory
  on a little-endian target, and the counter for match identifiers; the serializer uses neither. Proved:
  a struct read where its own bytes lie has its fields back, but what the serializer writes is no image of
  them: each message is two bytes short of its struct, and its integers have the other byte order.
\<close>

section \<open>The structs\<close>

record OuchAccepted =
  oa_type :: OuchMsgType
  oa_timestamp :: u64
  oa_order_ref :: u64
  oa_side :: Side
  oa_quantity :: u32
  oa_price :: u32
  oa_stock :: bytes
  oa_pad :: bytes

record OuchRejected =
  oj_type :: OuchMsgType
  oj_timestamp :: u64
  oj_order_ref :: u64
  oj_reason :: u8
  oj_pad :: bytes

record OuchExecuted =
  oe_type :: OuchMsgType
  oe_timestamp :: u64
  oe_order_ref :: u64
  oe_executed_qty :: u32
  oe_execution_price :: u32
  oe_match_id :: u64
  oe_pad :: bytes

definition accepted_image :: "OuchAccepted \<Rightarrow> bytes" where
  "accepted_image m = ouch_code (oa_type m) # le_bytes 8 (oa_timestamp m) @ le_bytes 8 (oa_order_ref m) @ [side_code (oa_side m)]
     @ le_bytes 4 (oa_quantity m) @ le_bytes 4 (oa_price m) @ oa_stock m @ oa_pad m"

definition rejected_image :: "OuchRejected \<Rightarrow> bytes" where
  "rejected_image m = ouch_code (oj_type m) # le_bytes 8 (oj_timestamp m) @ le_bytes 8 (oj_order_ref m) @ [oj_reason m] @ oj_pad m"

definition executed_image :: "OuchExecuted \<Rightarrow> bytes" where
  "executed_image m = ouch_code (oe_type m) # le_bytes 8 (oe_timestamp m) @ le_bytes 8 (oe_order_ref m)
     @ le_bytes 4 (oe_executed_qty m) @ le_bytes 4 (oe_execution_price m) @ le_bytes 8 (oe_match_id m) @ oe_pad m"

text \<open>The fields of an executed message at a pointer.\<close>

definition executed_at :: "bytes \<Rightarrow> OuchExecuted" where
  "executed_at p = \<lparr>oe_type = (if p ! 0 = ouch_code OrderAccepted then OrderAccepted else if p ! 0 = ouch_code OuchMsgType.OrderRejected then OuchMsgType.OrderRejected
       else if p ! 0 = ouch_code OrderExecuted then OrderExecuted else OrderCancelled),
     oe_timestamp = le_word 8 (drop 1 p), oe_order_ref = le_word 8 (drop 9 p), oe_executed_qty = le_word 4 (drop 17 p),
     oe_execution_price = le_word 4 (drop 21 p), oe_match_id = le_word 8 (drop 25 p), oe_pad = take 3 (drop 33 p)\<rparr>"

section \<open>The identifiers\<close>

definition next_match_id :: "u64 \<Rightarrow> u64 \<times> u64" where
  "next_match_id n = (n + 1, n + 1)"

section \<open>Structs and messages\<close>

lemma image_sizes:
  "length (oa_stock a) = 8 \<Longrightarrow> length (oa_pad a) = 2 \<Longrightarrow> length (accepted_image a) = 36"
  "length (oj_pad j) = 3 \<Longrightarrow> length (rejected_image j) = 21"
  "length (oe_pad e) = 3 \<Longrightarrow> length (executed_image e) = 36"
  by (simp_all add: accepted_image_def rejected_image_def executed_image_def)

lemma executed_image_reads_back:
  assumes "length (oe_pad m) = 3"
  shows "executed_at (executed_image m) = m"
proof -
  let ?p = "executed_image m"
  have fields: "drop 1 ?p = le_bytes 8 (oe_timestamp m) @ drop 9 ?p" "drop 9 ?p = le_bytes 8 (oe_order_ref m) @ drop 17 ?p"
    "drop 17 ?p = le_bytes 4 (oe_executed_qty m) @ drop 21 ?p" "drop 21 ?p = le_bytes 4 (oe_execution_price m) @ drop 25 ?p"
    "drop 25 ?p = le_bytes 8 (oe_match_id m) @ drop 33 ?p" "drop 33 ?p = oe_pad m"
    by (simp_all add: executed_image_def)
  have "le_word 8 (drop 1 ?p) = oe_timestamp m" "le_word 8 (drop 9 ?p) = oe_order_ref m" "le_word 4 (drop 17 ?p) = oe_executed_qty m"
    "le_word 4 (drop 21 ?p) = oe_execution_price m" "le_word 8 (drop 25 ?p) = oe_match_id m"
    by (subst fields, rule le_roundtrip, simp)+
  moreover have "?p ! 0 = ouch_code (oe_type m)" by (simp add: executed_image_def)
  then have "oe_type (executed_at ?p) = oe_type m" by (cases "oe_type m") (simp_all add: executed_at_def)
  ultimately show ?thesis using assms by (simp add: executed_at_def fields(6))
qed


text \<open>
  Two bytes of the struct lie behind the executed message, and a client that reads the message through the
  struct sees the quantity with its bytes reversed: 100 shares are 1677721600.
\<close>

lemma executed_message_is_no_struct:
  assumes "34 \<le> unat buf_len" and "unat buf_len \<le> length buf" and "length (oe_pad m) = 3"
  shows "\<exists>out. write_executed (Some buf) buf_len x r match_id ts = Some (34, Some out) \<and> length (executed_image m) = 34 + 2 \<and>
     oe_executed_qty (executed_at out) = be_word (rev (be_bytes 4 (mr_quantity r)))"
proof -
  have "take 4 (drop 17 (executed_layout x r match_id ts @ drop 34 buf)) = be_bytes 4 (mr_quantity r)"
    by (simp add: executed_layout_def)
  then show ?thesis
    using write_executed_bytes [OF assms(1,2), of x r match_id ts] assms(3) by (simp add: image_sizes executed_at_def le_word_def)
qed

lemma hundred_shares_reversed: "be_word (rev (be_bytes 4 (100 :: u32))) = (1677721600 :: u32)"
  by code_simp

text \<open>The identifiers count from 1, so they repeat only after \<open>2 ^ 64\<close> calls.\<close>

lemma match_ids_count: "((\<lambda>(ids, n). case next_match_id n of (i, n) \<Rightarrow> (ids @ [i], n)) ^^ k) ([], 0) = (map (\<lambda>i. of_nat (Suc i)) [0..<k], of_nat k)"
  by (induction k) (simp_all add: next_match_id_def add.commute)

lemma match_ids_distinct: "k \<le> 2 ^ 64 - 1 \<Longrightarrow> distinct (map (\<lambda>i. of_nat (Suc i) :: u64) [0..<k])"
  by (auto simp: distinct_map inj_on_def dest!: arg_cong [of _ _ unat] simp del: of_nat_Suc simp add: unat_of_nat)

end
