(* ===== verification/Double_Arith.thy ===== *)
theory Double_Arith
  imports Printf_Format Complex_Main
begin

text \<open>
  Double precision against real numbers: the value of a double, how far a rounded quotient can lie above
  the exact one, and arithmetic with a sign. A signed double is a pair \<open>(m, s)\<close> of value \<open>m / 2 ^ s\<close>;
  signed zeros, infinities and exponents out of range do not occur where it is used. Shown: an
  operation is exact when its result needs at most 53 bits, and it depends on the values of its
  arguments only.
\<close>

section \<open>Double precision from above\<close>

definition dbl_val :: "dyadic \<Rightarrow> real" where
  "dbl_val x = real (fst x) / 2 ^ snd x"

lemma dbl_excess_power: "2 ^ 53 \<le> q \<Longrightarrow> 2 ^ 52 * 2 ^ dbl_excess q \<le> q"
proof (induction q rule: dbl_excess.induct)
  case (1 q)
  then have step: "dbl_excess q = Suc (dbl_excess (q div 2))" by (subst dbl_excess.simps) simp
  show ?case
  proof (cases "q div 2 < 2 ^ 53")
    case True
    then have "dbl_excess (q div 2) = 0" by (subst dbl_excess.simps) simp
    then show ?thesis using step 1(2) by simp
  next
    case False
    then have "2 ^ 52 * 2 ^ dbl_excess (q div 2) \<le> q div 2" using 1 by simp
    then show ?thesis using step by simp
  qed
qed

lemma round_div_above:
  assumes "0 < d" and "d * 2 ^ 52 \<le> n"
  shows "real d * real (round_div n d) \<le> real n * (1 + 1 / 2 ^ 53)"
proof -
  have "2 * (int (d * round_div n d) - int n) \<le> int d"
    using round_div_close [OF assms(1), of n] abs_ge_self [of "int (d * round_div n d) - int n"]
    by (metis mult_left_mono order_trans zero_le_numeral)
  then have "real_of_int (2 * (int (d * round_div n d) - int n)) \<le> real_of_int (int d)" by (simp only: of_int_le_iff)
  then have "2 * (real d * real (round_div n d) - real n) \<le> real d" by simp
  moreover have "real d * 2 ^ 52 \<le> real n" using assms(2) by (metis of_nat_le_iff of_nat_mult of_nat_numeral of_nat_power)
  ultimately show ?thesis by simp
qed

lemma dbl_div_above:
  assumes "0 < d"
  shows "dbl_val (dbl_div n d) \<le> real n / real d * (1 + 1 / 2 ^ 53)"
proof (cases "n < d * 2 ^ 53")
  case True
  define s where "s = dbl_scale n d"
  have v: "dbl_val (dbl_div n d) = real (round_div (n * 2 ^ s) d) / 2 ^ s"
    using True by (simp add: dbl_val_def dbl_div_def s_def Let_def)
  show ?thesis
  proof (cases "n = 0")
    case False
    then have "real d * real (round_div (n * 2 ^ s) d) \<le> real (n * 2 ^ s) * (1 + 1 / 2 ^ 53)"
      using dbl_scale_large [of n d] by (intro round_div_above [OF assms]) (simp add: s_def)
    then show ?thesis using assms unfolding v by (simp add: field_simps)
  qed (use v in \<open>simp add: round_div_def\<close>)
next
  case False
  define k where "k = dbl_excess (n div d)"
  have v: "dbl_val (dbl_div n d) = real (round_div n (d * 2 ^ k)) * 2 ^ k"
    using False by (simp add: dbl_val_def dbl_div_def k_def Let_def)
  have "2 ^ 53 \<le> n div d" using False assms by (simp add: less_eq_div_iff_mult_less_eq mult.commute)
  then have "2 ^ 52 * 2 ^ k \<le> n div d" unfolding k_def by (rule dbl_excess_power)
  then have "d * 2 ^ k * 2 ^ 52 \<le> n" using assms by (simp add: less_eq_div_iff_mult_less_eq mult.commute mult.left_commute)
  then have "real (d * 2 ^ k) * real (round_div n (d * 2 ^ k)) \<le> real n * (1 + 1 / 2 ^ 53)"
    using assms by (intro round_div_above) simp_all
  then show ?thesis using assms unfolding v by (simp add: field_simps)
qed

lemma dbl_val_nonneg: "0 \<le> dbl_val x"
  by (simp add: dbl_val_def)

lemma dbl_trunc_val: "real (dbl_trunc x) \<le> dbl_val x" "dbl_val x < real (dbl_trunc x) + 1"
proof -
  obtain m s where x: "x = (m, s)" by (cases x)
  have "m div 2 ^ s * 2 ^ s \<le> m" "m < m div 2 ^ s * 2 ^ s + 2 ^ s" using dividend_less_div_times [of "2 ^ s" m] by simp_all
  then have "real (m div 2 ^ s * 2 ^ s) \<le> real m" "real m < real (m div 2 ^ s * 2 ^ s + 2 ^ s)" by (simp_all only: of_nat_le_iff of_nat_less_iff)
  then show "real (dbl_trunc x) \<le> dbl_val x" "dbl_val x < real (dbl_trunc x) + 1"
    by (simp_all add: x dbl_trunc_def dbl_val_def field_simps del: of_nat_le_iff of_nat_less_iff)
qed

section \<open>Signed doubles\<close>

type_synonym sdouble = "int \<times> nat"

definition sd_val :: "sdouble \<Rightarrow> real" where
  "sd_val x = of_int (fst x) / 2 ^ snd x"

text \<open>The rounded quotient of two integers, and the operations.\<close>

definition sd_div :: "int \<Rightarrow> nat \<Rightarrow> sdouble" where
  "sd_div n d = (case dbl_div (nat \<bar>n\<bar>) d of (m, s) \<Rightarrow> (sgn n * int m, s))"

definition sd_of :: "int \<Rightarrow> sdouble" where
  "sd_of i = sd_div i 1"

definition sd_add :: "sdouble \<Rightarrow> sdouble \<Rightarrow> sdouble" where
  "sd_add x y = sd_div (fst x * 2 ^ snd y + fst y * 2 ^ snd x) (2 ^ (snd x + snd y))"

definition sd_sub :: "sdouble \<Rightarrow> sdouble \<Rightarrow> sdouble" where
  "sd_sub x y = sd_add x (- fst y, snd y)"

definition sd_mul :: "sdouble \<Rightarrow> sdouble \<Rightarrow> sdouble" where
  "sd_mul x y = sd_div (fst x * fst y) (2 ^ (snd x + snd y))"

definition sd_quot :: "sdouble \<Rightarrow> sdouble \<Rightarrow> sdouble" where
  "sd_quot x y = sd_div (sgn (fst y) * fst x * 2 ^ snd y) (nat \<bar>fst y\<bar> * 2 ^ snd x)"

definition sd_abs :: "sdouble \<Rightarrow> sdouble" where
  "sd_abs x = (\<bar>fst x\<bar>, snd x)"

definition sd_less :: "sdouble \<Rightarrow> sdouble \<Rightarrow> bool" where
  "sd_less x y \<longleftrightarrow> fst x * 2 ^ snd y < fst y * 2 ^ snd x"

definition sd_eq :: "sdouble \<Rightarrow> sdouble \<Rightarrow> bool" where
  "sd_eq x y \<longleftrightarrow> fst x * 2 ^ snd y = fst y * 2 ^ snd x"

text \<open>\<^verbatim>\<open>std::max\<close>.\<close>

definition sd_max :: "sdouble \<Rightarrow> sdouble \<Rightarrow> sdouble" where
  "sd_max x y = (if sd_less x y then y else x)"

lemma sd_less_val: "sd_less x y \<longleftrightarrow> sd_val x < sd_val y"
proof -
  have "sd_val x < sd_val y \<longleftrightarrow> of_int (fst x) * 2 ^ snd y < (of_int (fst y) * 2 ^ snd x :: real)"
    by (simp add: sd_val_def divide_simps)
  also have "\<dots> \<longleftrightarrow> real_of_int (fst x * 2 ^ snd y) < real_of_int (fst y * 2 ^ snd x)" by simp
  also have "\<dots> \<longleftrightarrow> sd_less x y" by (simp only: of_int_less_iff sd_less_def)
  finally show ?thesis ..
qed

lemma sd_eq_val: "sd_eq x y \<longleftrightarrow> sd_val x = sd_val y"
proof -
  have "sd_val x = sd_val y \<longleftrightarrow> of_int (fst x) * 2 ^ snd y = (of_int (fst y) * 2 ^ snd x :: real)"
    by (simp add: sd_val_def divide_simps)
  also have "\<dots> \<longleftrightarrow> real_of_int (fst x * 2 ^ snd y) = real_of_int (fst y * 2 ^ snd x)" by simp
  also have "\<dots> \<longleftrightarrow> sd_eq x y" by (simp only: of_int_eq_iff sd_eq_def)
  finally show ?thesis ..
qed

lemma sd_abs_val: "sd_val (sd_abs x) = \<bar>sd_val x\<bar>"
  by (simp add: sd_abs_def sd_val_def)

lemma sd_max_val: "sd_val (sd_max x y) = max (sd_val x) (sd_val y)"
  by (simp add: sd_max_def sd_less_val max_def)

subsection \<open>A quotient depends on the ratio only\<close>

lemma round_div_scale: "0 < w \<Longrightarrow> round_div (n * w) (d * w) = round_div n d"
proof -
  assume w: "0 < w"
  have m: "n * w mod (d * w) = (n mod d) * w" by (rule mult_mod_left [symmetric])
  have "2 * ((n mod d) * w) < d * w \<longleftrightarrow> 2 * (n mod d) < d" "2 * ((n mod d) * w) = d * w \<longleftrightarrow> 2 * (n mod d) = d"
    using w mult_less_cancel2 [of "2 * (n mod d)" w d] mult_cancel2 [of "2 * (n mod d)" w d] by (simp_all add: mult.assoc)
  then show ?thesis using w by (simp add: round_div_def Let_def m)
qed

lemma dbl_scale_scale: "0 < w \<Longrightarrow> dbl_scale (n * w) (d * w) = dbl_scale n d"
proof (induction n d rule: dbl_scale.induct)
  case (1 n d)
  have c: "n * w = 0 \<or> d * w * 2 ^ 52 \<le> n * w \<longleftrightarrow> n = 0 \<or> d * 2 ^ 52 \<le> n"
    using 1(2) mult_le_cancel2 [of "d * 2 ^ 52" w n] by (simp add: ac_simps)
  show ?case
  proof (cases "n = 0 \<or> d * 2 ^ 52 \<le> n")
    case True
    then have "dbl_scale (n * w) (d * w) = 0" "dbl_scale n d = 0" using c by (simp_all only: dbl_scale.simps [of "n * w" "d * w"] dbl_scale.simps [of n d] if_True)
    then show ?thesis by simp
  next
    case False
    then have "dbl_scale (n * w) (d * w) = Suc (dbl_scale (2 * (n * w)) (d * w))" "dbl_scale n d = Suc (dbl_scale (2 * n) d)"
      using c by (simp_all only: dbl_scale.simps [of "n * w" "d * w"] dbl_scale.simps [of n d] if_False)
    then show ?thesis using 1(1) [OF False 1(2)] by (simp add: mult.assoc)
  qed
qed

lemma dbl_div_scale: "0 < w \<Longrightarrow> dbl_div (n * w) (d * w) = dbl_div n d"
proof -
  assume w: "0 < w"
  have less: "n * w < d * w * 2 ^ 53 \<longleftrightarrow> n < d * 2 ^ 53"
    using w mult_less_cancel2 [of n w "d * 2 ^ 53"] by (simp add: ac_simps)
  have r: "round_div (n * w * 2 ^ s) (d * w) = round_div (n * 2 ^ s) d" "round_div (n * w) (d * w * 2 ^ s) = round_div n (d * 2 ^ s)" for s
    using round_div_scale [OF w, of "n * 2 ^ s" d] round_div_scale [OF w, of n "d * 2 ^ s"] by (simp_all only: ac_simps)
  have "n * w div (d * w) = n div d" using w by simp
  then show ?thesis using w by (simp only: dbl_div_def less dbl_scale_scale r Let_def)
qed

lemma dbl_div_ratio:
  assumes "0 < d" and "0 < d'" and "n * d' = n' * d"
  shows "dbl_div n d = dbl_div n' d'"
proof -
  have "dbl_div n d = dbl_div (n * d') (d * d')" using assms(2) by (simp add: dbl_div_scale)
  also have "\<dots> = dbl_div (n' * d) (d' * d)" unfolding assms(3) by (simp only: mult.commute)
  also have "\<dots> = dbl_div n' d'" using assms(1) by (simp add: dbl_div_scale)
  finally show ?thesis .
qed

lemma sd_div_ratio:
  assumes "0 < d" and "0 < d'" and "of_int n / real d = of_int n' / real d'"
  shows "sd_div n d = sd_div n' d'"
proof -
  have "real_of_int (n * int d') = real_of_int (n' * int d)" using assms by (simp add: field_simps)
  then have e: "n * int d' = n' * int d" by (simp only: of_int_eq_iff)
  then have "int (nat \<bar>n\<bar> * d') = int (nat \<bar>n'\<bar> * d)" by (simp add: abs_mult) (metis abs_mult abs_of_nat)
  then have "dbl_div (nat \<bar>n\<bar>) d = dbl_div (nat \<bar>n'\<bar>) d'" using assms(1,2) by (intro dbl_div_ratio) (simp_all only: of_nat_eq_iff)
  moreover have "sgn n = sgn n'"
  proof -
    have "sgn (n * int d') = sgn (n' * int d)" by (simp only: e)
    then show ?thesis using assms(1,2) by (simp add: sgn_mult)
  qed
  ultimately show ?thesis by (simp add: sd_div_def)
qed

subsection \<open>Exact operations\<close>

lemma dbl_div_exact:
  assumes "k < 2 ^ 53"
  shows "sd_val (int (fst (dbl_div k (2 ^ j))), snd (dbl_div k (2 ^ j))) = real k / 2 ^ j"
proof (cases "k = 0")
  case True
  then show ?thesis by (simp add: dbl_div_def dbl_scale.simps round_div_def sd_val_def Let_def)
next
  case False
  define s where "s = dbl_scale k (2 ^ j)"
  have "2 ^ j * 2 ^ 52 \<le> k * 2 ^ s" using False dbl_scale_large [of k "2 ^ j"] by (simp add: s_def)
  also have "\<dots> < 2 ^ 53 * 2 ^ s" using assms by simp
  finally have "(2 :: nat) ^ (j + 52) < 2 ^ (53 + s)" by (simp add: power_add)
  then have "j + 52 < 53 + s" by (rule power_less_imp_less_exp [rotated]) simp
  then have "j \<le> s" by simp
  then have "k * 2 ^ s = k * 2 ^ (s - j) * 2 ^ j" by (simp add: mult.assoc flip: power_add)
  then have "round_div (k * 2 ^ s) (2 ^ j) = round_div (k * 2 ^ (s - j) * 2 ^ j) (1 * 2 ^ j)" by (simp only: mult_1)
  also have "\<dots> = k * 2 ^ (s - j)" by (simp only: round_div_scale zero_less_power zero_less_numeral) (simp add: round_div_def)
  finally have "round_div (k * 2 ^ s) (2 ^ j) = k * 2 ^ (s - j)" .
  moreover have "k < 2 ^ j * 2 ^ 53"
  proof -
    have "k * 1 < 2 ^ 53 * 2 ^ j" using assms by (intro mult_less_le_imp_less) simp_all
    then show ?thesis by (simp add: mult.commute)
  qed
  ultimately have "dbl_div k (2 ^ j) = (k * 2 ^ (s - j), s)" by (simp add: dbl_div_def s_def Let_def)
  moreover have "(2 :: real) ^ s = 2 ^ (s - j) * 2 ^ j" using \<open>j \<le> s\<close> by (simp flip: power_add)
  ultimately show ?thesis by (simp add: sd_val_def)
qed

lemma sd_div_exact:
  assumes "0 < d" and "of_int n / real d = of_int k / 2 ^ j" and "\<bar>k\<bar> < 2 ^ 53"
  shows "sd_val (sd_div n d) = of_int k / 2 ^ j"
proof -
  have "sd_div n d = sd_div k (2 ^ j)" using assms(1,2) by (intro sd_div_ratio) simp_all
  moreover have "nat \<bar>k\<bar> < 2 ^ 53" using assms(3) by (simp add: nat_less_iff)
  then have "sd_val (int (fst (dbl_div (nat \<bar>k\<bar>) (2 ^ j))), snd (dbl_div (nat \<bar>k\<bar>) (2 ^ j))) = \<bar>of_int k\<bar> / 2 ^ j"
    using dbl_div_exact [of "nat \<bar>k\<bar>" j] by simp
  ultimately show ?thesis
    by (cases "dbl_div (nat \<bar>k\<bar>) (2 ^ j)") (auto simp: sd_div_def sd_val_def sgn_if abs_if field_simps split: if_splits)
qed

lemma sd_of_exact: "\<bar>i\<bar> < 2 ^ 53 \<Longrightarrow> sd_val (sd_of i) = of_int i"
  using sd_div_exact [of 1 i i 0] by (simp add: sd_of_def)

lemma sd_add_exact:
  assumes "sd_val x + sd_val y = of_int k / 2 ^ j" and "\<bar>k\<bar> < 2 ^ 53"
  shows "sd_val (sd_add x y) = of_int k / 2 ^ j"
proof -
  have "of_int (fst x * 2 ^ snd y + fst y * 2 ^ snd x) / real (2 ^ (snd x + snd y)) = sd_val x + sd_val y"
    by (simp add: sd_val_def power_add add_divide_distrib)
  then show ?thesis unfolding sd_add_def using assms by (intro sd_div_exact) simp_all
qed

lemma sd_sub_exact:
  assumes "sd_val x - sd_val y = of_int k / 2 ^ j" and "\<bar>k\<bar> < 2 ^ 53"
  shows "sd_val (sd_sub x y) = of_int k / 2 ^ j"
proof -
  have "sd_val (- fst y, snd y) = - sd_val y" by (simp add: sd_val_def)
  then show ?thesis unfolding sd_sub_def using assms by (intro sd_add_exact) simp_all
qed

lemma sd_mul_exact:
  assumes "sd_val x * sd_val y = of_int k / 2 ^ j" and "\<bar>k\<bar> < 2 ^ 53"
  shows "sd_val (sd_mul x y) = of_int k / 2 ^ j"
proof -
  have "of_int (fst x * fst y) / real (2 ^ (snd x + snd y)) = sd_val x * sd_val y"
    by (simp add: sd_val_def power_add)
  then show ?thesis unfolding sd_mul_def using assms by (intro sd_div_exact) simp_all
qed

lemma sd_quot_numerator:
  assumes "fst y \<noteq> 0"
  shows "of_int (sgn (fst y) * fst x * 2 ^ snd y) / real (nat \<bar>fst y\<bar> * 2 ^ snd x) = sd_val x / sd_val y"
  using assms by (auto simp: sd_val_def sgn_if abs_if field_simps)

lemma sd_val_zero: "sd_val y \<noteq> 0 \<longleftrightarrow> fst y \<noteq> 0"
  by (simp add: sd_val_def)

lemma sd_quot_exact:
  assumes "sd_val y \<noteq> 0" and "sd_val x / sd_val y = of_int k / 2 ^ j" and "\<bar>k\<bar> < 2 ^ 53"
  shows "sd_val (sd_quot x y) = of_int k / 2 ^ j"
  unfolding sd_quot_def using assms sd_quot_numerator [of y x] by (intro sd_div_exact) (simp_all add: sd_val_zero)

lemma sd_quot_ratio:
  assumes "sd_val y \<noteq> 0" and "sd_val y' \<noteq> 0" and "sd_val x / sd_val y = sd_val x' / sd_val y'"
  shows "sd_quot x y = sd_quot x' y'"
  unfolding sd_quot_def using assms sd_quot_numerator [of y x] sd_quot_numerator [of y' x']
  by (intro sd_div_ratio) (simp_all add: sd_val_zero)

end
