(* ===== verification/Paced_Server.thy ===== *)
theory Paced_Server
  imports Udp_Server Double_Arith
begin

text \<open>
  The pacing of \<^verbatim>\<open>UdpServer::replay_file\<close> (\<^verbatim>\<open>src/udp_server.cpp\<close>) and the program
  \<^verbatim>\<open>replay_server\<close> (\<^verbatim>\<open>src/replay_server_main.cpp\<close>). The speed is a \<^verbatim>\<open>double\<close>, 0 for
  anything not positive; the readings of the clock and the outcomes of the sends are arguments; what
  the thread sleeps is recorded. Shown: pacing decides only when datagrams are cut, so a paced file is
  sent like an unpaced one; at any speed from 1 up no message is sent more than 0.2 milliseconds
  early; at a positive speed below 1 the code divides by zero.
\<close>

section \<open>Pacing\<close>

text \<open>
  The pause before a message, with the first timestamp seen so far: first the scaled wall time, whose
  conversion must fit 64 bits, then the quotient by the truncated speed, which must not be 0.
  \<^const>\<open>None\<close> is undefined behaviour.
\<close>

definition wall_scaled :: "dyadic \<Rightarrow> u64 \<Rightarrow> nat" where
  "wall_scaled speed since = dbl_trunc (dbl_mul (dbl_of (unat since)) speed)"

definition pace_sleep :: "dyadic \<Rightarrow> u64 \<Rightarrow> u64 \<Rightarrow> u64 option" where
  "pace_sleep speed since file_elapsed =
     (if wall_scaled speed since \<ge> 2 ^ 64 then None
      else let wall_elapsed = of_nat (wall_scaled speed since) in
        if file_elapsed > wall_elapsed then
          if dbl_trunc speed = 0 \<or> dbl_trunc speed \<ge> 2 ^ 64 then None
          else let sleep_ns = (file_elapsed - wall_elapsed) div of_nat (dbl_trunc speed)
               in Some (if sleep_ns > 200000 then sleep_ns else 0)
        else Some 0)"

text \<open>The nanoseconds go to \<^verbatim>\<open>sleep_for\<close> as a signed count: half the range is negative and no sleep.\<close>

definition slept :: "u64 \<Rightarrow> u64" where
  "slept sleep_ns = (if sint sleep_ns \<le> 0 then 0 else sleep_ns)"

definition pace :: "dyadic \<Rightarrow> u64 \<Rightarrow> bytes \<Rightarrow> u64 option \<Rightarrow> (u64 \<times> u64 option) option" where
  "pace speed since m first_ts =
     (if fst speed > 0 \<and> length m \<ge> 11 then
        let msg_ts = be48 (drop 5 m); first = (case first_ts of None \<Rightarrow> msg_ts | Some ts \<Rightarrow> ts)
        in map_option (\<lambda>sleep_ns. (sleep_ns, Some first)) (pace_sleep speed since (msg_ts - first))
      else Some (0, first_ts))"

section \<open>The file\<close>

text \<open>For message \<open>i\<close>: the time since the start when it is paced, and the outcomes of the two sends it may cause.\<close>

type_synonym server_env = "nat \<Rightarrow> u64 \<times> bool \<times> bool"

function paced_loop ::
    "dyadic \<Rightarrow> server_env \<Rightarrow> nat \<Rightarrow> bytes \<Rightarrow> u64 option \<Rightarrow> u64 list \<Rightarrow> UdpServer \<Rightarrow> (UdpServer \<times> u64 list) option" where
  "paced_loop speed env i f first_ts sleeps s =
     (if length f < 2 then Some (s, sleeps)
      else let msg_len = be16 f; f = drop 2 f
      in if msg_len = 0 \<or> unat msg_len > MAX_MSG_SIZE then Some (s, sleeps)
         else if length f < unat msg_len then Some (s, sleeps)
         else case env i of (since, flushed, sent) \<Rightarrow>
           (case pace speed since (take (unat msg_len) f) first_ts of None \<Rightarrow> None
            | Some (sleep_ns, first_ts) \<Rightarrow>
                let s = (if sleep_ns > 2000000 then snd (server_flush flushed s) else s)
                in case send_message sent (take (unat msg_len) f) msg_len s of None \<Rightarrow> None
                   | Some (ok, s) \<Rightarrow>
                       paced_loop speed env (Suc i) (drop (unat msg_len) f) first_ts (sleeps @ [slept sleep_ns]) s))"
  by pat_completeness auto

termination
  by (relation "measure (\<lambda>(speed, env, i, f, first_ts, sleeps, s). length f)") auto

declare paced_loop.simps [simp del]

definition paced_replay_file :: "dyadic \<Rightarrow> server_env \<Rightarrow> bool \<Rightarrow> bytes option \<Rightarrow> UdpServer \<Rightarrow> (UdpServer \<times> u64 list) option" where
  "paced_replay_file speed env last_sent file s =
     (case file of None \<Rightarrow> Some (s, [])
      | Some f \<Rightarrow> map_option (\<lambda>(s, sleeps). (snd (server_flush last_sent s), sleeps)) (paced_loop speed env 0 f None [] s))"

section \<open>The program\<close>

text \<open>The exit code, the server and the descriptors when \<^verbatim>\<open>main\<close> returns, after the destructor.\<close>

definition replay_server_main ::
    "int \<Rightarrow> dyadic \<Rightarrow> server_env \<Rightarrow> bool \<Rightarrow> bytes option \<Rightarrow> int set \<Rightarrow> (int \<times> UdpServer \<times> int set) option" where
  "replay_server_main fd speed env last_sent file fds =
     (case server_init fd (Some 0x7F000001) 12001 (UdpServer_new, fds) of (ok, s, fds) \<Rightarrow>
        if \<not> ok then Some (1, server_close last_sent (s, fds))
        else map_option (\<lambda>(s, sleeps). (0, server_close last_sent (s, fds))) (paced_replay_file speed env last_sent file s))"

definition server_stats :: "UdpServer \<Rightarrow> string list" where
  "server_stats s =
     [newline @ ''Stats:'' @ newline,
      ''  Packets sent : '' @ dec_text (unat (us_packets_sent s)) @ newline,
      ''  Messages sent : '' @ dec_text (unat (us_messages_sent s)) @ newline,
      ''  Bytes sent   : '' @ fixed1 (dbl_quot (dbl_of (unat (us_bytes_sent s))) (10 ^ 9, 0)) @ '' GB'' @ newline]"

section \<open>Pacing only cuts datagrams\<close>

lemma replay_loop_cong:
  "(\<And>j. i \<le> j \<Longrightarrow> env j = env' j) \<Longrightarrow> replay_file_loop env i f s = replay_file_loop env' i f s"
proof (induction env i f s rule: replay_file_loop.induct)
  case (1 env i f s)
  have "env i = env' i" using 1(2) by simp
  then show ?case
    using 1 by (subst (1 2) replay_file_loop.simps) (auto simp: Let_def split: prod.splits option.splits)
qed

lemma paced_loop_refines:
  "paced_loop speed env i f first_ts sleeps s = Some (s', sleeps') \<Longrightarrow>
   \<exists>pauses. replay_file_loop (\<lambda>j. (pauses j, snd (env j))) i f s = Some s'"
proof (induction speed env i f first_ts sleeps s rule: paced_loop.induct)
  case (1 speed env i f first_ts sleeps s)
  define n where "n = unat (be16 f)"
  show ?case
  proof (cases "length f < 2 \<or> be16 f = 0 \<or> n > MAX_MSG_SIZE \<or> length (drop 2 f) < n")
    case True
    then have "s' = s" using 1(2) by (subst (asm) paced_loop.simps) (auto simp: Let_def n_def split: if_splits)
    then show ?thesis using True by (subst replay_file_loop.simps) (auto simp: Let_def n_def)
  next
    case False
    obtain since flushed sent where env: "env i = (since, flushed, sent)" by (cases "env i")
    obtain sleep_ns ts where p: "pace speed since (take n (drop 2 f)) first_ts = Some (sleep_ns, ts)"
      using 1(2) False by (subst (asm) paced_loop.simps) (auto simp: Let_def env n_def split: option.splits)
    define t where "t = (if sleep_ns > 2000000 then snd (server_flush flushed s) else s)"
    obtain ok u where u: "send_message sent (take n (drop 2 f)) (be16 f) t = Some (ok, u)"
      using 1(2) False p by (subst (asm) paced_loop.simps) (auto simp: Let_def env n_def t_def split: option.splits)
    have rest: "paced_loop speed env (Suc i) (drop n (drop 2 f)) ts (sleeps @ [slept sleep_ns]) u = Some (s', sleeps')"
      using 1(2) False p u by (subst (asm) paced_loop.simps) (simp add: Let_def env n_def t_def)
    obtain pauses where pauses: "replay_file_loop (\<lambda>j. (pauses j, snd (env j))) (Suc i) (drop n (drop 2 f)) u = Some s'"
      using 1(1) [OF _ refl refl] False env p u rest unfolding n_def t_def by fastforce
    define pauses' where "pauses' = pauses(i := sleep_ns > 2000000)"
    have "replay_file_loop (\<lambda>j. (pauses' j, snd (env j))) (Suc i) (drop n (drop 2 f)) u = Some s'"
      unfolding pauses [symmetric] by (rule replay_loop_cong) (simp add: pauses'_def)
    moreover have "replay_file_loop (\<lambda>j. (pauses' j, snd (env j))) i f s =
        replay_file_loop (\<lambda>j. (pauses' j, snd (env j))) (Suc i) (drop n (drop 2 f)) u"
      using False u by (subst replay_file_loop.simps) (simp add: Let_def env n_def t_def pauses'_def)
    ultimately show ?thesis by (intro exI [of _ pauses']) simp
  qed
qed

lemma paced_file_refines:
  assumes "paced_replay_file speed env last_sent file s = Some (s', sleeps)"
  shows "\<exists>pauses. replay_file (\<lambda>j. (pauses j, snd (env j))) last_sent file s = Some s'"
proof (cases "file")
  case (Some f)
  then obtain t where t: "paced_loop speed env 0 f None [] s = Some (t, sleeps)" "s' = snd (server_flush last_sent t)"
    using assms by (auto simp: paced_replay_file_def)
  then show ?thesis using paced_loop_refines [OF t(1)] by (auto simp: Some replay_file_def)
qed (use assms in \<open>simp add: paced_replay_file_def replay_file_def\<close>)

section \<open>The scaled clock\<close>

text \<open>Up to \<open>2^51\<close> nanoseconds, 26 days, the scaled wall time exceeds the exact product by at most the speed.\<close>

lemma wall_scaled_above:
  assumes "unat since < 2 ^ 51"
  shows "real (wall_scaled speed since) \<le> (real (unat since) + 1) * dbl_val speed"
proof -
  define e where "e = real (unat since)"
  define r :: real where "r = 1 + 1 / 2 ^ 53"
  obtain m s where of: "dbl_of (unat since) = (m, s)" by (cases "dbl_of (unat since)")
  obtain n t where sp: "speed = (n, t)" by (cases speed)
  have e: "0 \<le> e" "e \<le> 2 ^ 51"
  proof -
    have "real (unat since) \<le> real (2 ^ 51)" using assms by (intro of_nat_mono) simp
    then show "e \<le> 2 ^ 51" by (simp add: e_def)
    show "0 \<le> e" unfolding e_def by (rule of_nat_0_le_iff)
  qed
  have "dbl_val (m, s) \<le> e * r" using dbl_div_above [of 1 "unat since"] of by (simp add: dbl_of_def e_def r_def)
  then have ms: "real m / 2 ^ s \<le> e * r" by (simp add: dbl_val_def)
  have "real (wall_scaled speed since) \<le> dbl_val (dbl_div (m * n) (2 ^ (s + t)))"
    using dbl_trunc_val(1) [of "dbl_div (m * n) (2 ^ (s + t))"] by (simp add: wall_scaled_def of sp dbl_mul_def)
  also have "\<dots> \<le> real (m * n) / real (2 ^ (s + t)) * r" unfolding r_def by (rule dbl_div_above) simp
  also have "\<dots> = (real m / 2 ^ s) * (dbl_val speed * r)" by (simp add: sp dbl_val_def power_add)
  also have "\<dots> \<le> (e * r) * (dbl_val speed * r)" using ms by (intro mult_right_mono) (simp_all add: dbl_val_nonneg r_def)
  also have "\<dots> = (e * (r * r)) * dbl_val speed" by (simp add: algebra_simps)
  also have "\<dots> \<le> (e + 1) * dbl_val speed"
  proof (intro mult_right_mono dbl_val_nonneg)
    define \<delta> :: real where "\<delta> = 1 / 2 ^ 52 + 1 / 2 ^ 106"
    have "r * r = 1 + \<delta>" by (simp add: r_def \<delta>_def field_simps)
    then have "e * (r * r) = e + e * \<delta>" by (simp only: distrib_left mult_1_right)
    moreover have "e * \<delta> \<le> 2 ^ 51 * \<delta>" using e(2) by (rule mult_right_mono) (simp add: \<delta>_def)
    moreover have "2 ^ 51 * \<delta> \<le> 1" by (simp add: \<delta>_def)
    ultimately show "e * (r * r) \<le> e + 1" by linarith
  qed
  finally show ?thesis by (simp add: e_def)
qed

section \<open>No message is early\<close>

lemma trunc_word: "k < 2 ^ 64 \<Longrightarrow> unat (of_nat k :: u64) = k"
  by (simp add: unat_of_nat)

lemma pace_sleep_not_early:
  assumes "pace_sleep speed since file_elapsed = Some sleep_ns" and "unat since < 2 ^ 51"
  shows "real (unat file_elapsed) \<le> (real (unat since) + real (unat sleep_ns) + 200002) * dbl_val speed"
proof -
  define e where "e = real (unat since)"
  define \<sigma> where "\<sigma> = dbl_val speed"
  define W where "W = wall_scaled speed since"
  define F where "F = unat file_elapsed"
  have W: "W < 2 ^ 64" "real W \<le> (e + 1) * \<sigma>"
    using assms(1) wall_scaled_above [OF assms(2)] by (auto simp: pace_sleep_def W_def e_def \<sigma>_def split: if_splits)
  have \<sigma>: "0 \<le> \<sigma>" by (simp add: \<sigma>_def dbl_val_nonneg)
  have nonneg: "0 \<le> real (unat sleep_ns)" by (rule of_nat_0_le_iff)
  show ?thesis
  proof (cases "F \<le> W")
    case True
    have "real F \<le> (e + 1) * \<sigma>" using True W(2) by linarith
    also have "\<dots> \<le> (e + real (unat sleep_ns) + 200002) * \<sigma>" using nonneg by (intro mult_right_mono \<sigma>) linarith
    finally show ?thesis by (simp add: F_def e_def \<sigma>_def)
  next
    case False
    then have gt: "file_elapsed > of_nat W" using trunc_word [OF W(1)] by (simp add: word_less_nat_alt F_def)
    define d where "d = dbl_trunc speed"
    have d: "0 < d" "d < 2 ^ 64" "real d \<le> \<sigma>"
      using assms(1) gt dbl_trunc_val(1) [of speed] by (auto simp: pace_sleep_def W_def d_def \<sigma>_def Let_def split: if_splits)
    define q where "q = (file_elapsed - of_nat W) div of_nat d"
    have sleep: "sleep_ns = (if q > 200000 then q else 0)"
      using assms(1) gt W(1) d by (simp add: pace_sleep_def W_def [symmetric] d_def [symmetric] q_def Let_def split: if_splits)
    have q: "unat q = (F - W) div d"
      using gt trunc_word [OF W(1)] trunc_word [OF d(2)] by (simp add: q_def unat_div unat_sub F_def less_imp_le)
    have "F - W < ((F - W) div d + 1) * d" using dividend_less_div_times [OF d(1), of "F - W"] by simp
    then have "F < W + (unat q + 1) * d" using False by (simp add: q)
    then have "real F < real (W + (unat q + 1) * d)" by (simp only: of_nat_less_iff)
    then have "real F \<le> real W + (real (unat q) + 1) * real d" by (simp add: algebra_simps)
    also have "\<dots> \<le> (e + 1) * \<sigma> + (real (unat q) + 1) * \<sigma>" using of_nat_0_le_iff [of "unat q", where 'a = real]
      by (intro add_mono mult_left_mono W(2) d(3)) linarith
    also have "\<dots> = (e + real (unat q) + 2) * \<sigma>" by (simp add: algebra_simps)
    also have "\<dots> \<le> (e + real (unat sleep_ns) + 200002) * \<sigma>"
    proof (intro mult_right_mono \<sigma>)
      have "real (unat q) \<le> real (unat sleep_ns) + 200000"
      proof (cases "q > 200000")
        case False
        then have "unat q \<le> 200000" by (simp add: not_less word_le_nat_alt)
        then have "real (unat q) \<le> 200000" by (metis of_nat_mono of_nat_numeral)
        then show ?thesis using nonneg by linarith
      qed (simp add: sleep)
      then show "e + real (unat q) + 2 \<le> e + real (unat sleep_ns) + 200002" by simp
    qed
    finally show ?thesis by (simp add: F_def e_def \<sigma>_def)
  qed
qed

text \<open>Timestamps have 48 bits, so between two that are in order the count is positive.\<close>

lemma slept_small: "unat w < 2 ^ 63 \<Longrightarrow> slept w = w"
proof -
  assume w: "unat w < 2 ^ 63"
  then have "uint w < 2 ^ 63" by (metis of_nat_less_iff of_nat_numeral of_nat_power uint_nat)
  then have "sint w = uint w" by (simp add: sint_uint signed_take_bit_int_eq_self_iff order_trans [OF _ uint_ge_0])
  then show ?thesis by (simp add: slept_def unsigned_eq_0_iff)
qed

lemma pace_sleep_le: "pace_sleep speed since file_elapsed = Some sleep_ns \<Longrightarrow> sleep_ns \<le> file_elapsed"
proof -
  assume a: "pace_sleep speed since file_elapsed = Some sleep_ns"
  define w :: u64 where "w = of_nat (wall_scaled speed since)"
  show ?thesis
  proof (cases "file_elapsed > w")
    case True
    have w: "unat (file_elapsed - w) = unat file_elapsed - unat w" using True by (intro unat_sub) simp
    have "(file_elapsed - w) div d \<le> file_elapsed" for d
      unfolding word_le_nat_alt unat_div w by (rule order_trans [OF div_le_dividend diff_le_self])
    then show ?thesis using a by (auto simp: pace_sleep_def w_def [symmetric] Let_def split: if_splits)
  next
    case False
    then show ?thesis using a by (auto simp: pace_sleep_def w_def [symmetric] Let_def split: if_splits)
  qed
qed

text \<open>
  C20. A paced server is never early. Whenever the pacing of a message is defined, at any speed, its
  timestamp is not before the first one and the replay has run for less than \<open>2^51\<close> nanoseconds, the
  feed time from the first message to this one, divided by the speed, is at most the wall time that
  has passed once the server has slept, plus 0.200002 milliseconds, whatever the rounding of the
  doubles and the truncation of the speed do.
\<close>

theorem paced_server_is_never_early:
  assumes "pace speed since m first_ts = Some (sleep_ns, Some ts)" and "fst speed > 0" and "length m \<ge> 11"
    and "ts \<le> be48 (drop 5 m)" and "unat since < 2 ^ 51"
  shows "real (unat (be48 (drop 5 m)) - unat ts) / dbl_val speed \<le> real (unat since) + real (unat (slept sleep_ns)) + 200002"
proof -
  define file_elapsed where "file_elapsed = be48 (drop 5 m) - ts"
  have p: "pace_sleep speed since file_elapsed = Some sleep_ns"
    using assms(1-3) by (auto simp: pace_def file_elapsed_def Let_def)
  have f: "unat file_elapsed = unat (be48 (drop 5 m)) - unat ts" using assms(4) by (simp add: file_elapsed_def unat_sub)
  have "6 \<le> length (drop 5 m)" using assms(3) by simp
  then have "unat sleep_ns < 2 ^ 63"
    using pace_sleep_le [OF p] be48_range [of "drop 5 m"] f by (simp add: word_le_nat_alt word_less_nat_alt)
  moreover have "0 < dbl_val speed" using assms(2) by (simp add: dbl_val_def)
  ultimately show ?thesis using pace_sleep_not_early [OF p assms(5)] f by (simp add: divide_le_eq slept_small)
qed

text \<open>A message five milliseconds into the feed, at the start of the replay.\<close>

definition five_ms :: bytes where
  "five_ms = replicate 5 0 @ be_bytes 6 (5000000 :: u64)"

lemma five_ms_fields: "length five_ms = 11" "be48 (drop 5 five_ms) = 5000000"
  by (simp_all add: five_ms_def) code_simp

lemma wall_scaled_start: "wall_scaled speed 0 = 0"
  by (cases speed) (simp add: wall_scaled_def dbl_of_def dbl_mul_def dbl_trunc_def dbl_div_def dbl_scale.simps round_div_def)

lemma five_ms_pace: "pace (3, 1) 0 five_ms (Some 0) = Some (5000000, Some 0)"
  by (simp add: pace_def five_ms_fields pace_sleep_def wall_scaled_start dbl_trunc_def Let_def)

theorem paced_server_is_never_early_witness: "real (unat (5000000 :: u64)) / dbl_val (3, 1) \<le> 5000000 + 200002"
proof -
  have "slept 5000000 = 5000000" by (simp add: slept_small)
  then show ?thesis using paced_server_is_never_early [OF five_ms_pace] by (simp add: five_ms_fields)
qed

text \<open>
  A timestamp one nanosecond before the first one wraps: at twice real time the server then sleeps
  for 292 years.
\<close>

lemma early_timestamp_never_wakes:
  assumes "length m \<ge> 11" and "be48 (drop 5 m) = ts - 1"
  shows "pace (2, 0) 0 m (Some ts) = Some (0x7FFFFFFFFFFFFFFF, Some ts) \<and> slept 0x7FFFFFFFFFFFFFFF = 0x7FFFFFFFFFFFFFFF"
  using assms by (simp add: pace_def pace_sleep_def wall_scaled_start dbl_trunc_def slept_small Let_def word_gt_0)

text \<open>
  A slow replay divides by zero. At any speed strictly between 0 and 1 the speed is truncated to
  the integer 0 and used as a divisor: as soon as a message is ahead of the scaled clock, which the
  first later one is, the behaviour is undefined.
\<close>

lemma slow_replay_divides_by_zero:
  assumes "0 < fst speed" and "fst speed < 2 ^ snd speed" and "length m \<ge> 11"
    and "be48 (drop 5 m) - ts > of_nat (wall_scaled speed since)"
  shows "pace speed since m (Some ts) = None"
proof -
  have "dbl_trunc speed = 0" using assms(2) by (cases speed) (simp add: dbl_trunc_def)
  then show ?thesis using assms(1,3,4) by (auto simp: pace_def pace_sleep_def Let_def)
qed

section \<open>A paced file is sent whole\<close>

text \<open>Unpaced, or a speed from 1 up to 1024.\<close>

definition speed_ok :: "dyadic \<Rightarrow> bool" where
  "speed_ok speed \<longleftrightarrow> fst speed = 0 \<or> (2 ^ snd speed \<le> fst speed \<and> fst speed \<le> 1024 * 2 ^ snd speed)"

lemma pace_defined:
  assumes "speed_ok speed" and "unat since < 2 ^ 51"
  shows "pace speed since m first_ts \<noteq> None"
proof (cases "fst speed = 0")
  case False
  obtain n t where sp: "speed = (n, t)" by (cases speed)
  have n: "2 ^ t \<le> n" "n \<le> 1024 * 2 ^ t" using assms(1) False by (simp_all add: speed_ok_def sp)
  then have whole: "1 \<le> dbl_trunc speed" "dbl_trunc speed \<le> 1024"
    using div_le_mono [OF n(1), of "2 ^ t"] div_le_mono [OF n(2), of "2 ^ t"] by (simp_all add: sp dbl_trunc_def)
  have "real n \<le> real (1024 * 2 ^ t)" using n(2) by (simp only: of_nat_le_iff)
  then have v: "dbl_val speed \<le> 1024" by (simp add: sp dbl_val_def divide_le_eq)
  have "real (unat since + 1) \<le> real (2 ^ 51)" using assms(2) by (intro of_nat_mono) simp
  then have e: "real (unat since) + 1 \<le> 2 ^ 51" by simp
  have "real (wall_scaled speed since) \<le> (real (unat since) + 1) * dbl_val speed" by (rule wall_scaled_above [OF assms(2)])
  also have "\<dots> \<le> 2 ^ 51 * 1024" using e v by (intro mult_mono) (simp_all add: dbl_val_nonneg)
  finally have "real (wall_scaled speed since) < real (2 ^ 64)" by simp
  then have "wall_scaled speed since < 2 ^ 64" by (simp only: of_nat_less_iff)
  then have "pace_sleep speed since elapsed \<noteq> None" for elapsed using whole by (simp add: pace_sleep_def Let_def)
  then show ?thesis by (simp add: pace_def Let_def)
qed (simp add: pace_def)

lemma paced_loop_returns:
  "speed_ok speed \<Longrightarrow> (\<And>i. snd (env i) = (True, True)) \<Longrightarrow> (\<And>i. unat (fst (env i)) < 2 ^ 51) \<Longrightarrow> server_rep s batches batch \<Longrightarrow>
   paced_loop speed env i f first_ts sleeps s \<noteq> None"
proof (induction "length f" arbitrary: i f first_ts sleeps s batches batch rule: less_induct)
  case less
  define n where "n = unat (be16 f)"
  show ?case
  proof (cases "length f < 2 \<or> be16 f = 0 \<or> n > MAX_MSG_SIZE \<or> length (drop 2 f) < n")
    case True
    then show ?thesis by (subst paced_loop.simps) (auto simp: Let_def n_def)
  next
    case False
    define m where "m = take n (drop 2 f)"
    have m: "message_ok m" "length m \<le> MAX_MSG_SIZE" "of_nat (length m) = be16 f"
      using False by (auto simp: m_def n_def message_ok_def MAX_MSG_SIZE_def unat_gt_0)
    obtain since where env: "env i = (since, True, True)" "unat since < 2 ^ 51"
      using less.prems(2,3) by (metis prod.collapse)
    obtain sleep_ns ts where p: "pace speed since m first_ts = Some (sleep_ns, ts)"
      using pace_defined [OF less.prems(1) env(2)] by (metis not_Some_eq surj_pair)
    define t where "t = (if sleep_ns > 2000000 then snd (server_flush True s) else s)"
    obtain bs b where t: "server_rep t bs b" using less.prems(4) flush_rep(2) [OF less.prems(4)]
      by (cases "sleep_ns > 2000000") (simp_all only: t_def if_True if_False)
    obtain u bs' b' where u: "send_message True m (be16 f) t = Some (True, u)" "server_rep u bs' b'"
      using send_rep [OF t m(1,2)] m(3) by auto
    have "paced_loop speed env (Suc i) (drop n (drop 2 f)) ts (sleeps @ [slept sleep_ns]) u \<noteq> None"
      using False by (intro less.hyps [OF _ less.prems(1-3) u(2)]) (auto simp: not_less)
    moreover have "paced_loop speed env i f first_ts sleeps s = paced_loop speed env (Suc i) (drop n (drop 2 f)) ts (sleeps @ [slept sleep_ns]) u"
      using False p u(1) by (subst paced_loop.simps) (simp add: Let_def env n_def m_def t_def)
    ultimately show ?thesis by simp
  qed
qed

text \<open>
  C19. Pacing does not change what is sent. At full speed or any speed from 1 to 1024, for a replay of
  less than \<open>2^51\<close> nanoseconds in which every send succeeds, \<^verbatim>\<open>replay_file\<close>, called on a server that has sent nothing, returns and its
  datagrams carry exactly the messages of the file, in order and numbered from 1 without holes,
  whatever the clock and the timestamps make it pause.
\<close>

theorem paced_file_is_sent:
  assumes "speed_ok speed" and "\<And>i. snd (env i) = (True, True)" and "\<And>i. unat (fst (env i)) < 2 ^ 51"
    and "server_rep s0 [] []"
  shows "\<exists>s sleeps batches. paced_replay_file speed env True (Some f) s0 = Some (s, sleeps) \<and>
     us_wire s = stamped 1 batches \<and> list_all batch_ok batches \<and> concat batches = server_messages f"
proof -
  have "paced_loop speed env 0 f None [] s0 \<noteq> None" by (rule paced_loop_returns [OF assms])
  then obtain s sleeps where s: "paced_replay_file speed env True (Some f) s0 = Some (s, sleeps)"
    by (auto simp: paced_replay_file_def)
  then obtain pauses where "replay_file (\<lambda>j. (pauses j, snd (env j))) True (Some f) s0 = Some s"
    using paced_file_refines by blast
  then show ?thesis using replay_file_law [of "\<lambda>j. (pauses j, snd (env j))" s0 f] assms(2,4) s by auto
qed

text \<open>Two messages at twice real time.\<close>

theorem paced_file_is_sent_witness:
  "\<exists>s sleeps batches. paced_replay_file (2, 0) (\<lambda>i. (0, True, True)) True (Some (frame [1, 2] @ frame five_ms)) UdpServer_new = Some (s, sleeps) \<and>
     us_wire s = stamped 1 batches \<and> list_all batch_ok batches \<and> concat batches = [[1, 2], five_ms]"
proof -
  have "server_messages (frame [1, 2] @ frame five_ms) = [[1, 2], five_ms]" by code_simp
  then show ?thesis using paced_file_is_sent [OF _ _ _ server_rep_new, of "(2, 0)" "\<lambda>i. (0, True, True)" "frame [1, 2] @ frame five_ms"]
    by (simp add: speed_ok_def)
qed

section \<open>The program sends the file\<close>

text \<open>What the program has put on the wire is what its replay of the file put there.\<close>

lemma replay_server_wire:
  assumes "replay_server_main fd speed env True (Some f) fds = Some (0, server, fds')"
  shows "\<exists>s0 pauses s. server_rep s0 [] [] \<and> replay_file (\<lambda>j. (pauses j, snd (env j))) True (Some f) s0 = Some s \<and>
     us_wire server = us_wire s"
proof -
  define s0 where "s0 = UdpServer_new\<lparr>us_sock := fd, us_target := (0x7F000001, 12001)\<rparr>"
  obtain s sleeps where s: "paced_replay_file speed env True (Some f) s0 = Some (s, sleeps)"
    "server = fst (server_close True (s, insert fd fds))"
    using assms by (auto simp: replay_server_main_def server_init_def s0_def Let_def split: if_splits)
  obtain t where "s = snd (server_flush True t)" using s(1) by (auto simp: paced_replay_file_def)
  then have "us_packet_msgs s = 0" by (simp add: server_flush_def Let_def)
  then have "us_wire server = us_wire s" unfolding s(2) by (simp add: server_close_def server_flush_def)
  moreover have "server_rep s0 [] []" by (simp add: s0_def server_rep_def UdpServer_new_def)
  ultimately show ?thesis using paced_file_refines [OF s(1)] by blast
qed

text \<open>The program leaves no descriptor open.\<close>

lemma flush_sock: "us_sock (snd (server_flush b s)) = us_sock s"
  by (simp add: server_flush_def Let_def)

lemma send_sock: "send_message b m len s = Some (ok, s') \<Longrightarrow> us_sock s' = us_sock s"
  using flush_sock [of b s]
  by (cases "server_flush b s") (auto simp: send_message_def Let_def split: if_splits option.splits)

lemma replay_loop_sock: "replay_file_loop env i f s = Some s' \<Longrightarrow> us_sock s' = us_sock s"
proof (induction "length f" arbitrary: i f s rule: less_induct)
  case less
  define n where "n = unat (be16 f)"
  show ?case
  proof (cases "length f < 2 \<or> be16 f = 0 \<or> n > MAX_MSG_SIZE \<or> length (drop 2 f) < n")
    case True
    then have "s' = s" using less.prems by (subst (asm) replay_file_loop.simps) (auto simp: Let_def n_def split: if_splits)
    then show ?thesis by simp
  next
    case False
    obtain pause flushed sent where env: "env i = (pause, flushed, sent)" by (cases "env i")
    define t where "t = (if pause then snd (server_flush flushed s) else s)"
    obtain ok u where u: "send_message sent (take n (drop 2 f)) (be16 f) t = Some (ok, u)"
      "replay_file_loop env (Suc i) (drop n (drop 2 f)) u = Some s'"
      using less.prems False by (subst (asm) replay_file_loop.simps) (auto simp: Let_def env n_def t_def split: option.splits)
    have "us_sock s' = us_sock u" using False by (intro less.hyps [OF _ u(2)]) (auto simp: not_less)
    then show ?thesis using send_sock [OF u(1)] flush_sock [of flushed s] by (simp add: t_def split: if_splits)
  qed
qed

lemma replay_server_descriptors:
  assumes "replay_server_main fd speed env last_sent content fds = Some (code, server, fds')" and "fd \<notin> fds"
  shows "fds' = fds"
proof (cases "fd = INVALID")
  case True
  then show ?thesis using assms by (simp add: replay_server_main_def server_init_def server_close_def Let_def)
next
  case False
  define s0 where "s0 = UdpServer_new\<lparr>us_sock := fd, us_target := (0x7F000001, 12001)\<rparr>"
  obtain s sleeps where s: "paced_replay_file speed env last_sent content s0 = Some (s, sleeps)"
    "fds' = snd (server_close last_sent (s, insert fd fds))"
    using assms False by (auto simp: replay_server_main_def server_init_def s0_def Let_def)
  obtain pauses where "replay_file (\<lambda>j. (pauses j, snd (env j))) last_sent content s0 = Some s" using paced_file_refines [OF s(1)] by blast
  then have "us_sock s = us_sock s0"
    using replay_loop_sock flush_sock by (auto simp: replay_file_def split: option.splits)
  then show ?thesis using s(2) assms(2) False by (simp add: server_close_def s0_def)
qed

end
