(* ===== verification/Volatility.thy ===== *)
theory Volatility
  imports Analytics Complex_Main
begin

text \<open>
  How accurate the realized volatility of \<^verbatim>\<open>Microstructure\<close> is (\<^verbatim>\<open>src/microstructure.cpp\<close>): the
  fixed-point logarithm, the return of one move of the mid, and the root of the sum of squares of a
  whole session, each against the real number it stands for. Four terms of the series and seven
  truncating divisions cost at most 6 units of \<open>10\<^sup>-\<^sup>1\<^sup>2\<close> per return; over a session the errors add up
  like the sides of a right-angled box.
\<close>

section \<open>The logarithm\<close>

lemma sdiv_close:
  assumes "0 < b"
  shows "\<bar>real_of_int (a sdiv b) - real_of_int a / real_of_int b\<bar> < 1"
proof -
  have down: "real_of_int (n div b) \<le> real_of_int n / real_of_int b" "real_of_int n / real_of_int b < real_of_int (n div b) + 1" for n
    using floor_correct [of "real_of_int n / real_of_int b"] by (simp_all add: floor_divide_of_int_eq)
  show ?thesis
  proof (cases "0 \<le> a")
    case True
    then have "a sdiv b = a div b" using assms by (cases "a = 0") (simp_all add: signed_divide_int_def)
    then show ?thesis using down [of a] by simp
  next
    case False
    then have "a sdiv b = - ((- a) div b)" using assms by (simp add: signed_divide_int_def)
    then show ?thesis using down [of "- a"] by simp
  qed
qed

definition series4 :: "real \<Rightarrow> real" where
  "series4 x = x - x ^ 2 / 2 + x ^ 3 / 3 - x ^ 4 / 4"

lemma series4_error:
  assumes "\<bar>x\<bar> < 1"
  shows "\<bar>ln (1 + x) - series4 x\<bar> \<le> \<bar>x\<bar> ^ 5 / (1 - \<bar>x\<bar>)"
proof -
  define g where "g = (\<lambda>t. ln (1 + t) - series4 t)"
  have deriv: "DERIV g t :> t ^ 4 / (1 + t)" if "\<bar>t\<bar> < 1" for t
  proof -
    have "DERIV g t :> inverse (1 + t) - (1 - t + t ^ 2 - t ^ 3)"
      unfolding g_def series4_def using that by (auto intro!: derivative_eq_intros simp: field_simps power2_eq_square power3_eq_cube)
    moreover have "inverse (1 + t) - (1 - t + t ^ 2 - t ^ 3) = t ^ 4 / (1 + t)"
      using that by (simp add: field_simps power2_eq_square power3_eq_cube power4_eq_xxxx)
    ultimately show ?thesis by simp
  qed
  show ?thesis
  proof (cases "x = 0")
    case False
    define lo where "lo = min 0 x"
    define hi where "hi = max 0 x"
    have lt: "lo < hi" "\<And>t. lo \<le> t \<Longrightarrow> t \<le> hi \<Longrightarrow> \<bar>t\<bar> \<le> \<bar>x\<bar>" using False by (auto simp: lo_def hi_def)
    obtain z where z: "lo < z" "z < hi" "g hi - g lo = (hi - lo) * (z ^ 4 / (1 + z))"
      using MVT2 [OF lt(1), of g "\<lambda>t. t ^ 4 / (1 + t)"] deriv lt(2) assms by fastforce
    have zx: "\<bar>z\<bar> \<le> \<bar>x\<bar>" using lt(2) [of z] z by simp
    have "g 0 = 0" by (simp add: g_def series4_def)
    then have "\<bar>g x\<bar> = \<bar>g hi - g lo\<bar>" by (cases "0 \<le> x") (simp_all add: lo_def hi_def)
    also have "\<dots> = \<bar>x\<bar> * (z ^ 4 / (1 + z))" unfolding z(3) abs_mult using zx assms by (simp add: lo_def hi_def min_def max_def)
    also have "\<dots> \<le> \<bar>x\<bar> * (\<bar>x\<bar> ^ 4 / (1 - \<bar>x\<bar>))"
    proof (intro mult_left_mono frac_le)
      have "\<bar>z\<bar> ^ 4 \<le> \<bar>x\<bar> ^ 4" using zx by (intro power_mono) simp_all
      then show "z ^ 4 \<le> \<bar>x\<bar> ^ 4" by simp
    qed (use zx assms in auto)
    finally show ?thesis by (simp add: g_def power_Suc [symmetric] numeral_eq_Suc)
  qed (simp add: series4_def)
qed

text \<open>Up to a tenth of a percent, which is \<open>10\<^sup>9\<close> in the units of the argument, the logarithm is off by less than 4.1 units.\<close>

lemma log1p_error:
  assumes "\<bar>x\<bar> \<le> 1000000000"
  shows "\<bar>real_of_int (log1p_1e12 x) - 1000000000000 * ln (1 + real_of_int x / 1000000000000)\<bar> \<le> 41 / 10"
    and "\<bar>log1p_1e12 x\<bar> \<le> 2 * 1000000000"
proof -
  define S :: int where "S = 1000000000000"
  define X where "X = real_of_int x / 1000000000000"
  have S: "0 < S" "real_of_int S = 1000000000000" by (simp_all add: S_def)
  define x2 where "x2 = (x * x) sdiv S"
  define x3 where "x3 = (x2 * x) sdiv S"
  define x4 where "x4 = (x3 * x) sdiv S"
  define v where "v = x - x2 sdiv 2 + x3 sdiv 3 - x4 sdiv 4"
  have X: "\<bar>X\<bar> \<le> 1 / 1000" "real_of_int x = 1000000000000 * X" using assms by (simp_all add: X_def abs_le_iff)
  have step: "\<bar>real_of_int ((a * x) sdiv S) - c * X\<bar> < 1 + e / 1000" if "\<bar>real_of_int a - c\<bar> \<le> e" for a c e
  proof -
    have "\<bar>real_of_int ((a * x) sdiv S) - real_of_int a * X\<bar> < 1"
      using sdiv_close [OF S(1), of "a * x"] by (simp add: S(2) X_def)
    moreover have "\<bar>real_of_int a * X - c * X\<bar> = \<bar>real_of_int a - c\<bar> * \<bar>X\<bar>" by (simp add: left_diff_distrib [symmetric] abs_mult)
    moreover have "\<bar>real_of_int a - c\<bar> * \<bar>X\<bar> \<le> e * (1 / 1000)" using that X(1) by (intro mult_mono) simp_all
    ultimately show ?thesis by linarith
  qed
  have x2: "\<bar>real_of_int x2 - 1000000000000 * X ^ 2\<bar> < 1"
    using step [of x "1000000000000 * X" 0] X(2) by (simp add: x2_def power2_eq_square mult.assoc)
  have x3: "\<bar>real_of_int x3 - 1000000000000 * X ^ 3\<bar> < 1001 / 1000"
    using step [of x2 "1000000000000 * X ^ 2" 1] x2 by (simp add: x3_def power3_eq_cube power2_eq_square mult.assoc)
  have x4: "\<bar>real_of_int x4 - 1000000000000 * X ^ 4\<bar> < 1002 / 1000"
    using step [of x3 "1000000000000 * X ^ 3" "1001 / 1000"] x3 by (simp add: x4_def power3_eq_cube power4_eq_xxxx mult.assoc)
  have h: "\<bar>real_of_int (x2 sdiv 2) - real_of_int x2 / 2\<bar> < 1" "\<bar>real_of_int (x3 sdiv 3) - real_of_int x3 / 3\<bar> < 1"
    "\<bar>real_of_int (x4 sdiv 4) - real_of_int x4 / 4\<bar> < 1"
    using sdiv_close [of 2 x2] sdiv_close [of 3 x3] sdiv_close [of 4 x4] by simp_all
  have "real_of_int v = real_of_int x - real_of_int (x2 sdiv 2) + real_of_int (x3 sdiv 3) - real_of_int (x4 sdiv 4)"
    by (simp add: v_def)
  moreover have "1000000000000 * series4 X = real_of_int x - (1000000000000 * X ^ 2) / 2 + (1000000000000 * X ^ 3) / 3 - (1000000000000 * X ^ 4) / 4"
    by (simp add: series4_def X(2) algebra_simps)
  moreover have "\<bar>real_of_int (x2 sdiv 2) - (1000000000000 * X ^ 2) / 2\<bar> < 3 / 2" using h(1) x2 by linarith
  moreover have "\<bar>real_of_int (x3 sdiv 3) - (1000000000000 * X ^ 3) / 3\<bar> < 1334 / 1000" using h(2) x3 by linarith
  moreover have "\<bar>real_of_int (x4 sdiv 4) - (1000000000000 * X ^ 4) / 4\<bar> < 1251 / 1000" using h(3) x4 by linarith
  ultimately have v: "\<bar>real_of_int v - 1000000000000 * series4 X\<bar> < 4085 / 1000" by linarith
  have p5: "\<bar>X\<bar> ^ 5 \<le> (1 / 1000) ^ 5" using X(1) by (intro power_mono) simp_all
  have "\<bar>ln (1 + X) - series4 X\<bar> \<le> \<bar>X\<bar> ^ 5 / (1 - \<bar>X\<bar>)" using X(1) by (intro series4_error) simp
  also have "\<dots> \<le> (1 / 1000) ^ 5 / (999 / 1000)" using p5 X(1) by (intro frac_le) simp_all
  finally have "\<bar>ln (1 + X) - series4 X\<bar> * 999000000000000 \<le> 1" by (simp add: field_simps)
  then have t: "\<bar>1000000000000 * ln (1 + X) - 1000000000000 * series4 X\<bar> \<le> 2 / 1000" by (simp add: abs_if split: if_splits)
  have pw: "\<bar>X\<bar> ^ k \<le> (1 / 1000) ^ k" for k using X(1) by (intro power_mono) simp_all
  have near: "\<bar>t\<bar> \<le> c + 2" if "\<bar>t - u\<bar> < 1002 / 1000" "\<bar>u\<bar> \<le> c" for t u c :: real using that by linarith
  have "\<bar>1000000000000 * X ^ 2\<bar> \<le> 1000000" "\<bar>1000000000000 * X ^ 3\<bar> \<le> 1000000" "\<bar>1000000000000 * X ^ 4\<bar> \<le> 1000000"
    using pw [of 2] pw [of 3] pw [of 4] by (simp_all add: abs_mult power_abs [symmetric] power_divide)
  then have "\<bar>real_of_int x2\<bar> \<le> 1000002" "\<bar>real_of_int x3\<bar> \<le> 1000002" "\<bar>real_of_int x4\<bar> \<le> 1000002"
    using near [of "real_of_int x2" "1000000000000 * X ^ 2" 1000000] near [of "real_of_int x3" "1000000000000 * X ^ 3" 1000000]
      near [of "real_of_int x4" "1000000000000 * X ^ 4" 1000000] x2 x3 x4 by simp_all
  then have "\<bar>real_of_int (x2 sdiv 2)\<bar> \<le> 1000004" "\<bar>real_of_int (x3 sdiv 3)\<bar> \<le> 1000004" "\<bar>real_of_int (x4 sdiv 4)\<bar> \<le> 1000004"
    using near [of "real_of_int (x2 sdiv 2)" "real_of_int x2 / 2" 1000002] near [of "real_of_int (x3 sdiv 3)" "real_of_int x3 / 3" 1000002]
      near [of "real_of_int (x4 sdiv 4)" "real_of_int x4 / 4" 1000002] h by simp_all
  moreover have "\<bar>real_of_int x\<bar> \<le> 1000000000" using assms by (simp add: abs_le_iff)
  ultimately have "\<bar>real_of_int v\<bar> \<le> 2000000000" unfolding \<open>real_of_int v = _\<close> by linarith
  then have small: "\<bar>v\<bar> \<le> 2 * 1000000000" by linarith
  then have "log1p_1e12 x = v"
    by (simp add: log1p_1e12_def Let_def S_def [symmetric] x2_def [symmetric] x3_def [symmetric] x4_def [symmetric] v_def [symmetric]
        to_i64_id fits_i64_def abs_le_iff)
  then show "\<bar>real_of_int (log1p_1e12 x) - 1000000000000 * ln (1 + real_of_int x / 1000000000000)\<bar> \<le> 41 / 10" "\<bar>log1p_1e12 x\<bar> \<le> 2 * 1000000000"
    using v t small unfolding X_def [symmetric] by linarith+
qed

section \<open>One return\<close>

text \<open>The return of a move of the doubled mid from \<open>m\<close> to \<open>m'\<close>, as \<open>on_return\<close> computes it.\<close>

definition tick_return :: "int \<Rightarrow> int \<Rightarrow> int" where
  "tick_return m m' = log1p_1e12 (to_i64 (((m' - m) * 1000000000000) sdiv m))"

definition log_return :: "int \<Rightarrow> int \<Rightarrow> real" where
  "log_return m m' = ln (real_of_int m' / real_of_int m)"

definition small_move :: "int \<Rightarrow> int \<Rightarrow> bool" where
  "small_move m m' \<longleftrightarrow> 0 < m \<and> \<bar>m' - m\<bar> * 1000 \<le> m"

lemma ln_close:
  assumes "1 / 2 \<le> a" and "1 / 2 \<le> (b :: real)"
  shows "\<bar>ln a - ln b\<bar> \<le> 2 * \<bar>a - b\<bar>"
proof -
  have one: "ln y - ln x \<le> 2 * (y - x)" if "1 / 2 \<le> x" "x \<le> y" for x y :: real
  proof -
    have "ln y - ln x = ln (y / x)" using that by (simp add: ln_div)
    also have "\<dots> \<le> y / x - 1" using that by (intro ln_le_minus_one) simp
    also have "\<dots> = (y - x) * (1 / x)" using that by (simp add: field_simps)
    also have "\<dots> \<le> (y - x) * 2" using that by (intro mult_left_mono) (simp_all add: field_simps)
    finally show ?thesis by simp
  qed
  show ?thesis
  proof (cases "a \<le> b")
    case True
    moreover have "ln a \<le> ln b" using True assms by simp
    ultimately show ?thesis using one [OF assms(1) True] by simp
  next
    case False
    moreover have "ln b \<le> ln a" using False assms by simp
    ultimately show ?thesis using one [OF assms(2)] by simp
  qed
qed

lemma tick_return_error:
  assumes "small_move m m'"
  shows "\<bar>real_of_int (tick_return m m') - 1000000000000 * log_return m m'\<bar> \<le> 61 / 10" and "\<bar>tick_return m m'\<bar> \<le> 2 * 1000000000"
proof -
  have m: "0 < m" "\<bar>m' - m\<bar> * 1000 \<le> m" using assms by (simp_all add: small_move_def)
  define x where "x = ((m' - m) * 1000000000000) sdiv m"
  define R where "R = real_of_int (m' - m) / real_of_int m"
  have "\<bar>real_of_int (m' - m)\<bar> * 1000 \<le> real_of_int m" using m(2) by (simp flip: of_int_abs of_int_diff of_int_mult of_int_le_iff)
  then have R: "\<bar>R\<bar> \<le> 1 / 1000" using m(1) by (simp add: R_def abs_divide field_simps)
  have "real_of_int ((m' - m) * 1000000000000) / real_of_int m = 1000000000000 * R" by (simp add: R_def algebra_simps)
  then have x: "\<bar>real_of_int x - 1000000000000 * R\<bar> < 1" using sdiv_close [OF m(1), of "(m' - m) * 1000000000000"] by (simp only: x_def)
  have "\<bar>real_of_int x\<bar> < 1000000000 + 1" using x R by linarith
  then have small: "\<bar>x\<bar> \<le> 1000000000" by linarith
  then have "to_i64 x = x" by (simp add: to_i64_id fits_i64_def abs_le_iff)
  then have ret: "tick_return m m' = log1p_1e12 x" by (simp add: tick_return_def x_def)
  define X where "X = real_of_int x / 1000000000000"
  have X: "\<bar>X - R\<bar> * 1000000000000 < 1" "\<bar>X\<bar> \<le> 1 / 1000" using x small by (simp_all add: X_def abs_le_iff field_simps)
  have "\<bar>ln (1 + X) - ln (1 + R)\<bar> \<le> 2 * \<bar>(1 + X) - (1 + R)\<bar>" using X R by (intro ln_close) (simp_all add: abs_le_iff)
  then have "\<bar>1000000000000 * ln (1 + X) - 1000000000000 * ln (1 + R)\<bar> \<le> 2" using X(1) by simp
  moreover have mm: "real_of_int m' / real_of_int m = 1 + R" using m(1) by (simp add: R_def field_simps)
  ultimately show "\<bar>real_of_int (tick_return m m') - 1000000000000 * log_return m m'\<bar> \<le> 61 / 10"
    using log1p_error(1) [OF small] unfolding ret log_return_def X_def [symmetric] mm by linarith
  show "\<bar>tick_return m m'\<bar> \<le> 2 * 1000000000" using log1p_error(2) [OF small] by (simp add: ret)
qed

section \<open>Sums of squares\<close>

definition norm_of :: "('a \<Rightarrow> real) \<Rightarrow> 'a list \<Rightarrow> real" where
  "norm_of f ps = sqrt (\<Sum>p\<leftarrow>ps. (f p)\<^sup>2)"

lemma squares_nonneg: "0 \<le> (\<Sum>p\<leftarrow>ps. (f p :: real)\<^sup>2)"
  by (induction ps) simp_all

lemma norm_of_Cons: "norm_of f (p # ps) = sqrt ((f p)\<^sup>2 + (norm_of f ps)\<^sup>2)"
  by (simp add: norm_of_def squares_nonneg)

lemma norm_of_nonneg: "0 \<le> norm_of f ps"
  by (simp add: norm_of_def squares_nonneg)

lemma norm_of_add: "norm_of (\<lambda>p. f p + g p) ps \<le> norm_of f ps + norm_of g ps"
proof (induction ps)
  case (Cons p ps)
  have "(norm_of (\<lambda>p. f p + g p) ps)\<^sup>2 \<le> (norm_of f ps + norm_of g ps)\<^sup>2"
    using Cons norm_of_nonneg by (intro power_mono)
  then have "norm_of (\<lambda>p. f p + g p) (p # ps) \<le> sqrt ((f p + g p)\<^sup>2 + (norm_of f ps + norm_of g ps)\<^sup>2)"
    by (simp add: norm_of_Cons)
  also have "\<dots> \<le> norm_of f (p # ps) + norm_of g (p # ps)"
    by (simp add: norm_of_Cons real_sqrt_sum_squares_triangle_ineq)
  finally show ?case .
qed (simp add: norm_of_def)

lemma norm_of_diff: "\<bar>norm_of f ps - norm_of g ps\<bar> \<le> norm_of (\<lambda>p. f p - g p) ps"
proof -
  have "norm_of (\<lambda>p. g p - f p) ps = norm_of (\<lambda>p. f p - g p) ps" by (simp add: norm_of_def power2_commute)
  then show ?thesis
    using norm_of_add [of "\<lambda>p. f p - g p" g ps] norm_of_add [of "\<lambda>p. g p - f p" f ps] by simp
qed

lemma norm_of_bound:
  assumes "0 \<le> c"
  shows "list_all (\<lambda>p. \<bar>f p\<bar> \<le> c) ps \<Longrightarrow> norm_of f ps \<le> c * sqrt (real (length ps))"
proof -
  assume a: "list_all (\<lambda>p. \<bar>f p\<bar> \<le> c) ps"
  have "(\<Sum>p\<leftarrow>ps. (f p)\<^sup>2) \<le> c\<^sup>2 * real (length ps)"
    using a assms
  proof (induction ps)
    case (Cons p ps)
    then have "(f p)\<^sup>2 \<le> c\<^sup>2" by (simp add: abs_le_square_iff [symmetric])
    then show ?case using Cons by (simp add: algebra_simps)
  qed simp
  then have "norm_of f ps \<le> sqrt (c\<^sup>2 * real (length ps))" by (simp add: norm_of_def)
  then show ?thesis using assms by (simp add: real_sqrt_mult)
qed

lemma norm_of_scale: "0 \<le> c \<Longrightarrow> norm_of (\<lambda>p. c * f p) ps = c * norm_of f ps"
proof -
  assume c: "0 \<le> c"
  have "(\<Sum>p\<leftarrow>ps. (c * f p)\<^sup>2) = c\<^sup>2 * (\<Sum>p\<leftarrow>ps. (f p)\<^sup>2)"
    by (induction ps) (simp_all add: power_mult_distrib distrib_left)
  then show ?thesis using c by (simp add: norm_of_def real_sqrt_mult)
qed

section \<open>A session\<close>

text \<open>The doubled mids of the valid books of a session, in order, and the moves between consecutive ones.\<close>

fun mids_of :: "MarketEvent \<Rightarrow> int list" where
  "mids_of (BookEvent b p a q) = (if b > 0 \<and> p > 0 \<and> q > 0 \<and> b < a then [uint b + uint a] else [])"
| "mids_of (TradeEvent px qty buy) = []"

definition session_mids :: "MarketEvent list \<Rightarrow> int list" where
  "session_mids es = concat (map mids_of es)"

fun moves :: "int list \<Rightarrow> (int \<times> int) list" where
  "moves (m # m' # ms) = (if m' = m then [] else [(m, m')]) @ moves (m' # ms)"
| "moves _ = []"

definition squared_returns :: "(int \<times> int) list \<Rightarrow> int" where
  "squared_returns ps = (\<Sum>(m, m') \<leftarrow> ps. tick_return m m' * tick_return m m')"

lemma moves_snoc: "ms \<noteq> [] \<Longrightarrow> moves (ms @ [m]) = moves ms @ (if m = last ms then [] else [(last ms, m)])"
  by (induction ms rule: moves.induct) auto

lemma moves_length: "length (moves ms) \<le> length ms"
  by (induction ms rule: moves.induct) auto

lemma mids_length: "length (session_mids es) \<le> length es"
proof (induction es)
  case (Cons e es)
  have "length (mids_of e) \<le> 1" by (cases e) simp_all
  then show ?case using Cons by (simp add: session_mids_def)
qed (simp add: session_mids_def)

definition vol_state :: "int list \<Rightarrow> Microstructure \<Rightarrow> bool" where
  "vol_state ms s \<longleftrightarrow> (mi_have_prev s \<longleftrightarrow> ms \<noteq> []) \<and> (ms \<noteq> [] \<longrightarrow> mi_prev_mid_1e4_x2 s = last ms \<and> 0 < last ms)
     \<and> mi_sum_sq_ret_1e18 s = word_of_int (squared_returns (moves ms))
     \<and> me_return_samples (mi_m s) = of_nat (length (moves ms))
     \<and> me_realized_vol_1e9 (mi_m s) = isqrt128 (mi_sum_sq_ret_1e18 s) div 1000"

lemma vol_state_new: "vol_state [] micro_reset"
  by (simp add: vol_state_def micro_reset_def Metrics_zero_def squared_returns_def isqrt128_def)

lemma on_trade_vol: "vol_state ms s \<Longrightarrow> vol_state ms (on_trade px qty buy s)"
  by (simp add: on_trade_def Let_def vol_state_def)

lemma on_book_vol:
  assumes "vol_state ms s"
  shows "vol_state (ms @ mids_of (BookEvent b p a q)) (on_book b p a q s)"
proof (cases "b > 0 \<and> p > 0 \<and> q > 0 \<and> b < a")
  case False
  then have "on_book b p a q s = s \<or> on_book b p a q s = s\<lparr>mi_m := (mi_m s)\<lparr>me_degenerate_books := me_degenerate_books (mi_m s) + 1\<rparr>\<rparr>"
    by (auto simp: on_book_def Let_def word_neq_0_conv not_less)
  then show ?thesis using assms False by (auto simp: vol_state_def)
next
  case True
  define m where "m = uint b + uint a"
  have m: "0 < m" using True u32_bounds [of b] u32_bounds [of a] by (auto simp: m_def word_less_def)
  have ne: "b \<noteq> 0" "a \<noteq> 0" "p \<noteq> 0" "q \<noteq> 0" "\<not> a \<le> b" using True by auto
  show ?thesis
  proof (cases "ms = []")
    case True
    then show ?thesis using assms ne \<open>b > 0 \<and> _\<close> m
      by (simp add: vol_state_def on_book_def Let_def m_def squared_returns_def)
  next
    case False
    then have prev: "mi_have_prev s" "mi_prev_mid_1e4_x2 s = last ms" "0 < last ms" using assms by (simp_all add: vol_state_def)
    have mids: "mids_of (BookEvent b p a q) = [m]" using True by (simp add: m_def)
    show ?thesis
    proof (cases "m = last ms")
      case True
      then show ?thesis using assms ne prev m False unfolding mids
        by (simp add: vol_state_def on_book_def Let_def m_def moves_snoc)
    next
      case ne': False
      then show ?thesis using assms ne prev m False unfolding mids
        by (simp add: vol_state_def on_book_def on_return_def Let_def m_def moves_snoc squared_returns_def tick_return_def)
    qed
  qed
qed

lemma session_vol: "vol_state (session_mids es) (fold micro_event es micro_reset)"
proof (induction es rule: rev_induct)
  case (snoc e es)
  then show ?case using on_book_vol on_trade_vol by (cases e) (simp_all add: session_mids_def del: mids_of.simps(1))
qed (simp add: session_mids_def vol_state_new)

lemma squared_returns_bound:
  "list_all (\<lambda>(m, m'). small_move m m') ps \<Longrightarrow>
   0 \<le> squared_returns ps \<and> squared_returns ps \<le> int (length ps) * 4000000000000000000"
proof (induction ps)
  case (Cons x ps)
  obtain m m' where x: "x = (m, m')" by (cases x)
  have "\<bar>tick_return m m'\<bar> \<le> 2000000000" using tick_return_error(2) [of m m'] Cons.prems by (simp add: x)
  then have "\<bar>tick_return m m'\<bar> * \<bar>tick_return m m'\<bar> \<le> 2000000000 * 2000000000" by (intro mult_mono) simp_all
  then have "tick_return m m' * tick_return m m' \<le> 4000000000000000000" by simp
  moreover have "0 \<le> tick_return m m' * tick_return m m'" by simp
  ultimately show ?case using Cons by (simp add: x squared_returns_def)
qed (simp add: squared_returns_def)

lemma squared_returns_norm: "real_of_int (squared_returns ps) = (norm_of (\<lambda>(m, m'). real_of_int (tick_return m m')) ps)\<^sup>2"
proof -
  have "real_of_int (squared_returns ps) = (\<Sum>x\<leftarrow>ps. (case x of (m, m') \<Rightarrow> real_of_int (tick_return m m'))\<^sup>2)"
    by (induction ps) (auto simp: squared_returns_def power2_eq_square)
  then show ?thesis using squares_nonneg [of "\<lambda>(m, m'). real_of_int (tick_return m m')" ps] by (simp add: norm_of_def)
qed

text \<open>The integer root divided by 1000 is within 1001/1000 of the real one divided by 1000.\<close>

lemma root_error:
  assumes "real (unat v) = n\<^sup>2" and "0 \<le> n"
  shows "\<bar>real (unat (isqrt128 v div 1000)) - n / 1000\<bar> \<le> 1001 / 1000"
proof -
  define r where "r = unat (isqrt128 v)"
  have "r * r \<le> unat v" "unat v < (r + 1) * (r + 1)" using isqrt_floor [of v] by (simp_all add: r_def)
  then have "real (r * r) \<le> n\<^sup>2" "n\<^sup>2 < real ((r + 1) * (r + 1))" unfolding assms(1) [symmetric] of_nat_le_iff of_nat_less_iff by simp_all
  then have "(real r)\<^sup>2 \<le> n\<^sup>2" "n\<^sup>2 < (real r + 1)\<^sup>2" by (simp_all add: power2_eq_square algebra_simps)
  then have "real r \<le> n" "n < real r + 1" using assms(2) power2_le_imp_le power2_less_imp_less by fastforce+
  moreover have "real r = real (r div 1000) * 1000 + real (r mod 1000)" "real (r mod 1000) \<le> 1000"
    by (metis div_mult_mod_eq of_nat_add of_nat_mult of_nat_numeral) simp
  moreover have "unat (isqrt128 v div 1000) = r div 1000" by (simp add: r_def unat_div)
  ultimately show ?thesis by (simp add: abs_le_iff)
qed

lemma realized_volatility_error:
  assumes "length es \<le> 2 ^ 30" and "list_all (\<lambda>(m, m'). small_move m m') (moves (session_mids es))"
  shows "let m = mi_m (fold micro_event es micro_reset); ps = moves (session_mids es);
       exact = sqrt (\<Sum>(m, m') \<leftarrow> ps. (ln (real_of_int m' / real_of_int m))\<^sup>2)
     in unat (me_return_samples m) = length ps \<and>
        \<bar>real (unat (me_realized_vol_1e9 m)) - 1000000000 * exact\<bar> \<le> 61 / 10000 * sqrt (real (length ps)) + 1001 / 1000"
proof -
  define ps where "ps = moves (session_mids es)"
  define s where "s = fold micro_event es micro_reset"
  define tick where "tick = (\<lambda>(m, m'). real_of_int (tick_return m m'))"
  define exact where "exact = (\<lambda>(m, m'). log_return m m')"
  have st: "vol_state (session_mids es) s" by (simp add: s_def session_vol)
  have len: "length ps \<le> 2 ^ 30" using moves_length [of "session_mids es"] mids_length [of es] assms(1) by (simp add: ps_def)
  have small: "list_all (\<lambda>(m, m'). small_move m m') ps" using assms(2) by (simp add: ps_def)
  have "int (length ps) * 4000000000000000000 \<le> 2 ^ 30 * 4000000000000000000" using len by (intro mult_right_mono) simp_all
  then have sq: "0 \<le> squared_returns ps" "squared_returns ps < 2 ^ 128" using squared_returns_bound [OF small] by simp_all
  have sum: "mi_sum_sq_ret_1e18 s = word_of_int (squared_returns ps)" using st by (simp add: vol_state_def ps_def)
  have "uint (word_of_int (squared_returns ps) :: u128) = squared_returns ps" using sq by (simp add: uint_word_of_int)
  moreover have "real (unat w) = real_of_int (uint w)" for w :: u128
    using of_int_of_nat_eq [of "unat w", where 'a = real] by simp
  ultimately have "real (unat (mi_sum_sq_ret_1e18 s)) = (norm_of tick ps)\<^sup>2"
    unfolding sum tick_def squared_returns_norm [symmetric] by metis
  from root_error [OF this norm_of_nonneg]
  have root: "\<bar>real (unat (me_realized_vol_1e9 (mi_m s))) - norm_of tick ps / 1000\<bar> \<le> 1001 / 1000"
    using st by (simp add: vol_state_def)
  have "list_all (\<lambda>p. \<bar>tick p - 1000000000000 * exact p\<bar> \<le> 61 / 10) ps"
    using small tick_return_error(1) by (auto simp: list_all_iff tick_def exact_def)
  then have "norm_of (\<lambda>p. tick p - 1000000000000 * exact p) ps \<le> 61 / 10 * sqrt (real (length ps))" by (intro norm_of_bound) simp_all
  then have "\<bar>norm_of tick ps - 1000000000000 * norm_of exact ps\<bar> \<le> 61 / 10 * sqrt (real (length ps))"
    using norm_of_diff [of tick ps "\<lambda>p. 1000000000000 * exact p"] by (simp add: norm_of_scale)
  then have "\<bar>real (unat (me_realized_vol_1e9 (mi_m s))) - 1000000000 * norm_of exact ps\<bar> \<le>
      61 / 10000 * sqrt (real (length ps)) + 1001 / 1000" using root by linarith
  moreover have "norm_of exact ps = sqrt (\<Sum>(m, m') \<leftarrow> ps. (ln (real_of_int m' / real_of_int m))\<^sup>2)"
    by (simp add: norm_of_def exact_def log_return_def split_def)
  moreover have "unat (me_return_samples (mi_m s)) = length ps" using st len by (simp add: vol_state_def ps_def unat_of_nat)
  ultimately show ?thesis unfolding Let_def ps_def [symmetric] s_def [symmetric] by simp
qed

text \<open>
  C16. Realized volatility is accurate. Take any session of at most \<open>2^30\<close> events in which no move of
  the mid exceeds a tenth of a percent. Every change of the mid is one return sample, nothing
  overflows, and the reported value, in units of \<open>10^-9\<close>, differs from the square root of the sum of
  the squared logarithms of those moves by at most 0.0061 units times the root of their number plus
  1.001 units, most of them for the rounding of the root.
\<close>

theorem realized_volatility_is_accurate:
  assumes "length es \<le> 2 ^ 30" and "list_all (\<lambda>(m, m'). small_move m m') (moves (session_mids es))"
  shows "let m = mi_m (fold micro_event es micro_reset); ps = moves (session_mids es);
       exact = sqrt (\<Sum>(m, m') \<leftarrow> ps. (ln (real_of_int m' / real_of_int m))\<^sup>2)
     in unat (me_return_samples m) = length ps \<and>
        \<bar>real (unat (me_realized_vol_1e9 m)) - 1000000000 * exact\<bar> \<le> 61 / 10000 * sqrt (real (length ps)) + 1001 / 1000"
  by (rule realized_volatility_error [OF assms])

theorem realized_volatility_is_accurate_witness:
  "let m = mi_m (fold micro_event [BookEvent 1000000 5 1000100 5, BookEvent 1000100 5 1000200 5] micro_reset)
   in unat (me_return_samples m) = 1 \<and>
      \<bar>real (unat (me_realized_vol_1e9 m)) - 1000000000 * \<bar>ln (2000300 / 2000100)\<bar>\<bar> \<le> 61 / 10000 + 1001 / 1000"
  using realized_volatility_is_accurate [of "[BookEvent 1000000 5 1000100 5, BookEvent 1000100 5 1000200 5]"]
  by (simp add: session_mids_def small_move_def Let_def del: micro_event.simps)

end
