(* ===== verification/Float_Reference.thy ===== *)
theory Float_Reference
  imports Analytics Double_Arith
begin

text \<open>
  \<^verbatim>\<open>RefDouble\<close> of \<^verbatim>\<open>bench/validate_microstructure.cpp\<close>: the analytics in double precision that the
  fixed-point ones are compared with, operation by operation, without fused operations. The logarithm
  of the C library is an argument. Proved: best prices and sizes, mid, order flow imbalance, effective
  spread and the counters of the reference are exact, and equal the fixed-point ones, as long as the sums stay
  below \<open>2 ^ 52\<close>; the microprice, the volatility and Kyle's lambda are rounded.
\<close>

section \<open>The reference\<close>

record RefDouble =
  rf_micro :: sdouble
  rf_mid :: sdouble
  rf_ofi :: sdouble
  rf_es_sum :: sdouble
  rf_es_n :: u64
  rf_sum_sq :: sdouble
  rf_n_ret :: u64
  rf_sum_dpv :: sdouble
  rf_sum_vv :: sdouble
  rf_lambda :: sdouble
  rf_pb :: sdouble
  rf_qb :: sdouble
  rf_pa :: sdouble
  rf_qa :: sdouble
  rf_prev_mid :: sdouble
  rf_prev_trade_mid :: sdouble
  rf_have :: bool
  rf_degenerate :: u64

definition sd_zero :: sdouble where "sd_zero = (0, 0)"

definition sd_two :: sdouble where "sd_two = (2, 0)"

definition RefDouble_new :: RefDouble where
  "RefDouble_new = \<lparr>rf_micro = sd_zero, rf_mid = sd_zero, rf_ofi = sd_zero, rf_es_sum = sd_zero, rf_es_n = 0, rf_sum_sq = sd_zero,
     rf_n_ret = 0, rf_sum_dpv = sd_zero, rf_sum_vv = sd_zero, rf_lambda = sd_zero, rf_pb = sd_zero, rf_qb = sd_zero, rf_pa = sd_zero,
     rf_qa = sd_zero, rf_prev_mid = sd_zero, rf_prev_trade_mid = sd_zero, rf_have = False, rf_degenerate = 0\<rparr>"

text \<open>\<^verbatim>\<open>x <= y\<close> of two doubles that are numbers.\<close>

abbreviation sd_le :: "sdouble \<Rightarrow> sdouble \<Rightarrow> bool" where
  "sd_le x y \<equiv> \<not> sd_less y x"

definition ref_flow :: "RefDouble \<Rightarrow> sdouble \<Rightarrow> sdouble \<Rightarrow> sdouble \<Rightarrow> sdouble \<Rightarrow> sdouble" where
  "ref_flow r bp bq ap aq =
     (let e = sd_zero;
          e = (if sd_le (rf_pb r) bp then sd_add e bq else e);
          e = (if sd_le bp (rf_pb r) then sd_sub e (rf_qb r) else e);
          e = (if sd_le ap (rf_pa r) then sd_sub e aq else e)
      in if sd_le (rf_pa r) ap then sd_add e (rf_qa r) else e)"

definition ref_return :: "(sdouble \<Rightarrow> sdouble) \<Rightarrow> sdouble \<Rightarrow> RefDouble \<Rightarrow> RefDouble" where
  "ref_return ln64 m r =
     (if sd_less sd_zero (rf_prev_mid r) \<and> \<not> sd_eq m (rf_prev_mid r)
      then let x = ln64 (sd_quot m (rf_prev_mid r))
           in r\<lparr>rf_sum_sq := sd_add (rf_sum_sq r) (sd_mul x x), rf_n_ret := rf_n_ret r + 1\<rparr>
      else r)"

definition ref_on_book :: "(sdouble \<Rightarrow> sdouble) \<Rightarrow> sdouble \<Rightarrow> sdouble \<Rightarrow> sdouble \<Rightarrow> sdouble \<Rightarrow> RefDouble \<Rightarrow> RefDouble" where
  "ref_on_book ln64 bp bq ap aq r =
     (if sd_le bp sd_zero \<or> sd_le ap sd_zero \<or> sd_le bq sd_zero \<or> sd_le aq sd_zero then r
      else if sd_le ap bp then r\<lparr>rf_degenerate := rf_degenerate r + 1\<rparr>
      else
        let r = r\<lparr>rf_micro := sd_quot (sd_add (sd_mul bp aq) (sd_mul ap bq)) (sd_add bq aq),
                  rf_mid := sd_quot (sd_add bp ap) sd_two\<rparr>;
            r = (if rf_have r then
                   let r = r\<lparr>rf_ofi := sd_add (rf_ofi r) (ref_flow r bp bq ap aq)\<rparr>;
                       m = sd_quot (sd_add bp ap) sd_two;
                       r = ref_return ln64 m r
                   in r\<lparr>rf_prev_mid := m\<rparr>
                 else r\<lparr>rf_prev_mid := sd_quot (sd_add bp ap) sd_two, rf_have := True\<rparr>)
        in r\<lparr>rf_pb := bp, rf_qb := bq, rf_pa := ap, rf_qa := aq\<rparr>)"

definition ref_kyle :: "sdouble \<Rightarrow> sdouble \<Rightarrow> RefDouble \<Rightarrow> RefDouble" where
  "ref_kyle m v r =
     (if sd_less sd_zero (rf_prev_trade_mid r) then
        let dp = sd_sub m (rf_prev_trade_mid r);
            r = r\<lparr>rf_sum_dpv := sd_add (rf_sum_dpv r) (sd_mul dp v), rf_sum_vv := sd_add (rf_sum_vv r) (sd_mul v v)\<rparr>
        in if sd_less sd_zero (rf_sum_vv r) then r\<lparr>rf_lambda := sd_quot (rf_sum_dpv r) (rf_sum_vv r)\<rparr> else r
      else r)"

definition ref_on_trade :: "sdouble \<Rightarrow> sdouble \<Rightarrow> bool \<Rightarrow> RefDouble \<Rightarrow> RefDouble" where
  "ref_on_trade px q buy r =
     (if \<not> rf_have r then r
      else
        let m = sd_quot (sd_add (rf_pb r) (rf_pa r)) sd_two;
            r = r\<lparr>rf_es_sum := sd_add (rf_es_sum r) (sd_mul sd_two (sd_abs (sd_sub px m))), rf_es_n := rf_es_n r + 1\<rparr>;
            v = (if buy then q else (- fst q, snd q));
            r = ref_kyle m v r
        in r\<lparr>rf_prev_trade_mid := m\<rparr>)"

text \<open>The arguments are converted from \<^verbatim>\<open>uint32_t\<close>.\<close>

fun ref_event :: "(sdouble \<Rightarrow> sdouble) \<Rightarrow> MarketEvent \<Rightarrow> RefDouble \<Rightarrow> RefDouble" where
  "ref_event ln64 (BookEvent b p a q) r = ref_on_book ln64 (sd_of (uint b)) (sd_of (uint p)) (sd_of (uint a)) (sd_of (uint q)) r"
| "ref_event ln64 (TradeEvent px q buy) r = ref_on_trade (sd_of (uint px)) (sd_of (uint q)) buy r"

section \<open>Whole and half numbers\<close>

lemma sd_zero_val [simp]: "sd_val sd_zero = 0" and sd_two_val [simp]: "sd_val sd_two = 2"
  by (simp_all add: sd_zero_def sd_two_def sd_val_def)

lemma whole_add: "sd_val x = of_int i \<Longrightarrow> sd_val y = of_int j \<Longrightarrow> \<bar>i + j\<bar> < 2 ^ 53 \<Longrightarrow> sd_val (sd_add x y) = of_int (i + j)"
  using sd_add_exact [of x y "i + j" 0] by simp

lemma whole_sub: "sd_val x = of_int i \<Longrightarrow> sd_val y = of_int j \<Longrightarrow> \<bar>i - j\<bar> < 2 ^ 53 \<Longrightarrow> sd_val (sd_sub x y) = of_int (i - j)"
  using sd_sub_exact [of x y "i - j" 0] by simp

lemma half_of_sum:
  assumes "sd_val x = of_int i" and "sd_val y = of_int j" and "\<bar>i + j\<bar> < 2 ^ 53"
  shows "sd_val (sd_quot (sd_add x y) sd_two) = of_int (i + j) / 2"
  using sd_quot_exact [of sd_two "sd_add x y" "i + j" 1] whole_add [OF assms] assms(3) by simp

lemma spread_exact:
  assumes "sd_val x = of_int i" and "sd_val m = of_int k / 2" and "\<bar>2 * i - k\<bar> < 2 ^ 53"
  shows "sd_val (sd_mul sd_two (sd_abs (sd_sub x m))) = of_int \<bar>2 * i - k\<bar>"
proof -
  have "sd_val (sd_sub x m) = of_int (2 * i - k) / 2 ^ 1" using assms by (intro sd_sub_exact) (simp_all add: field_simps)
  then have "sd_val sd_two * sd_val (sd_abs (sd_sub x m)) = of_int \<bar>2 * i - k\<bar> / 2 ^ 0" by (simp add: sd_abs_val)
  then show ?thesis using sd_mul_exact [of sd_two "sd_abs (sd_sub x m)" "\<bar>2 * i - k\<bar>" 0] assms(3) by simp
qed

section \<open>The reference on whole numbers\<close>

text \<open>What the exact fields of the reference hold, as integers; \<open>mid\<close> and \<open>prev\<close> are doubled.\<close>

record Exact =
  xt_pb :: int
  xt_qb :: int
  xt_pa :: int
  xt_qa :: int
  xt_mid :: int
  xt_prev :: int
  xt_ofi :: int
  xt_es :: int

definition holds :: "RefDouble \<Rightarrow> Exact \<Rightarrow> bool" where
  "holds r x \<longleftrightarrow> sd_val (rf_pb r) = of_int (xt_pb x) \<and> sd_val (rf_qb r) = of_int (xt_qb x)
     \<and> sd_val (rf_pa r) = of_int (xt_pa x) \<and> sd_val (rf_qa r) = of_int (xt_qa x)
     \<and> sd_val (rf_mid r) = of_int (xt_mid x) / 2 \<and> sd_val (rf_prev_mid r) = of_int (xt_prev x) / 2
     \<and> sd_val (rf_ofi r) = of_int (xt_ofi x) \<and> sd_val (rf_es_sum r) = of_int (xt_es x)"

definition flow :: "Exact \<Rightarrow> int \<Rightarrow> int \<Rightarrow> int \<Rightarrow> int \<Rightarrow> int" where
  "flow x b p a q = (if b \<ge> xt_pb x then p else 0) - (if b \<le> xt_pb x then xt_qb x else 0)
     - (if a \<le> xt_pa x then q else 0) + (if a \<ge> xt_pa x then xt_qa x else 0)"

definition small :: "int \<Rightarrow> bool" where
  "small i \<longleftrightarrow> 0 \<le> i \<and> i < 2 ^ 32"

lemma ref_flow_exact:
  assumes "holds r x" and "sd_val bp = of_int b" "sd_val bq = of_int p" "sd_val ap = of_int a" "sd_val aq = of_int q"
    and "small p" "small q" "small (xt_qb x)" "small (xt_qa x)"
  shows "sd_val (ref_flow r bp bq ap aq) = of_int (flow x b p a q)"
proof -
  have prev: "sd_val (rf_pb r) = of_int (xt_pb x)" "sd_val (rf_qb r) = of_int (xt_qb x)"
    "sd_val (rf_pa r) = of_int (xt_pa x)" "sd_val (rf_qa r) = of_int (xt_qa x)"
    using assms(1) by (simp_all add: holds_def)
  define e1 where "e1 = (if sd_le (rf_pb r) bp then sd_add sd_zero bq else sd_zero)"
  define e2 where "e2 = (if sd_le bp (rf_pb r) then sd_sub e1 (rf_qb r) else e1)"
  define e3 where "e3 = (if sd_le ap (rf_pa r) then sd_sub e2 aq else e2)"
  define i1 where "i1 = (if b \<ge> xt_pb x then p else 0)"
  define i2 where "i2 = i1 - (if b \<le> xt_pb x then xt_qb x else 0)"
  define i3 where "i3 = i2 - (if a \<le> xt_pa x then q else 0)"
  have i1: "\<bar>i1\<bar> \<le> 2 ^ 32" using assms(6) by (simp add: i1_def small_def)
  have i2: "\<bar>i2\<bar> \<le> 2 ^ 33" using assms(8) i1 by (auto simp: i2_def small_def abs_le_iff)
  have i3: "\<bar>i3\<bar> \<le> 2 ^ 34" using assms(7) i2 by (auto simp: i3_def small_def abs_le_iff)
  have e1: "sd_val e1 = of_int i1"
    using whole_add [of sd_zero 0 bq p] assms(3,6) by (auto simp: e1_def i1_def sd_less_val prev assms(2) small_def)
  have e2: "sd_val e2 = of_int i2"
    using whole_sub [OF e1 prev(2)] e1 i1 assms(8) by (auto simp: e2_def i2_def sd_less_val prev(1) assms(2) small_def abs_less_iff abs_le_iff)
  have e3: "sd_val e3 = of_int i3"
    using whole_sub [OF e2 assms(5)] e2 i2 assms(7) by (auto simp: e3_def i3_def sd_less_val prev(3) assms(4) small_def abs_less_iff abs_le_iff)
  have "sd_val (if sd_le (rf_pa r) ap then sd_add e3 (rf_qa r) else e3) = of_int (i3 + (if a \<ge> xt_pa x then xt_qa x else 0))"
    using whole_add [OF e3 prev(4)] e3 i3 assms(9) by (auto simp: sd_less_val prev(3) assms(4) small_def abs_less_iff abs_le_iff)
  moreover have "flow x b p a q = i3 + (if a \<ge> xt_pa x then xt_qa x else 0)" by (simp add: flow_def i1_def i2_def i3_def)
  moreover have "ref_flow r bp bq ap aq = (if sd_le (rf_pa r) ap then sd_add e3 (rf_qa r) else e3)"
    by (simp only: ref_flow_def e1_def e2_def e3_def Let_def)
  ultimately show ?thesis by (simp only:)
qed

text \<open>The next exact state: a valid book, and a trade at \<open>px\<close>.\<close>

definition exact_book :: "bool \<Rightarrow> int \<Rightarrow> int \<Rightarrow> int \<Rightarrow> int \<Rightarrow> Exact \<Rightarrow> Exact" where
  "exact_book have b p a q x = x\<lparr>xt_pb := b, xt_qb := p, xt_pa := a, xt_qa := q, xt_mid := b + a, xt_prev := b + a,
     xt_ofi := (if have then xt_ofi x + flow x b p a q else xt_ofi x)\<rparr>"

lemma flow_bound: "small p \<Longrightarrow> small q \<Longrightarrow> small (xt_qb x) \<Longrightarrow> small (xt_qa x) \<Longrightarrow> \<bar>flow x b p a q\<bar> \<le> 2 ^ 33"
  by (auto simp: flow_def small_def)

lemma ref_book_exact:
  fixes ln64 :: "sdouble \<Rightarrow> sdouble"
  assumes "holds r x" and v: "sd_val bp = of_int b" "sd_val bq = of_int p" "sd_val ap = of_int a" "sd_val aq = of_int q"
    and pos: "0 < b" "b < a" "0 < p" "0 < q" and "small a" and sizes: "small p" "small q" "small (xt_qb x)" "small (xt_qa x)"
    and "\<bar>xt_ofi x\<bar> \<le> 2 ^ 52"
  defines "r' \<equiv> ref_on_book ln64 bp bq ap aq r"
  shows "holds r' (exact_book (rf_have r) b p a q x)" and "rf_have r'" and "rf_es_n r' = rf_es_n r" and "rf_degenerate r' = rf_degenerate r"
    and "rf_n_ret r' = rf_n_ret r + (if rf_have r \<and> 0 < xt_prev x \<and> b + a \<noteq> xt_prev x then 1 else 0)"
proof -
  have a: "a < 2 ^ 32" using assms(10) by (simp add: small_def)
  have mid: "sd_val (sd_quot (sd_add bp ap) sd_two) = of_int (b + a) / 2" using pos a by (intro half_of_sum v) simp
  have fl: "\<bar>flow x b p a q\<bar> \<le> 2 ^ 33" by (rule flow_bound [OF sizes])
  have ofi: "sd_val (sd_add (rf_ofi r) (ref_flow r bp bq ap aq)) = of_int (xt_ofi x + flow x b p a q)"
    using fl assms(15) by (intro whole_add ref_flow_exact [OF assms(1) v sizes]) (use assms(1) in \<open>simp_all add: holds_def abs_le_iff abs_less_iff\<close>)
  have guard: "\<not> (sd_le bp sd_zero \<or> sd_le ap sd_zero \<or> sd_le bq sd_zero \<or> sd_le aq sd_zero)" "\<not> sd_le ap bp"
    using pos by (simp_all add: sd_less_val v)
  have prev: "sd_val (rf_prev_mid r) = of_int (xt_prev x) / 2" using assms(1) by (simp add: holds_def)
  have moved: "sd_less sd_zero (rf_prev_mid r) \<and> \<not> sd_eq (sd_quot (sd_add bp ap) sd_two) (rf_prev_mid r) \<longleftrightarrow> 0 < xt_prev x \<and> b + a \<noteq> xt_prev x"
    by (simp only: sd_less_val sd_eq_val mid prev sd_zero_val) (simp flip: of_int_add)
  have flow_r: "ref_flow (r\<lparr>rf_micro := u, rf_mid := w\<rparr>) bp bq ap aq = ref_flow r bp bq ap aq" for u w
    by (simp add: ref_flow_def)
  show "holds r' (exact_book (rf_have r) b p a q x)" "rf_have r'" "rf_es_n r' = rf_es_n r" "rf_degenerate r' = rf_degenerate r"
    "rf_n_ret r' = rf_n_ret r + (if rf_have r \<and> 0 < xt_prev x \<and> b + a \<noteq> xt_prev x then 1 else 0)"
    using assms(1) guard mid ofi moved v
    by (auto simp: r'_def ref_on_book_def ref_return_def flow_r holds_def exact_book_def Let_def simp del: of_int_add)
qed

lemma ref_book_other:
  assumes "sd_val bp = of_int b" "sd_val bq = of_int p" "sd_val ap = of_int a" "sd_val aq = of_int q"
  shows "b \<le> 0 \<or> a \<le> 0 \<or> p \<le> 0 \<or> q \<le> 0 \<Longrightarrow> ref_on_book ln64 bp bq ap aq r = r"
    and "\<not> (b \<le> 0 \<or> a \<le> 0 \<or> p \<le> 0 \<or> q \<le> 0) \<Longrightarrow> a \<le> b \<Longrightarrow>
      ref_on_book ln64 bp bq ap aq r = r\<lparr>rf_degenerate := rf_degenerate r + 1\<rparr>"
  by (auto simp: ref_on_book_def sd_less_val assms)

lemma ref_kyle_frame:
  "holds (ref_kyle m v r) x = holds r x" "rf_have (ref_kyle m v r) = rf_have r" "rf_es_n (ref_kyle m v r) = rf_es_n r"
  "rf_degenerate (ref_kyle m v r) = rf_degenerate r" "rf_n_ret (ref_kyle m v r) = rf_n_ret r"
  by (simp_all add: ref_kyle_def Let_def holds_def)

lemma ref_trade_exact:
  fixes q :: sdouble and buy :: bool
  assumes "holds r x" and "rf_have r" and "sd_val px = of_int i" and "small i" "small (xt_pb x)" "small (xt_pa x)"
    and "0 \<le> xt_es x" "xt_es x \<le> 2 ^ 52"
  defines "r' \<equiv> ref_on_trade px q buy r"
  shows "holds r' (x\<lparr>xt_es := xt_es x + \<bar>2 * i - (xt_pb x + xt_pa x)\<bar>\<rparr>)" and "rf_have r'" and "rf_es_n r' = rf_es_n r + 1"
    and "rf_degenerate r' = rf_degenerate r" and "rf_n_ret r' = rf_n_ret r"
proof -
  define d where "d = \<bar>2 * i - (xt_pb x + xt_pa x)\<bar>"
  have d: "0 \<le> d" "d < 2 ^ 34" using assms(4-6) by (auto simp: d_def small_def)
  have "sd_val (sd_quot (sd_add (rf_pb r) (rf_pa r)) sd_two) = of_int (xt_pb x + xt_pa x) / 2"
    using assms(1,5,6) by (intro half_of_sum) (auto simp: holds_def small_def)
  then have "sd_val (sd_mul sd_two (sd_abs (sd_sub px (sd_quot (sd_add (rf_pb r) (rf_pa r)) sd_two)))) = of_int d"
    unfolding d_def using assms(3) d by (intro spread_exact) (simp_all add: d_def)
  then have es: "sd_val (sd_add (rf_es_sum r) (sd_mul sd_two (sd_abs (sd_sub px (sd_quot (sd_add (rf_pb r) (rf_pa r)) sd_two))))) = of_int (xt_es x + d)"
    using assms(1,7,8) d by (intro whole_add) (simp_all add: holds_def)
  have h: "holds (r\<lparr>rf_es_sum := e, rf_es_n := n\<rparr>) (x\<lparr>xt_es := xt_es x + d\<rparr>)" if "sd_val e = of_int (xt_es x + d)" for e n
    using assms(1) that by (simp add: holds_def del: of_int_add)
  have drop: "holds (s\<lparr>rf_prev_trade_mid := m\<rparr>) y = holds s y" for s m y by (simp add: holds_def)
  show "holds r' (x\<lparr>xt_es := xt_es x + \<bar>2 * i - (xt_pb x + xt_pa x)\<bar>\<rparr>)"
    using h [OF es] assms(2) unfolding d_def [symmetric] by (simp add: r'_def ref_on_trade_def Let_def ref_kyle_frame drop)
  show "rf_have r'" "rf_es_n r' = rf_es_n r + 1" "rf_degenerate r' = rf_degenerate r" "rf_n_ret r' = rf_n_ret r"
    using assms(2) by (simp_all add: r'_def ref_on_trade_def Let_def ref_kyle_frame)
qed

section \<open>Both sides agree\<close>

definition exact_of :: "Microstructure \<Rightarrow> Exact" where
  "exact_of s = \<lparr>xt_pb = uint (mi_pb s), xt_qb = uint (mi_qb s), xt_pa = uint (mi_pa s), xt_qa = uint (mi_qa s),
     xt_mid = me_mid_1e8 (mi_m s) div 5000, xt_prev = mi_prev_mid_1e4_x2 s, xt_ofi = me_ofi (mi_m s),
     xt_es = uint (me_effective_spread_sum_1e4 (mi_m s))\<rparr>"

definition same_metrics :: "Microstructure \<Rightarrow> RefDouble \<Rightarrow> bool" where
  "same_metrics s r \<longleftrightarrow> holds r (exact_of s) \<and> rf_have r = mi_have_prev s \<and> rf_es_n r = me_effective_spread_n (mi_m s)
     \<and> rf_degenerate r = me_degenerate_books (mi_m s) \<and> rf_n_ret r = me_return_samples (mi_m s)
     \<and> (mi_have_prev s \<longrightarrow> mi_pb s > 0 \<and> mi_pa s > 0)"

lemma same_new: "same_metrics micro_reset RefDouble_new"
  by (simp add: same_metrics_def holds_def exact_of_def micro_reset_def Metrics_zero_def RefDouble_new_def)

lemma word_small: "small (uint (w :: u32))"
  using uint_bounded [of w] by (simp add: small_def)

lemma word_positive: "w \<noteq> 0 \<Longrightarrow> 0 < uint w"
  by (simp add: less_le unsigned_eq_0_iff)

lemma word_double: "sd_val (sd_of (uint (w :: u32))) = of_int (uint w)"
  using uint_bounded [of w] by (intro sd_of_exact) simp

lemma ofi_step_flow: "ofi_step s b p a q = flow (exact_of s) (uint b) (uint p) (uint a) (uint q)"
  by (simp add: ofi_step_def flow_def exact_of_def word_le_def)

lemma on_return_fields:
  "mi_have_prev (on_return x s) = mi_have_prev s" "me_ofi (mi_m (on_return x s)) = me_ofi (mi_m s)"
  "me_mid_1e8 (mi_m (on_return x s)) = me_mid_1e8 (mi_m s)"
  "me_effective_spread_sum_1e4 (mi_m (on_return x s)) = me_effective_spread_sum_1e4 (mi_m s)"
  "me_effective_spread_n (mi_m (on_return x s)) = me_effective_spread_n (mi_m s)"
  "me_degenerate_books (mi_m (on_return x s)) = me_degenerate_books (mi_m s)"
  "me_return_samples (mi_m (on_return x s)) = me_return_samples (mi_m s) + 1"
  by (simp_all add: on_return_def Let_def)

lemma on_book_exact:
  assumes "b > 0" and "p > 0" and "q > 0" and "b < a"
  shows "exact_of (on_book b p a q s) = exact_book (mi_have_prev s) (uint b) (uint p) (uint a) (uint q) (exact_of s)"
    and "mi_have_prev (on_book b p a q s)" and "mi_pb (on_book b p a q s) = b" and "mi_pa (on_book b p a q s) = a"
    and "me_effective_spread_n (mi_m (on_book b p a q s)) = me_effective_spread_n (mi_m s)"
    and "me_degenerate_books (mi_m (on_book b p a q s)) = me_degenerate_books (mi_m s)"
    and "me_return_samples (mi_m (on_book b p a q s)) = me_return_samples (mi_m s) +
      (if mi_have_prev s \<and> 0 < mi_prev_mid_1e4_x2 s \<and> uint b + uint a \<noteq> mi_prev_mid_1e4_x2 s then 1 else 0)"
proof -
  have g: "\<not> (b = 0 \<or> a = 0 \<or> p = 0 \<or> q = 0)" "\<not> b \<ge> a" using assms by auto
  have o: "ofi_step (s\<lparr>mi_m := m\<rparr>) b p a q = ofi_step s b p a q" for m by (simp add: ofi_step_def)
  show "exact_of (on_book b p a q s) = exact_book (mi_have_prev s) (uint b) (uint p) (uint a) (uint q) (exact_of s)"
    using g ofi_step_flow [of s b p a q]
    by (auto simp: on_book_def Let_def exact_of_def exact_book_def on_return_fields o)
  show "mi_have_prev (on_book b p a q s)" "mi_pb (on_book b p a q s) = b" "mi_pa (on_book b p a q s) = a"
    "me_effective_spread_n (mi_m (on_book b p a q s)) = me_effective_spread_n (mi_m s)"
    "me_degenerate_books (mi_m (on_book b p a q s)) = me_degenerate_books (mi_m s)"
    "me_return_samples (mi_m (on_book b p a q s)) = me_return_samples (mi_m s) +
      (if mi_have_prev s \<and> 0 < mi_prev_mid_1e4_x2 s \<and> uint b + uint a \<noteq> mi_prev_mid_1e4_x2 s then 1 else 0)"
    using g by (auto simp: on_book_def Let_def on_return_fields)
qed

lemma same_book:
  assumes "same_metrics s r" and "\<bar>me_ofi (mi_m s)\<bar> \<le> 2 ^ 52"
  shows "same_metrics (on_book b p a q s) (ref_event ln64 (BookEvent b p a q) r)"
proof (cases "b > 0 \<and> p > 0 \<and> q > 0 \<and> b < a")
  case True
  then have valid: "b > 0" "p > 0" "q > 0" "b < a" by simp_all
  have pos: "0 < uint b" "uint b < uint a" "0 < uint p" "0 < uint q" using True by (simp_all add: word_less_def)
  have h: "holds r (exact_of s)" "rf_have r = mi_have_prev s" using assms(1) by (simp_all add: same_metrics_def)
  have xt: "small (xt_qb (exact_of s))" "small (xt_qa (exact_of s))" "\<bar>xt_ofi (exact_of s)\<bar> \<le> 2 ^ 52"
    using assms(2) by (simp_all add: exact_of_def word_small)
  note exact = ref_book_exact [OF h(1) word_double word_double word_double word_double pos word_small word_small word_small xt, of ln64]
  show ?thesis
    using assms(1) exact True on_book_exact [OF valid, of s]
    by (auto simp: same_metrics_def exact_of_def [of s] intro: less_trans)
next
  case False
  show ?thesis
  proof (cases "b = 0 \<or> a = 0 \<or> p = 0 \<or> q = 0")
    case True
    then have "ref_event ln64 (BookEvent b p a q) r = r"
      using ref_book_other(1) [OF word_double word_double word_double word_double, of b a p q] by auto
    moreover have "on_book b p a q s = s" using True by (simp add: on_book_def)
    ultimately show ?thesis using assms(1) by simp
  next
    case nonzero: False
    then have "a \<le> b" using False by (auto simp: word_gt_0)
    moreover from nonzero have "0 < uint b" "0 < uint a" "0 < uint p" "0 < uint q" by (simp_all add: word_positive)
    ultimately have "ref_event ln64 (BookEvent b p a q) r = r\<lparr>rf_degenerate := rf_degenerate r + 1\<rparr>"
      using ref_book_other(2) [OF word_double word_double word_double word_double, of b a p q] by (simp add: word_le_def)
    moreover have "on_book b p a q s = s\<lparr>mi_m := (mi_m s)\<lparr>me_degenerate_books := me_degenerate_books (mi_m s) + 1\<rparr>\<rparr>"
      using nonzero \<open>a \<le> b\<close> by (simp add: on_book_def)
    ultimately show ?thesis using assms(1) by (simp add: same_metrics_def holds_def exact_of_def)
  qed
qed

lemma same_trade:
  assumes "same_metrics s r" and "uint (me_effective_spread_sum_1e4 (mi_m s)) \<le> 2 ^ 52"
  shows "same_metrics (on_trade px q buy s) (ref_event ln64 (TradeEvent px q buy) r)"
proof (cases "mi_have_prev s")
  case False
  then show ?thesis using assms(1) by (simp add: same_metrics_def on_trade_def ref_on_trade_def)
next
  case True
  define d where "d = \<bar>2 * uint px - (uint (mi_pb s) + uint (mi_pa s))\<bar>"
  have h: "holds r (exact_of s)" "rf_have r" "mi_pb s \<noteq> 0" "mi_pa s \<noteq> 0" using assms(1) True by (auto simp: same_metrics_def)
  have xt: "small (xt_pb (exact_of s))" "small (xt_pa (exact_of s))" "0 \<le> xt_es (exact_of s)" "xt_es (exact_of s) \<le> 2 ^ 52"
    using assms(2) by (simp_all add: exact_of_def word_small)
  note exact = ref_trade_exact [OF h(1,2) word_double [of px] word_small xt, of "sd_of (uint q)" buy]
  have bounds: "uint px < 4294967296" "uint (mi_pb s) < 4294967296" "uint (mi_pa s) < 4294967296"
    "0 \<le> uint px" "0 \<le> uint (mi_pb s)" "0 \<le> uint (mi_pa s)"
    using word_small [of px] word_small [of "mi_pb s"] word_small [of "mi_pa s"] by (simp_all add: small_def)
  have "d < 17179869184" unfolding d_def using bounds by linarith
  then have "0 \<le> d" "d < 2 ^ 34" by (simp_all add: d_def)
  then have sum: "uint (me_effective_spread_sum_1e4 (mi_m s) + word_of_int d) = uint (me_effective_spread_sum_1e4 (mi_m s)) + d"
    using assms(2) uint_ge_0 [of "me_effective_spread_sum_1e4 (mi_m s)"]
    by (simp add: uint_word_ariths uint_word_of_int mod_pos_pos_trivial)
  have "exact_of (on_trade px q buy s) = (exact_of s)\<lparr>xt_es := xt_es (exact_of s) + d\<rparr>"
    using h(3,4) True sum by (auto simp: on_trade_def exact_of_def Let_def d_def abs_if)
  moreover have "mi_have_prev (on_trade px q buy s)" "mi_pb (on_trade px q buy s) = mi_pb s" "mi_pa (on_trade px q buy s) = mi_pa s"
    "me_effective_spread_n (mi_m (on_trade px q buy s)) = me_effective_spread_n (mi_m s) + 1"
    "me_degenerate_books (mi_m (on_trade px q buy s)) = me_degenerate_books (mi_m s)"
    "me_return_samples (mi_m (on_trade px q buy s)) = me_return_samples (mi_m s)"
    using h(3,4) True by (simp_all add: on_trade_def Let_def)
  moreover have "xt_pb (exact_of s) = uint (mi_pb s)" "xt_pa (exact_of s) = uint (mi_pa s)" by (simp_all add: exact_of_def)
  ultimately show ?thesis using exact assms(1) True by (simp add: same_metrics_def d_def)
qed

section \<open>What agreement gives\<close>

text \<open>A double within the exact range, compared with the conversion of the integer it equals.\<close>

lemma same_ofi: "same_metrics s r \<Longrightarrow> sd_val (rf_ofi r) = of_int (me_ofi (mi_m s))"
  by (simp add: same_metrics_def holds_def exact_of_def)

lemma same_es: "same_metrics s r \<Longrightarrow> sd_val (rf_es_sum r) = of_int (uint (me_effective_spread_sum_1e4 (mi_m s)))"
  by (simp add: same_metrics_def holds_def exact_of_def)

lemma same_mid: "same_metrics s r \<Longrightarrow> sd_val (rf_mid r) = of_int (me_mid_1e8 (mi_m s) div 5000) / 2"
  by (simp add: same_metrics_def holds_def exact_of_def)

end
