(* ===== verification/Validation_Stream.thy ===== *)
theory Validation_Stream
  imports Volatility Float_Reference
begin

text \<open>
  The loop of \<^verbatim>\<open>bench/validate_microstructure.cpp\<close>: a pseudo-random walk of the top of book with
  trades at the touch, fed to the fixed-point analytics and to the reference in double precision, with
  the largest differences kept. The logarithm and the square root of the C library are the arguments
  \<open>ln64\<close> and \<open>root64\<close>. The theorem here bounds the fixed-point figures against real numbers; the calls made
  are kept as an observation.
\<close>

section \<open>The loop\<close>

definition stream_lcg :: "u32 \<Rightarrow> u32" where
  "stream_lcg seed = seed * 1664525 + 1013904223"

record Harness =
  hs_seed :: u32
  hs_bid :: u32
  hs_ask :: u32
  hs_fx :: Microstructure
  hs_ref :: RefDouble
  hs_micro_err :: sdouble
  hs_mid_err :: sdouble
  hs_ofi_err :: sdouble
  hs_rv_err :: sdouble
  hs_lam_err :: sdouble
  hs_calls :: "MarketEvent list"

definition Harness_new :: Harness where
  "Harness_new = \<lparr>hs_seed = 20190730, hs_bid = 2180000, hs_ask = 2180100, hs_fx = micro_reset, hs_ref = RefDouble_new,
     hs_micro_err = sd_zero, hs_mid_err = sd_zero, hs_ofi_err = sd_zero, hs_rv_err = sd_zero, hs_lam_err = sd_zero, hs_calls = []\<rparr>"

definition call_both :: "(sdouble \<Rightarrow> sdouble) \<Rightarrow> MarketEvent \<Rightarrow> Harness \<Rightarrow> Harness" where
  "call_both ln64 e h = h\<lparr>hs_fx := micro_event e (hs_fx h), hs_ref := ref_event ln64 e (hs_ref h), hs_calls := hs_calls h @ [e]\<rparr>"

definition harness_book :: "(sdouble \<Rightarrow> sdouble) \<Rightarrow> Harness \<Rightarrow> Harness" where
  "harness_book ln64 h =
     (let s1 = stream_lcg (hs_seed h); drift = uint (s1 mod 201) - 100;
          bid = word_of_int (max 1000000 (uint (hs_bid h) + drift));
          s2 = stream_lcg s1; ask = bid + 100 + s2 mod 400;
          s3 = stream_lcg s2; bq = 1 + s3 mod 5000;
          s4 = stream_lcg s3; aq = 1 + s4 mod 5000
      in call_both ln64 (BookEvent bid bq ask aq) (h\<lparr>hs_seed := s4, hs_bid := bid, hs_ask := ask\<rparr>))"

definition rel_err :: "sdouble \<Rightarrow> sdouble \<Rightarrow> sdouble" where
  "rel_err a b = (if sd_eq b sd_zero then sd_abs a else sd_quot (sd_abs (sd_sub a b)) (sd_abs b))"

text \<open>A metric of scale \<open>10 ^ k\<close> as a double.\<close>

definition unscale :: "nat \<Rightarrow> sdouble \<Rightarrow> sdouble" where
  "unscale k x = sd_quot x (10 ^ k, 0)"

definition book_maxima :: "Harness \<Rightarrow> Harness" where
  "book_maxima h =
     (let m = mi_m (hs_fx h); r = hs_ref h
      in h\<lparr>hs_micro_err := sd_max (hs_micro_err h) (rel_err (unscale 8 (sd_of (me_microprice_1e8 m))) (unscale 4 (rf_micro r))),
           hs_mid_err := sd_max (hs_mid_err h) (rel_err (unscale 8 (sd_of (me_mid_1e8 m))) (unscale 4 (rf_mid r))),
           hs_ofi_err := sd_max (hs_ofi_err h) (sd_abs (sd_sub (sd_of (me_ofi m)) (rf_ofi r)))\<rparr>)"

definition harness_trade :: "(sdouble \<Rightarrow> sdouble) \<Rightarrow> Harness \<Rightarrow> Harness" where
  "harness_trade ln64 h =
     (let s5 = stream_lcg (hs_seed h); h = h\<lparr>hs_seed := s5\<rparr>
      in if s5 mod 4 = 0 then
           let s6 = stream_lcg s5; px = (if s6 mod 2 \<noteq> 0 then hs_ask h else hs_bid h);
               s7 = stream_lcg s6; q = 1 + s7 mod 800; buy = (px = hs_ask h)
           in call_both ln64 (TradeEvent px q buy) (h\<lparr>hs_seed := s7\<rparr>)
         else h)"

definition late_maxima :: "(sdouble \<Rightarrow> sdouble) \<Rightarrow> Harness \<Rightarrow> Harness" where
  "late_maxima root64 h =
     (let m = mi_m (hs_fx h); r = hs_ref h;
          h = (if me_return_samples m > 1000 \<and> rf_n_ret r > 1000
               then h\<lparr>hs_rv_err := sd_max (hs_rv_err h)
                       (rel_err (unscale 9 (sd_of (uint (me_realized_vol_1e9 m)))) (root64 (rf_sum_sq r)))\<rparr>
               else h)
      in if me_trades m > 10000 \<and> sd_less sd_zero (rf_sum_vv r)
         then h\<lparr>hs_lam_err := sd_max (hs_lam_err h) (rel_err (unscale 12 (sd_of (me_kyle_lambda_1e12 m))) (unscale 4 (rf_lambda r)))\<rparr>
         else h)"

definition harness_step :: "(sdouble \<Rightarrow> sdouble) \<Rightarrow> (sdouble \<Rightarrow> sdouble) \<Rightarrow> Harness \<Rightarrow> Harness" where
  "harness_step ln64 root64 h = late_maxima root64 (harness_trade ln64 (book_maxima (harness_book ln64 h)))"

definition UPDATES :: nat where "UPDATES = 1300000"

definition harness :: "(sdouble \<Rightarrow> sdouble) \<Rightarrow> (sdouble \<Rightarrow> sdouble) \<Rightarrow> nat \<Rightarrow> Harness" where
  "harness ln64 root64 n = (harness_step ln64 root64 ^^ n) Harness_new"

section \<open>The walk\<close>

definition book_at :: "nat \<Rightarrow> Harness \<Rightarrow> bool" where
  "book_at i h \<longleftrightarrow> 1000000 \<le> uint (hs_bid h) \<and> uint (hs_bid h) \<le> 2180000 + 100 * int i
     \<and> uint (hs_bid h) + 100 \<le> uint (hs_ask h) \<and> uint (hs_ask h) \<le> uint (hs_bid h) + 499"

definition calls_at :: "nat \<Rightarrow> Harness \<Rightarrow> bool" where
  "calls_at i h \<longleftrightarrow> fold micro_event (hs_calls h) micro_reset = hs_fx h
     \<and> list_all (\<lambda>(m, m'). small_move m m') (moves (session_mids (hs_calls h)))
     \<and> (i = 0 \<longrightarrow> session_mids (hs_calls h) = [])
     \<and> (i > 0 \<longrightarrow> session_mids (hs_calls h) \<noteq> [] \<and> last (session_mids (hs_calls h)) = uint (hs_bid h) + uint (hs_ask h))
     \<and> me_degenerate_books (mi_m (hs_fx h)) = 0 \<and> me_book_updates (mi_m (hs_fx h)) = of_nat i"

text \<open>One step of the walk: the bid moves by at most 100, and the ask is 100 to 499 above it.\<close>

lemma walk_step:
  fixes bid r s :: u32
  assumes "1000000 \<le> uint bid" and "uint bid \<le> 2180000 + 100 * int i" and "i \<le> UPDATES"
  defines "bid' \<equiv> (word_of_int (max 1000000 (uint bid + (uint (r mod 201) - 100))) :: u32)"
  defines "ask' \<equiv> bid' + 100 + s mod 400"
  shows "1000000 \<le> uint bid' \<and> \<bar>uint bid' - uint bid\<bar> \<le> 100 \<and> uint bid' + 100 \<le> uint ask' \<and> uint ask' \<le> uint bid' + 499"
proof -
  define d where "d = uint (r mod 201)"
  define x where "x = uint (s mod 400)"
  have d: "0 \<le> d" "d \<le> 200" and x: "0 \<le> x" "x \<le> 399"
    using pos_mod_bound [of 201 "uint r"] pos_mod_bound [of 400 "uint s"] by (simp_all add: d_def x_def uint_mod)
  define b where "b = max 1000000 (uint bid + (d - 100))"
  have i: "int i \<le> 1300000" using assms(3) by (simp add: UPDATES_def)
  then have b: "1000000 \<le> b" "b \<le> 200000000" "\<bar>b - uint bid\<bar> \<le> 100" using assms(1,2) d by (auto simp: b_def max_def abs_le_iff)
  then have bid': "uint bid' = b" by (simp add: bid'_def d_def [symmetric] b_def [symmetric] uint_word_of_int)
  have ask': "ask' = word_of_int (b + 100 + x)"
    unfolding ask'_def x_def by (simp add: bid' [symmetric])
  have "uint ask' = b + 100 + x" unfolding ask' by (subst uint_word_of_int) (use b x in simp)
  then show ?thesis using b x by (simp add: bid')
qed

lemma quantity_range: "0 < 1 + (r :: u32) mod 5000" "1 + r mod 5000 \<le> 5000"
proof -
  have "0 \<le> uint (r mod 5000)" "uint (r mod 5000) < 5000" by (simp_all add: uint_mod)
  moreover from this have "uint (1 + r mod 5000) = 1 + uint (r mod 5000)"
    by (simp add: uint_word_ariths mod_pos_pos_trivial)
  ultimately have "0 < uint (1 + r mod 5000)" "uint (1 + r mod 5000) \<le> 5000" by linarith+
  then show "0 < 1 + r mod 5000" "1 + r mod 5000 \<le> 5000" by (simp_all only: word_less_def word_le_def) simp_all
qed

lemma on_book_counts:
  assumes "b > 0" and "p > 0" and "q > 0" and "b < a"
  shows "me_degenerate_books (mi_m (on_book b p a q s)) = me_degenerate_books (mi_m s)"
    and "me_book_updates (mi_m (on_book b p a q s)) = me_book_updates (mi_m s) + 1"
proof -
  have "a > 0" using assms(1,4) by (rule less_trans)
  then show "me_degenerate_books (mi_m (on_book b p a q s)) = me_degenerate_books (mi_m s)"
    "me_book_updates (mi_m (on_book b p a q s)) = me_book_updates (mi_m s) + 1"
    using assms by (auto simp: on_book_def Let_def on_return_def not_le [symmetric])
qed

lemma on_trade_counts:
  "me_degenerate_books (mi_m (on_trade px q buy s)) = me_degenerate_books (mi_m s)"
  "me_book_updates (mi_m (on_trade px q buy s)) = me_book_updates (mi_m s)"
  by (simp_all add: on_trade_def Let_def)

lemma call_book:
  assumes "calls_at i h" and "b > 0" and "p > 0" and "q > 0" and "b < a"
    and "small_move (uint (hs_bid h) + uint (hs_ask h)) (uint b + uint a)"
  shows "calls_at (Suc i) (call_both ln64 (BookEvent b p a q) (h\<lparr>hs_seed := s, hs_bid := b, hs_ask := a\<rparr>))"
proof -
  have mids: "session_mids (hs_calls h @ [BookEvent b p a q]) = session_mids (hs_calls h) @ [uint b + uint a]"
    using assms(2-5) by (simp add: session_mids_def)
  have "list_all (\<lambda>(m, m'). small_move m m') (moves (session_mids (hs_calls h @ [BookEvent b p a q])))"
  proof (cases "i = 0")
    case True
    then show ?thesis using assms(1) by (simp add: calls_at_def mids)
  next
    case False
    then show ?thesis using assms(1,6) by (simp add: calls_at_def mids moves_snoc)
  qed
  then show ?thesis
    using assms(1) on_book_counts [OF assms(2-5)] by (simp add: calls_at_def call_both_def mids)
qed

lemma call_trade: "calls_at i h \<Longrightarrow> calls_at i (call_both ln64 (TradeEvent px q buy) (h\<lparr>hs_seed := s\<rparr>))"
  by (auto simp: calls_at_def call_both_def session_mids_def on_trade_counts)

text \<open>What the steps leave alone.\<close>

lemma maxima_frame:
  "hs_seed (book_maxima h) = hs_seed h" "hs_bid (book_maxima h) = hs_bid h" "hs_ask (book_maxima h) = hs_ask h"
  "hs_fx (book_maxima h) = hs_fx h" "hs_ref (book_maxima h) = hs_ref h" "hs_calls (book_maxima h) = hs_calls h"
  "hs_bid (late_maxima root64 h) = hs_bid h" "hs_ask (late_maxima root64 h) = hs_ask h" "hs_fx (late_maxima root64 h) = hs_fx h"
  "hs_ref (late_maxima root64 h) = hs_ref h" "hs_calls (late_maxima root64 h) = hs_calls h"
  "hs_mid_err (late_maxima root64 h) = hs_mid_err h" "hs_ofi_err (late_maxima root64 h) = hs_ofi_err h"
  by (simp_all add: book_maxima_def late_maxima_def Let_def)

lemma trade_frame:
  "hs_bid (harness_trade ln64 h) = hs_bid h" "hs_ask (harness_trade ln64 h) = hs_ask h"
  "hs_mid_err (harness_trade ln64 h) = hs_mid_err h" "hs_ofi_err (harness_trade ln64 h) = hs_ofi_err h"
  by (simp_all add: harness_trade_def Let_def call_both_def)

lemma harness_trade_at:
  assumes "calls_at i h"
  shows "calls_at i (harness_trade ln64 h)" and "length (hs_calls (harness_trade ln64 h)) \<le> Suc (length (hs_calls h))"
proof -
  have seed: "calls_at i (h\<lparr>hs_seed := s\<rparr>)" for s using assms by (simp add: calls_at_def)
  show "calls_at i (harness_trade ln64 h)" unfolding harness_trade_def Let_def using call_trade [OF seed] seed by simp
  show "length (hs_calls (harness_trade ln64 h)) \<le> Suc (length (hs_calls h))"
    by (simp add: harness_trade_def Let_def call_both_def)
qed

text \<open>The quotes a book step makes.\<close>

lemma harness_book_call:
  assumes "book_at i h" and "i < UPDATES"
  obtains s b p a q where "harness_book ln64 h = call_both ln64 (BookEvent b p a q) (h\<lparr>hs_seed := s, hs_bid := b, hs_ask := a\<rparr>)"
    and "1000000 \<le> uint b" and "\<bar>uint b - uint (hs_bid h)\<bar> \<le> 100" and "uint b + 100 \<le> uint a" and "uint a \<le> uint b + 499"
    and "0 < p" and "p \<le> 5000" and "0 < q" and "q \<le> 5000"
proof -
  define s1 where "s1 = stream_lcg (hs_seed h)"
  define s2 where "s2 = stream_lcg s1"
  define s3 where "s3 = stream_lcg s2"
  define s4 where "s4 = stream_lcg s3"
  define bid :: u32 where "bid = word_of_int (max 1000000 (uint (hs_bid h) + (uint (s1 mod 201) - 100)))"
  define ask where "ask = bid + 100 + s2 mod 400"
  have "harness_book ln64 h = call_both ln64 (BookEvent bid (1 + s3 mod 5000) ask (1 + s4 mod 5000)) (h\<lparr>hs_seed := s4, hs_bid := bid, hs_ask := ask\<rparr>)"
    by (simp only: harness_book_def Let_def s1_def s2_def s3_def s4_def bid_def ask_def)
  moreover have "1000000 \<le> uint (hs_bid h)" "uint (hs_bid h) \<le> 2180000 + 100 * int i" using assms(1) by (simp_all add: book_at_def)
  then have "1000000 \<le> uint bid" "\<bar>uint bid - uint (hs_bid h)\<bar> \<le> 100" "uint bid + 100 \<le> uint ask" "uint ask \<le> uint bid + 499"
    using walk_step [of "hs_bid h" i s1 s2] assms(2) unfolding bid_def [symmetric] ask_def [symmetric] by simp_all
  ultimately show ?thesis using that quantity_range by blast
qed

lemma harness_book_at:
  assumes "book_at i h" and "calls_at i h" and "i < UPDATES"
  shows "book_at (Suc i) (harness_book ln64 h) \<and> calls_at (Suc i) (harness_book ln64 h) \<and>
     length (hs_calls (harness_book ln64 h)) = Suc (length (hs_calls h))"
proof -
  obtain s b p a q where step: "harness_book ln64 h = call_both ln64 (BookEvent b p a q) (h\<lparr>hs_seed := s, hs_bid := b, hs_ask := a\<rparr>)"
    and new: "1000000 \<le> uint b" "\<bar>uint b - uint (hs_bid h)\<bar> \<le> 100" "uint b + 100 \<le> uint a" "uint a \<le> uint b + 499"
    and size: "0 < p" "0 < q"
    by (rule harness_book_call [OF assms(1,3), of ln64])
  have old: "1000000 \<le> uint (hs_bid h)" "uint (hs_bid h) \<le> 2180000 + 100 * int i"
    "uint (hs_bid h) + 100 \<le> uint (hs_ask h)" "uint (hs_ask h) \<le> uint (hs_bid h) + 499"
    using assms(1) by (simp_all add: book_at_def)
  define d where "d = \<bar>uint b + uint a - (uint (hs_bid h) + uint (hs_ask h))\<bar>"
  have "d \<le> 599" unfolding d_def using old(3,4) new(2-4) by linarith
  then have "small_move (uint (hs_bid h) + uint (hs_ask h)) (uint b + uint a)"
    using old(1,3) unfolding small_move_def d_def [symmetric] by (intro conjI) linarith+
  moreover have "0 < b" "b < a" using new(1,3) by (simp_all add: word_less_def)
  ultimately have "calls_at (Suc i) (harness_book ln64 h)" unfolding step by (intro call_book assms(2) size)
  moreover have "book_at (Suc i) (harness_book ln64 h)"
    using new old(2) by (auto simp: book_at_def step call_both_def abs_le_iff)
  ultimately show ?thesis by (simp add: step call_both_def)
qed

lemma harness_step_at:
  assumes "book_at i h" and "calls_at i h" and "i < UPDATES"
  shows "book_at (Suc i) (harness_step ln64 root64 h) \<and> calls_at (Suc i) (harness_step ln64 root64 h) \<and>
     length (hs_calls (harness_step ln64 root64 h)) \<le> length (hs_calls h) + 2"
proof -
  define h1 where "h1 = book_maxima (harness_book ln64 h)"
  have h1: "book_at (Suc i) h1" "calls_at (Suc i) h1" "length (hs_calls h1) = Suc (length (hs_calls h))"
    using harness_book_at [OF assms, of ln64] by (simp_all add: h1_def book_at_def calls_at_def maxima_frame)
  show ?thesis
    using h1 harness_trade_at [OF h1(2), of ln64]
    by (simp add: harness_step_def h1_def [symmetric] book_at_def calls_at_def maxima_frame trade_frame)
qed

lemma harness_at: "n \<le> UPDATES \<Longrightarrow>
  book_at n (harness ln64 root64 n) \<and> calls_at n (harness ln64 root64 n) \<and> length (hs_calls (harness ln64 root64 n)) \<le> 2 * n"
proof (induction n)
  case 0
  then show ?case
    by (simp add: harness_def Harness_new_def book_at_def calls_at_def session_mids_def micro_reset_def Metrics_zero_def)
next
  case (Suc n)
  have "harness ln64 root64 (Suc n) = harness_step ln64 root64 (harness ln64 root64 n)" by (simp add: harness_def)
  then show ?case using Suc.IH harness_step_at [of n "harness ln64 root64 n" ln64 root64] Suc.prems by auto
qed

text \<open>
  C17. What the validation program measures. After any number of its 1,300,000 book updates the
  fixed-point analytics have counted every book and found none degenerate, the best bid is at least
  100 dollars and the ask 1 to 5 cents above it, and the realized volatility in units of \<open>10^-9\<close>
  differs from the square root of the sum of the squared real logarithms of the moves of the mid by
  at most 0.0061 times the root of the number of moves, plus 1.001.
\<close>

theorem validation_stream_is_accurate:
  assumes "n \<le> UPDATES"
  shows "let h = harness ln64 root64 n; m = mi_m (hs_fx h); ps = moves (session_mids (hs_calls h));
       exact = sqrt (\<Sum>(m, m') \<leftarrow> ps. (ln (real_of_int m' / real_of_int m))\<^sup>2)
     in hs_fx h = fold micro_event (hs_calls h) micro_reset \<and>
        unat (me_book_updates m) = n \<and> me_degenerate_books m = 0 \<and>
        1000000 \<le> uint (hs_bid h) \<and> uint (hs_ask h) - uint (hs_bid h) \<in> {100..499} \<and>
        \<bar>real (unat (me_realized_vol_1e9 m)) - 1000000000 * exact\<bar> \<le> 61 / 10000 * sqrt (real (length ps)) + 1001 / 1000"
proof -
  define h where "h = harness ln64 root64 n"
  have h: "book_at n h" "calls_at n h" "length (hs_calls h) \<le> 2 * n" using harness_at [OF assms, of ln64 root64] by (simp_all add: h_def)
  have n: "n \<le> 1300000" using assms by (simp add: UPDATES_def)
  have len: "length (hs_calls h) \<le> 2 ^ 30" using h(3) n by simp
  have fx: "hs_fx h = fold micro_event (hs_calls h) micro_reset"
    "list_all (\<lambda>(m, m'). small_move m m') (moves (session_mids (hs_calls h)))"
    "me_degenerate_books (mi_m (hs_fx h)) = 0" "me_book_updates (mi_m (hs_fx h)) = of_nat n"
    using h(2) by (simp_all add: calls_at_def)
  have "unat (me_book_updates (mi_m (hs_fx h))) = n" using n fx(4) by (simp add: unat_of_nat)
  then show ?thesis
    using realized_volatility_error [OF len fx(2)] h(1) fx(3)
    unfolding Let_def h_def [symmetric] fx(1) [symmetric] book_at_def by auto
qed

theorem validation_stream_is_accurate_witness:
  "unat (me_book_updates (mi_m (hs_fx (harness (\<lambda>x. x) (\<lambda>x. x) 1000000)))) = 1000000 \<and> me_degenerate_books (mi_m (hs_fx (harness (\<lambda>x. x) (\<lambda>x. x) 1000000))) = 0"
proof -
  have "1000000 \<le> UPDATES" by (simp add: UPDATES_def)
  then show ?thesis using validation_stream_is_accurate [of 1000000 "\<lambda>x. x" "\<lambda>x. x"] unfolding Let_def by blast
qed

end
