(* ===== verification/Validation_Report.thy ===== *)
theory Validation_Report
  imports Validation_Stream Day_Report
begin

text \<open>
  What \<^verbatim>\<open>bench/validate_microstructure.cpp\<close> reports: the largest differences between the two
  computations of each metric, in the notation \<^verbatim>\<open>%.3e\<close>, and the final fixed-point values. A number that
  would be the quotient by zero is \<^const>\<open>None\<close>. Proved: the zeros it reports for the mid, the order
  flow imbalance and the effective spread are not accidents of the run; the two computations agree
  exactly there, whatever logarithm and square root the C library has.
\<close>

section \<open>Scientific notation\<close>

text \<open>The decimal exponent of \<open>n / d\<close>, split into its positive and its negative part.\<close>

function sci_up :: "nat \<Rightarrow> nat \<Rightarrow> nat" where
  "sci_up n d = (if d = 0 \<or> n < 10 * d then 0 else Suc (sci_up n (10 * d)))"
  by pat_completeness auto
termination
  by (relation "measure (\<lambda>(n, d). n - d)") auto

function sci_down :: "nat \<Rightarrow> nat \<Rightarrow> nat" where
  "sci_down n d = (if n = 0 \<or> d \<le> n then 0 else Suc (sci_down (10 * n) d))"
  by pat_completeness auto
termination
  by (relation "measure (\<lambda>(n, d). d - n)") auto

declare sci_up.simps [simp del] and sci_down.simps [simp del]

text \<open>Four decimal digits and the exponent of the first; rounding up to \<open>10\<close> moves the point.\<close>

definition sci_parts :: "nat \<Rightarrow> nat \<Rightarrow> nat \<times> int" where
  "sci_parts n d =
     (if n = 0 then (0, 0)
      else
        let up = sci_up n d; down = sci_down n d;
            c = round_div (n * 10 ^ down * 1000) (d * 10 ^ up); e = int up - int down
        in if c = 10000 then (1000, e + 1) else (c, e))"

definition sci_text :: "sdouble \<Rightarrow> string" where
  "sci_text x =
     (case sci_parts (nat \<bar>fst x\<bar>) (2 ^ snd x) of (c, e) \<Rightarrow>
        (if fst x < 0 then ''-'' else '''') @ dec_text (c div 1000) @ ''.'' @ zero_pad 3 (dec_text (c mod 1000))
        @ ''e'' @ (if e < 0 then ''-'' else ''+'') @ zero_pad 2 (dec_text (nat \<bar>e\<bar>)))"

section \<open>The report\<close>

definition err_line :: "string \<Rightarrow> string \<Rightarrow> string \<Rightarrow> string" where
  "err_line label num suffix = ''  '' @ pad_right 22 label @ '' '' @ pad_left 12 num @ suffix @ newline"

definition es_error :: "Harness \<Rightarrow> sdouble option" where
  "es_error h =
     (let m = mi_m (hs_fx h); r = hs_ref h
      in if me_effective_spread_n m = 0 then Some sd_zero
         else if rf_es_n r = 0 then None
         else
           let a = unscale 4 (sd_quot (sd_of (uint (me_effective_spread_sum_1e4 m))) (sd_of (uint (me_effective_spread_n m))));
               b = unscale 4 (sd_quot (rf_es_sum r) (sd_of (uint (rf_es_n r))))
           in if sd_eq b sd_zero then None else Some (sd_quot (sd_abs (sd_sub a b)) b))"

definition rv_final :: "(sdouble \<Rightarrow> sdouble) \<Rightarrow> Harness \<Rightarrow> sdouble option" where
  "rv_final root64 h =
     (let rv = root64 (rf_sum_sq (hs_ref h))
      in if sd_eq rv sd_zero then None
         else Some (sd_quot (sd_abs (sd_sub (unscale 9 (sd_of (uint (me_realized_vol_1e9 (mi_m (hs_fx h)))))) rv)) rv))"

definition lam_abs :: "Harness \<Rightarrow> sdouble" where
  "lam_abs h = sd_abs (sd_sub (unscale 12 (sd_of (me_kyle_lambda_1e12 (mi_m (hs_fx h))))) (unscale 4 (rf_lambda (hs_ref h))))"

definition lam_final :: "Harness \<Rightarrow> sdouble" where
  "lam_final h =
     (if sd_eq (rf_lambda (hs_ref h)) sd_zero then sd_zero
      else sd_quot (lam_abs h) (sd_abs (unscale 4 (rf_lambda (hs_ref h)))))"

definition error_report :: "(sdouble \<Rightarrow> sdouble) \<Rightarrow> Harness \<Rightarrow> string option list" where
  "error_report root64 h =
     [Some (''fixed-point vs float64 over '' @ dec_text UPDATES @ '' book updates'' @ newline),
      Some (''  '' @ pad_right 22 ''metric'' @ '' '' @ pad_left 12 ''max rel err'' @ newline),
      Some (err_line ''microprice'' (sci_text (hs_micro_err h)) ''''),
      Some (err_line ''mid'' (sci_text (hs_mid_err h)) ''''),
      Some (err_line ''order flow imbalance'' (sci_text (hs_ofi_err h)) ''   (exact, integer)''),
      map_option (\<lambda>x. err_line ''effective spread'' (sci_text x) '''') (es_error h),
      Some (err_line ''realized volatility'' (sci_text (hs_rv_err h)) ''   (after 1k warmup)''),
      map_option (\<lambda>x. err_line ''  rv final'' (sci_text x) ''   (final value)'') (rv_final root64 h),
      Some (err_line ''kyle lambda'' (sci_text (lam_abs h)) ''   (abs, $/share)''),
      Some (err_line ''  lambda final'' (sci_text (lam_final h)) ''   (final, relative)''),
      Some (err_line ''degenerate books skipped'' (dec_text (unat (rf_degenerate (hs_ref h)))) '''')]"

definition final_values :: "Metrics \<Rightarrow> string list" where
  "final_values m =
     [newline @ ''final values (fixed point):'' @ newline,
      ''  microprice        $'' @ scaled_text False 6 8 (me_microprice_1e8 m) @ newline,
      ''  mid               $'' @ scaled_text False 6 8 (me_mid_1e8 m) @ newline,
      ''  micro - mid       $'' @ scaled_text False 6 8 (me_micro_minus_mid_1e8 m) @ newline,
      ''  OFI               '' @ dec_int (me_ofi m) @ '' shares'' @ newline,
      ''  realized vol      '' @ scaled_text False 9 9 (uint (me_realized_vol_1e9 m)) @ ''  (''
        @ dec_text (unat (me_return_samples m)) @ '' samples)'' @ newline,
      ''  kyle lambda       '' @ scaled_text False 12 12 (me_kyle_lambda_1e12 m) @ '' $/share'' @ newline,
      ''  eff spread        '' @ bps_text m @ '' bps over '' @ dec_text (unat (me_effective_spread_n m)) @ '' trades'' @ newline]"

definition validation_main :: "(sdouble \<Rightarrow> sdouble) \<Rightarrow> (sdouble \<Rightarrow> sdouble) \<Rightarrow> string option list" where
  "validation_main ln64 root64 =
     (let h = harness ln64 root64 UPDATES in error_report root64 h @ map Some (final_values (mi_m (hs_fx h))))"

section \<open>Digits\<close>

lemma round_div_between: "0 < d \<Longrightarrow> a * d \<le> n \<Longrightarrow> n < b * d \<Longrightarrow> a \<le> round_div n d \<and> round_div n d \<le> b"
proof -
  assume d: "0 < d" "a * d \<le> n" "n < b * d"
  then have "a \<le> n div d" "n div d < b" by (simp_all add: less_eq_div_iff_mult_less_eq div_less_iff_less_mult)
  then show ?thesis by (simp add: round_div_def Let_def)
qed

lemma sci_up_bounds: "0 < d \<Longrightarrow> d \<le> n \<Longrightarrow> d * 10 ^ sci_up n d \<le> n \<and> n < 10 * (d * 10 ^ sci_up n d)"
proof (induction n d rule: sci_up.induct)
  case (1 n d)
  show ?case
  proof (cases "n < 10 * d")
    case True
    then show ?thesis using 1(2,3) by (simp add: sci_up.simps)
  next
    case False
    then have "sci_up n d = Suc (sci_up n (10 * d))" using 1(2) by (subst sci_up.simps) simp
    then show ?thesis using 1(1) 1(2) False by (simp add: mult.assoc mult.left_commute)
  qed
qed

lemma sci_down_bounds: "0 < n \<Longrightarrow> n < d \<Longrightarrow> d \<le> n * 10 ^ sci_down n d \<and> n * 10 ^ sci_down n d < 10 * d"
proof (induction n d rule: sci_down.induct)
  case (1 n d)
  have step: "sci_down n d = Suc (sci_down (10 * n) d)" using 1(2,3) by (subst sci_down.simps) simp
  show ?case
  proof (cases "d \<le> 10 * n")
    case True
    then have "sci_down (10 * n) d = 0" by (subst sci_down.simps) simp
    then show ?thesis using True 1(3) by (simp add: step mult.commute)
  next
    case False
    then show ?thesis using 1(1) 1(2,3) by (simp add: step mult.assoc mult.left_commute)
  qed
qed

text \<open>The digits of a positive number: four of them, the first not zero.\<close>

lemma sci_digits:
  assumes "0 < n" and "0 < d"
  shows "1000 \<le> fst (sci_parts n d)" and "fst (sci_parts n d) < 10000"
proof -
  define up where "up = sci_up n d"
  define down where "down = sci_down n d"
  have "d * 10 ^ up \<le> n * 10 ^ down \<and> n * 10 ^ down < 10 * (d * 10 ^ up)"
  proof (cases "d \<le> n")
    case True
    then have "down = 0" unfolding down_def by (subst sci_down.simps) simp
    then show ?thesis using sci_up_bounds [OF assms(2) True] by (simp add: up_def)
  next
    case False
    then have "up = 0" unfolding up_def by (subst sci_up.simps) simp
    then show ?thesis using sci_down_bounds [OF assms(1)] False by (simp add: down_def)
  qed
  then have "1000 \<le> round_div (n * 10 ^ down * 1000) (d * 10 ^ up) \<and> round_div (n * 10 ^ down * 1000) (d * 10 ^ up) \<le> 10000"
    using assms(2) by (intro round_div_between) simp_all
  then show "1000 \<le> fst (sci_parts n d)" "fst (sci_parts n d) < 10000"
    using assms(1) by (auto simp: sci_parts_def up_def [symmetric] down_def [symmetric] Let_def)
qed

section \<open>Equal numbers make no error\<close>

lemma dbl_div_positive:
  assumes "0 < n" and "0 < d"
  shows "0 < fst (dbl_div n d)"
proof (cases "n < d * 2 ^ 53")
  case True
  have "d * 2 ^ 52 div d \<le> n * 2 ^ dbl_scale n d div d" by (intro div_le_mono dbl_scale_large assms(1))
  then have "0 < n * 2 ^ dbl_scale n d div d" using assms(2) by simp
  then show ?thesis using True by (simp add: dbl_div_def Let_def round_div_def)
next
  case False
  define k where "k = dbl_excess (n div d)"
  have "2 ^ 53 \<le> n div d" using False assms(2) by (simp add: less_eq_div_iff_mult_less_eq mult.commute)
  then have "2 ^ 52 * 2 ^ k \<le> n div d" unfolding k_def by (rule dbl_excess_power)
  then have "2 ^ 52 \<le> n div (d * 2 ^ k)" by (simp add: div_mult2_eq less_eq_div_iff_mult_less_eq)
  then have "0 < n div (d * 2 ^ k)" by (rule order.strict_trans2 [rotated]) simp
  then show ?thesis using False by (simp add: dbl_div_def k_def [symmetric] Let_def round_div_def)
qed

lemma sd_quot_nonzero: "sd_val x \<noteq> 0 \<Longrightarrow> sd_val y \<noteq> 0 \<Longrightarrow> sd_val (sd_quot x y) \<noteq> 0"
proof -
  assume "sd_val x \<noteq> 0" "sd_val y \<noteq> 0"
  then have nz: "fst x \<noteq> 0" "fst y \<noteq> 0" by (simp_all add: sd_val_zero)
  define n where "n = sgn (fst y) * fst x * 2 ^ snd y"
  define d where "d = nat \<bar>fst y\<bar> * 2 ^ snd x"
  have "0 < nat \<bar>n\<bar>" "0 < d" "sgn n \<noteq> 0" using nz by (simp_all add: n_def d_def sgn_0_0 abs_mult)
  then have "fst (sd_div n d) \<noteq> 0" using dbl_div_positive [of "nat \<bar>n\<bar>" d] by (simp add: sd_div_def split_beta)
  then show ?thesis by (simp add: sd_quot_def n_def d_def sd_val_zero)
qed

lemma sd_whole_val: "sd_val (i, 0) = of_int i"
  by (simp add: sd_val_def)

lemma sd_sub_equal: "sd_val x = sd_val y \<Longrightarrow> sd_val (sd_sub x y) = 0"
  using sd_sub_exact [of x y 0 0] by simp

lemma sd_quot_of_zero: "sd_val x = 0 \<Longrightarrow> sd_val y \<noteq> 0 \<Longrightarrow> sd_val (sd_quot x y) = 0"
  using sd_quot_exact [of y x 0 0] by simp

lemma rel_err_equal: "sd_val a = sd_val b \<Longrightarrow> sd_val (rel_err a b) = 0"
  by (auto simp: rel_err_def sd_eq_val sd_abs_val intro!: sd_quot_of_zero sd_sub_equal)

lemma sci_text_zero:
  assumes "sd_val x = 0"
  shows "sci_text x = ''0.000e+00''"
proof -
  have "fst x = 0" using assms sd_val_zero [of x] by blast
  then have "sci_text x = sci_text (0, 0)" by (simp add: sci_text_def sci_parts_def)
  also have "\<dots> = ''0.000e+00''" by code_simp
  finally show ?thesis .
qed

section \<open>Both computations on the stream\<close>

definition both_at :: "nat \<Rightarrow> Harness \<Rightarrow> bool" where
  "both_at i h \<longleftrightarrow> same_metrics (hs_fx h) (hs_ref h)
     \<and> \<bar>me_ofi (mi_m (hs_fx h))\<bar> \<le> 10000 * int i
     \<and> mi_qb (hs_fx h) \<le> 5000 \<and> mi_qa (hs_fx h) \<le> 5000
     \<and> me_mid_1e8 (mi_m (hs_fx h)) mod 5000 = 0
     \<and> uint (me_effective_spread_n (mi_m (hs_fx h))) \<le> int i
     \<and> 100 * uint (me_effective_spread_n (mi_m (hs_fx h))) \<le> uint (me_effective_spread_sum_1e4 (mi_m (hs_fx h)))
     \<and> uint (me_effective_spread_sum_1e4 (mi_m (hs_fx h))) \<le> 499 * uint (me_effective_spread_n (mi_m (hs_fx h)))
     \<and> sd_val (hs_mid_err h) = 0 \<and> sd_val (hs_ofi_err h) = 0"

lemma flow_small:
  assumes "0 \<le> p" "p \<le> 5000" "0 \<le> q" "q \<le> 5000" "0 \<le> xt_qb x" "xt_qb x \<le> 5000" "0 \<le> xt_qa x" "xt_qa x \<le> 5000"
  shows "\<bar>flow x b p a q\<bar> \<le> 10000"
  using assms by (auto simp: flow_def)


lemma valid_book_mid:
  "b > 0 \<Longrightarrow> p > 0 \<Longrightarrow> q > 0 \<Longrightarrow> b < a \<Longrightarrow> me_mid_1e8 (mi_m (on_book b p a q s)) = (uint b + uint a) * 5000"
  by (auto simp: on_book_def Let_def on_return_fields not_le [symmetric])

text \<open>A book step: both sides take the quotes, and the errors of the mid and the flow stay zero.\<close>

definition quoted :: "Harness \<Rightarrow> bool" where
  "quoted h \<longleftrightarrow> mi_have_prev (hs_fx h) \<and> mi_pb (hs_fx h) = hs_bid h \<and> mi_pa (hs_fx h) = hs_ask h
     \<and> me_mid_1e8 (mi_m (hs_fx h)) = (uint (hs_bid h) + uint (hs_ask h)) * 5000"

lemma both_call_book:
  fixes ln64 :: "sdouble \<Rightarrow> sdouble" and s :: u32
  assumes "both_at i h" and "i < UPDATES" and valid: "0 < b" "0 < p" "0 < q" "b < a" and size: "p \<le> 5000" "q \<le> 5000"
  defines "h' \<equiv> call_both ln64 (BookEvent b p a q) (h\<lparr>hs_seed := s, hs_bid := b, hs_ask := a\<rparr>)"
  shows "both_at (Suc i) h'" and "quoted h'"
proof -
  define f where "f = hs_fx h"
  define f' where "f' = on_book b p a q f"
  define d where "d = (if mi_have_prev f then flow (exact_of f) (uint b) (uint p) (uint a) (uint q) else 0)"
  have old: "same_metrics f (hs_ref h)" "\<bar>me_ofi (mi_m f)\<bar> \<le> 10000 * int i" "mi_qb f \<le> 5000" "mi_qa f \<le> 5000"
    using assms(1) by (simp_all add: both_at_def f_def)
  have "int i < 1300000" using assms(2) by (simp add: UPDATES_def)
  then have "\<bar>me_ofi (mi_m f)\<bar> \<le> 2 ^ 52" using old(2) by simp
  then have same: "same_metrics f' (ref_event ln64 (BookEvent b p a q) (hs_ref h))"
    unfolding f'_def by (intro same_book old(1))
  have exact: "exact_of f' = exact_book (mi_have_prev f) (uint b) (uint p) (uint a) (uint q) (exact_of f)"
    unfolding f'_def by (rule on_book_exact(1) [OF valid(1-4)])
  have es: "me_effective_spread_sum_1e4 (mi_m f') = me_effective_spread_sum_1e4 (mi_m f)"
    using arg_cong [OF exact, of xt_es] by (simp add: exact_of_def exact_book_def word_uint_eq_iff)
  have "\<bar>d\<bar> \<le> 10000"
    using old(3,4) size by (auto simp: d_def exact_of_def word_le_def intro!: flow_small)
  moreover have "me_ofi (mi_m f') = me_ofi (mi_m f) + d"
    using arg_cong [OF exact, of xt_ofi] by (simp add: exact_of_def exact_book_def d_def)
  ultimately have ofi: "\<bar>me_ofi (mi_m f')\<bar> \<le> 10000 * int (Suc i)" using old(2) by (simp add: abs_le_iff)
  have "uint (mi_qb f') = uint p" "uint (mi_qa f') = uint q"
    using arg_cong [OF exact, of xt_qb] arg_cong [OF exact, of xt_qa] by (simp_all add: exact_of_def exact_book_def)
  then have sizes: "mi_qb f' = p" "mi_qa f' = q" by (simp_all only: word_uint_eq_iff)
  note book = on_book_exact(2-5) [OF valid(1-4), of f, folded f'_def]
  have mid: "me_mid_1e8 (mi_m f') = (uint b + uint a) * 5000" unfolding f'_def by (rule valid_book_mid [OF valid])
  have h': "hs_fx h' = f'" "hs_ref h' = ref_event ln64 (BookEvent b p a q) (hs_ref h)" "hs_bid h' = b" "hs_ask h' = a"
    "hs_mid_err h' = hs_mid_err h" "hs_ofi_err h' = hs_ofi_err h"
    by (simp_all add: h'_def call_both_def f'_def f_def)
  show "quoted h'" using book mid by (simp add: quoted_def h')
  show "both_at (Suc i) h'"
    using assms(1) same ofi size mid book(4) by (simp add: both_at_def h' sizes es f_def [symmetric])
qed


lemma both_maxima:
  assumes "both_at i h" and "quoted h" and "book_at i h" and "i \<le> UPDATES"
  shows "both_at i (book_maxima h)"
proof -
  define f where "f = hs_fx h"
  define r where "r = hs_ref h"
  define k where "k = uint (hs_bid h) + uint (hs_ask h)"
  have same: "same_metrics f r" and ofi: "\<bar>me_ofi (mi_m f)\<bar> \<le> 10000 * int i"
    using assms(1) by (simp_all add: both_at_def f_def r_def)
  have i: "int i \<le> 1300000" using assms(4) by (simp add: UPDATES_def)
  have k: "0 \<le> k" "k \<le> 1000000000" using assms(3) i by (auto simp: k_def book_at_def)
  have mid: "me_mid_1e8 (mi_m f) = k * 5000" using assms(2) by (simp add: quoted_def k_def f_def)
  have "sd_val (sd_of (me_ofi (mi_m f))) = of_int (me_ofi (mi_m f))" using ofi i by (intro sd_of_exact) simp
  then have o: "sd_val (sd_abs (sd_sub (sd_of (me_ofi (mi_m f))) (rf_ofi r))) = 0"
    by (simp add: sd_abs_val sd_sub_equal same_ofi [OF same])
  have "sd_val (sd_of (k * 5000)) = of_int (k * 5000)" using k by (intro sd_of_exact) simp
  then have "unscale 8 (sd_of (me_mid_1e8 (mi_m f))) = unscale 4 (rf_mid r)"
    unfolding unscale_def mid by (intro sd_quot_ratio) (simp_all add: sd_whole_val same_mid [OF same] mid)
  then have m: "sd_val (rel_err (unscale 8 (sd_of (me_mid_1e8 (mi_m f)))) (unscale 4 (rf_mid r))) = 0"
    by (simp add: rel_err_equal)
  show ?thesis
    using assms(1) o m by (simp add: both_at_def book_maxima_def Let_def sd_max_val f_def r_def)
qed

lemma both_call_trade:
  fixes ln64 :: "sdouble \<Rightarrow> sdouble" and s :: u32
  assumes "both_at (Suc i) h" and "quoted h" and "uint (me_effective_spread_n (mi_m (hs_fx h))) \<le> int i" and "book_at (Suc i) h" and "i < UPDATES"
    and px: "px = hs_ask h \<or> px = hs_bid h"
  shows "both_at (Suc i) (call_both ln64 (TradeEvent px q buy) (h\<lparr>hs_seed := s\<rparr>))"
proof -
  define f where "f = hs_fx h"
  define f' where "f' = on_trade px q buy f"
  define n where "n = uint (me_effective_spread_n (mi_m f))"
  define t where "t = uint (me_effective_spread_sum_1e4 (mi_m f))"
  define d where "d = \<bar>2 * uint px - (uint (mi_pb f) + uint (mi_pa f))\<bar>"
  have quotes: "mi_have_prev f" "mi_pb f = hs_bid h" "mi_pa f = hs_ask h" using assms(2) by (simp_all add: quoted_def f_def)
  have old: "same_metrics f (hs_ref h)" "100 * n \<le> t" "t \<le> 499 * n" using assms(1) by (simp_all add: both_at_def f_def n_def t_def)
  have i: "int i < 1300000" using assms(5) by (simp add: UPDATES_def)
  have n: "0 \<le> n" "n \<le> int i" using assms(3) by (simp_all add: n_def f_def)
  have book: "0 < uint (hs_bid h)" "uint (hs_bid h) + 100 \<le> uint (hs_ask h)" "uint (hs_ask h) \<le> uint (hs_bid h) + 499"
    using assms(4) by (simp_all add: book_at_def)
  then have d: "100 \<le> d" "d \<le> 499" using px unfolding d_def quotes(2,3) by auto
  have same: "same_metrics f' (ref_event ln64 (TradeEvent px q buy) (hs_ref h))"
    unfolding f'_def using old n i by (intro same_trade) (simp_all add: t_def [symmetric])
  have "mi_pb f \<noteq> 0" "mi_pa f \<noteq> 0" using book quotes by auto
  then have f': "me_effective_spread_n (mi_m f') = me_effective_spread_n (mi_m f) + 1"
    "me_effective_spread_sum_1e4 (mi_m f') = me_effective_spread_sum_1e4 (mi_m f) + word_of_int d"
    "me_ofi (mi_m f') = me_ofi (mi_m f)" "me_mid_1e8 (mi_m f') = me_mid_1e8 (mi_m f)" "mi_qb f' = mi_qb f" "mi_qa f' = mi_qa f"
    using quotes(1) by (simp_all add: f'_def on_trade_def Let_def d_def abs_if)
  have n': "uint (me_effective_spread_n (mi_m f) + 1) = n + 1"
    using n i by (simp add: uint_word_ariths n_def mod_pos_pos_trivial)
  have t': "uint (me_effective_spread_sum_1e4 (mi_m f) + word_of_int d) = t + d"
    using n i d old(2,3) by (simp add: uint_word_ariths uint_word_of_int t_def mod_pos_pos_trivial)
  show ?thesis
    using assms(1) same n d old(2,3)
    by (simp add: both_at_def call_both_def f'_def [symmetric] f_def [symmetric] f' n' t')
qed


lemma both_seed: "both_at i (h\<lparr>hs_seed := s\<rparr>) = both_at i h" "quoted (h\<lparr>hs_seed := s\<rparr>) = quoted h"
  by (simp_all add: both_at_def quoted_def)

lemma both_step:
  assumes "book_at i h" and "calls_at i h" and "both_at i h" and "i < UPDATES"
  shows "both_at (Suc i) (harness_step ln64 root64 h)"
proof -
  obtain s b p a q where step: "harness_book ln64 h = call_both ln64 (BookEvent b p a q) (h\<lparr>hs_seed := s, hs_bid := b, hs_ask := a\<rparr>)"
    and new: "1000000 \<le> uint b" "uint b + 100 \<le> uint a" and size: "0 < p" "p \<le> 5000" "0 < q" "q \<le> 5000"
    by (rule harness_book_call [OF assms(1,4), of ln64])
  have valid: "0 < b" "b < a" using new by (simp_all add: word_less_def)
  define h1 where "h1 = harness_book ln64 h"
  define h2 where "h2 = book_maxima h1"
  have h1: "both_at (Suc i) h1" "quoted h1"
    unfolding h1_def step by (rule both_call_book [OF assms(3,4) valid(1) size(1,3) valid(2) size(2,4)])+
  have book: "book_at (Suc i) h1" using harness_book_at [OF assms(1,2,4), of ln64] by (simp add: h1_def)
  have "both_at (Suc i) h2" unfolding h2_def using assms(4) by (intro both_maxima h1 book) simp
  moreover have "quoted h2" "book_at (Suc i) h2" using h1(2) book by (simp_all add: h2_def quoted_def book_at_def maxima_frame)
  moreover have "uint (me_effective_spread_n (mi_m (hs_fx h2))) \<le> int i"
    using assms(3) on_book_exact(5) [OF valid(1) size(1,3) valid(2), of "hs_fx h"]
    by (simp add: h2_def h1_def maxima_frame step call_both_def both_at_def)
  ultimately have "both_at (Suc i) (harness_trade ln64 h2)"
    unfolding harness_trade_def Let_def
    by (auto simp: both_seed intro!: both_call_trade assms(4))
  then show ?thesis by (simp add: harness_step_def h1_def [symmetric] h2_def [symmetric] both_at_def maxima_frame)
qed

lemma both_harness: "n \<le> UPDATES \<Longrightarrow> both_at n (harness ln64 root64 n)"
proof (induction n)
  case 0
  then show ?case
    by (simp add: harness_def Harness_new_def both_at_def same_new) (simp add: micro_reset_def Metrics_zero_def)
next
  case (Suc n)
  have "harness ln64 root64 (Suc n) = harness_step ln64 root64 (harness ln64 root64 n)" by (simp add: harness_def)
  then show ?case using Suc both_step [of n "harness ln64 root64 n" ln64 root64] harness_at [of n ln64 root64] by simp
qed


lemma both_es_error: "both_at i h \<Longrightarrow> i \<le> UPDATES \<Longrightarrow> \<exists>x. es_error h = Some x \<and> sd_val x = 0"
proof -
  assume h: "both_at i h" and i: "i \<le> UPDATES"
  define m where "m = mi_m (hs_fx h)"
  define r where "r = hs_ref h"
  define n where "n = uint (me_effective_spread_n m)"
  define t where "t = uint (me_effective_spread_sum_1e4 m)"
  have same: "same_metrics (hs_fx h) r" and t: "100 * n \<le> t" "t \<le> 499 * n" "n \<le> int i"
    using h by (simp_all add: both_at_def m_def r_def n_def t_def)
  show ?thesis
  proof (cases "me_effective_spread_n m = 0")
    case True
    then show ?thesis by (simp add: es_error_def m_def)
  next
    case False
    then have n: "0 < n" by (simp add: n_def less_le unsigned_eq_0_iff)
    have es_n: "rf_es_n r = me_effective_spread_n m" using same by (simp add: same_metrics_def m_def)
    define avg where "avg = sd_quot (rf_es_sum r) (sd_of n)"
    have big: "n < 2 ^ 53" "t < 2 ^ 53" using t i by (simp_all add: UPDATES_def)
    have v: "sd_val (sd_of n) = of_int n" "sd_val (sd_of t) = of_int t" "sd_val (rf_es_sum r) = of_int t"
      using n t(1) big same_es [OF same] by (simp_all add: sd_of_exact t_def m_def)
    have avg: "sd_quot (sd_of t) (sd_of n) = avg" unfolding avg_def using n v by (intro sd_quot_ratio) simp_all
    have "sd_val avg \<noteq> 0" unfolding avg_def using n t(1) v by (intro sd_quot_nonzero) simp_all
    then have nz: "sd_val (unscale 4 avg) \<noteq> 0" unfolding unscale_def by (intro sd_quot_nonzero) (simp_all add: sd_whole_val)
    have "es_error h = Some (sd_quot (sd_abs (sd_sub (unscale 4 avg) (unscale 4 avg))) (unscale 4 avg))"
      using False nz avg
      by (simp add: es_error_def Let_def m_def [symmetric] r_def [symmetric] es_n n_def [symmetric] t_def [symmetric] avg_def [symmetric] sd_eq_val)
    then show ?thesis using nz by (simp add: sd_quot_of_zero sd_abs_val sd_sub_equal)
  qed
qed

text \<open>
  C18. The exact metrics of the validation program. After any number of its 1,300,000 updates, and for any
  logarithm and square root of the C library, the double precision reference holds exactly the mid,
  order flow imbalance, sum and number of effective spreads, number of returns and of degenerate books
  of the fixed-point analytics, and the lines reported for mid, order flow imbalance and effective
  spread read 0.000e+00, the line of skipped books 0.
\<close>

theorem float_reference_agrees:
  assumes "n \<le> UPDATES"
  shows "let h = harness ln64 root64 n; m = mi_m (hs_fx h); r = hs_ref h; lines = error_report root64 h
     in sd_val (rf_mid r) = of_int (me_mid_1e8 m) / 10000 \<and> sd_val (rf_ofi r) = of_int (me_ofi m) \<and>
        sd_val (rf_es_sum r) = real (unat (me_effective_spread_sum_1e4 m)) \<and> rf_es_n r = me_effective_spread_n m \<and>
        rf_n_ret r = me_return_samples m \<and> rf_degenerate r = me_degenerate_books m \<and>
        lines ! 3 = Some (err_line ''mid'' ''0.000e+00'' '''') \<and>
        lines ! 4 = Some (err_line ''order flow imbalance'' ''0.000e+00'' ''   (exact, integer)'') \<and>
        lines ! 5 = Some (err_line ''effective spread'' ''0.000e+00'' '''') \<and>
        lines ! 10 = Some (err_line ''degenerate books skipped'' ''0'' '''')"
proof -
  define h where "h = harness ln64 root64 n"
  have both: "both_at n h" unfolding h_def by (rule both_harness [OF assms])
  then have same: "same_metrics (hs_fx h) (hs_ref h)" and zero: "sd_val (hs_mid_err h) = 0" "sd_val (hs_ofi_err h) = 0"
    and mid: "me_mid_1e8 (mi_m (hs_fx h)) mod 5000 = 0"
    by (simp_all add: both_at_def)
  obtain x where es: "es_error h = Some x" "sd_val x = 0" using both_es_error [OF both assms] by blast
  have "calls_at n h" using harness_at [OF assms, of ln64 root64] by (simp add: h_def)
  then have none: "rf_degenerate (hs_ref h) = 0" "me_degenerate_books (mi_m (hs_fx h)) = 0"
    using same by (simp_all add: same_metrics_def calls_at_def)
  obtain k where k: "me_mid_1e8 (mi_m (hs_fx h)) = 5000 * k" using mid by blast
  have "sd_val (rf_mid (hs_ref h)) = of_int (me_mid_1e8 (mi_m (hs_fx h))) / 10000" by (simp add: same_mid [OF same] k)
  moreover have "dec_text 0 = [CHR 0x30]" by code_simp
  ultimately show ?thesis
    using same zero es none same_ofi [OF same] same_es [OF same]
    unfolding Let_def h_def [symmetric]
    by (simp add: error_report_def sci_text_zero same_metrics_def)
qed

theorem float_reference_agrees_witness:
  "sd_val (rf_ofi (hs_ref (harness (\<lambda>x. x) (\<lambda>x. x) UPDATES))) = of_int (me_ofi (mi_m (hs_fx (harness (\<lambda>x. x) (\<lambda>x. x) UPDATES)))) \<and>
   error_report (\<lambda>x. x) (harness (\<lambda>x. x) (\<lambda>x. x) UPDATES) ! 5 = Some (err_line ''effective spread'' ''0.000e+00'' '''')"
  using float_reference_agrees [of UPDATES "\<lambda>x. x" "\<lambda>x. x"] unfolding Let_def by blast

end
