(* ===== verification/Well_Typed.thy ===== *)
theory Well_Typed
  imports Day_Replay Live_Exchange
begin

text \<open>
  What the values that flow from the file to the engine can be: the C++ types of \<^verbatim>\<open>Order\<close> and
  \<^verbatim>\<open>ResolvedOp\<close> allow unset enumerators and the model's tickers are lists. Shown: every order a replay
  of any file delivers, and every operation the resolver makes of them, has a real action, a side where
  one is due, and an eight-byte ticker.
\<close>

definition order_typed :: "Order \<Rightarrow> bool" where
  "order_typed x \<longleftrightarrow> o_valid x = 1 \<and> length (o_stock x) = 8 \<and> o_action x \<noteq> Action_None \<and>
     (o_side x \<noteq> Side_None \<longleftrightarrow> o_action x \<in> {Add, Trade})"

definition op_typed :: "ResolvedOp \<Rightarrow> bool" where
  "op_typed p \<longleftrightarrow> op_action p \<in> {Add, Execute, Cancel, Delete, Trade} \<and> op_side p \<noteq> Side_None \<and> length (op_stock p) = 8"

definition rows_typed :: "resting_map \<Rightarrow> bool" where
  "rows_typed m \<longleftrightarrow> (\<forall>r ro. m r = Some ro \<longrightarrow> ro_side ro \<noteq> Side_None \<and> length (ro_stock ro) = 8)"

section \<open>Off the parser\<close>

lemma parse_body_typed:
  assumes "parse_body type m h = Some x" and "h = Order_zero\<lparr>o_stock_locate := l, o_timestamp_ns := t\<rparr>"
    and "unat (expected_length type) = length m"
  shows "order_typed (x\<lparr>o_valid := 1\<rparr>)"
  using assms by (auto simp: parse_body_def expected_length_def order_typed_def Order_zero_def split: if_splits)

lemma parse_typed:
  assumes "parse (Some m) len cs out = (True, cs', x)" and "unat len = length m"
  shows "order_typed x"
proof -
  let ?h = "Order_zero\<lparr>o_stock_locate := be16 (drop 1 m), o_timestamp_ns := be48 (drop 5 m)\<rparr>"
  obtain y where y: "parse_body (m ! 0) m ?h = Some y" "x = y\<lparr>o_valid := 1\<rparr>" "len = ucast (expected_length (m ! 0))"
    using assms(1) by (auto simp: parse_def Let_def split: if_splits option.splits)
  moreover have "unat (expected_length (m ! 0)) = length m" using y(3) assms(2) by (simp add: unat_ucast_up)
  ultimately show ?thesis using parse_body_typed [OF y(1) refl] by simp
qed

lemma route_typed:
  assumes "route_message m (of_nat (length m)) r = (Parsed x, r')" and "message_ok m"
  shows "order_typed x"
proof -
  have len: "unat (ucast (of_nat (length m) :: u16) :: u32) = length m"
    using unat_length [OF assms(2)] by (simp add: unat_ucast_up)
  obtain q q' where q: "parse_message m (of_nat (length m)) q = (Parsed x, q')"
    using assms(1) by (auto simp: route_message_def Let_def split: option.splits prod.splits if_splits)
  obtain ok cs' y where "parse (Some m) (ucast (of_nat (length m) :: u16)) (rt_counts q) (rt_order q) = (ok, cs', y)"
    by (metis prod_cases3)
  moreover from this have "ok" "y = x" using q by (auto simp: parse_message_def split: if_splits)
  ultimately show ?thesis using parse_typed [OF _ len] by simp
qed

lemma route_all_typed: "list_all message_ok ms \<Longrightarrow> list_all order_typed (parsed_orders (fst (route_all ms r)))"
proof (induction ms arbitrary: r)
  case (Cons m ms)
  obtain out r' where o: "route_message m (of_nat (length m)) r = (out, r')" by fastforce
  have "list_all order_typed (case out of Parsed x \<Rightarrow> [x] | _ \<Rightarrow> [])"
    using route_typed [of m r] o Cons.prems by (cases out) auto
  then show ?case using Cons by (simp add: o parsed_orders_def split_def)
qed (simp add: parsed_orders_def)

lemma file_orders_typed: "list_all order_typed (file_orders f dir)"
  unfolding file_orders_def by (rule route_all_typed [OF unframe_ok])

lemma file_orders_stock: "list_all (\<lambda>x. length (o_stock x) = 8) (file_orders f dir)"
  using file_orders_typed [of f dir] by (simp add: list_all_iff order_typed_def)

section \<open>Out of the resolver\<close>

lemma abs_resolve_typed:
  assumes "rows_typed m" and "order_typed msg" and "abs_resolve room msg m = (ok, m', ops)"
  shows "rows_typed m' \<and> list_all op_typed ops"
proof -
  have upd: "rows_typed (m(r := x))" if "rows_typed m" "\<And>ro. x = Some ro \<Longrightarrow> ro_side ro \<noteq> Side_None \<and> length (ro_stock ro) = 8" for m r x
    using that by (auto simp: rows_typed_def)
  have old: "m (o_order_ref msg) = Some ro \<Longrightarrow> ro_side ro \<noteq> Side_None \<and> length (ro_stock ro) = 8" for ro
    using assms(1) by (simp add: rows_typed_def)
  show ?thesis using assms old
    by (cases "o_action msg")
       (auto simp: abs_resolve_def Let_def add_op_def resting_op_def order_to_resting_def replacement_def after_fill_def
          order_typed_def op_typed_def simp del: fun_upd_apply intro!: upd split: if_splits option.splits)
qed

lemma resolve_run_typed:
  "table_inv b \<Longrightarrow> rows_typed (table_map b) \<Longrightarrow> list_all order_typed msgs \<Longrightarrow> list_all op_typed (snd (resolve_run msgs b))"
proof (induction msgs arbitrary: b)
  case (Cons msg msgs)
  obtain ok b1 ops where r: "resolve msg b = (ok, b1, ops)" by (metis prod_cases3)
  obtain b2 rest where run: "resolve_run msgs b1 = (b2, rest)" by fastforce
  have t: "rows_typed (table_map b1)" "list_all op_typed ops"
    using abs_resolve_typed [OF Cons.prems(2) _ resolve_law(2) [OF Cons.prems(1) r]] Cons.prems(3) by simp_all
  have "list_all op_typed rest" using Cons.IH [OF resolve_law(1) [OF Cons.prems(1) r] t(1)] Cons.prems(3) by (simp add: run)
  then show ?case using t(2) by (simp add: r run)
qed simp

text \<open>
  C15. Whatever bytes a file holds and whatever the subscriptions, every order its replay delivers is
  valid, has one of the six actions, carries a side exactly for an add or a trade, and an eight-byte
  ticker; and every operation the resolver makes of them, from an empty table of any capacity, is an
  add, execution, cancel, delete or trade, never a replace or an unset action, with a side and an
  eight-byte ticker.
\<close>

theorem feed_is_well_typed:
  assumes "k \<le> 63"
  shows "list_all order_typed (file_orders f dir) \<and> list_all op_typed (snd (resolve_run (file_orders f dir) (BookState_new mem k)))"
proof -
  have "table_inv (BookState_new mem k)" "rows_typed (table_map (BookState_new mem k))"
    using table_inv_new [OF assms, of mem] by (simp_all add: rows_typed_def)
  then show ?thesis using resolve_run_typed file_orders_typed by blast
qed

definition typed_file :: bytes where
  "typed_file = frame (wire 7 0 5 (AddOrder 9 True 100 (map byte_of ''AAPL    '') 2100000)) @ frame (wire 7 0 6 (Replaced 9 10 50 2100100))"

lemma typed_file_ops:
  "map op_action (snd (resolve_run (file_orders typed_file None) (BookState_new (\<lambda>_. sample_order 0 0) 2))) = [Add, Delete, Add]"
  by code_simp

theorem feed_is_well_typed_witness:
  "list_all order_typed (file_orders typed_file None) \<and>
   list_all op_typed (snd (resolve_run (file_orders typed_file None) (BookState_new (\<lambda>_. sample_order 0 0) 2))) \<and>
   length (snd (resolve_run (file_orders typed_file None) (BookState_new (\<lambda>_. sample_order 0 0) 2))) = 3"
  using feed_is_well_typed [of 2 typed_file None "\<lambda>_. sample_order 0 0"] arg_cong [OF typed_file_ops, of length] by simp

end
