(* ===== verification/Spec2Isabelle.thy ===== *)
theory Spec2Isabelle
  imports Bench_Report Demo_Report Live_Main Ouch_Layout Paced_Server Validation_Report Well_Typed
begin

text \<open>
  \<^bold>\<open>tickpipe\<close>: a verification library for the market-data pipeline and exchange
  simulator under \<^verbatim>\<open>src/\<close>.

  \<^bold>\<open>The program.\<close> A day of NASDAQ ITCH messages is replayed from a mapped file
  (\<^verbatim>\<open>ItchReplay\<close>) or sent over UDP by a replay server (\<^verbatim>\<open>UdpServer\<close>) to a receiver
  (\<^verbatim>\<open>UdpReceiver\<close>) whose socket thread hands datagrams to its book thread through a lock-free
  ring (\<^verbatim>\<open>SpscRing\<close>). Each message passes a symbol directory and subscription filter
  (\<^verbatim>\<open>SymbolDirectory\<close>) and the parser (\<^verbatim>\<open>ItchParser\<close>) and reaches a callback. The
  callbacks resolve it against a hash table of resting orders (\<^verbatim>\<open>BookState\<close>) into
  self-contained operations and apply these to the book of a matching engine (\<^verbatim>\<open>SoftwareEngine\<close>);
  around that the day replay computes analytics (\<^verbatim>\<open>Microstructure\<close>), the live exchange screens
  new orders (\<^verbatim>\<open>RiskEngine\<close>) and logs the decisions (\<^verbatim>\<open>WriteAheadLog\<close>), and both
  interactive programs draw the book (\<^verbatim>\<open>Visualizer\<close>). A clocked model of a hardware matcher
  (\<^verbatim>\<open>FpgaPipeline\<close>) runs the engine's algorithm in five stages over a price ladder, and
  \<^verbatim>\<open>OuchSerializer\<close> writes outbound messages.

  \<^bold>\<open>Conventions.\<close> A C++ integer of \<open>w\<close> bits is a \<open>w word\<close>, so arithmetic wraps
  where the code's does; \<^verbatim>\<open>int64_t\<close> and \<^verbatim>\<open>__int128\<close> values are integers with the
  casts written out and range lemmas where overflow would matter. Structs and classes are records with
  the members as prefixed fields; references and out parameters are returned. Memory is a list
  of bytes, uninitialised memory an arbitrary function, and a copy that leaves its object has the result
  \<^const>\<open>None\<close>. \<^verbatim>\<open>std::map\<close> is the list of its entries in comparator order,
  \<^verbatim>\<open>std::deque\<close> a list. What the operating system decides is an argument: outcomes of sends and
  writes, readings of the clock, the interleaving of the threads, the bytes a torn write leaves.
  Loops whose recursion is not structural are functions with a termination proof; no
  definition uses fuel.

  \<^bold>\<open>Theories\<close>, in order of dependence, with the files they model:

  \<^item> \<open>Tick_Prelude\<close>: machine integers, memory, big-endian fields; the interfaces \<open>wire_field\<close> (a
    fixed-width field and its reader, interpreted for the big- and little-endian integers) and
    \<open>kept_invariant\<close> (operations that keep an invariant, interpreted for the order table, the
    engine, the pipeline and the risk engine); the fact collections \<open>tp_layout\<close>, \<open>tp_frame\<close>, \<open>tp_wire\<close>.
  \<^item> \<open>Itch_Parser\<close> (\<^verbatim>\<open>itch_parser\<close>): lengths of all 22 message types and the parser. Every
    book message decodes to its fields; no byte past the length is read; one counter moves per call.
  \<^item> \<open>Order_Table\<close>, \<open>Book_State\<close> (\<^verbatim>\<open>book_state\<close>): the open-addressing table, with find, insert and
    erase proved to be lookup, update and removal of a finite map, and the resolver proved to
    implement an abstract resolver over that map (interface \<open>ref_table\<close>); what happens when tombstones
    use up the table.
  \<^item> \<open>Software_Engine\<close> (\<^verbatim>\<open>software_engine\<close>): submit fills the oldest order at the best price and
    conserves shares; apply keeps the book equal to the resolver's table over any clean feed; best
    prices, depth and digest. Interface \<open>price_ladder\<close>, interpreted for both sides.
  \<^item> \<open>Fpga_Pipeline\<close> (\<^verbatim>\<open>pipeline\<close>): the five stages under one clock equal processing orders one at
    a time, and that equals the software engine while orders fit the ladder; the bitmaps are exact;
    what flush and off-grid prices do. Interface \<open>ladder_scan\<close>, interpreted for both priority encoders.
  \<^item> \<open>Bench_Workload\<close>, \<open>Batch_Stats\<close>, \<open>Bench_Report\<close> (\<^verbatim>\<open>bench/benchmark.cpp\<close> and the latency section of
    \<^verbatim>\<open>main.cpp\<close>): generated messages all parse, generated orders stay in the pipeline's window; the measured
    loops make the calls of plain loops and percentiles are samples of their ranks; the program returns.
  \<^item> \<open>Spsc_Ring\<close> (\<^verbatim>\<open>spsc_ring\<close>): byte ring at machine width, sequentially and as two threads whose
    turns are the atomic accesses and copies; records come out in order and untorn, a prefix of the pushed
    ones unless the reader gives one up, and no call waits. Interface \<open>record_queue\<close>. The acquire and release orders of the two cursors
    are taken as sequential consistency.
  \<^item> \<open>Risk_Engine\<close> (\<^verbatim>\<open>risk_engine\<close>), \<open>Ouch\<close>, \<open>Ouch_Layout\<close> (\<^verbatim>\<open>ouch\<close>), \<open>Wal\<close> (\<^verbatim>\<open>wal\<close>), \<open>Analytics\<close>
    (\<^verbatim>\<open>microstructure\<close>): decisions and limits of the checks; layouts of outbound messages, one
    buffer overrun, and how the declared structs differ from the messages; recovery of completed log
    entries; integer square root, microprice and trade metrics against exact specifications.
  \<^item> \<open>Volatility\<close> (\<^verbatim>\<open>microstructure\<close>): the error of the integer logarithm, of a return and of the
    realized volatility against real numbers.
  \<^item> \<open>Double_Arith\<close>, \<open>Float_Reference\<close>, \<open>Validation_Stream\<close>, \<open>Validation_Report\<close>
    (\<^verbatim>\<open>bench/validate_microstructure.cpp\<close>): double precision against real numbers; the reference
    analytics in double precision, exact wherever the results are whole or half numbers; the stream of
    the program with the accuracy of the fixed-point side; the report, and that both sides agree.
  \<^item> \<open>Symbol_Directory\<close>, \<open>Itch_Replay\<close>, \<open>Mapped_File\<close> (\<^verbatim>\<open>symbol_directory\<close>, \<^verbatim>\<open>itch_replay\<close>): subscription in
    any order, the replay loop, and the object that maps and releases the file.
  \<^item> \<open>Udp_Server\<close>, \<open>Paced_Server\<close> (\<^verbatim>\<open>udp_server\<close>, \<^verbatim>\<open>replay_server_main.cpp\<close>): batching and sequencing,
    what a failed send hides, the pacing in double precision, and the program around it.
  \<^item> \<open>Udp_Receiver\<close>, \<open>Receive_Loop\<close> (\<^verbatim>\<open>udp_receiver\<close>): gap accounting per datagram; both threads under
    every schedule, their shutdown, the idle timer and the time accounting; the UDP path against the
    direct replay (lemma \<open>loop_ctx\<close>).
  \<^item> \<open>Live_Exchange\<close>, \<open>Live_Display\<close>, \<open>Live_Main\<close> (\<^verbatim>\<open>live_exchange_main.cpp\<close>): the handler, its redraw
    timer, and the program from the log to the exit code with its report.
  \<^item> \<open>Day_Replay\<close>, \<open>Day_Report\<close>, \<open>Paced_Replay\<close>, \<open>Demo_Runs\<close>, \<open>Thread_Pinning\<close>, \<open>Demo_Report\<close>
    (\<^verbatim>\<open>main.cpp\<close>, \<^verbatim>\<open>numa\<close>): the callbacks and sections that put the components together, the printed
    report of a day, the pinning of threads, and the program with the texts of all its sections, which
    runs to its end and leaves the process as it found it.
  \<^item> \<open>Printf_Format\<close>, \<open>Visualizer\<close> (\<^verbatim>\<open>visualizer\<close>): decimal text, division in double precision and
    its rounding, integers over powers of ten that print exactly, and the frame buffer; a frame is
    never cut short and prices are nearest cents.
  \<^item> \<open>Well_Typed\<close>: every order a file delivers and every operation made of it is well typed.
  \<^item> This theory: the property that spans the system, from a file through the replay server, the
    datagrams and the receive loop to the book and the log of the exchange.

  \<^bold>\<open>Bounds.\<close> A table of capacity \<open>2 ^ k\<close> is considered for \<open>k \<le> 63\<close> and a ring for
  \<open>k < 64\<close>, which is every power of two a 64-bit size can hold. Analytics are exact for sessions of
  fewer than \<open>2 ^ 30\<close> events, about a thousand times a busy day of one symbol; the error of the realized
  volatility is bounded while no move of the mid exceeds a tenth of a percent. A paced server is
  considered for \<open>2 ^ 51\<close> nanoseconds, 26 days, and, to return, for speeds from 1 to 1024. Printed
  figures are exact below \<open>2 ^ 52\<close>. A symbol name of up to 4096 characters is displayed safely; real
  ones have eight.

  \<^bold>\<open>Not modelled.\<close> The system itself: what \<^verbatim>\<open>open\<close>, \<^verbatim>\<open>mmap\<close>, \<^verbatim>\<open>socket\<close>, \<^verbatim>\<open>bind\<close>, \<^verbatim>\<open>recv\<close>, \<^verbatim>\<open>sendto\<close>, the
  clocks and the scheduler answer are arguments. The Windows branches of the conditional code. Command
  lines, the constant banners and progress lines of the two network programs, and the removal of the
  demonstration's log file, which are effects without a decision.
  The logarithm and the square root of the C library, which only \<^verbatim>\<open>bench/validate_microstructure.cpp\<close>
  uses, are arguments. Signed zeros, infinities and subnormal numbers of \<^verbatim>\<open>double\<close>, which no
  computation here reaches; a quotient by zero is the value \<^const>\<open>None\<close>.
\<close>

section \<open>From the file to the exchange\<close>

text \<open>
  C6. The whole system, two programs. \<^verbatim>\<open>replay_server\<close>, run on a file of messages of at most 1024
  bytes at whatever speed it survives, returns 0 with every send successful, and its datagrams reach
  the live exchange, started on an empty log with writes that complete, in order;
  then a \<^verbatim>\<open>recv\<close> times out. Whatever the schedule of the two threads, the sizes of book and ring and
  the clock readings, once the book thread has had a turn per datagram and six more the program has
  returned 0. When the ring dropped nothing, the exchange has seen exactly the orders the file
  delivers for the directory: the order table is that of the resolver alone, the engine holds exactly
  the operations whose additions the risk engine accepted, the log read back as one entry per
  addition with its verdict, and the readings of the clock that made the display draw are 100 milliseconds apart.
\<close>

theorem exchange_over_udp:
  assumes "\<And>i. snd (env i) = (True, True)" and "list_all (\<lambda>m. length m \<le> MAX_MSG_SIZE) (unframe f)"
    and "1 + length (unframe f) < 2 ^ 64" and "replay_server_main sfd speed env True (Some f) fds = Some (0, server, fds')"
    and "rg_ring_pow2 cfg < 64" and "kb \<le> 63" and "lv_fd v \<noteq> INVALID" and "lv_bound v"
    and "lv_old_log v = []" and "\<And>n. snd (lv_io v n) \<ge> WAL_ENTRY_SIZE"
    and "lv_schedule v = before @ Recv Recv_failed # between @ Stop # rest" and "taken False before = us_wire server"
    and "us_wire server \<noteq> []" and "turns rest \<ge> length (us_wire server) + 6"
  shows "\<exists>x rx dir. live_main kb cfg v = Some (Session_over x rx dir None) \<and>
     (ur_ring_dropped rx = 0 \<longrightarrow>
       (case resolve_run (file_orders f (rg_directory cfg)) (BookState_new (lv_book_mem v) kb) of (book, ops) \<Rightarrow>
        case screen ops live_risk of (marks, risk) \<Rightarrow>
          ex_book (lx_state x) = book \<and>
          ex_engine (lx_state x) = fold apply_op (map fst (filter snd marks)) SoftwareEngine_new \<and>
          log_of (ex_wal (lx_state x)) = decisions marks \<and> ex_rejected (lx_state x) = rejections marks \<and>
          sorted_wrt (\<lambda>a b. fst a + 100000000 \<le> fst b) (dp_frames (lx_display x))))"
proof -
  define callback where "callback = live_callback (lv_wall v) (lv_frame_mem v) (lv_io v)"
  define s0 where "s0 = live_start (lv_book_mem v) kb []"
  define rx0 where "rx0 = UdpReceiver_new\<lparr>ur_sock := lv_fd v\<rparr>"
  define l0 where "l0 = loop_start (lv_ring_mem v) cfg (lv_now v) rx0 (Some (LiveCtx_new (lv_wall v) s0))"
  have sched: "taken False (lv_schedule v) = us_wire server" unfolding assms(11) using assms(12,13) by (simp add: taken_idle)
  have fresh: "tracked 0 0 0 rx0" by (simp add: rx0_def tracked_def UdpReceiver_new_def)
  obtain z pauses sent where sent: "server_rep z [] []" "replay_file (\<lambda>j. (pauses j, snd (env j))) True (Some f) z = Some sent"
    "us_wire server = us_wire sent" using replay_server_wire [OF assms(4)] by blast
  obtain l where l: "loop_run callback cfg (lv_schedule v) l0 = Some l" "lp_book l = Book_ended"
    using receive_loop_ends [OF assms(5), of before rest callback between "lv_ring_mem v" "lv_now v" rx0 "Some (LiveCtx_new (lv_wall v) s0)"]
      assms(11-14) by (auto simp: l0_def)
  obtain orders where ctx: "rc_ctx (lp_rcv l) = fold callback orders (Some (LiveCtx_new (lv_wall v) s0))"
    using loop_ctx [OF assms(5) l(1) [unfolded l0_def]] by blast
  obtain x where x: "fold callback orders (Some (LiveCtx_new (lv_wall v) s0)) = Some x" "lx_state x = fold (on_order (lv_io v)) orders s0"
    "display_ok 100000000 (shows_session (lv_io v) s0 orders) (lx_display x)"
    unfolding callback_def using live_handler_run by blast
  have main: "live_main kb cfg v = Some (Session_over (close_log x) (rc_rx (lp_rcv l)) (rt_directory (rc_router (lp_rcv l))) None)"
    using assms(7,8,9) l ctx x(1)
    by (simp add: live_main_def receiver_init_def Let_def callback_def [symmetric] s0_def [symmetric] rx0_def [symmetric] l0_def [symmetric])
  define msgs where "msgs = file_orders f (rg_directory cfg)"
  obtain book ops where run: "resolve_run msgs (BookState_new (lv_book_mem v) kb) = (book, ops)" by fastforce
  obtain marks risk where sc: "screen ops live_risk = (marks, risk)" by fastforce
  have kept: "ex_book (lx_state (close_log x)) = ex_book (lx_state x)" "ex_engine (lx_state (close_log x)) = ex_engine (lx_state x)"
    "log_of (ex_wal (lx_state (close_log x))) = log_of (ex_wal (lx_state x))" "lx_display (close_log x) = lx_display x"
    "ex_rejected (lx_state (close_log x)) = ex_rejected (lx_state x)"
    by (simp_all add: close_log_def log_of_def)
  have "ex_book (lx_state x) = book \<and> ex_engine (lx_state x) = fold apply_op (map fst (filter snd marks)) SoftwareEngine_new \<and>
      log_of (ex_wal (lx_state x)) = decisions marks \<and> ex_rejected (lx_state x) = rejections marks"
    if "ur_ring_dropped (rc_rx (lp_rcv l)) = 0"
  proof -
    have "rc_ctx (lp_rcv l) = snd (snd (replay_all (Some f) callback (Some (LiveCtx_new (lv_wall v) s0)) (rg_directory cfg) 0))"
      using udp_path_law [OF _ assms(2,3) sent(2,1) assms(5) fresh sched [unfolded sent(3)], of callback "lv_ring_mem v" "lv_now v" "Some (LiveCtx_new (lv_wall v) s0)"] l that
      by (simp add: l0_def [symmetric] assms(1)) (metis snd_conv)
    then have "fold callback orders (Some (LiveCtx_new (lv_wall v) s0)) = fold callback msgs (Some (LiveCtx_new (lv_wall v) s0))"
      using ctx by (simp add: replay_ctx msgs_def)
    moreover obtain y where "fold callback msgs (Some (LiveCtx_new (lv_wall v) s0)) = Some y" "lx_state y = fold (on_order (lv_io v)) msgs s0"
      unfolding callback_def using live_handler_run by blast
    ultimately have "lx_state x = fold (on_order (lv_io v)) msgs s0" using x(1) by simp
    then show ?thesis
      using live_session_law [where io = "lv_io v", OF assms(6) file_orders_stock [of f "rg_directory cfg"] assms(10), of "lv_book_mem v"]
      unfolding msgs_def [symmetric] run s0_def [symmetric] by (simp add: sc Let_def)
  qed
  moreover have "sorted_wrt (\<lambda>a b. fst a + 100000000 \<le> fst b) (dp_frames (lx_display x))" using x(3) by (simp add: display_ok_def)
  ultimately show ?thesis
    using main unfolding msgs_def [symmetric] run
    by (intro exI [of _ "close_log x"] exI [of _ "rc_rx (lp_rcv l)"] exI [of _ "rt_directory (rc_router (lp_rcv l))"]) (auto simp: sc kept)
qed

text \<open>One addition, sent, received and applied; the clock never reaches the first frame.\<close>

definition add_msg :: bytes where
  "add_msg = wire 7 0 5 (AddOrder 9 True 100 (map byte_of ''AAPL    '') 2100000)"

definition add_env :: LiveEnv where
  "add_env = \<lparr>lv_book_mem = (\<lambda>_. sample_order 0 0), lv_ring_mem = (\<lambda>_. 0), lv_frame_mem = (\<lambda>_. 0), lv_wall = (\<lambda>n. if n = 0 then 1 else 0),
     lv_io = (\<lambda>n. (n, 192)), lv_old_log = [], lv_fd = 3, lv_bound = True, lv_now = 0,
     lv_schedule = [Recv (Arrived (datagram 1 [add_msg]))] @ Recv Recv_failed # [Turn 0] @ Stop # replicate 7 (Turn 0)\<rparr>"

definition add_config :: ReceiverConfig where
  "add_config = ReceiverConfig_new\<lparr>rg_ring_pow2 := 7\<rparr>"

lemma add_server:
  "map_option (\<lambda>(code, server, fds). (code, us_wire server)) (replay_server_main 4 (0, 0) (\<lambda>i. (0, True, True)) True (Some (frame add_msg)) {}) =
     Some (0, [datagram 1 [add_msg]])"
  by code_simp

lemma add_taken: "taken False [Recv (Arrived (datagram 1 [add_msg]))] = [datagram 1 [add_msg]]"
  by code_simp

lemma add_session:
  "(case live_main 2 add_config add_env of Some (Session_over x rx dir left) \<Rightarrow> ur_ring_dropped rx = 0 | _ \<Rightarrow> False)"
  by code_simp

lemma add_outcome:
  "(let (book, ops) = resolve_run (file_orders (frame add_msg) None) (sample_table 2); marks = fst (screen ops live_risk)
    in decisions marks = [(OrderSubmitted, Order_zero\<lparr>o_order_ref := 9, o_price := 2100000, o_quantity := 100, o_side := Buy,
         o_timestamp_ns := 5, o_valid := 1, o_stock := map byte_of ''AAPL    ''\<rparr>)] \<and>
       se_bids (fold apply_op (map fst (filter snd marks)) SoftwareEngine_new) = [(2100000, [(9, 100)])])"
  by code_simp

theorem exchange_over_udp_witness:
  "\<exists>x rx dir. live_main 2 add_config add_env = Some (Session_over x rx dir None) \<and>
     se_bids (ex_engine (lx_state x)) = [(2100000, [(9, 100)])] \<and> map fst (log_of (ex_wal (lx_state x))) = [OrderSubmitted]"
proof -
  obtain server fds where server: "replay_server_main 4 (0, 0) (\<lambda>i. (0, True, True)) True (Some (frame add_msg)) {} = Some (0, server, fds)"
    "us_wire server = [datagram 1 [add_msg]]" using add_server by auto
  have "unframe (frame add_msg) = [add_msg]" by code_simp
  then have small: "list_all (\<lambda>m. length m \<le> MAX_MSG_SIZE) (unframe (frame add_msg))" "1 + length (unframe (frame add_msg)) < 2 ^ 64"
    by (simp_all add: MAX_MSG_SIZE_def add_msg_def wire_def)
  have cfg: "rg_ring_pow2 add_config < 64" "rg_directory add_config = None" by (simp_all add: add_config_def ReceiverConfig_new_def)
  have env: "lv_fd add_env \<noteq> INVALID" "lv_bound add_env" "lv_old_log add_env = []" "\<And>n. snd (lv_io add_env n) \<ge> WAL_ENTRY_SIZE"
    "lv_schedule add_env = [Recv (Arrived (datagram 1 [add_msg]))] @ Recv Recv_failed # [Turn 0] @ Stop # replicate 7 (Turn 0)"
    "lv_book_mem add_env = (\<lambda>_. sample_order 0 0)"
    by (simp_all add: add_env_def INVALID_def WAL_ENTRY_SIZE_def)
  have came: "taken False [Recv (Arrived (datagram 1 [add_msg]))] = us_wire server" "us_wire server \<noteq> []"
    "turns (replicate 7 (Turn 0)) \<ge> length (us_wire server) + 6" using add_taken server(2) by simp_all
  note main = exchange_over_udp [where v = add_env and kb = 2 and env = "\<lambda>i. (0, True, True)", OF _ small server(1) cfg(1) _ env(1-5) came]
  obtain x rx dir where over: "live_main 2 add_config add_env = Some (Session_over x rx dir None)"
    "ur_ring_dropped rx = 0 \<longrightarrow> (case resolve_run (file_orders (frame add_msg) None) (sample_table 2) of (book, ops) \<Rightarrow>
        case screen ops live_risk of (marks, risk) \<Rightarrow>
          ex_engine (lx_state x) = fold apply_op (map fst (filter snd marks)) SoftwareEngine_new \<and>
          log_of (ex_wal (lx_state x)) = decisions marks)"
    using main by (auto simp: cfg(2) env(6) sample_table_def split_def)
  moreover have "ur_ring_dropped rx = 0" using add_session over(1) by simp
  ultimately show ?thesis using add_outcome by (intro exI [of _ x] exI [of _ rx] exI [of _ dir]) (auto simp: Let_def split_def)
qed

end
